(* ===== verification/Kernel_Prelude.thy ===== *)
theory Kernel_Prelude
  imports Main "HOL-Library.Word"
begin

text \<open>
  Shared material of the HobOS development: the machine types of
  include/hobos/types.h, results that may fault, singly linked lists in a store
  (the shape of every list of the kernel: page blocks, slab objects, tasks, page
  table descriptors), the loops that walk them, arithmetic of single bit flips on
  addresses, and the generic locale of a transition system with an invariant.
\<close>

unbundle bit_operations_syntax

named_theorems result_simps \<open>rewriting of results and of their sequencing\<close>
named_theorems chain_simps \<open>facts on linked lists in a store\<close>
named_theorems chain_upd \<open>linked lists under updates of the store\<close>

section \<open>Machine types\<close>

type_synonym u8 = "8 word"
type_synonym u16 = "16 word"
type_synonym u32 = "32 word"
type_synonym u64 = "64 word"

text \<open>KB and PAGE\_SIZE of pt\_lib.h and mmu.h, KERNEL\_START of mmu.h.\<close>

abbreviation PAGE_SIZE :: nat where
  "PAGE_SIZE \<equiv> 4096"

abbreviation KERNEL_START :: u64 where
  "KERNEL_START \<equiv> 0xFFFFFF8000000000"

section \<open>Results\<close>

text \<open>
  A C function either returns or leaves defined behaviour. The ways it can leave it
  are values: reading or writing through a null pointer, indexing an array out of its
  bounds, and a loop that never ends. A result is one of these faults or the returned
  value (paired with the new state where the function has effects).
\<close>

datatype fault = NullDeref | OutOfBounds | Diverges

type_synonym 'a result = "fault + 'a"

fun bindR :: "'a result \<Rightarrow> ('a \<Rightarrow> 'b result) \<Rightarrow> 'b result" where
  "bindR (Inl e) f = Inl e"
| "bindR (Inr x) f = f x"

lemma bindR_Inr_iff [result_simps]:
  "bindR m f = Inr y \<longleftrightarrow> (\<exists>x. m = Inr x \<and> f x = Inr y)"
  by (cases m) auto

lemma bindR_Inl_iff [result_simps]:
  "bindR m f = Inl e \<longleftrightarrow> m = Inl e \<or> (\<exists>x. m = Inr x \<and> f x = Inl e)"
  by (cases m) auto

lemma bindR_assoc: "bindR (bindR m f) g = bindR m (\<lambda>x. bindR (f x) g)"
  by (cases m) auto

lemma bindR_cong [fundef_cong]:
  "m = m' \<Longrightarrow> (\<And>x. m' = Inr x \<Longrightarrow> f x = f' x) \<Longrightarrow> bindR m f = bindR m' f'"
  by (cases m') auto

text \<open>The result of a loop that is written as a partial function: no value, no end.\<close>

definition loopR :: "'a option \<Rightarrow> 'a result" where
  "loopR r = (case r of None \<Rightarrow> Inl Diverges | Some x \<Rightarrow> Inr x)"

lemma loopR_simps [simp]: "loopR None = Inl Diverges" "loopR (Some x) = Inr x"
  by (simp_all add: loopR_def)

lemma loopR_Inr_iff [result_simps]: "loopR r = Inr x \<longleftrightarrow> r = Some x"
  by (cases r) auto

lemma loopR_Inl_iff [result_simps]: "loopR r = Inl e \<longleftrightarrow> r = None \<and> e = Diverges"
  by (cases r) auto

text \<open>Reading through a pointer: a null pointer is \<open>None\<close>.\<close>

definition derefR :: "'p option \<Rightarrow> 'p result" where
  "derefR p = (case p of None \<Rightarrow> Inl NullDeref | Some x \<Rightarrow> Inr x)"

lemma derefR_simps [simp]: "derefR None = Inl NullDeref" "derefR (Some x) = Inr x"
  by (simp_all add: derefR_def)

lemma derefR_Inr_iff [result_simps]: "derefR p = Inr x \<longleftrightarrow> p = Some x"
  by (cases p) auto

lemma derefR_Inl_iff [result_simps]: "derefR p = Inl e \<longleftrightarrow> p = None \<and> e = NullDeref"
  by (cases p) auto

lemma case_sum_if_distrib [result_simps]:
  "(if b then Inl x else Inr y) = Inr z \<longleftrightarrow> \<not> b \<and> y = z"
  "(if b then Inr y else Inl x) = Inr z \<longleftrightarrow> b \<and> y = z"
  by auto

section \<open>Linked lists in a store\<close>

text \<open>
  \<open>nxt\<close> is the content of the next fields, \<open>chain nxt p xs\<close> says that the list that
  starts at \<open>p\<close> visits exactly the nodes \<open>xs\<close> and then ends with a null pointer.
\<close>

primrec chain :: "('a \<Rightarrow> 'a option) \<Rightarrow> 'a option \<Rightarrow> 'a list \<Rightarrow> bool" where
  "chain nxt p [] \<longleftrightarrow> p = None"
| "chain nxt p (x # xs) \<longleftrightarrow> p = Some x \<and> chain nxt (nxt x) xs"

lemma chain_None [simp]: "chain nxt None xs \<longleftrightarrow> xs = []"
  by (cases xs) auto

lemma chain_Some [chain_simps]:
  "chain nxt (Some x) xs \<longleftrightarrow> (\<exists>ys. xs = x # ys \<and> chain nxt (nxt x) ys)"
  by (cases xs) auto

lemma chain_fun: "chain nxt p xs \<Longrightarrow> chain nxt p ys \<Longrightarrow> xs = ys"
  by (induction xs arbitrary: p ys) (auto simp: chain_simps)

lemma chain_append_iff:
  "chain nxt p (xs @ y # ys) \<Longrightarrow> chain nxt (Some y) (y # ys)"
  by (induction xs arbitrary: p) auto

lemma chain_notin_tail: "chain nxt (nxt x) xs \<Longrightarrow> x \<notin> set xs"
proof
  assume c: "chain nxt (nxt x) xs" and "x \<in> set xs"
  then obtain ys zs where xs: "xs = ys @ x # zs" by (auto simp: in_set_conv_decomp)
  then have "chain nxt (nxt x) zs" using c chain_append_iff by fastforce
  with c xs show False using chain_fun by fastforce
qed

lemma chain_distinct: "chain nxt p xs \<Longrightarrow> distinct xs"
  by (induction xs arbitrary: p) (auto simp: chain_notin_tail)

lemma chain_cong:
  "(\<And>x. x \<in> set xs \<Longrightarrow> nxt x = nxt' x) \<Longrightarrow> chain nxt p xs \<longleftrightarrow> chain nxt' p xs"
  by (induction xs arbitrary: p) auto

lemma chain_upd_other [chain_upd]:
  "a \<notin> set xs \<Longrightarrow> chain (nxt(a := q)) p xs \<longleftrightarrow> chain nxt p xs"
  by (rule chain_cong) auto

lemma chain_snoc [chain_upd]:
  "chain nxt p (xs @ [x]) \<Longrightarrow> y \<notin> set (xs @ [x]) \<Longrightarrow> nxt y = None \<Longrightarrow>
     chain (nxt(x := Some y)) p (xs @ [x, y])"
proof -
  assume c: "chain nxt p (xs @ [x])" and y: "y \<notin> set (xs @ [x])" "nxt y = None"
  then have "distinct (xs @ [x])" by (blast dest: chain_distinct)
  with c y show ?thesis by (induction xs arbitrary: p) auto
qed

lemma chain_cut [chain_upd]:
  "chain nxt p (xs @ x # ys) \<Longrightarrow> chain (nxt(x := None)) p (xs @ [x])"
proof -
  assume c: "chain nxt p (xs @ x # ys)"
  then have "distinct (xs @ x # ys)" by (rule chain_distinct)
  with c show ?thesis by (induction xs arbitrary: p) (auto split: if_splits)
qed

lemma chain_unlink [chain_upd]:
  "chain nxt p (xs @ x # y # ys) \<Longrightarrow> chain (nxt(x := nxt y)) p (xs @ x # ys)"
proof -
  assume c: "chain nxt p (xs @ x # y # ys)"
  then have "distinct (xs @ x # y # ys)" by (rule chain_distinct)
  with c show ?thesis
    by (induction xs arbitrary: p) (auto simp: chain_upd_other split: if_splits)
qed

lemma chain_next_in:
  "chain nxt p xs \<Longrightarrow> x \<in> set xs \<Longrightarrow> nxt x = Some y \<Longrightarrow> \<exists>us vs. xs = us @ x # y # vs"
proof (induction xs arbitrary: p)
  case (Cons a xs)
  show ?case
  proof (cases "x = a")
    case True
    with Cons.prems obtain ys where "xs = y # ys" by (auto simp: chain_simps)
    with True show ?thesis by blast
  next
    case False
    with Cons obtain us vs where "xs = us @ x # y # vs" by fastforce
    then have "a # xs = (a # us) @ x # y # vs" by simp
    then show ?thesis by blast
  qed
qed simp

lemma chain_last_next: "chain nxt p (xs @ [x]) \<Longrightarrow> nxt x = None"
  by (induction xs arbitrary: p) auto

lemma chain_mid_next: "chain nxt p (xs @ x # y # ys) \<Longrightarrow> nxt x = Some y"
  by (induction xs arbitrary: p) auto

section \<open>Loops over linked lists\<close>

text \<open>
  \<^verbatim>\<open>while (x->next) x = x->next;\<close> and
  \<^verbatim>\<open>while (p) { if (P(p)) return p; p = p->next; } return 0;\<close>.
  Both are partial functions: no value means that the loop never ends.
\<close>

partial_function (option) last_of :: "('a \<Rightarrow> 'a option) \<Rightarrow> 'a \<Rightarrow> 'a option" where
  "last_of nxt x = (case nxt x of None \<Rightarrow> Some x | Some y \<Rightarrow> last_of nxt y)"

partial_function (option) find_ptr ::
  "('a \<Rightarrow> 'a option) \<Rightarrow> ('a \<Rightarrow> bool) \<Rightarrow> 'a option \<Rightarrow> 'a option option" where
  "find_ptr nxt P p =
     (case p of None \<Rightarrow> Some None
      | Some x \<Rightarrow> if P x then Some (Some x) else find_ptr nxt P (nxt x))"

declare last_of.simps [code] find_ptr.simps [code]

text \<open>Stores are evaluated at the address that is read, not as functions.\<close>

declare fun_upd_apply [code]

lemma find_ptr_None [simp]: "find_ptr nxt P None = Some None"
  by (subst find_ptr.simps) simp

lemma find_ptr_Some [simp]:
  "find_ptr nxt P (Some x) = (if P x then Some (Some x) else find_ptr nxt P (nxt x))"
  by (subst find_ptr.simps) simp

lemma last_of_None: "nxt x = None \<Longrightarrow> last_of nxt x = Some x"
  by (subst last_of.simps) simp

lemma last_of_Some: "nxt x = Some y \<Longrightarrow> last_of nxt x = last_of nxt y"
  by (subst last_of.simps) simp

lemma last_of_chain [chain_simps]:
  "chain nxt (Some x) xs \<Longrightarrow> last_of nxt x = Some (last xs)"
proof (induction xs arbitrary: x)
  case (Cons a xs)
  then show ?case
    by (cases xs) (auto simp: last_of_None last_of_Some)
qed simp

lemma find_ptr_chain [chain_simps]:
  "chain nxt p xs \<Longrightarrow> find_ptr nxt P p = Some (List.find P xs)"
  by (induction xs arbitrary: p) auto

lemma find_unique: "x \<in> set xs \<Longrightarrow> P x \<Longrightarrow> (\<And>y. P y \<Longrightarrow> y = x) \<Longrightarrow> List.find P xs = Some x"
proof (induction xs)
  case (Cons a xs)
  show ?case
  proof (cases "P a")
    case True
    with Cons.prems(3) [of a] show ?thesis by simp
  next
    case False
    with Cons.prems(1,2) have "x \<in> set xs" by auto
    with False Cons.IH [OF _ Cons.prems(2,3)] show ?thesis by simp
  qed
next
  case Nil
  from Nil.prems(1) show ?case by simp
qed

text \<open>The loop ends only on a list that ends: it runs for ever on a cycle.\<close>

lemma last_of_induct [consumes 1, case_names step]:
  assumes "last_of nxt x = Some y"
    and "\<And>f nxt x y. (\<And>nxt x y. f nxt x = Some y \<Longrightarrow> P nxt x y) \<Longrightarrow>
           (case nxt x of None \<Rightarrow> Some x | Some y \<Rightarrow> f nxt y) = Some y \<Longrightarrow> P nxt x y"
  shows "P nxt x y"
proof -
  have "(case (nxt, x) of (nxt, x) \<Rightarrow> P nxt x) y"
  proof (rule last_of.raw_induct [of P])
    show "(case (nxt, x) of (nxt, x) \<Rightarrow> last_of nxt x) = Some y"
      by (simp add: assms(1))
  qed (rule assms(2))
  then show ?thesis by simp
qed

lemma last_of_Some_chain: "last_of nxt x = Some y \<Longrightarrow> \<exists>xs. chain nxt (Some x) (xs @ [y])"
proof (induction rule: last_of_induct)
  case (step f nxt x y)
  show ?case
  proof (cases "nxt x")
    case None
    with step(2) show ?thesis by (intro exI [of _ "[]"]) auto
  next
    case (Some z)
    with step obtain xs where "chain nxt (Some z) (xs @ [y])" by fastforce
    with Some show ?thesis by (intro exI [of _ "x # xs"]) auto
  qed
qed

lemma last_of_cycle: "nxt x = Some x \<Longrightarrow> last_of nxt x = None"
proof (rule ccontr)
  assume s: "nxt x = Some x" and "last_of nxt x \<noteq> None"
  then obtain zs where z: "chain nxt (Some x) zs"
    using last_of_Some_chain by fast
  then obtain ws where ws: "zs = x # ws" "chain nxt (nxt x) ws"
    unfolding chain_Some by blast
  have "chain nxt (Some x) ws" using ws(2) unfolding s .
  with z have "zs = ws" by (rule chain_fun)
  with ws(1) show False by simp
qed

text \<open>Following a given number of next fields; a null pointer on the way is a fault.\<close>

fun nth_ptr :: "('a \<Rightarrow> 'a option) \<Rightarrow> nat \<Rightarrow> 'a option \<Rightarrow> 'a option result" where
  "nth_ptr nxt 0 p = Inr p"
| "nth_ptr nxt (Suc i) None = Inl NullDeref"
| "nth_ptr nxt (Suc i) (Some x) = nth_ptr nxt i (nxt x)"

lemma nth_ptr_chain [chain_simps]:
  "chain nxt p xs \<Longrightarrow> i < length xs \<Longrightarrow> nth_ptr nxt i p = Inr (Some (xs ! i))"
proof (induction xs arbitrary: i p)
  case (Cons a xs)
  then show ?case by (cases i) auto
qed simp

lemma nth_ptr_chain_end:
  "chain nxt p xs \<Longrightarrow> nth_ptr nxt (length xs) p = Inr None"
  by (induction xs arbitrary: p) auto

lemma nth_ptr_chain_beyond:
  "chain nxt p xs \<Longrightarrow> length xs < i \<Longrightarrow> nth_ptr nxt i p = Inl NullDeref"
proof (induction xs arbitrary: i p)
  case Nil
  then show ?case by (cases i) auto
next
  case (Cons a xs)
  then show ?case by (cases i) auto
qed

lemma nth_ptr_not_diverges: "nth_ptr nxt i p \<noteq> Inl Diverges" "nth_ptr nxt i p \<noteq> Inl OutOfBounds"
  by (induction nxt i p rule: nth_ptr.induct) auto

section \<open>Transition systems with an invariant\<close>

text \<open>
  The interface shared by the components whose operations may come in any order: an
  invariant of the initial states that every step keeps holds in all reachable states.
\<close>

inductive reach :: "('s \<Rightarrow> bool) \<Rightarrow> ('s \<Rightarrow> 's \<Rightarrow> bool) \<Rightarrow> 's \<Rightarrow> bool"
  for init :: "'s \<Rightarrow> bool" and step :: "'s \<Rightarrow> 's \<Rightarrow> bool" where
  reach_init: "init s \<Longrightarrow> reach init step s"
| reach_step: "reach init step s \<Longrightarrow> step s t \<Longrightarrow> reach init step t"

locale invariant_system =
  fixes init :: "'s \<Rightarrow> bool"
    and step :: "'s \<Rightarrow> 's \<Rightarrow> bool"
    and inv :: "'s \<Rightarrow> bool"
  assumes inv_init: "init s \<Longrightarrow> inv s"
    and inv_step: "inv s \<Longrightarrow> step s t \<Longrightarrow> inv t"
begin

lemma reach_inv: "reach init step s \<Longrightarrow> inv s"
  by (induction rule: reach.induct) (auto intro: inv_init inv_step)

lemma reach_steps_inv: "inv s \<Longrightarrow> step\<^sup>*\<^sup>* s t \<Longrightarrow> inv t"
  by (rotate_tac, induction rule: rtranclp_induct) (auto intro: inv_step)

end

end
