(* ===== verification/Page_Alloc.thy ===== *)
theory Page_Alloc
  imports Kernel_Prelude
begin

text \<open>
  The physical page allocator, page_alloc.c and page_alloc.h: a buddy allocator whose
  free and used blocks are kept in one linked list per order. Blocks are records in a
  metadata area that only grows: a pointer to a block is its index in that area
  (\<open>Some 0\<close> is the record right after the list header), the null pointer is \<open>None\<close>.
  This theory holds the data and the operations; the lemmas are in the theories
  Page\_Blocks to Page\_Alloc\_Faults.
\<close>

section \<open>Data\<close>

abbreviation MAX_PAGE_ORDER :: nat where
  "MAX_PAGE_ORDER \<equiv> 11"

abbreviation PAGE_BLOCK :: "nat \<Rightarrow> nat" where
  "PAGE_BLOCK order \<equiv> 2 ^ order"

abbreviation MAX_PAGE_BLOCK :: nat where
  "MAX_PAGE_BLOCK \<equiv> PAGE_BLOCK MAX_PAGE_ORDER"

abbreviation BLOCK_USED :: u32 where
  "BLOCK_USED \<equiv> 0xDEDE"

type_synonym pb_ptr = "nat option"

record page_block =
  pb_page :: u64
  pb_order :: nat
  pb_flags :: u32
  pb_next :: pb_ptr

record free_list =
  fl_first :: pb_ptr
  fl_count :: nat

text \<open>
  \<open>fl_blk\<close> is the content of the metadata area. It is static memory, so a record that
  was never written holds zeroes.
\<close>

record fl_meta =
  fl_list :: "nat \<Rightarrow> free_list"
  fl_last :: pb_ptr
  fl_blk :: "nat \<Rightarrow> page_block"

definition zero_block :: page_block where
  "zero_block = \<lparr>pb_page = 0, pb_order = 0, pb_flags = 0, pb_next = None\<rparr>"

definition fl_meta_zero :: fl_meta where
  "fl_meta_zero = \<lparr>fl_list = (\<lambda>_. \<lparr>fl_first = None, fl_count = 0\<rparr>), fl_last = None,
     fl_blk = (\<lambda>_. zero_block)\<rparr>"

text \<open>The next fields as a function, for the list loops of the prelude.\<close>

definition nexts :: "fl_meta \<Rightarrow> nat \<Rightarrow> nat option" where
  "nexts s k = pb_next (fl_blk s k)"

section \<open>Accessors\<close>

definition get_block_free_list :: "nat \<Rightarrow> fl_meta \<Rightarrow> free_list result" where
  "get_block_free_list order s =
     (if order \<le> MAX_PAGE_ORDER then Inr (fl_list s order) else Inl OutOfBounds)"

definition set_free_list :: "nat \<Rightarrow> free_list \<Rightarrow> fl_meta \<Rightarrow> fl_meta" where
  "set_free_list order l s = s\<lparr>fl_list := (fl_list s)(order := l)\<rparr>"

definition set_block :: "nat \<Rightarrow> page_block \<Rightarrow> fl_meta \<Rightarrow> fl_meta" where
  "set_block k b s = s\<lparr>fl_blk := (fl_blk s)(k := b)\<rparr>"

definition set_next :: "nat \<Rightarrow> pb_ptr \<Rightarrow> fl_meta \<Rightarrow> fl_meta" where
  "set_next k q s = set_block k (fl_blk s k\<lparr>pb_next := q\<rparr>) s"

lemma set_free_list_simps [simp]:
  "fl_list (set_free_list order l s) = (fl_list s)(order := l)"
  "fl_last (set_free_list order l s) = fl_last s"
  "fl_blk (set_free_list order l s) = fl_blk s"
  by (simp_all add: set_free_list_def)

lemma set_block_simps [simp]:
  "fl_list (set_block k b s) = fl_list s"
  "fl_last (set_block k b s) = fl_last s"
  "fl_blk (set_block k b s) = (fl_blk s)(k := b)"
  by (simp_all add: set_block_def)

lemma set_next_simps [simp]:
  "fl_list (set_next k q s) = fl_list s"
  "fl_last (set_next k q s) = fl_last s"
  "fl_blk (set_next k q s) = (fl_blk s)(k := fl_blk s k\<lparr>pb_next := q\<rparr>)"
  by (simp_all add: set_next_def)

lemma nexts_simps [simp]:
  "nexts (set_free_list order l s) = nexts s"
  "nexts (set_block k b s) = (nexts s)(k := pb_next b)"
  "nexts (set_next k q s) = (nexts s)(k := q)"
  "nexts (s\<lparr>fl_last := q\<rparr>) = nexts s"
  by (auto simp: nexts_def)

text \<open>The size of a list in bytes is a \<^verbatim>\<open>size_t\<close>, an unsigned int of 32 bits.\<close>

definition get_list_size :: "nat \<Rightarrow> fl_meta \<Rightarrow> u32 result" where
  "get_list_size order s = bindR (get_block_free_list order s) (\<lambda>list.
     Inr (word_of_nat (PAGE_BLOCK order) * word_of_nat (fl_count list) * word_of_nat PAGE_SIZE))"

definition block_pfn :: "nat \<Rightarrow> fl_meta \<Rightarrow> u64" where
  "block_pfn k s = pb_page (fl_blk s k)"

definition buddy_of :: "nat \<Rightarrow> u64 \<Rightarrow> u64" where
  "buddy_of order pfn = push_bit order (word_of_nat PAGE_SIZE) XOR pfn"

definition get_buddy_pfn :: "nat \<Rightarrow> fl_meta \<Rightarrow> u64" where
  "get_buddy_pfn k s = buddy_of (pb_order (fl_blk s k)) (block_pfn k s)"

definition block_phy_offset :: "nat \<Rightarrow> fl_meta \<Rightarrow> u32 result" where
  "block_phy_offset order s = get_list_size order s"

definition block_is_used :: "nat \<Rightarrow> fl_meta \<Rightarrow> bool" where
  "block_is_used k s \<longleftrightarrow> pb_flags (fl_blk s k) AND BLOCK_USED \<noteq> 0"

definition block_is_free :: "nat \<Rightarrow> fl_meta \<Rightarrow> bool" where
  "block_is_free k s \<longleftrightarrow> \<not> block_is_used k s"

definition page_block_exists :: "nat \<Rightarrow> fl_meta \<Rightarrow> bool result" where
  "page_block_exists order s = bindR (get_block_free_list order s) (\<lambda>list.
     Inr (fl_count list \<noteq> 0))"

text \<open>
  The loop \<^verbatim>\<open>while (i < list->count)\<close> of list\_has\_free\_block, with the number
  of rounds that are left. A null pointer within the count ends it with a warning.
\<close>

fun has_free_loop :: "fl_meta \<Rightarrow> nat \<Rightarrow> pb_ptr \<Rightarrow> bool" where
  "has_free_loop s 0 pb = False"
| "has_free_loop s (Suc i) None = False"
| "has_free_loop s (Suc i) (Some k) =
     (if block_is_free k s then True else has_free_loop s i (pb_next (fl_blk s k)))"

definition list_has_free_block :: "nat \<Rightarrow> fl_meta \<Rightarrow> bool result" where
  "list_has_free_block order s =
     bindR (get_block_free_list order s) (\<lambda>list.
     bindR (page_block_exists order s) (\<lambda>ex.
     if \<not> ex then Inr False
     else Inr (has_free_loop s (fl_count list) (fl_first list))))"

section \<open>Lists of blocks\<close>

text \<open>
  A new record follows the last one that was ever made, \<^verbatim>\<open>pb++\<close>; a record
  that leaves the lists is never used again, and the code does not check where the area
  ends. linker.ld reserves ten pages for it, which is room for \<open>META_RECORDS\<close>
  records of 24 bytes. The function \<open>fl_blk\<close> has room for any number of records and
  does not overlap other memory, so what is said of a run is said of the code as long as
  \<open>records\<close>, the number of records made since init\_free\_list, stays within that
  bound: records are numbered from 0 and their number never falls.
\<close>

definition META_RECORDS :: nat where
  "META_RECORDS = 10 * PAGE_SIZE div 24"

definition records :: "fl_meta \<Rightarrow> nat" where
  "records s = (case fl_last s of None \<Rightarrow> 0 | Some l \<Rightarrow> Suc l)"

definition new_page_block :: "u64 \<Rightarrow> fl_meta \<Rightarrow> nat \<times> fl_meta" where
  "new_page_block page_addr s =
     (let pb = (case fl_last s of Some l \<Rightarrow> l + 1 | None \<Rightarrow> 0);
          s = set_block pb (fl_blk s pb\<lparr>pb_page := page_addr, pb_next := None, pb_flags := 0\<rparr>) s
      in (pb, s\<lparr>fl_last := Some pb\<rparr>))"

definition add_block_to_order :: "nat \<Rightarrow> nat \<Rightarrow> fl_meta \<Rightarrow> fl_meta result" where
  "add_block_to_order pb order s =
     bindR (get_block_free_list order s) (\<lambda>list.
     let s = set_block pb (fl_blk s pb\<lparr>pb_order := order\<rparr>) s in
     bindR (case fl_first list of
         None \<Rightarrow> Inr (list\<lparr>fl_first := Some pb\<rparr>, s)
       | Some f \<Rightarrow> bindR (loopR (last_of (nexts s) f)) (\<lambda>cb. Inr (list, set_next cb (Some pb) s)))
     (\<lambda>(list, s). Inr (set_free_list order (list\<lparr>fl_count := fl_count list + 1\<rparr>) s)))"

definition get_nth_block :: "nat \<Rightarrow> nat \<Rightarrow> fl_meta \<Rightarrow> pb_ptr result" where
  "get_nth_block order index s =
     bindR (get_block_free_list order s) (\<lambda>list.
     if fl_count list \<le> index then Inr None
     else nth_ptr (nexts s) index (fl_first list))"

text \<open>Returns 0 when a block was removed, 1 otherwise.\<close>

definition remove_page_block :: "nat \<Rightarrow> fl_meta \<Rightarrow> (nat \<times> fl_meta) result" where
  "remove_page_block pb s =
     (let order = pb_order (fl_blk s pb) in
     bindR (get_block_free_list order s) (\<lambda>list.
     if fl_count list = 1
     then Inr (0, set_free_list order (list\<lparr>fl_count := fl_count list - 1, fl_first := None\<rparr>) s)
     else bindR (loopR (find_ptr (nexts s) (\<lambda>cb. pb_next (fl_blk s cb) = Some pb) (fl_first list)))
       (\<lambda>found. case found of
           None \<Rightarrow> Inr (1, s)
         | Some cb \<Rightarrow>
             let s = set_free_list order (list\<lparr>fl_count := fl_count list - 1\<rparr>) s;
                 s = set_next cb (pb_next (fl_blk s pb)) s
             in Inr (0, set_next pb None s))))"

text \<open>
  The loop \<^verbatim>\<open>for (i = list->count - 1; i > 0; i--)\<close> of
  remove\_next\_free\_block, over \<open>i\<close>. The order of the first block is read in every
  round, as the code does.
\<close>

fun remove_next_loop :: "nat \<Rightarrow> nat \<Rightarrow> fl_meta \<Rightarrow> (nat \<times> fl_meta) result" where
  "remove_next_loop order 0 s = Inr (1, s)"
| "remove_next_loop order (Suc i) s =
     bindR (get_block_free_list order s) (\<lambda>list.
     bindR (derefR (fl_first list)) (\<lambda>first.
     bindR (get_nth_block (pb_order (fl_blk s first)) i s) (\<lambda>nth.
     bindR (derefR nth) (\<lambda>pb.
     bindR (derefR (pb_next (fl_blk s pb))) (\<lambda>nx.
     if block_is_free nx s
     then Inr (0, set_free_list order (list\<lparr>fl_count := fl_count list - 1\<rparr>) (set_next pb None s))
     else remove_next_loop order i s)))))"

definition remove_next_free_block :: "nat \<Rightarrow> fl_meta \<Rightarrow> (nat \<times> fl_meta) result" where
  "remove_next_free_block order s =
     bindR (get_block_free_list order s) (\<lambda>list.
     if fl_count list = 0 then Inr (1, s)
     else if fl_count list = 1 then
       bindR (derefR (fl_first list)) (\<lambda>first.
       if block_is_used first s then Inr (1, s)
       else Inr (0, set_free_list order (list\<lparr>fl_count := fl_count list - 1, fl_first := None\<rparr>) s))
     else remove_next_loop order (fl_count list - 1) s)"

text \<open>The loop \<^verbatim>\<open>while (i > 0)\<close> of get\_next\_free\_block.\<close>

fun next_free_loop :: "nat \<Rightarrow> nat \<Rightarrow> fl_meta \<Rightarrow> pb_ptr result" where
  "next_free_loop order 0 s = Inr None"
| "next_free_loop order (Suc i) s =
     bindR (get_nth_block order i s) (\<lambda>pb.
     case pb of
       None \<Rightarrow> Inr None
     | Some k \<Rightarrow> if block_is_free k s then Inr (Some k) else next_free_loop order i s)"

definition get_next_free_block :: "nat \<Rightarrow> fl_meta \<Rightarrow> pb_ptr result" where
  "get_next_free_block order s =
     bindR (get_block_free_list order s) (\<lambda>list.
     bindR (derefR (fl_last s)) (\<lambda>pb.
     if pb_order (fl_blk s pb) = order \<and> block_is_free pb s then Inr (Some pb)
     else next_free_loop order (fl_count list) s))"

section \<open>Splitting\<close>

text \<open>Returns 0 when the next free block of the order was split, 1 otherwise.\<close>

definition split_page_block :: "nat \<Rightarrow> fl_meta \<Rightarrow> (nat \<times> fl_meta) result" where
  "split_page_block order s =
     bindR (get_next_free_block order s) (\<lambda>pb.
     let base_addr = (case pb of Some k \<Rightarrow> pb_page (fl_blk s k) | None \<Rightarrow> 0) in
     bindR (remove_next_free_block order s) (\<lambda>(ret, s).
     if ret \<noteq> 0 then Inr (1, s)
     else
       let (pb, s) = new_page_block base_addr s in
       bindR (add_block_to_order pb (order - 1) s) (\<lambda>s.
       let (pb, s) = new_page_block (get_buddy_pfn pb s) s in
       bindR (add_block_to_order pb (order - 1) s) (\<lambda>s.
       Inr (0, s)))))"

fun reduce_to_order :: "nat \<Rightarrow> nat \<Rightarrow> fl_meta \<Rightarrow> (pb_ptr \<times> fl_meta) result" where
  "reduce_to_order curr_order target_order s =
     (if target_order < curr_order
      then bindR (split_page_block curr_order s) (\<lambda>(ret, s).
           if ret \<noteq> 0 then Inr (None, s)
           else reduce_to_order (curr_order - 1) target_order s)
      else bindR (get_next_free_block target_order s) (\<lambda>pb. Inr (pb, s)))"

declare reduce_to_order.simps [simp del]

section \<open>Initialisation\<close>

fun create_free_loop :: "nat \<Rightarrow> pb_ptr \<Rightarrow> u64 \<Rightarrow> nat \<Rightarrow> fl_meta \<Rightarrow> fl_meta result" where
  "create_free_loop 0 cb curr_addr order s = Inr s"
| "create_free_loop (Suc nr_blocks) cb curr_addr order s =
     (let (pb, s) = new_page_block curr_addr s;
          s = (case cb of None \<Rightarrow> s | Some c \<Rightarrow> set_next c (Some pb) s)
      in bindR (add_block_to_order pb order s) (\<lambda>s.
         bindR (block_phy_offset order s) (\<lambda>off.
         create_free_loop nr_blocks (Some pb) (curr_addr + ucast off) order s)))"

definition create_free_list :: "u64 \<Rightarrow> nat \<Rightarrow> nat \<Rightarrow> fl_meta \<Rightarrow> fl_meta result" where
  "create_free_list start_addr order nr_blocks s =
     create_free_loop nr_blocks (fl_last s) start_addr order s"

text \<open>
  The loop over the orders, from \<^verbatim>\<open>MAX_PAGE_ORDER - 1\<close> down to 0; the argument
  is \<^verbatim>\<open>curr_order + 1\<close>. Every order starts at the same address.
\<close>

fun init_free_loop :: "nat \<Rightarrow> u64 \<Rightarrow> nat \<Rightarrow> fl_meta \<Rightarrow> fl_meta result" where
  "init_free_loop 0 addr total_pages s = Inr s"
| "init_free_loop (Suc curr_order) addr total_pages s =
     (let curr_order_pages = total_pages div PAGE_BLOCK curr_order in
      bindR (create_free_list addr curr_order curr_order_pages s) (\<lambda>s.
      let total_pages = (if curr_order_pages \<noteq> 0
                         then total_pages mod PAGE_BLOCK curr_order else total_pages)
      in init_free_loop curr_order addr total_pages s))"

definition init_free_list :: "u64 \<Rightarrow> u32 \<Rightarrow> fl_meta \<Rightarrow> fl_meta result" where
  "init_free_list addr sz s =
     init_free_loop MAX_PAGE_ORDER addr (unat sz div PAGE_SIZE) (s\<lparr>fl_last := None\<rparr>)"

section \<open>Allocation\<close>

text \<open>
  The loop \<^verbatim>\<open>while (val > PAGE_BLOCK(i)) i++\<close>. The only caller has checked
  that the value is at most \<^verbatim>\<open>MAX_PAGE_BLOCK\<close>, so the shift stays within an int.
\<close>

function page_order_loop :: "u32 \<Rightarrow> nat \<Rightarrow> nat" where
  "page_order_loop val i = (if PAGE_BLOCK i < unat val then page_order_loop val (i + 1) else i)"
  by pat_completeness auto
termination
  by (relation "measure (\<lambda>(val, i). unat val - 2 ^ i)") (auto intro: diff_less_mono2)

declare page_order_loop.simps [simp del]

definition get_page_order :: "u32 \<Rightarrow> nat" where
  "get_page_order nr_pages = page_order_loop nr_pages 0"

text \<open>The closest order with a free block, \<^verbatim>\<open>MAX_PAGE_ORDER\<close> if there is none.\<close>

function find_free_order :: "nat \<Rightarrow> fl_meta \<Rightarrow> nat result" where
  "find_free_order curr_order s =
     (if curr_order < MAX_PAGE_ORDER
      then bindR (list_has_free_block curr_order s) (\<lambda>free.
           if free then Inr curr_order else find_free_order (curr_order + 1) s)
      else Inr curr_order)"
  by pat_completeness auto
termination
  by (relation "measure (\<lambda>(curr_order, s). MAX_PAGE_ORDER - curr_order)") auto

declare find_free_order.simps [simp del]

definition get_block :: "nat \<Rightarrow> fl_meta \<Rightarrow> (pb_ptr \<times> fl_meta) result" where
  "get_block order s =
     bindR (find_free_order order s) (\<lambda>curr_order.
     if MAX_PAGE_ORDER < curr_order then Inr (None, s)
     else reduce_to_order curr_order order s)"

definition mark_block_used :: "nat \<Rightarrow> fl_meta \<Rightarrow> fl_meta" where
  "mark_block_used k s = set_block k (fl_blk s k\<lparr>pb_flags := BLOCK_USED\<rparr>) s"

definition mark_block_free :: "nat \<Rightarrow> fl_meta \<Rightarrow> fl_meta" where
  "mark_block_free k s = set_block k (fl_blk s k\<lparr>pb_flags := 0\<rparr>) s"

text \<open>Returns the address of the block, 0 if it fails.\<close>

definition page_alloc :: "u32 \<Rightarrow> fl_meta \<Rightarrow> (u64 \<times> fl_meta) result" where
  "page_alloc nr_pages s =
     (if nr_pages = 0 then Inr (0, s)
      else if MAX_PAGE_BLOCK < unat nr_pages then Inr (0, s)
      else
        let order = get_page_order nr_pages in
        bindR (get_block order s) (\<lambda>(pb, s).
        case pb of
          None \<Rightarrow> Inr (0, s)
        | Some k \<Rightarrow>
            let s = mark_block_used k s in Inr (pb_page (fl_blk s k), s)))"

section \<open>Freeing\<close>

definition find_pfn_in_order :: "u64 \<Rightarrow> nat \<Rightarrow> fl_meta \<Rightarrow> pb_ptr result" where
  "find_pfn_in_order pfn order s =
     bindR (get_block_free_list order s) (\<lambda>list.
     loopR (find_ptr (nexts s) (\<lambda>pb. pb_page (fl_blk s pb) = pfn) (fl_first list)))"

fun find_block_loop :: "u64 \<Rightarrow> nat list \<Rightarrow> fl_meta \<Rightarrow> pb_ptr result" where
  "find_block_loop pfn [] s = Inr None"
| "find_block_loop pfn (order # orders) s =
     bindR (find_pfn_in_order pfn order s) (\<lambda>pb.
     case pb of Some k \<Rightarrow> Inr (Some k) | None \<Rightarrow> find_block_loop pfn orders s)"

definition find_block_by_pfn :: "u64 \<Rightarrow> fl_meta \<Rightarrow> pb_ptr result" where
  "find_block_by_pfn pfn s = find_block_loop pfn [0..<MAX_PAGE_ORDER + 1] s"

definition get_block_buddy :: "nat \<Rightarrow> fl_meta \<Rightarrow> pb_ptr result" where
  "get_block_buddy pb s = find_pfn_in_order (get_buddy_pfn pb s) (pb_order (fl_blk s pb)) s"

lemma add_block_to_order_order:
  "add_block_to_order pb order s = Inr s' \<Longrightarrow>
     order \<le> MAX_PAGE_ORDER \<and> pb_order (fl_blk s' pb) = order"
  by (auto simp: add_block_to_order_def get_block_free_list_def Let_def result_simps
      split: option.splits if_splits)

text \<open>
  merge\_buddy calls itself on the merged block, whose order is one higher; it stops at
  the latest when that order has no list.
\<close>

function merge_buddy :: "nat \<Rightarrow> fl_meta \<Rightarrow> fl_meta result" where
  "merge_buddy pb s =
     bindR (get_block_buddy pb s) (\<lambda>found.
     case found of
       None \<Rightarrow> Inr s
     | Some buddy_pb \<Rightarrow>
         let order = pb_order (fl_blk s pb);
             final_pfn = (if block_pfn buddy_pb s < block_pfn pb s
                          then block_pfn buddy_pb s else pb_page (fl_blk s pb))
         in if block_is_used pb s \<or> block_is_used buddy_pb s then Inr s
         else bindR (remove_page_block pb s) (\<lambda>(ret, s1).
              if ret \<noteq> 0 then Inr s1
              else bindR (remove_page_block buddy_pb s1) (\<lambda>(ret, s2).
              if ret \<noteq> 0 then Inr s2
              else bindR (add_block_to_order (fst (new_page_block final_pfn s2)) (order + 1)
                            (snd (new_page_block final_pfn s2))) (\<lambda>s3.
              merge_buddy (fst (new_page_block final_pfn s2)) s3))))"
  by pat_completeness auto
termination
proof (relation "measure (\<lambda>(pb, s). MAX_PAGE_ORDER + 1 - pb_order (fl_blk s pb))", goal_cases)
  case 1
  show ?case by simp
next
  case (2 pb s found buddy_pb order final_pfn r1 ret1 s1 r2 ret2 s2 s3)
  then show ?case by (auto dest: add_block_to_order_order)
qed

declare merge_buddy.simps [simp del]

definition page_free :: "u64 \<Rightarrow> fl_meta \<Rightarrow> fl_meta result" where
  "page_free pfn s =
     bindR (find_block_by_pfn pfn s) (\<lambda>found.
     case found of
       None \<Rightarrow> Inr s
     | Some pb \<Rightarrow> merge_buddy pb (mark_block_free pb s))"

end
