(* ===== verification/Page_Blocks.thy ===== *)
theory Page_Blocks
  imports Page_Alloc
begin

text \<open>
  The address arithmetic of buddies: the bytes a block covers, alignment, and what
  get\_buddy\_pfn of page\_alloc.c computes on aligned addresses. Splitting replaces a
  block by two disjoint halves, merging two buddies gives back exactly their union.
\<close>

text \<open>The bytes of a block of an order.\<close>

definition blk_bytes :: "nat \<Rightarrow> nat" where
  "blk_bytes order = PAGE_SIZE * PAGE_BLOCK order"

definition region :: "u64 \<Rightarrow> nat \<Rightarrow> nat set" where
  "region a order = {unat a ..< unat a + blk_bytes order}"

definition aligned :: "u64 \<Rightarrow> nat \<Rightarrow> bool" where
  "aligned a order \<longleftrightarrow> blk_bytes order dvd unat a"

lemma blk_bytes_power: "blk_bytes order = 2 ^ (12 + order)"
  by (simp add: blk_bytes_def power_add)

lemma blk_bytes_Suc [simp]: "blk_bytes (Suc order) = 2 * blk_bytes order"
  by (simp add: blk_bytes_def)

lemma blk_bytes_pos [simp]: "0 < blk_bytes order"
  by (simp add: blk_bytes_def)

lemma blk_bytes_mono: "n \<le> m \<Longrightarrow> blk_bytes n \<le> blk_bytes m"
  by (simp add: blk_bytes_def)

lemma buddy_of_flip: "buddy_of order a = flip_bit (12 + order) a"
proof -
  have "(word_of_nat PAGE_SIZE :: u64) = push_bit 12 1" by simp
  then have "push_bit order (word_of_nat PAGE_SIZE :: u64) = push_bit (order + 12) 1"
    by (simp only: push_bit_push_bit)
  then show ?thesis
    by (simp add: buddy_of_def flip_bit_eq_xor xor.commute add.commute)
qed

lemma unat_flip_bit:
  fixes a :: u64
  assumes "n < 64"
  shows "unat (flip_bit n a) = flip_bit n (unat a)"
  using assms
  by (intro bit_eqI) (auto simp: bit_simps possible_bit_def dest: bit_imp_le_length)

lemma flip_bit_nat:
  fixes a :: nat
  shows "flip_bit n a = (if odd (a div 2 ^ n) then a - 2 ^ n else a + 2 ^ n)"
proof (cases "bit a n")
  case True
  have "set_bit n (unset_bit n a) = a"
    using True by (intro bit_eqI) (auto simp: bit_simps possible_bit_def)
  then have "a = unset_bit n a + 2 ^ n"
    using set_bit_eq [of n "unset_bit n a"] by (simp add: bit_simps)
  then have "unset_bit n a = a - 2 ^ n" by simp
  with True show ?thesis by (simp add: flip_bit_eq_if bit_iff_odd)
next
  case False
  then show ?thesis by (simp add: flip_bit_eq_if set_bit_eq) (simp add: bit_iff_odd)
qed

lemma unat_buddy_of:
  assumes "12 + order < 64"
  shows "unat (buddy_of order a) =
    (if odd (unat a div blk_bytes order) then unat a - blk_bytes order else unat a + blk_bytes order)"
  using assms by (simp only: buddy_of_flip unat_flip_bit flip_bit_nat blk_bytes_power)

text \<open>The buddies of order \<open>order\<close> pair up the aligned blocks: even ones with the next,
  odd ones with the previous.\<close>

lemma aligned_multiple:
  assumes "aligned a order"
  obtains q where "unat a = q * blk_bytes order"
  using assms unfolding aligned_def by (metis dvdE mult.commute)

lemma aligned_iff: "aligned a order \<longleftrightarrow> (\<exists>q. unat a = q * blk_bytes order)"
  unfolding aligned_def by (metis dvd_def mult.commute)

lemma unat_buddy_multiple:
  assumes "12 + order < 64" and "unat a = q * blk_bytes order"
  shows "unat (buddy_of order a) = (if odd q then q - 1 else q + 1) * blk_bytes order"
  using assms by (auto simp: unat_buddy_of algebra_simps diff_mult_distrib)

lemma aligned_buddy:
  assumes "12 + order < 64" and "aligned a order"
  shows "aligned (buddy_of order a) order"
proof -
  obtain q where "unat a = q * blk_bytes order" using assms(2) by (rule aligned_multiple)
  from unat_buddy_multiple [OF assms(1) this] show ?thesis
    unfolding aligned_iff by blast
qed

lemma buddy_involution: "buddy_of order (buddy_of order a) = a"
  by (simp add: buddy_of_def flip: xor.assoc)

lemma region_nonempty: "unat a \<in> region a order"
  by (simp add: region_def)

lemma region_mono: "n \<le> m \<Longrightarrow> region a n \<subseteq> region a m"
  using blk_bytes_mono [of n m] by (auto simp: region_def)

lemma region_buddy_disjoint:
  assumes "12 + order < 64" and "aligned a order"
  shows "region a order \<inter> region (buddy_of order a) order = {}"
proof -
  obtain q where q: "unat a = q * blk_bytes order" using assms(2) by (rule aligned_multiple)
  show ?thesis
    using q unat_buddy_multiple [OF assms(1) q]
    by (cases q) (auto simp: region_def algebra_simps)
qed

text \<open>Splitting: the block and the buddy of its lower half make up the whole block.\<close>

lemma region_split:
  assumes "12 + order < 64" and "aligned a (Suc order)"
  shows "aligned a order" and "region a (Suc order) = region a order \<union> region (buddy_of order a) order"
proof -
  obtain q where q: "unat a = q * blk_bytes (Suc order)" using assms(2) by (rule aligned_multiple)
  then have q2: "unat a = (2 * q) * blk_bytes order" by simp
  then show "aligned a order" unfolding aligned_iff by blast
  have "unat (buddy_of order a) = unat a + blk_bytes order"
    using unat_buddy_multiple [OF assms(1) q2] q2 by (simp add: algebra_simps)
  then show "region a (Suc order) = region a order \<union> region (buddy_of order a) order"
    by (auto simp: region_def)
qed

text \<open>Merging: the lower of two buddies is aligned for the next order and covers both.\<close>

lemma region_merge:
  assumes "12 + order < 64" and "aligned a order"
    and f: "f = (if buddy_of order a < a then buddy_of order a else a)"
  shows "aligned f (Suc order)" and "region f (Suc order) = region a order \<union> region (buddy_of order a) order"
proof -
  obtain q where q: "unat a = q * blk_bytes order" using assms(2) by (rule aligned_multiple)
  note b = unat_buddy_multiple [OF assms(1) q]
  have "aligned f (Suc order) \<and>
    region f (Suc order) = region a order \<union> region (buddy_of order a) order"
  proof (cases "odd q")
    case True
    then obtain p where p: "q = 2 * p + 1" by (elim oddE)
    have "f = buddy_of order a" using b q p by (simp add: f word_less_nat_alt)
    moreover have "unat (buddy_of order a) = p * blk_bytes (Suc order)" using b p by simp
    ultimately show ?thesis using q p unfolding aligned_iff by (auto simp: region_def)
  next
    case False
    then have "even q" by simp
    then obtain p where p: "q = 2 * p" by (elim evenE)
    have "f = a" using b q p by (simp add: f word_less_nat_alt)
    moreover have "unat a = p * blk_bytes (Suc order)" using q p by simp
    ultimately show ?thesis using b q p unfolding aligned_iff by (auto simp: region_def)
  qed
  then show "aligned f (Suc order)"
    and "region f (Suc order) = region a order \<union> region (buddy_of order a) order" by blast+
qed

end
