(* ===== verification/Page_Alloc_Inv.thy ===== *)
theory Page_Alloc_Inv
  imports Page_Blocks
begin

text \<open>
  The invariant of the page allocator and the effect of its list operations on it: taking
  blocks out of a list, searching the next free block, adding a new record. The invariant
  is stated over the nodes \<open>L\<close> of every list and the set \<open>V\<close> of the records that stand
  for memory. A record that the code drops from its list (see the header of the
  development) stays in \<open>V\<close>: its memory is lost, but never handed out twice.
\<close>

definition blk_region :: "fl_meta \<Rightarrow> nat \<Rightarrow> nat set" where
  "blk_region s k = region (pb_page (fl_blk s k)) (pb_order (fl_blk s k))"

definition chains :: "fl_meta \<Rightarrow> (nat \<Rightarrow> nat list) \<Rightarrow> bool" where
  "chains s L \<longleftrightarrow> (\<forall>n \<le> MAX_PAGE_ORDER.
     chain (nexts s) (fl_first (fl_list s n)) (L n) \<and>
     length (L n) \<le> fl_count (fl_list s n) \<and>
     (\<forall>k \<in> set (L n). pb_order (fl_blk s k) = n))"

definition disjoint_blocks :: "fl_meta \<Rightarrow> nat set \<Rightarrow> bool" where
  "disjoint_blocks s V \<longleftrightarrow> (\<forall>j\<in>V. \<forall>k\<in>V. j \<noteq> k \<longrightarrow> blk_region s j \<inter> blk_region s k = {})"

text \<open>A block is good in a pool of order \<open>T\<close> when it is aligned and lies in the pool.\<close>

definition good_block :: "nat set \<Rightarrow> nat \<Rightarrow> u64 \<Rightarrow> nat \<Rightarrow> bool" where
  "good_block P T a n \<longleftrightarrow> aligned a n \<and> region a n \<subseteq> P \<and> n \<le> T"

text \<open>
  The invariant: \<open>L\<close> gives the nodes of every list, \<open>V\<close> the blocks that stand for memory
  (listed or not). Their regions are disjoint, aligned and inside the pool; the newest
  record is at the end of its list, if it is listed at all.
\<close>

definition fl_inv :: "nat set \<Rightarrow> nat \<Rightarrow> fl_meta \<Rightarrow> nat set \<Rightarrow> (nat \<Rightarrow> nat list) \<Rightarrow> bool" where
  "fl_inv P T s V L \<longleftrightarrow>
     T < MAX_PAGE_ORDER \<and> P \<noteq> {} \<and> finite P \<and> card P = blk_bytes T \<and>
     chains s L \<and>
     (\<forall>n \<le> MAX_PAGE_ORDER. set (L n) \<subseteq> V) \<and>
     (\<exists>l. fl_last s = Some l \<and> V \<subseteq> {..l} \<and>
        (\<forall>n \<le> MAX_PAGE_ORDER. l \<in> set (L n) \<longrightarrow> l = last (L n))) \<and>
     disjoint_blocks s V \<and>
     (\<forall>k\<in>V. good_block P T (pb_page (fl_blk s k)) (pb_order (fl_blk s k)))"

text \<open>The counts below an order are the lengths of the lists.\<close>

definition exact_below :: "nat \<Rightarrow> fl_meta \<Rightarrow> (nat \<Rightarrow> nat list) \<Rightarrow> bool" where
  "exact_below n s L \<longleftrightarrow> (\<forall>m < n. fl_count (fl_list s m) = length (L m))"

lemmas fl_inv_defs = fl_inv_def chains_def disjoint_blocks_def good_block_def

text \<open>Two states that differ only in the links and counts of the lists.\<close>

definition relinks :: "fl_meta \<Rightarrow> fl_meta \<Rightarrow> bool" where
  "relinks s s' \<longleftrightarrow> fl_last s' = fl_last s \<and>
     (\<forall>k. pb_page (fl_blk s' k) = pb_page (fl_blk s k) \<and>
          pb_order (fl_blk s' k) = pb_order (fl_blk s k) \<and>
          pb_flags (fl_blk s' k) = pb_flags (fl_blk s k))"

text \<open>The used blocks, with their address and size, are the same before and after.\<close>

definition same_used :: "fl_meta \<Rightarrow> nat set \<Rightarrow> fl_meta \<Rightarrow> nat set \<Rightarrow> bool" where
  "same_used s V s' V' \<longleftrightarrow>
     {k\<in>V'. block_is_used k s'} = {k\<in>V. block_is_used k s} \<and>
     (\<forall>k\<in>V. block_is_used k s \<longrightarrow>
        pb_page (fl_blk s' k) = pb_page (fl_blk s k) \<and>
        pb_order (fl_blk s' k) = pb_order (fl_blk s k))"

definition last_in :: "fl_meta \<Rightarrow> nat set \<Rightarrow> bool" where
  "last_in s V \<longleftrightarrow> (\<exists>l\<in>V. fl_last s = Some l)"

lemma same_used_refl: "same_used s V s V"
  by (simp add: same_used_def)

lemma same_used_trans:
  "same_used s V s' V' \<Longrightarrow> same_used s' V' s'' V'' \<Longrightarrow> same_used s V s'' V''"
  unfolding same_used_def by (auto 0 3)

lemma relinks_same_used: "relinks s s' \<Longrightarrow> same_used s V s' V"
  by (auto simp: relinks_def same_used_def block_is_used_def)

lemma relinks_refl [simp]: "relinks s s"
  by (simp add: relinks_def)

lemma relinks_trans: "relinks s s' \<Longrightarrow> relinks s' s'' \<Longrightarrow> relinks s s''"
  by (simp add: relinks_def)

lemma relinks_set_next [simp]: "relinks s (set_next k q s)"
  by (simp add: relinks_def)

lemma relinks_set_free_list [simp]: "relinks s (set_free_list n l s)"
  by (simp add: relinks_def)

lemma relinks_used: "relinks s s' \<Longrightarrow> block_is_used k s' = block_is_used k s"
  by (simp add: relinks_def block_is_used_def)

lemma relinks_region: "relinks s s' \<Longrightarrow> blk_region s' k = blk_region s k"
  by (simp add: relinks_def blk_region_def)

text \<open>Taking nodes out of the lists keeps the invariant, whatever is left of them.\<close>

lemma fl_inv_relinks:
  assumes "fl_inv P T s V L" and "relinks s s'" and "chains s' L'"
    and "\<And>n. n \<le> MAX_PAGE_ORDER \<Longrightarrow> set (L' n) \<subseteq> set (L n)"
    and "\<And>n l. n \<le> MAX_PAGE_ORDER \<Longrightarrow> l \<in> set (L' n) \<Longrightarrow> l = last (L n) \<Longrightarrow> l = last (L' n)"
  shows "fl_inv P T s' V L'"
proof -
  have sub: "set (L' n) \<subseteq> V" if "n \<le> MAX_PAGE_ORDER" for n
    using assms(1) assms(4) [OF that] that unfolding fl_inv_def by blast
  have "disjoint_blocks s' V"
    using assms(1) relinks_region [OF assms(2)] by (simp add: fl_inv_def disjoint_blocks_def)
  moreover have "\<forall>k\<in>V. good_block P T (pb_page (fl_blk s' k)) (pb_order (fl_blk s' k))"
    using assms(1,2) by (simp add: fl_inv_def relinks_def)
  moreover obtain l where l: "fl_last s' = Some l" "V \<subseteq> {..l}"
    and last: "\<And>n. n \<le> MAX_PAGE_ORDER \<Longrightarrow> l \<in> set (L n) \<Longrightarrow> l = last (L n)"
    using assms(1,2) unfolding fl_inv_def relinks_def by auto
  moreover have "l = last (L' n)" if "n \<le> MAX_PAGE_ORDER" "l \<in> set (L' n)" for n
    using assms(5) [OF that] last [OF that(1)] assms(4) [OF that(1)] that(2) by blast
  ultimately show ?thesis
    using assms(1,3) sub unfolding fl_inv_def by simp
qed

lemma fl_inv_restrict:
  "fl_inv P T s V L \<Longrightarrow> W \<subseteq> V \<Longrightarrow> (\<And>n. n \<le> MAX_PAGE_ORDER \<Longrightarrow> set (L n) \<subseteq> W) \<Longrightarrow>
     fl_inv P T s W L"
  unfolding fl_inv_def disjoint_blocks_def by (auto 0 4)

lemma fl_inv_chain:
  assumes "fl_inv P T s V L" and "n \<le> MAX_PAGE_ORDER"
  shows "chain (nexts s) (fl_first (fl_list s n)) (L n)" and "length (L n) \<le> fl_count (fl_list s n)"
    and "\<And>k. k \<in> set (L n) \<Longrightarrow> pb_order (fl_blk s k) = n" and "set (L n) \<subseteq> V"
    and "distinct (L n)"
  using assms unfolding fl_inv_def chains_def by (auto dest: chain_distinct)

lemma fl_inv_other_list:
  "fl_inv P T s V L \<Longrightarrow> n \<le> MAX_PAGE_ORDER \<Longrightarrow> m \<le> MAX_PAGE_ORDER \<Longrightarrow> n \<noteq> m \<Longrightarrow>
     k \<in> set (L n) \<Longrightarrow> k \<notin> set (L m)"
  by (auto dest: fl_inv_chain(3))

lemma get_block_free_list_ok [simp]:
  "n \<le> MAX_PAGE_ORDER \<Longrightarrow> get_block_free_list n s = Inr (fl_list s n)"
  by (simp add: get_block_free_list_def)

section \<open>Removing blocks\<close>

lemma chains_upd:
  assumes "fl_inv P T s V L" and "n \<le> MAX_PAGE_ORDER" and "relinks s s'"
    and "\<And>m. m \<noteq> n \<Longrightarrow> fl_list s' m = fl_list s m"
    and "\<And>k. k \<notin> set (L n) \<Longrightarrow> nexts s' k = nexts s k"
    and "chain (nexts s') (fl_first (fl_list s' n)) xs" and "set xs \<subseteq> set (L n)"
    and "length xs \<le> fl_count (fl_list s' n)"
  shows "chains s' (L(n := xs))"
  unfolding chains_def
proof (intro allI impI)
  fix m assume m: "m \<le> MAX_PAGE_ORDER"
  show "chain (nexts s') (fl_first (fl_list s' m)) ((L(n := xs)) m) \<and>
      length ((L(n := xs)) m) \<le> fl_count (fl_list s' m) \<and>
      (\<forall>k\<in>set ((L(n := xs)) m). pb_order (fl_blk s' k) = m)"
  proof (cases "m = n")
    case True
    with assms(3,6,7,8) fl_inv_chain(3) [OF assms(1,2)] show ?thesis
      by (auto simp: relinks_def)
  next
    case False
    then have "chain (nexts s') (fl_first (fl_list s m)) (L m)"
      using fl_inv_chain(1) [OF assms(1) m] fl_inv_other_list [OF assms(1) m assms(2)] assms(5)
      by (metis chain_cong)
    with False assms(3,4) fl_inv_chain [OF assms(1) m] show ?thesis
      by (auto simp: relinks_def)
  qed
qed

lemma remove_page_block_inv:
  assumes inv: "fl_inv P T s V L" and k: "k \<in> V"
  defines "n \<equiv> pb_order (fl_blk s k)"
  shows "\<exists>ret s' xs. remove_page_block k s = Inr (ret, s') \<and> relinks s s' \<and>
    fl_inv P T s' V (L(n := xs)) \<and> set xs \<subseteq> set (L n) \<and> (ret = 0 \<longrightarrow> k \<notin> set xs)"
proof -
  have n: "n \<le> MAX_PAGE_ORDER" using inv k unfolding n_def fl_inv_def good_block_def by force
  note c = fl_inv_chain [OF inv n]
  let ?found = "List.find (\<lambda>cb. pb_next (fl_blk s cb) = Some k) (L n)"
  have find: "find_ptr (nexts s) (\<lambda>cb. pb_next (fl_blk s cb) = Some k) (fl_first (fl_list s n))
      = Some ?found"
    by (rule find_ptr_chain [OF c(1)])
  consider (one) "fl_count (fl_list s n) = 1" | (none) "fl_count (fl_list s n) \<noteq> 1" "?found = None"
    | (some) cb where "fl_count (fl_list s n) \<noteq> 1" "?found = Some cb"
    by fastforce
  then show ?thesis
  proof cases
    case one
    let ?s = "set_free_list n (fl_list s n\<lparr>fl_count := 0, fl_first := None\<rparr>) s"
    have "remove_page_block k s = Inr (0, ?s)"
      using one n by (simp add: remove_page_block_def n_def Let_def)
    moreover have "fl_inv P T ?s V (L(n := []))"
      by (rule fl_inv_relinks [OF inv _ chains_upd [OF inv n]]) auto
    ultimately show ?thesis by (intro exI [of _ 0] exI [of _ ?s] exI [of _ "[]"]) simp
  next
    case none
    then have "remove_page_block k s = Inr (1, s)"
      using n find by (simp add: remove_page_block_def n_def Let_def)
    then show ?thesis using inv by (intro exI [of _ 1] exI [of _ s] exI [of _ "L n"]) simp
  next
    case some
    then have cb: "cb \<in> set (L n)" "nexts s cb = Some k"
      by (auto simp: find_Some_iff nexts_def)
    then obtain us vs where L: "L n = us @ cb # k # vs"
      using chain_next_in [OF c(1)] by blast
    have nk: "pb_next (fl_blk s k) = nexts s k" by (simp add: nexts_def)
    let ?s0 = "set_free_list n (fl_list s n\<lparr>fl_count := fl_count (fl_list s n) - 1\<rparr>) s"
    let ?s = "set_next k None (set_next cb (pb_next (fl_blk s k)) ?s0)"
    have "remove_page_block k s = Inr (0, ?s)"
      using some n find by (simp add: remove_page_block_def n_def Let_def)
    moreover have "fl_inv P T ?s V (L(n := us @ cb # vs))"
    proof (rule fl_inv_relinks [OF inv _ chains_upd [OF inv n]])
      have "chain ((nexts s)(cb := nexts s k)) (fl_first (fl_list s n)) (us @ cb # vs)"
        using c(1) unfolding L by (rule chain_unlink)
      then show "chain (nexts ?s) (fl_first (fl_list ?s n)) (us @ cb # vs)"
        using c(5) unfolding L by (simp add: chain_upd_other nk)
    qed (use c(2,5) in \<open>auto simp: L relinks_def split: if_splits\<close>)
    ultimately show ?thesis
      using c(5) by (intro exI [of _ 0] exI [of _ ?s] exI [of _ "us @ cb # vs"])
        (auto simp: L relinks_def)
  qed
qed


section \<open>The next free block\<close>

lemma get_nth_block_inv:
  assumes inv: "fl_inv P T s V L" and n: "n \<le> MAX_PAGE_ORDER" and i: "i < fl_count (fl_list s n)"
  shows "get_nth_block n i s =
    (if i < length (L n) then Inr (Some (L n ! i))
     else if i = length (L n) then Inr None else Inl NullDeref)"
  using fl_inv_chain(1) [OF inv n] n i
  by (auto simp: get_nth_block_def nth_ptr_chain nth_ptr_chain_end nth_ptr_chain_beyond)

text \<open>The highest free position of a list, as both loops look for it.\<close>

definition last_free :: "fl_meta \<Rightarrow> nat list \<Rightarrow> nat \<Rightarrow> bool" where
  "last_free s xs j \<longleftrightarrow> j < length xs \<and> block_is_free (xs ! j) s \<and>
     (\<forall>i. j < i \<longrightarrow> i < length xs \<longrightarrow> \<not> block_is_free (xs ! i) s)"

lemma last_free_unique: "last_free s xs i \<Longrightarrow> last_free s xs j \<Longrightarrow> i = j"
  unfolding last_free_def by (metis linorder_neqE_nat)

lemma next_free_loop_scan:
  assumes inv: "fl_inv P T s V L" and n: "n \<le> MAX_PAGE_ORDER"
    and "i \<le> length (L n)"
    and "\<forall>j. i \<le> j \<longrightarrow> j < length (L n) \<longrightarrow> \<not> block_is_free (L n ! j) s"
  shows "(\<exists>j. last_free s (L n) j \<and> next_free_loop n i s = Inr (Some (L n ! j))) \<or>
    (\<forall>k\<in>set (L n). \<not> block_is_free k s) \<and> next_free_loop n i s = Inr None"
  using assms(3,4)
proof (induction i)
  case 0
  then show ?case by (auto simp: in_set_conv_nth)
next
  case (Suc i)
  have get: "get_nth_block n i s = Inr (Some (L n ! i))"
    using Suc.prems(1) fl_inv_chain(2) [OF inv n] by (subst get_nth_block_inv [OF inv n]) auto
  show ?case
  proof (cases "block_is_free (L n ! i) s")
    case True
    then have "last_free s (L n) i" using Suc.prems by (auto simp: last_free_def)
    with True get show ?thesis by auto
  next
    case False
    have "(\<exists>j. last_free s (L n) j \<and> next_free_loop n i s = Inr (Some (L n ! j))) \<or>
      (\<forall>k\<in>set (L n). \<not> block_is_free k s) \<and> next_free_loop n i s = Inr None"
    proof (intro Suc.IH allI impI)
      fix j assume "i \<le> j" "j < length (L n)"
      with Suc.prems(2) False show "\<not> block_is_free (L n ! j) s"
        by (cases "j = i") auto
    qed (use Suc.prems in simp)
    with False get show ?thesis by simp
  qed
qed

text \<open>
  What get\_next\_free\_block can answer: the newest record, the highest free block of the
  list, or nothing. Where the count is larger than the list, it finds nothing or follows a
  null pointer.
\<close>

lemma next_free_loop_cases:
  assumes inv: "fl_inv P T s V L" and n: "n \<le> MAX_PAGE_ORDER"
  shows "fl_count (fl_list s n) = length (L n) \<and>
      ((\<exists>j. last_free s (L n) j \<and>
            next_free_loop n (fl_count (fl_list s n)) s = Inr (Some (L n ! j))) \<or>
       (\<forall>k\<in>set (L n). \<not> block_is_free k s) \<and>
       next_free_loop n (fl_count (fl_list s n)) s = Inr None) \<or>
    length (L n) < fl_count (fl_list s n) \<and>
      next_free_loop n (fl_count (fl_list s n)) s \<in> {Inr None, Inl NullDeref}"
proof (cases "fl_count (fl_list s n) = length (L n)")
  case True
  with next_free_loop_scan [OF inv n] show ?thesis by auto
next
  case False
  with fl_inv_chain(2) [OF inv n] obtain i where
    i: "fl_count (fl_list s n) = Suc i" "length (L n) \<le> i"
    by (metis Suc_le_D le_less Suc_leI less_Suc_eq_le)
  then have "get_nth_block n i s \<in> {Inr None, Inl NullDeref}"
    by (subst get_nth_block_inv [OF inv n]) auto
  with i show ?thesis by auto
qed

lemma get_next_free_block_cases:
  assumes inv: "fl_inv P T s V L" and n: "n \<le> MAX_PAGE_ORDER" and l: "last_in s V"
  shows "(\<exists>k\<in>V. get_next_free_block n s = Inr (Some k) \<and> block_is_free k s \<and>
            pb_order (fl_blk s k) = n \<and>
            (fl_last s = Some k \<or>
             (\<exists>j. last_free s (L n) j \<and> k = L n ! j \<and> fl_count (fl_list s n) = length (L n)))) \<or>
    get_next_free_block n s = Inr None \<and>
      (fl_count (fl_list s n) = length (L n) \<and> (\<forall>k\<in>set (L n). \<not> block_is_free k s) \<or>
       length (L n) < fl_count (fl_list s n)) \<or>
    get_next_free_block n s = Inl NullDeref \<and> length (L n) < fl_count (fl_list s n)"
proof -
  obtain k where k: "fl_last s = Some k" "k \<in> V" using l by (auto simp: last_in_def)
  show ?thesis
  proof (cases "pb_order (fl_blk s k) = n \<and> block_is_free k s")
    case True
    with k n show ?thesis by (auto simp: get_next_free_block_def)
  next
    case False
    then have eq: "get_next_free_block n s = next_free_loop n (fl_count (fl_list s n)) s"
      using k n by (auto simp: get_next_free_block_def)
    have mem: "L n ! j \<in> V \<and> pb_order (fl_blk s (L n ! j)) = n \<and> block_is_free (L n ! j) s"
      if "last_free s (L n) j" for j
      using that fl_inv_chain(3,4) [OF inv n] unfolding last_free_def by auto
    show ?thesis
      using next_free_loop_cases [OF inv n] mem unfolding eq by blast
  qed
qed


lemma chain_take:
  "chain nxt p xs \<Longrightarrow> 0 < j \<Longrightarrow> j < length xs \<Longrightarrow> chain (nxt(xs ! (j - 1) := None)) p (take j xs)"
proof -
  assume c: "chain nxt p xs" and j: "0 < j" "j < length xs"
  then have "xs = take (j - 1) xs @ xs ! (j - 1) # drop j xs"
    by (metis Suc_diff_1 id_take_nth_drop less_imp_diff_less)
  with c have "chain (nxt(xs ! (j - 1) := None)) p (take (j - 1) xs @ [xs ! (j - 1)])"
    by (metis chain_cut)
  moreover have "take j xs = take (j - 1) xs @ [xs ! (j - 1)]"
    using j take_Suc_conv_app_nth [of "j - 1" xs] by simp
  ultimately show ?thesis by simp
qed

text \<open>The state after the tail of a list from position \<open>j\<close> on was cut off.\<close>

definition cut_list :: "nat \<Rightarrow> nat list \<Rightarrow> nat \<Rightarrow> fl_meta \<Rightarrow> fl_meta" where
  "cut_list n xs j s =
     set_free_list n (fl_list s n\<lparr>fl_count := fl_count (fl_list s n) - 1\<rparr>)
       (set_next (xs ! (j - 1)) None s)"

lemma cut_list_inv:
  assumes inv: "fl_inv P T s V L" and n: "n \<le> MAX_PAGE_ORDER" and j: "0 < j" "j < length (L n)"
  shows "fl_inv P T (cut_list n (L n) j s) V (L(n := take j (L n)))"
proof (rule fl_inv_relinks [OF inv _ chains_upd [OF inv n]])
  note c = fl_inv_chain [OF inv n]
  show "chain (nexts (cut_list n (L n) j s)) (fl_first (fl_list (cut_list n (L n) j s) n)) (take j (L n))"
    using chain_take [OF c(1) j] by (simp add: cut_list_def)
  show "length (take j (L n)) \<le> fl_count (fl_list (cut_list n (L n) j s) n)"
    using j c(2) by (simp add: cut_list_def)
  show "relinks s (cut_list n (L n) j s)" "relinks s (cut_list n (L n) j s)"
    by (simp_all add: cut_list_def relinks_def)
  show "set (take j (L n)) \<subseteq> set (L n)" by (rule set_take_subset)
  fix m l assume m: "m \<le> MAX_PAGE_ORDER" "l \<in> set ((L(n := take j (L n))) m)" "l = last (L m)"
  show "l = last ((L(n := take j (L n))) m)"
  proof (cases "m = n")
    case True
    with m j have "L n ! (length (L n) - 1) \<in> set (take j (L n))"
      by (metis fun_upd_same last_conv_nth length_0_conv not_less_zero)
    moreover have "L n ! (length (L n) - 1) \<notin> set (take j (L n))"
      using j c(5) by (auto simp: in_set_conv_nth nth_eq_iff_index_eq)
    ultimately show ?thesis by blast
  qed (use m in simp)
qed (use j in \<open>auto simp: cut_list_def dest: in_set_takeD split: if_splits\<close>)

lemma remove_next_loop_cases:
  assumes inv: "fl_inv P T s V L" and n: "n \<le> MAX_PAGE_ORDER"
    and i: "i < length (L n)"
    and used: "\<forall>j. i < j \<longrightarrow> j < length (L n) \<longrightarrow> \<not> block_is_free (L n ! j) s"
  shows "(\<exists>j. 0 < j \<and> last_free s (L n) j \<and>
      remove_next_loop n i s = Inr (0, cut_list n (L n) j s)) \<or>
    (\<forall>j. 0 < j \<longrightarrow> j < length (L n) \<longrightarrow> \<not> block_is_free (L n ! j) s) \<and>
      remove_next_loop n i s = Inr (1, s)"
  using i used
proof (induction i)
  case 0
  then show ?case by auto
next
  case (Suc i)
  note c = fl_inv_chain [OF inv n]
  have first: "fl_first (fl_list s n) = Some (L n ! 0)" "pb_order (fl_blk s (L n ! 0)) = n"
    using c(1,3) Suc.prems(1) by (cases "L n"; auto)+
  have nth: "get_nth_block n i s = Inr (Some (L n ! i))"
    using Suc.prems(1) c(2) by (subst get_nth_block_inv [OF inv n]) auto
  have nx: "pb_next (fl_blk s (L n ! i)) = Some (L n ! Suc i)"
  proof -
    have "L n = take i (L n) @ L n ! i # L n ! Suc i # drop (Suc (Suc i)) (L n)"
      using Suc.prems(1) by (metis Cons_nth_drop_Suc Suc_lessD id_take_nth_drop)
    with c(1) chain_mid_next show ?thesis by (metis nexts_def)
  qed
  show ?case
  proof (cases "block_is_free (L n ! Suc i) s")
    case True
    then have "last_free s (L n) (Suc i)" using Suc.prems by (auto simp: last_free_def)
    moreover have "remove_next_loop n (Suc i) s = Inr (0, cut_list n (L n) (Suc i) s)"
      using True n first nth nx by (simp add: cut_list_def)
    ultimately show ?thesis by blast
  next
    case False
    have "\<forall>j. i < j \<longrightarrow> j < length (L n) \<longrightarrow> \<not> block_is_free (L n ! j) s"
      using Suc.prems(2) False by (metis Suc_lessI)
    with Suc.IH Suc.prems(1) have "(\<exists>j. 0 < j \<and> last_free s (L n) j \<and>
        remove_next_loop n i s = Inr (0, cut_list n (L n) j s)) \<or>
      (\<forall>j. 0 < j \<longrightarrow> j < length (L n) \<longrightarrow> \<not> block_is_free (L n ! j) s) \<and>
        remove_next_loop n i s = Inr (1, s)" by simp
    with False n first nth nx show ?thesis by simp
  qed
qed

lemma remove_next_loop_beyond:
  assumes inv: "fl_inv P T s V L" and n: "n \<le> MAX_PAGE_ORDER"
    and i: "length (L n) \<le> Suc i" "Suc i < fl_count (fl_list s n)"
  shows "remove_next_loop n (Suc i) s = Inl NullDeref"
proof (cases "L n")
  case Nil
  then have "fl_first (fl_list s n) = None" using fl_inv_chain(1) [OF inv n] by simp
  with n show ?thesis by simp
next
  case (Cons x xs)
  note c = fl_inv_chain [OF inv n]
  have first: "fl_first (fl_list s n) = Some x" "pb_order (fl_blk s x) = n"
    using c(1,3) Cons by auto
  have nth: "get_nth_block n i s = (if i < length (L n) then Inr (Some (L n ! i))
     else if i = length (L n) then Inr None else Inl NullDeref)"
    using i by (intro get_nth_block_inv [OF inv n]) simp
  have "pb_next (fl_blk s (L n ! i)) = None" if "i < length (L n)"
  proof -
    have "length (L n) = Suc i" using that i(1) by simp
    moreover from this have ne: "L n \<noteq> []" by auto
    ultimately have "last (L n) = L n ! i" by (simp add: last_conv_nth)
    with ne have "L n = butlast (L n) @ [L n ! i]" by (metis append_butlast_last_id)
    with c(1) chain_last_next show ?thesis by (metis nexts_def)
  qed
  with n first nth show ?thesis by auto
qed

lemma remove_next_free_block_cases:
  assumes inv: "fl_inv P T s V L" and n: "n \<le> MAX_PAGE_ORDER"
  shows "(\<exists>j s'. last_free s (L n) j \<and> fl_count (fl_list s n) = length (L n) \<and>
      remove_next_free_block n s = Inr (0, s') \<and> relinks s s' \<and>
      (\<forall>m. m \<noteq> n \<longrightarrow> fl_list s' m = fl_list s m) \<and>
      fl_inv P T s' V (L(n := take j (L n)))) \<or>
    remove_next_free_block n s = Inr (1, s) \<and> fl_count (fl_list s n) = length (L n) \<and>
      (\<forall>j. 0 < j \<longrightarrow> j < length (L n) \<longrightarrow> \<not> block_is_free (L n ! j) s) \<and>
      (length (L n) = 1 \<longrightarrow> \<not> block_is_free (L n ! 0) s) \<or>
    remove_next_free_block n s = Inl NullDeref \<and> length (L n) < fl_count (fl_list s n)"
proof -
  note c = fl_inv_chain [OF inv n]
  consider (zero) "fl_count (fl_list s n) = 0" | (one) "fl_count (fl_list s n) = 1"
    | (more) i where "fl_count (fl_list s n) = Suc (Suc i)"
    by (metis One_nat_def not0_implies_Suc)
  then show ?thesis
  proof cases
    case zero
    with n c(2) show ?thesis by (simp add: remove_next_free_block_def)
  next
    case one
    show ?thesis
    proof (cases "L n")
      case Nil
      with one n c(1) show ?thesis by (simp add: remove_next_free_block_def)
    next
      case (Cons x xs)
      with one c(1,2) have x: "L n = [x]" "fl_first (fl_list s n) = Some x" by auto
      let ?s = "set_free_list n (fl_list s n\<lparr>fl_count := 0, fl_first := None\<rparr>) s"
      have "fl_inv P T ?s V (L(n := take 0 (L n)))"
        by (rule fl_inv_relinks [OF inv _ chains_upd [OF inv n]]) auto
      with x one n show ?thesis
        by (auto simp: remove_next_free_block_def last_free_def block_is_free_def)
    qed
  next
    case (more i)
    then have eq: "remove_next_free_block n s = remove_next_loop n (Suc i) s"
      using n by (simp add: remove_next_free_block_def del: remove_next_loop.simps)
    show ?thesis
    proof (cases "Suc i < length (L n)")
      case True
      with more c(2) have len: "fl_count (fl_list s n) = length (L n)" by simp
      have "\<forall>j. Suc i < j \<longrightarrow> j < length (L n) \<longrightarrow> \<not> block_is_free (L n ! j) s"
        using len more by simp
      from remove_next_loop_cases [OF inv n True this] show ?thesis
      proof (elim disjE exE conjE)
        fix j assume j: "0 < j" "last_free s (L n) j"
          "remove_next_loop n (Suc i) s = Inr (0, cut_list n (L n) j s)"
        have "relinks s (cut_list n (L n) j s) \<and>
            (\<forall>m. m \<noteq> n \<longrightarrow> fl_list (cut_list n (L n) j s) m = fl_list s m)"
          by (simp add: cut_list_def relinks_def)
        with j len eq cut_list_inv [OF inv n, of j] show ?thesis by (auto simp: last_free_def)
      qed (use eq len more in \<open>simp del: remove_next_loop.simps\<close>)
    next
      case False
      with more remove_next_loop_beyond [OF inv n, of i] eq show ?thesis by simp
    qed
  qed
qed


section \<open>Adding blocks\<close>

text \<open>The memory a new record stands for must be free of all others.\<close>

definition fresh_region :: "nat set \<Rightarrow> nat \<Rightarrow> fl_meta \<Rightarrow> nat set \<Rightarrow> u64 \<Rightarrow> nat \<Rightarrow> bool" where
  "fresh_region P T s V a n \<longleftrightarrow>
     good_block P T a n \<and> (\<forall>k\<in>V. region a n \<inter> blk_region s k = {})"

lemma fl_inv_last:
  assumes "fl_inv P T s V L"
  obtains l where "fl_last s = Some l" "V \<subseteq> {..l}"
    "\<And>n. n \<le> MAX_PAGE_ORDER \<Longrightarrow> l \<in> set (L n) \<Longrightarrow> l = last (L n)"
  using assms unfolding fl_inv_def by auto

lemma new_page_block_eq:
  "fl_last s = Some l \<Longrightarrow> new_page_block a s =
     (Suc l, set_block (Suc l) (fl_blk s (Suc l)\<lparr>pb_page := a, pb_next := None, pb_flags := 0\<rparr>) s
        \<lparr>fl_last := Some (Suc l)\<rparr>)"
  by (simp add: new_page_block_def Let_def)

text \<open>new\_page\_block and then add\_block\_to\_order, as every caller does.\<close>

definition push_block :: "u64 \<Rightarrow> nat \<Rightarrow> fl_meta \<Rightarrow> fl_meta result" where
  "push_block a n s = add_block_to_order (fst (new_page_block a s)) n (snd (new_page_block a s))"

definition pushed :: "u64 \<Rightarrow> nat \<Rightarrow> nat list \<Rightarrow> nat \<Rightarrow> fl_meta \<Rightarrow> fl_meta" where
  "pushed a n xs k s =
     (let s1 = set_block k \<lparr>pb_page = a, pb_order = n, pb_flags = 0, pb_next = None\<rparr> s
                 \<lparr>fl_last := Some k\<rparr>;
          s2 = (if xs = [] then s1 else set_next (last xs) (Some k) s1)
      in set_free_list n (fl_list s n\<lparr>fl_first := (if xs = [] then Some k else fl_first (fl_list s n)),
           fl_count := fl_count (fl_list s n) + 1\<rparr>) s2)"

lemma push_block_eq:
  assumes inv: "fl_inv P T s V L" and n: "n \<le> MAX_PAGE_ORDER" and l: "fl_last s = Some l"
  shows "push_block a n s = Inr (pushed a n (L n) (Suc l) s)"
proof -
  note c = fl_inv_chain [OF inv n]
  obtain l' where "fl_last s = Some l'" "V \<subseteq> {..l'}" using inv by (rule fl_inv_last)
  then have new: "Suc l \<notin> V" using l by auto
  let ?b = "\<lparr>pb_page = a, pb_order = n, pb_flags = 0, pb_next = None\<rparr>"
  let ?s1 = "set_block (Suc l) ?b s\<lparr>fl_last := Some (Suc l)\<rparr>"
  have s1: "set_block (Suc l) (fl_blk (snd (new_page_block a s)) (Suc l)\<lparr>pb_order := n\<rparr>)
      (snd (new_page_block a s)) = ?s1"
    using l by (cases "fl_blk s (Suc l)"; cases s) (simp add: new_page_block_eq set_block_def)
  have list: "fl_list (snd (new_page_block a s)) = fl_list s"
    and fst: "fst (new_page_block a s) = Suc l" using l by (simp_all add: new_page_block_eq)
  show ?thesis
  proof (cases "L n = []")
    case True
    then have "fl_first (fl_list s n) = None" using c(1) by simp
    with True n show ?thesis
      by (simp add: push_block_def add_block_to_order_def fst list s1 pushed_def Let_def)
  next
    case False
    then obtain x xs where x: "L n = x # xs" by (cases "L n") auto
    then have first: "fl_first (fl_list s n) = Some x" using c(1) by simp
    have new_in: "Suc l \<notin> set (L n)" using new c(4) by blast
    have "chain (nexts ?s1) (Some x) (L n)"
      using c(1) first new_in by (simp add: chain_upd_other)
    then have "last_of (nexts ?s1) x = Some (last (L n))" by (rule last_of_chain)
    with False first n show ?thesis
      by (simp add: push_block_def add_block_to_order_def fst list s1 pushed_def Let_def)
        (cases "fl_list s n"; simp)
  qed
qed

lemma pushed_simps:
  assumes "k \<notin> set xs"
  shows "fl_last (pushed a n xs k s) = Some k"
    "pb_page (fl_blk (pushed a n xs k s) j) = (if j = k then a else pb_page (fl_blk s j))"
    "pb_order (fl_blk (pushed a n xs k s) j) = (if j = k then n else pb_order (fl_blk s j))"
    "pb_flags (fl_blk (pushed a n xs k s) j) = (if j = k then 0 else pb_flags (fl_blk s j))"
    "m \<noteq> n \<Longrightarrow> fl_list (pushed a n xs k s) m = fl_list s m"
    "fl_count (fl_list (pushed a n xs k s) n) = fl_count (fl_list s n) + 1"
    "fl_first (fl_list (pushed a n xs k s) n) = (if xs = [] then Some k else fl_first (fl_list s n))"
    "nexts (pushed a n xs k s) = (if xs = [] then (nexts s)(k := None)
       else (nexts s)(k := None, last xs := Some k))"
  using assms last_in_set [of xs] by (auto simp: pushed_def Let_def)

lemma pushed_region:
  "k \<notin> set xs \<Longrightarrow> blk_region (pushed a n xs k s) j = (if j = k then region a n else blk_region s j)"
  by (simp add: blk_region_def pushed_simps)

lemma pushed_used:
  "k \<notin> set xs \<Longrightarrow> block_is_used j (pushed a n xs k s) \<longleftrightarrow> j \<noteq> k \<and> block_is_used j s"
  by (simp add: block_is_used_def pushed_simps)

lemma pushed_chains:
  assumes inv: "fl_inv P T s V L" and n: "n \<le> MAX_PAGE_ORDER" and k: "k \<notin> V"
  shows "chains (pushed a n (L n) k s) (L(n := L n @ [k]))"
  unfolding chains_def
proof (intro allI impI)
  fix m assume m: "m \<le> MAX_PAGE_ORDER"
  note cn = fl_inv_chain [OF inv n] and cm = fl_inv_chain [OF inv m]
  have kn: "k \<notin> set (L n)" and km: "k \<notin> set (L m)" using k cn(4) cm(4) by auto
  let ?s = "pushed a n (L n) k s"
  show "chain (nexts ?s) (fl_first (fl_list ?s m)) ((L(n := L n @ [k])) m) \<and>
      length ((L(n := L n @ [k])) m) \<le> fl_count (fl_list ?s m) \<and>
      (\<forall>j\<in>set ((L(n := L n @ [k])) m). pb_order (fl_blk ?s j) = m)"
  proof (cases "m = n")
    case True
    have "chain (nexts ?s) (fl_first (fl_list ?s n)) (L n @ [k])"
    proof (cases "L n" rule: rev_cases)
      case Nil
      then show ?thesis by (simp add: pushed_simps)
    next
      case (snoc xs x)
      have "chain ((nexts s)(k := None)) (fl_first (fl_list s n)) (xs @ [x])"
        using cn(1) kn snoc by (simp add: chain_upd_other)
      from chain_snoc [OF this, of k] kn snoc show ?thesis by (simp add: pushed_simps)
    qed
    with True kn cn(2,3) show ?thesis by (auto simp: pushed_simps)
  next
    case False
    have last: "last (L n) \<notin> set (L m)" if "L n \<noteq> []"
      using fl_inv_other_list [OF inv n m] False that by simp
    have "chain (nexts ?s) (fl_first (fl_list s m)) (L m)"
      using cm(1) km last by (auto simp: pushed_simps kn chain_upd_other)
    with False kn km cm(2,3) show ?thesis by (auto simp: pushed_simps)
  qed
qed

lemma pushed_inv:
  assumes inv: "fl_inv P T s V L" and fresh: "fresh_region P T s V a n"
    and l: "fl_last s = Some l"
  shows "fl_inv P T (pushed a n (L n) (Suc l) s) (insert (Suc l) V) (L(n := L n @ [Suc l]))"
proof -
  obtain l' where l': "fl_last s = Some l'" "V \<subseteq> {..l'}" using inv by (rule fl_inv_last)
  then have new: "Suc l \<notin> V" using l by auto
  have n: "n \<le> MAX_PAGE_ORDER"
    using inv fresh unfolding fl_inv_def fresh_region_def good_block_def by simp
  have sub: "set (L m) \<subseteq> V" if "m \<le> MAX_PAGE_ORDER" for m using fl_inv_chain(4) [OF inv that] .
  then have kn: "Suc l \<notin> set (L n)" using new n by blast
  let ?s = "pushed a n (L n) (Suc l) s"
  have "disjoint_blocks ?s (insert (Suc l) V)"
    using inv fresh new unfolding fl_inv_def disjoint_blocks_def fresh_region_def
    by (auto simp: pushed_region [OF kn])
  moreover have "\<forall>k\<in>insert (Suc l) V. good_block P T (pb_page (fl_blk ?s k)) (pb_order (fl_blk ?s k))"
    using inv fresh unfolding fl_inv_def fresh_region_def by (auto simp: pushed_simps [OF kn])
  moreover have "insert (Suc l) V \<subseteq> {..Suc l}" using l l' by auto
  moreover have "Suc l = last ((L(n := L n @ [Suc l])) m)"
    if "m \<le> MAX_PAGE_ORDER" "Suc l \<in> set ((L(n := L n @ [Suc l])) m)" for m
    using that sub [OF that(1)] new by (cases "m = n") auto
  moreover have "\<forall>m\<le>MAX_PAGE_ORDER. set ((L(n := L n @ [Suc l])) m) \<subseteq> insert (Suc l) V"
    using sub by auto
  ultimately show ?thesis
    using inv pushed_chains [OF inv n new] unfolding fl_inv_def by (simp add: pushed_simps [OF kn])
qed

text \<open>The summary of adding a block: the invariant, and no used block is affected.\<close>

lemma push_block_inv:
  assumes inv: "fl_inv P T s V L" and fresh: "fresh_region P T s V a n"
  obtains k s' where "push_block a n s = Inr s'" "fst (new_page_block a s) = k" "k \<notin> V"
    "fl_last s' = Some k" "fl_inv P T s' (insert k V) (L(n := L n @ [k]))"
    "same_used s V s' (insert k V)" "\<not> block_is_used k s'"
    "pb_page (fl_blk s' k) = a" "pb_order (fl_blk s' k) = n"
    "\<forall>j\<in>V. blk_region s' j = blk_region s j"
    "\<forall>m. fl_count (fl_list s' m) = fl_count (fl_list s m) + (if m = n then 1 else 0)"
proof -
  obtain l where l: "fl_last s = Some l" "V \<subseteq> {..l}" using inv by (rule fl_inv_last)
  then have new: "Suc l \<notin> V" by auto
  have n: "n \<le> MAX_PAGE_ORDER"
    using inv fresh unfolding fl_inv_def fresh_region_def good_block_def by simp
  have kn: "Suc l \<notin> set (L n)" using fl_inv_chain(4) [OF inv n] new by blast
  show ?thesis
  proof (rule that [of "pushed a n (L n) (Suc l) s" "Suc l"])
    show "same_used s V (pushed a n (L n) (Suc l) s) (insert (Suc l) V)"
      using new by (auto simp: same_used_def pushed_used [OF kn] pushed_simps [OF kn])
    show "fst (new_page_block a s) = Suc l" using l(1) by (simp add: new_page_block_eq)
    show "\<forall>j\<in>V. blk_region (pushed a n (L n) (Suc l) s) j = blk_region s j"
      using new by (auto simp: pushed_region [OF kn])
    show "\<forall>m. fl_count (fl_list (pushed a n (L n) (Suc l) s) m) =
        fl_count (fl_list s m) + (if m = n then 1 else 0)"
      using kn by (simp add: pushed_simps)
  qed (use new kn l push_block_eq [OF inv n l(1)] pushed_inv [OF inv fresh l(1)]
      in \<open>simp_all add: pushed_simps pushed_used\<close>)
qed

end
