(* ===== verification/Page_Alloc_Steps.thy ===== *)
theory Page_Alloc_Steps
  imports Page_Alloc_Inv
begin

text \<open>
  Splitting, allocating, merging and freeing keep the invariant of the page allocator, and
  what they do to the used blocks.
\<close>


lemma split_page_block_push:
  "split_page_block n s =
     bindR (get_next_free_block n s) (\<lambda>pb.
     let base_addr = (case pb of Some k \<Rightarrow> pb_page (fl_blk s k) | None \<Rightarrow> 0) in
     bindR (remove_next_free_block n s) (\<lambda>(ret, s).
     if ret \<noteq> 0 then Inr (1, s)
     else bindR (push_block base_addr (n - 1) s) (\<lambda>s2.
       bindR (push_block (get_buddy_pfn (fst (new_page_block base_addr s)) s2) (n - 1) s2)
         (\<lambda>s. Inr (0, s)))))"
  unfolding split_page_block_def push_block_def Let_def case_prod_unfold by (rule refl)

lemma good_block_order:
  assumes "fl_inv P T s V L" and "k \<in> V"
  shows "pb_order (fl_blk s k) \<le> T" and "pb_order (fl_blk s k) < MAX_PAGE_ORDER"
    and "12 + pb_order (fl_blk s k) < 64"
  using assms unfolding fl_inv_def good_block_def by fastforce+

lemma fl_inv_T: "fl_inv P T s V L \<Longrightarrow> T < MAX_PAGE_ORDER"
  by (simp add: fl_inv_def)

lemma fl_inv_region:
  "fl_inv P T s V L \<Longrightarrow> j \<in> V \<Longrightarrow> k \<in> V \<Longrightarrow> j \<noteq> k \<Longrightarrow> blk_region s j \<inter> blk_region s k = {}"
  by (simp add: fl_inv_def disjoint_blocks_def)

lemma fl_inv_good:
  "fl_inv P T s V L \<Longrightarrow> k \<in> V \<Longrightarrow> good_block P T (pb_page (fl_blk s k)) (pb_order (fl_blk s k))"
  by (simp add: fl_inv_def)

lemma fl_inv_same_page:
  "fl_inv P T s V L \<Longrightarrow> j \<in> V \<Longrightarrow> k \<in> V \<Longrightarrow> pb_page (fl_blk s j) = pb_page (fl_blk s k) \<Longrightarrow> j = k"
  unfolding fl_inv_def disjoint_blocks_def blk_region_def by (metis disjoint_iff region_nonempty)

text \<open>The block that is split is the block that is removed from the list.\<close>

lemma removed_block_unlisted:
  assumes inv: "fl_inv P T s V L" and n: "n \<le> MAX_PAGE_ORDER"
    and k: "block_is_free k s" "pb_order (fl_blk s k) = n"
    and found: "fl_last s = Some k \<or> (\<exists>i. last_free s (L n) i \<and> k = L n ! i)"
    and j: "last_free s (L n) j"
  shows "m \<le> MAX_PAGE_ORDER \<Longrightarrow> k \<notin> set ((L(n := take j (L n))) m)"
proof -
  assume m: "m \<le> MAX_PAGE_ORDER"
  note c = fl_inv_chain [OF inv n]
  have "k = L n ! j" if "k \<in> set (L n)"
  proof (rule disjE [OF found])
    assume "fl_last s = Some k"
    then have "k = last (L n)" using fl_inv_last [OF inv] n that by (metis option.inject)
    moreover have ne: "L n \<noteq> []" using that by auto
    ultimately have "k = L n ! (length (L n) - 1)" by (simp add: last_conv_nth)
    moreover from this ne have "last_free s (L n) (length (L n) - 1)"
      using k(1) by (auto simp: last_free_def)
    ultimately show ?thesis using last_free_unique [OF j] by simp
  next
    assume "\<exists>i. last_free s (L n) i \<and> k = L n ! i"
    with last_free_unique [OF j] show ?thesis by blast
  qed
  moreover have "L n ! j \<notin> set (take j (L n))"
    using c(5) j by (auto simp: in_set_conv_nth last_free_def nth_eq_iff_index_eq)
  ultimately have "k \<notin> set (take j (L n))" by (auto dest: in_set_takeD)
  moreover have "k \<notin> set (L m)" if "m \<noteq> n" using fl_inv_chain(3) [OF inv m] k(2) that by auto
  ultimately show ?thesis by simp
qed

text \<open>Adding the two halves of a block whose memory is free.\<close>

lemma push_halves:
  assumes inv: "fl_inv P T s V L" and fresh: "fresh_region P T s V a (Suc n)"
  shows "\<exists>s2 s' V' L'. push_block a n s = Inr s2 \<and>
    push_block (get_buddy_pfn (fst (new_page_block a s)) s2) n s2 = Inr s' \<and>
    fl_inv P T s' V' L' \<and> last_in s' V' \<and> same_used s V s' V' \<and>
    (\<forall>m. exact_below m s L \<longrightarrow> exact_below m s' L')"
proof -
  have al: "aligned a (Suc n)" and T: "Suc n \<le> T" and P: "region a (Suc n) \<subseteq> P"
    and sep: "\<forall>k\<in>V. region a (Suc n) \<inter> blk_region s k = {}"
    using fresh unfolding fresh_region_def good_block_def by auto
  have n: "12 + n < 64" using T fl_inv_T [OF inv] by simp
  note sp = region_split [OF n al]
  have f1: "fresh_region P T s V a n"
    using sp sep P T unfolding fresh_region_def good_block_def by auto
  obtain k s2 where p1: "push_block a n s = Inr s2" "fst (new_page_block a s) = k" "k \<notin> V"
    "fl_last s2 = Some k" "fl_inv P T s2 (insert k V) (L(n := L n @ [k]))"
    "same_used s V s2 (insert k V)" "\<not> block_is_used k s2"
    "pb_page (fl_blk s2 k) = a" "pb_order (fl_blk s2 k) = n"
    "\<forall>j\<in>V. blk_region s2 j = blk_region s j"
    "\<forall>m. fl_count (fl_list s2 m) = fl_count (fl_list s m) + (if m = n then 1 else 0)"
    by (rule push_block_inv [OF inv f1], rule that)
  have b: "get_buddy_pfn k s2 = buddy_of n a" by (simp add: get_buddy_pfn_def block_pfn_def p1(8,9))
  have k: "blk_region s2 k = region a n" by (simp add: blk_region_def p1(8,9))
  have f2: "fresh_region P T s2 (insert k V) (buddy_of n a) n"
    using sp sep P T aligned_buddy [OF n sp(1)] region_buddy_disjoint [OF n sp(1)] p1(10) k
    unfolding fresh_region_def good_block_def by auto
  obtain k' s' where p2: "push_block (buddy_of n a) n s2 = Inr s'"
    "fst (new_page_block (buddy_of n a) s2) = k'" "k' \<notin> insert k V" "fl_last s' = Some k'"
    "fl_inv P T s' (insert k' (insert k V)) ((L(n := L n @ [k]))(n := (L(n := L n @ [k])) n @ [k']))"
    "same_used s2 (insert k V) s' (insert k' (insert k V))" "\<not> block_is_used k' s'"
    "pb_page (fl_blk s' k') = buddy_of n a" "pb_order (fl_blk s' k') = n"
    "\<forall>j\<in>insert k V. blk_region s' j = blk_region s2 j"
    "\<forall>m. fl_count (fl_list s' m) = fl_count (fl_list s2 m) + (if m = n then 1 else 0)"
    by (rule push_block_inv [OF p1(5) f2], rule that)
  have "last_in s' (insert k' (insert k V))" using p2(4) by (simp add: last_in_def)
  moreover have "same_used s V s' (insert k' (insert k V))"
    by (rule same_used_trans [OF p1(6) p2(6)])
  moreover have "exact_below m s' ((L(n := L n @ [k]))(n := (L(n := L n @ [k])) n @ [k']))"
    if "exact_below m s L" for m
    using that by (simp add: exact_below_def p1(11) p2(11))
  moreover have "push_block (get_buddy_pfn (fst (new_page_block a s)) s2) n s2 = Inr s'"
    using p1(2) p2(1) b by simp
  ultimately show ?thesis using p1(1) p2(5) by blast
qed

lemma same_used_drop: "\<not> block_is_used k s \<Longrightarrow> same_used s V s (V - {k})"
  by (auto simp: same_used_def)

lemma split_page_block_inv:
  assumes inv: "fl_inv P T s V L" and l: "last_in s V" and n: "0 < n" "n \<le> MAX_PAGE_ORDER"
  shows "(\<exists>ret s' V' L'. split_page_block n s = Inr (ret, s') \<and> fl_inv P T s' V' L' \<and>
      last_in s' V' \<and> same_used s V s' V' \<and>
      (exact_below n s L \<longrightarrow> exact_below n s' L')) \<or>
    split_page_block n s = Inl NullDeref \<and> length (L n) < fl_count (fl_list s n)"
  using remove_next_free_block_cases [OF inv n(2)]
proof (elim disjE exE conjE)
  fix j s1 assume j: "last_free s (L n) j" "fl_count (fl_list s n) = length (L n)"
    and rm: "remove_next_free_block n s = Inr (0, s1)" and re: "relinks s s1"
    and same: "\<forall>m. m \<noteq> n \<longrightarrow> fl_list s1 m = fl_list s m"
    and inv1: "fl_inv P T s1 V (L(n := take j (L n)))"
  have "\<exists>k\<in>set (L n). block_is_free k s" using j(1) unfolding last_free_def by auto
  then obtain k where k: "k \<in> V" "get_next_free_block n s = Inr (Some k)" "block_is_free k s"
    "pb_order (fl_blk s k) = n" "fl_last s = Some k \<or> (\<exists>i. last_free s (L n) i \<and> k = L n ! i)"
    using get_next_free_block_cases [OF inv n(2) l] j(2) by auto
  let ?V = "V - {k}"
  have inv2: "fl_inv P T s1 ?V (L(n := take j (L n)))"
  proof (rule fl_inv_restrict [OF inv1])
    fix m assume m: "m \<le> MAX_PAGE_ORDER"
    show "set ((L(n := take j (L n))) m) \<subseteq> ?V"
      using removed_block_unlisted [OF inv n(2) k(3,4,5) j(1) m] fl_inv_chain(4) [OF inv1 m] by blast
  qed blast
  have "fresh_region P T s1 ?V (pb_page (fl_blk s k)) (Suc (n - 1))"
    using fl_inv_good [OF inv k(1)] fl_inv_region [OF inv k(1)] n(1) k(4) relinks_region [OF re]
    unfolding fresh_region_def by (auto simp: blk_region_def)
  from push_halves [OF inv2 this] obtain s2 s' V' L' where
    push: "push_block (pb_page (fl_blk s k)) (n - 1) s1 = Inr s2"
    "push_block (get_buddy_pfn (fst (new_page_block (pb_page (fl_blk s k)) s1)) s2) (n - 1) s2 = Inr s'"
    and res: "fl_inv P T s' V' L'" "last_in s' V'" "same_used s1 ?V s' V'"
      "exact_below n s1 (L(n := take j (L n))) \<longrightarrow> exact_below n s' L'"
    by blast
  have "split_page_block n s = Inr (0, s')"
    using k(2) rm push by (simp add: split_page_block_push Let_def)
  moreover have "same_used s V s' V'"
    using same_used_trans [OF relinks_same_used [OF re] same_used_trans [OF same_used_drop res(3)]]
      k(3) relinks_used [OF re] by (simp add: block_is_free_def)
  moreover have "exact_below n s L \<longrightarrow> exact_below n s' L'"
    using res(4) same by (simp add: exact_below_def)
  ultimately show ?thesis using res(1,2) by blast
next
  assume rm: "remove_next_free_block n s = Inr (1, s)" and len: "fl_count (fl_list s n) = length (L n)"
  have "split_page_block n s = Inr (1, s)"
    using get_next_free_block_cases [OF inv n(2) l] len rm by (auto simp: split_page_block_push Let_def)
  with inv l same_used_refl show ?thesis by blast
next
  assume "remove_next_free_block n s = Inl NullDeref" and "length (L n) < fl_count (fl_list s n)"
  with get_next_free_block_cases [OF inv n(2) l] show ?thesis
    by (auto simp: split_page_block_push Let_def)
qed


section \<open>Allocation\<close>

text \<open>What an allocator step leaves: the invariant and the used blocks.\<close>

definition keeps :: "nat set \<Rightarrow> nat \<Rightarrow> fl_meta \<Rightarrow> nat set \<Rightarrow> fl_meta \<Rightarrow> nat set \<Rightarrow> (nat \<Rightarrow> nat list) \<Rightarrow> bool" where
  "keeps P T s V s' V' L' \<longleftrightarrow> fl_inv P T s' V' L' \<and> last_in s' V' \<and> same_used s V s' V'"

lemma keeps_trans: "keeps P T s V s' V' L' \<Longrightarrow> keeps P T s' V' s'' V'' L'' \<Longrightarrow> keeps P T s V s'' V'' L''"
  unfolding keeps_def using same_used_trans by blast

lemma keeps_refl: "fl_inv P T s V L \<Longrightarrow> last_in s V \<Longrightarrow> keeps P T s V s V L"
  by (simp add: keeps_def same_used_refl)

definition free_in :: "pb_ptr \<Rightarrow> nat \<Rightarrow> fl_meta \<Rightarrow> nat set \<Rightarrow> bool" where
  "free_in pb n s V \<longleftrightarrow>
     (\<forall>k. pb = Some k \<longrightarrow> k \<in> V \<and> block_is_free k s \<and> pb_order (fl_blk s k) = n)"

lemma exact_below_mono: "exact_below n s L \<Longrightarrow> m \<le> n \<Longrightarrow> exact_below m s L"
  by (simp add: exact_below_def)

lemma reduce_to_order_inv:
  assumes "fl_inv P T s V L" and "last_in s V" and "c \<le> MAX_PAGE_ORDER" and "t \<le> MAX_PAGE_ORDER"
  shows "(\<exists>pb s' V' L'. reduce_to_order c t s = Inr (pb, s') \<and> keeps P T s V s' V' L' \<and>
      free_in pb t s' V') \<or>
    reduce_to_order c t s = Inl NullDeref \<and> \<not> exact_below (Suc (max c t)) s L"
  using assms
proof (induction c arbitrary: s V L)
  case 0
  then show ?case
    using get_next_free_block_cases [OF 0(1) 0(4) 0(2)] keeps_refl [OF 0(1,2)]
    by (fastforce simp: reduce_to_order.simps free_in_def exact_below_def)
next
  case (Suc c)
  show ?case
  proof (cases "t < Suc c")
    case False
    then show ?thesis
      using get_next_free_block_cases [OF Suc.prems(1,4,2)] keeps_refl [OF Suc.prems(1,2)]
      by (fastforce simp: reduce_to_order.simps free_in_def exact_below_def)
  next
    case True
    from split_page_block_inv [OF Suc.prems(1,2) zero_less_Suc Suc.prems(3)] show ?thesis
    proof (elim disjE exE conjE)
      fix ret s1 V1 L1 assume split: "split_page_block (Suc c) s = Inr (ret, s1)"
        and s1: "fl_inv P T s1 V1 L1" "last_in s1 V1" "same_used s V s1 V1"
        and ex: "exact_below (Suc c) s L \<longrightarrow> exact_below (Suc c) s1 L1"
      have k1: "keeps P T s V s1 V1 L1" using s1 by (simp add: keeps_def)
      show ?thesis
      proof (cases "ret = 0")
        case False
        with True split k1 show ?thesis by (auto simp: reduce_to_order.simps free_in_def)
      next
        case r0: True
        then have eq: "reduce_to_order (Suc c) t s = reduce_to_order c t s1"
          using True split by (subst reduce_to_order.simps) simp
        have "Suc (max c t) = Suc c" "Suc c \<le> Suc (max (Suc c) t)" using True by auto
        with Suc.IH [OF s1(1,2) _ Suc.prems(4)] Suc.prems(3) ex show ?thesis
          unfolding eq by (metis Suc_leD exact_below_mono k1 keeps_trans)
      qed
    qed (use True in \<open>auto simp: reduce_to_order.simps exact_below_def\<close>)
  qed
qed

lemma find_free_order_bounds:
  "c \<le> MAX_PAGE_ORDER \<Longrightarrow> \<exists>m. find_free_order c s = Inr m \<and> c \<le> m \<and> m \<le> MAX_PAGE_ORDER"
proof (induction c s rule: find_free_order.induct)
  case (1 c s)
  show ?case
  proof (cases "c < MAX_PAGE_ORDER")
    case True
    then have "list_has_free_block c s = Inr (fl_count (fl_list s c) \<noteq> 0 \<and>
        has_free_loop s (fl_count (fl_list s c)) (fl_first (fl_list s c)))"
      by (simp add: list_has_free_block_def page_block_exists_def)
    then obtain b where b: "list_has_free_block c s = Inr b" by blast
    show ?thesis
    proof (cases b)
      case True
      with b \<open>c < MAX_PAGE_ORDER\<close> show ?thesis by (subst find_free_order.simps) simp
    next
      case False
      with "1.IH" [OF True b] b True show ?thesis
        by (subst find_free_order.simps) (auto dest: Suc_leD)
    qed
  qed (use 1 in \<open>simp add: find_free_order.simps\<close>)
qed

lemma get_block_inv:
  assumes inv: "fl_inv P T s V L" "last_in s V" and n: "n \<le> MAX_PAGE_ORDER"
  shows "(\<exists>pb s' V' L'. get_block n s = Inr (pb, s') \<and> keeps P T s V s' V' L' \<and>
      free_in pb n s' V') \<or>
    get_block n s = Inl NullDeref \<and> \<not> exact_below (MAX_PAGE_ORDER + 1) s L"
proof -
  obtain m where m: "find_free_order n s = Inr m" "n \<le> m" "m \<le> MAX_PAGE_ORDER"
    using find_free_order_bounds [OF n] by blast
  then have eq: "get_block n s = reduce_to_order m n s" by (simp add: get_block_def)
  have "Suc (max m n) \<le> MAX_PAGE_ORDER + 1" using m by simp
  with reduce_to_order_inv [OF inv m(3) n] exact_below_mono show ?thesis unfolding eq by blast
qed

text \<open>Changing the flags of a block only changes which blocks are used.\<close>

lemma mark_simps [simp]:
  "fl_list (mark_block_used k s) = fl_list s" "fl_list (mark_block_free k s) = fl_list s"
  "fl_last (mark_block_used k s) = fl_last s" "fl_last (mark_block_free k s) = fl_last s"
  "nexts (mark_block_used k s) = nexts s" "nexts (mark_block_free k s) = nexts s"
  "pb_page (fl_blk (mark_block_used k s) j) = pb_page (fl_blk s j)"
  "pb_page (fl_blk (mark_block_free k s) j) = pb_page (fl_blk s j)"
  "pb_order (fl_blk (mark_block_used k s) j) = pb_order (fl_blk s j)"
  "pb_order (fl_blk (mark_block_free k s) j) = pb_order (fl_blk s j)"
  "block_is_used j (mark_block_used k s) \<longleftrightarrow> j = k \<or> block_is_used j s"
  "block_is_used j (mark_block_free k s) \<longleftrightarrow> j \<noteq> k \<and> block_is_used j s"
  by (auto simp: mark_block_used_def mark_block_free_def block_is_used_def nexts_def)

lemma fl_inv_mark:
  "fl_inv P T (mark_block_used k s) V L = fl_inv P T s V L"
  "fl_inv P T (mark_block_free k s) V L = fl_inv P T s V L"
  "last_in (mark_block_used k s) V = last_in s V" "last_in (mark_block_free k s) V = last_in s V"
  by (simp_all add: fl_inv_defs blk_region_def last_in_def)

lemma page_order_loop_le: "(i = 0 \<or> PAGE_BLOCK (i - 1) < unat n) \<Longrightarrow>
   unat n \<le> PAGE_BLOCK (page_order_loop n i) \<and>
   (page_order_loop n i = 0 \<or> PAGE_BLOCK (page_order_loop n i - 1) < unat n)"
proof (induction n i rule: page_order_loop.induct)
  case (1 n i)
  show ?case
  proof (cases "PAGE_BLOCK i < unat n")
    case True
    then have "page_order_loop n i = page_order_loop n (i + 1)"
      by (subst page_order_loop.simps) simp
    with "1.IH" [OF True] True show ?thesis by simp
  next
    case False
    then have "page_order_loop n i = i" by (subst page_order_loop.simps) simp
    with False "1.prems" show ?thesis by simp
  qed
qed

lemma get_page_order_least:
  "unat n \<le> PAGE_BLOCK (get_page_order n)"
  "get_page_order n = 0 \<or> PAGE_BLOCK (get_page_order n - 1) < unat n"
  using page_order_loop_le [of 0 n] by (simp_all add: get_page_order_def)

lemma get_page_order_max: "unat n \<le> MAX_PAGE_BLOCK \<Longrightarrow> get_page_order n \<le> MAX_PAGE_ORDER"
proof (rule ccontr)
  assume n: "unat n \<le> MAX_PAGE_BLOCK" and "\<not> get_page_order n \<le> MAX_PAGE_ORDER"
  then have o: "MAX_PAGE_ORDER \<le> get_page_order n - 1" "get_page_order n \<noteq> 0" by auto
  then have "MAX_PAGE_BLOCK \<le> PAGE_BLOCK (get_page_order n - 1)" by (intro power_increasing) auto
  with get_page_order_least(2) [of n] o n show False by simp
qed

text \<open>
  page\_alloc returns 0 and keeps the used blocks, or it returns the address of a block
  that was not used and is used now, of the least order that holds the request.
\<close>

lemma page_alloc_inv:
  assumes inv: "fl_inv P T s V L" "last_in s V"
  shows "(\<exists>s' V' L'. page_alloc n s = Inr (0, s') \<and> keeps P T s V s' V' L') \<or>
    (\<exists>a s1 s' V' L' k. page_alloc n s = Inr (a, s') \<and> keeps P T s V s1 V' L' \<and>
      s' = mark_block_used k s1 \<and> k \<in> V' \<and> \<not> block_is_used k s1 \<and> pb_page (fl_blk s1 k) = a \<and>
      pb_order (fl_blk s1 k) = get_page_order n) \<or>
    page_alloc n s = Inl NullDeref \<and> \<not> exact_below (MAX_PAGE_ORDER + 1) s L"
proof (cases "n = 0 \<or> MAX_PAGE_BLOCK < unat n")
  case True
  then show ?thesis using keeps_refl [OF inv] by (auto simp: page_alloc_def)
next
  case False
  then have "get_page_order n \<le> MAX_PAGE_ORDER" using get_page_order_max by simp
  from get_block_inv [OF inv this] show ?thesis
  proof (elim disjE exE conjE)
    fix pb s1 V' L' assume g: "get_block (get_page_order n) s = Inr (pb, s1)"
      "keeps P T s V s1 V' L'" "free_in pb (get_page_order n) s1 V'"
    show ?thesis
    proof (cases pb)
      case None
      with False g show ?thesis by (auto simp: page_alloc_def)
    next
      case (Some k)
      with False g(1) have "page_alloc n s = Inr (pb_page (fl_blk s1 k), mark_block_used k s1)"
        by (simp add: page_alloc_def Let_def)
      moreover have "k \<in> V'" "\<not> block_is_used k s1" "pb_order (fl_blk s1 k) = get_page_order n"
        using Some g(3) by (auto simp: free_in_def block_is_free_def)
      ultimately show ?thesis using g(2) by blast
    qed
  qed (use False in \<open>simp add: page_alloc_def\<close>)
qed


section \<open>Freeing\<close>

lemma find_pfn_in_order_inv:
  assumes "fl_inv P T s V L" and "n \<le> MAX_PAGE_ORDER"
  shows "find_pfn_in_order p n s = Inr (List.find (\<lambda>k. pb_page (fl_blk s k) = p) (L n))"
  using assms find_ptr_chain [OF fl_inv_chain(1) [OF assms]] by (simp add: find_pfn_in_order_def)

lemma find_block_loop_inv:
  assumes inv: "fl_inv P T s V L" and "set ns \<subseteq> {..MAX_PAGE_ORDER}"
  shows "(\<exists>n\<in>set ns. \<exists>k\<in>set (L n). find_block_loop p ns s = Inr (Some k) \<and> pb_page (fl_blk s k) = p) \<or>
    (\<forall>n\<in>set ns. \<forall>k\<in>set (L n). pb_page (fl_blk s k) \<noteq> p) \<and> find_block_loop p ns s = Inr None"
  using assms(2)
proof (induction ns)
  case (Cons n ns)
  then show ?case
    using find_pfn_in_order_inv [OF inv, of n p]
    by (cases "List.find (\<lambda>k. pb_page (fl_blk s k) = p) (L n)")
      (auto simp: find_None_iff find_Some_iff)
qed simp

lemma find_block_by_pfn_inv:
  assumes inv: "fl_inv P T s V L"
  shows "(\<exists>n\<le>MAX_PAGE_ORDER. \<exists>k\<in>set (L n). find_block_by_pfn p s = Inr (Some k) \<and> pb_page (fl_blk s k) = p) \<or>
    (\<forall>n\<le>MAX_PAGE_ORDER. \<forall>k\<in>set (L n). pb_page (fl_blk s k) \<noteq> p) \<and> find_block_by_pfn p s = Inr None"
proof -
  have orders: "set [0..<MAX_PAGE_ORDER + 1] = {..MAX_PAGE_ORDER}" by auto
  from find_block_loop_inv [OF inv, of "[0..<MAX_PAGE_ORDER + 1]" p] show ?thesis
    unfolding find_block_by_pfn_def orders by (simp only: Ball_def Bex_def atMost_iff order_refl)
qed

lemma card_region [simp]: "card (region a n) = blk_bytes n" "finite (region a n)"
  by (simp_all add: region_def)

lemma blk_bytes_le_iff: "blk_bytes n \<le> blk_bytes m \<longleftrightarrow> n \<le> m"
  by (simp add: blk_bytes_def)

lemma buddy_neq:
  assumes "12 + n < 64" and "aligned a n"
  shows "buddy_of n a \<noteq> a"
  using region_buddy_disjoint [OF assms] region_nonempty by fastforce

lemma merge_buddy_push:
  "merge_buddy pb s =
     bindR (get_block_buddy pb s) (\<lambda>found.
     case found of
       None \<Rightarrow> Inr s
     | Some buddy_pb \<Rightarrow>
         if block_is_used pb s \<or> block_is_used buddy_pb s then Inr s
         else bindR (remove_page_block pb s) (\<lambda>(ret, s1).
              if ret \<noteq> 0 then Inr s1
              else bindR (remove_page_block buddy_pb s1) (\<lambda>(ret, s2).
              if ret \<noteq> 0 then Inr s2
              else let final_pfn = (if block_pfn buddy_pb s < block_pfn pb s
                     then block_pfn buddy_pb s else pb_page (fl_blk s pb)) in
                bindR (push_block final_pfn (pb_order (fl_blk s pb) + 1) s2) (\<lambda>s3.
                merge_buddy (fst (new_page_block final_pfn s2)) s3))))"
  by (subst merge_buddy.simps, unfold push_block_def Let_def, rule refl)

text \<open>Two free buddies that were unlinked leave their memory to the merged block.\<close>

lemma merged_region_fresh:
  assumes inv: "fl_inv P T s V L" and a: "a \<in> V" and b: "b \<in> V"
    and n: "pb_order (fl_blk s a) = n" "pb_order (fl_blk s b) = n"
    and buddy: "pb_page (fl_blk s b) = buddy_of n (pb_page (fl_blk s a))"
  shows "fresh_region P T s (V - {a, b})
    (if buddy_of n (pb_page (fl_blk s a)) < pb_page (fl_blk s a)
     then buddy_of n (pb_page (fl_blk s a)) else pb_page (fl_blk s a)) (Suc n)"
    (is "fresh_region P T s _ ?f _")
proof -
  have n64: "12 + n < 64" using good_block_order(3) [OF inv a] n(1) by simp
  have al: "aligned (pb_page (fl_blk s a)) n"
    using fl_inv_good [OF inv a] n(1) by (simp add: good_block_def)
  note m = region_merge [OF n64 al refl]
  have u: "region ?f (Suc n) = blk_region s a \<union> blk_region s b"
    using m(2) n buddy by (simp add: blk_region_def)
  then have P: "region ?f (Suc n) \<subseteq> P"
    using fl_inv_good [OF inv a] fl_inv_good [OF inv b] by (simp add: good_block_def blk_region_def)
  then have "card (region ?f (Suc n)) \<le> card P" using inv by (intro card_mono) (auto simp: fl_inv_def)
  then have "Suc n \<le> T" using inv by (simp only: card_region blk_bytes_le_iff fl_inv_def)
  moreover have "region ?f (Suc n) \<inter> blk_region s k = {}" if "k \<in> V - {a, b}" for k
    using that fl_inv_region [OF inv a, of k] fl_inv_region [OF inv b, of k] unfolding u by auto
  ultimately show ?thesis using m(1) P unfolding fresh_region_def good_block_def by blast
qed

lemma relinks_keeps:
  "relinks s s' \<Longrightarrow> last_in s V \<Longrightarrow> fl_inv P T s' V L' \<Longrightarrow> keeps P T s V s' V L'"
  by (auto simp: keeps_def relinks_same_used last_in_def relinks_def)

lemma merge_buddy_inv:
  assumes "fl_inv P T s V L" and "last_in s V" and "pb \<in> V" and "\<not> block_is_used pb s"
  shows "\<exists>s' V' L'. merge_buddy pb s = Inr s' \<and> keeps P T s V s' V' L'"
  using assms
proof (induction "MAX_PAGE_ORDER - pb_order (fl_blk s pb)" arbitrary: pb s V L rule: less_induct)
  case less
  note inv = less.prems(1) and pb = less.prems(3)
  define n where "n = pb_order (fl_blk s pb)"
  define a where "a = pb_page (fl_blk s pb)"
  have n: "n < MAX_PAGE_ORDER" "12 + n < 64" "n \<le> MAX_PAGE_ORDER"
    using good_block_order [OF inv pb] by (simp_all add: n_def)
  have al: "aligned a n" using fl_inv_good [OF inv pb] by (simp add: good_block_def a_def n_def)
  have get: "get_block_buddy pb s = Inr (List.find (\<lambda>k. pb_page (fl_blk s k) = buddy_of n a) (L n))"
    using find_pfn_in_order_inv [OF inv n(3)]
    by (simp add: get_block_buddy_def get_buddy_pfn_def block_pfn_def n_def a_def)
  show ?case
  proof (cases "List.find (\<lambda>k. pb_page (fl_blk s k) = buddy_of n a) (L n)")
    case None
    then show ?thesis
      using get keeps_refl [OF inv less.prems(2)] by (subst merge_buddy_push) auto
  next
    case (Some b)
    then have b: "b \<in> set (L n)" "pb_page (fl_blk s b) = buddy_of n a" by (auto simp: find_Some_iff)
    have bV: "b \<in> V" "pb_order (fl_blk s b) = n" using fl_inv_chain(3,4) [OF inv n(3)] b(1) by auto
    have neq: "b \<noteq> pb" using b(2) buddy_neq [OF n(2) al] by (auto simp: a_def)
    show ?thesis
    proof (cases "block_is_used b s")
      case True
      then show ?thesis
        using get Some keeps_refl [OF inv less.prems(2)] by (subst merge_buddy_push) auto
    next
      case unused: False
      obtain r1 s1 xs where r1: "remove_page_block pb s = Inr (r1, s1)" "relinks s s1"
        "fl_inv P T s1 V (L(n := xs))" "r1 = 0 \<longrightarrow> pb \<notin> set xs"
        using remove_page_block_inv [OF inv pb] unfolding n_def by blast
      show ?thesis
      proof (cases "r1 = 0")
        case False
        then show ?thesis
          using get Some unused less.prems(4) r1(1) relinks_keeps [OF r1(2) less.prems(2) r1(3)]
          by (subst merge_buddy_push) auto
      next
        case z1: True
        have b1: "pb_order (fl_blk s1 b) = n" using r1(2) bV(2) by (simp add: relinks_def)
        obtain r2 s2 ys where r2: "remove_page_block b s1 = Inr (r2, s2)" "relinks s1 s2"
          "fl_inv P T s2 V (L(n := ys))" "set ys \<subseteq> set xs" "r2 = 0 \<longrightarrow> b \<notin> set ys"
          using remove_page_block_inv [OF r1(3) bV(1)] unfolding b1 by auto
        have re: "relinks s s2" by (rule relinks_trans [OF r1(2) r2(2)])
        show ?thesis
        proof (cases "r2 = 0")
          case False
          then show ?thesis
            using get Some unused less.prems(4) r1(1) z1 r2(1) relinks_keeps [OF re less.prems(2) r2(3)]
            by (subst merge_buddy_push) auto
        next
          case z2: True
          define f where "f = (if buddy_of n a < a then buddy_of n a else a)"
          have o2: "pb_order (fl_blk s2 pb) = n" "pb_order (fl_blk s2 b) = n"
            "pb_page (fl_blk s2 pb) = a" "pb_page (fl_blk s2 b) = buddy_of n a"
            using re bV b by (simp_all add: relinks_def n_def a_def)
          let ?W = "V - {pb, b}"
          have inv2: "fl_inv P T s2 ?W (L(n := ys))"
          proof (rule fl_inv_restrict [OF r2(3)])
            fix m assume m: "m \<le> MAX_PAGE_ORDER"
            have "pb \<notin> set ((L(n := ys)) m)" "b \<notin> set ((L(n := ys)) m)"
              using r1(4) r2(4,5) z1 z2 fl_inv_chain(3) [OF inv m] bV(2) by (auto simp: n_def)
            then show "set ((L(n := ys)) m) \<subseteq> ?W" using fl_inv_chain(4) [OF r2(3) m] by blast
          qed blast
          have fresh: "fresh_region P T s2 ?W f (Suc n)"
            using merged_region_fresh [OF r2(3) pb bV(1) o2(1,2)] unfolding o2(3,4) f_def by blast
          obtain k s3 where p: "push_block f (Suc n) s2 = Inr s3" "fst (new_page_block f s2) = k"
            "k \<notin> ?W" "fl_last s3 = Some k"
            "fl_inv P T s3 (insert k ?W) ((L(n := ys))(Suc n := (L(n := ys)) (Suc n) @ [k]))"
            "same_used s2 ?W s3 (insert k ?W)" "\<not> block_is_used k s3"
            "pb_page (fl_blk s3 k) = f" "pb_order (fl_blk s3 k) = Suc n"
            "\<forall>j\<in>?W. blk_region s3 j = blk_region s2 j"
            "\<forall>m. fl_count (fl_list s3 m) = fl_count (fl_list s2 m) + (if m = Suc n then 1 else 0)"
            by (rule push_block_inv [OF inv2 fresh], rule that)
          have "last_in s3 (insert k ?W)" using p(4) by (simp add: last_in_def)
          moreover have "MAX_PAGE_ORDER - pb_order (fl_blk s3 k) < MAX_PAGE_ORDER - pb_order (fl_blk s pb)"
            using p(9) n(1) by (simp add: n_def)
          ultimately obtain s' V' L' where
            ih: "merge_buddy k s3 = Inr s'" "keeps P T s3 (insert k ?W) s' V' L'"
            using less.hyps [OF _ p(5) _ _ p(7)] by blast
          have "same_used s2 V s2 ?W"
            using unused less.prems(4) relinks_used [OF re] by (auto simp: same_used_def)
          then have "same_used s V s3 (insert k ?W)"
            using relinks_same_used [OF re] p(6) same_used_trans by blast
          then have "keeps P T s V s' V' L'" using ih(2) same_used_trans unfolding keeps_def by blast
          moreover have "(if block_pfn b s < block_pfn pb s then block_pfn b s
              else pb_page (fl_blk s pb)) = f"
            using b(2) by (simp add: block_pfn_def f_def a_def)
          then have "merge_buddy pb s = Inr s'"
            using get Some unused less.prems(4) r1(1) z1 r2(1) z2 p(1,2) ih(1)
            by (subst merge_buddy_push) (simp add: Let_def n_def [symmetric])
          ultimately show ?thesis by blast
        qed
      qed
    qed
  qed
qed

text \<open>
  page\_free always returns. It frees at most the blocks with the given address, and
  leaves every other used block as it was.
\<close>

lemma page_free_inv:
  assumes inv: "fl_inv P T s V L" "last_in s V"
  shows "\<exists>s' V' L' s1. page_free p s = Inr s' \<and> keeps P T s1 V s' V' L' \<and>
    (s1 = s \<or> (\<exists>k\<in>V. pb_page (fl_blk s k) = p \<and> s1 = mark_block_free k s))"
  using find_block_by_pfn_inv [OF inv(1), of p]
proof (elim disjE exE conjE bexE)
  fix n k assume n: "n \<le> MAX_PAGE_ORDER" and k: "k \<in> set (L n)"
    "find_block_by_pfn p s = Inr (Some k)" "pb_page (fl_blk s k) = p"
  have kV: "k \<in> V" using fl_inv_chain(4) [OF inv(1) n] k(1) by blast
  obtain s' V' L' where "merge_buddy k (mark_block_free k s) = Inr s'"
    "keeps P T (mark_block_free k s) V s' V' L'"
    using merge_buddy_inv [of P T "mark_block_free k s" V L k] inv kV by (auto simp: fl_inv_mark)
  with k kV show ?thesis by (auto simp: page_free_def)
next
  assume "find_block_by_pfn p s = Inr None"
  with keeps_refl [OF inv] show ?thesis by (auto simp: page_free_def)
qed

end
