(* ===== verification/Page_Records.thy ===== *)
theory Page_Records
  imports Page_Alloc_Steps
begin

text \<open>
  How many records of the metadata area the operations of the page allocator use up: two
  for each split, one for each merge. Nothing gives a record back.
\<close>

section \<open>Operations that make no record\<close>

lemma add_block_to_order_last: "add_block_to_order pb n s = Inr s' \<Longrightarrow> fl_last s' = fl_last s"
  by (auto simp: add_block_to_order_def Let_def result_simps split: option.splits)

lemma remove_page_block_last_entry: "remove_page_block pb s = Inr (r, s') \<Longrightarrow> fl_last s' = fl_last s"
  by (auto simp: remove_page_block_def Let_def result_simps split: option.splits if_splits)

lemma remove_next_loop_last: "remove_next_loop n i s = Inr (r, s') \<Longrightarrow> fl_last s' = fl_last s"
  by (induction n i s rule: remove_next_loop.induct) (auto simp: result_simps split: if_splits)

lemma remove_next_free_block_last: "remove_next_free_block n s = Inr (r, s') \<Longrightarrow> fl_last s' = fl_last s"
  by (auto simp: remove_next_free_block_def result_simps split: if_splits dest: remove_next_loop_last)

lemma records_mark [simp]:
  "records (mark_block_used k s) = records s" "records (mark_block_free k s) = records s"
  by (simp_all add: records_def mark_block_used_def mark_block_free_def)

lemma records_last: "fl_last s' = fl_last s \<Longrightarrow> records s' = records s"
  by (simp add: records_def)

section \<open>Operations that make records\<close>

lemma new_page_block_records [simp]: "records (snd (new_page_block a s)) = Suc (records s)"
  by (simp add: new_page_block_def records_def Let_def split: option.splits)

lemma split_page_block_records:
  "split_page_block n s = Inr (r, s') \<Longrightarrow> records s' \<le> records s + 2"
  by (auto simp: split_page_block_def Let_def result_simps case_prod_unfold split: if_splits
      dest!: remove_next_free_block_last add_block_to_order_last records_last)

lemma reduce_to_order_step:
  "reduce_to_order c r s = (if r < c then bindR (split_page_block c s) (\<lambda>(ret, s).
       if ret \<noteq> 0 then Inr (None, s) else reduce_to_order (c - 1) r s)
     else bindR (get_next_free_block r s) (\<lambda>pb. Inr (pb, s)))"
  by (rule reduce_to_order.simps)

lemma reduce_to_order_records:
  "reduce_to_order c r s = Inr (p, s') \<Longrightarrow> records s' \<le> records s + 2 * (c - r)"
proof (induction "c - r" arbitrary: c s)
  case 0
  then show ?case by (auto simp: reduce_to_order_step [of c] result_simps)
next
  case (Suc d)
  then have c: "r < c" "d = c - 1 - r" by auto
  with Suc.prems obtain x s1 where s1: "split_page_block c s = Inr (x, s1)"
    "s' = s1 \<or> reduce_to_order (c - 1) r s1 = Inr (p, s')"
    by (subst (asm) reduce_to_order_step) (auto simp: result_simps split: if_splits)
  from s1(2) have "records s' \<le> records s1 + 2 * (c - 1 - r)" using Suc.hyps(1) [OF c(2)] by auto
  with split_page_block_records [OF s1(1)] c show ?case by auto
qed

lemma find_free_order_le: "find_free_order r s = Inr c \<Longrightarrow> r \<le> MAX_PAGE_ORDER \<Longrightarrow> c \<le> MAX_PAGE_ORDER"
proof (induction "MAX_PAGE_ORDER - r" arbitrary: r)
  case 0
  then have "find_free_order r s = Inr r" by (subst find_free_order.simps) simp
  with 0 show ?case by simp
next
  case (Suc d)
  then have "d = MAX_PAGE_ORDER - (r + 1)" "r < MAX_PAGE_ORDER" by auto
  with Suc.prems Suc.hyps(1) [of "r + 1"] show ?case
    by (subst (asm) find_free_order.simps) (auto simp: result_simps split: if_splits)
qed

lemma get_block_records:
  assumes "get_block r s = Inr (p, s')" and "r \<le> MAX_PAGE_ORDER"
  shows "records s' \<le> records s + 2 * MAX_PAGE_ORDER"
proof -
  obtain c where c: "find_free_order r s = Inr c" "reduce_to_order c r s = Inr (p, s')"
    using assms find_free_order_le by (fastforce simp: get_block_def result_simps split: if_splits)
  have "c - r \<le> MAX_PAGE_ORDER" using find_free_order_le [OF c(1) assms(2)] by simp
  with reduce_to_order_records [OF c(2)] show ?thesis by linarith
qed

lemma page_alloc_records:
  assumes "page_alloc n s = Inr (a, s')"
  shows "records s' \<le> records s + 2 * MAX_PAGE_ORDER"
proof (cases "n = 0 \<or> MAX_PAGE_BLOCK < unat n")
  case True
  then have "page_alloc n s = Inr (0, s)" by (auto simp: page_alloc_def)
  with assms show ?thesis by simp
next
  case False
  with assms obtain p s1 where "get_block (get_page_order n) s = Inr (p, s1)" "records s' = records s1"
    by (auto simp: page_alloc_def Let_def result_simps split: option.splits)
  with get_block_records False get_page_order_max show ?thesis by (metis not_le)
qed

lemma push_block_records:
  assumes "push_block a n s = Inr s3"
  shows "records s3 = Suc (records s) \<and> n \<le> MAX_PAGE_ORDER \<and>
    pb_order (fl_blk s3 (fst (new_page_block a s))) = n"
  using add_block_to_order_order [of "fst (new_page_block a s)" n "snd (new_page_block a s)" s3]
    add_block_to_order_last [of "fst (new_page_block a s)" n "snd (new_page_block a s)" s3] assms
  by (auto simp: push_block_def Let_def case_prod_unfold dest: records_last)

lemma merge_tail:
  assumes "bindR (remove_page_block pb s) (\<lambda>(ret, s1).
      if ret \<noteq> 0 then Inr s1
      else bindR (remove_page_block b s1) (\<lambda>(ret, s2).
      if ret \<noteq> 0 then Inr s2
      else bindR (push_block a n s2) (\<lambda>s3. merge_buddy (fst (new_page_block a s2)) s3))) = Inr s'"
  shows "records s' = records s \<or> (\<exists>a s2. records s2 = records s \<and>
    (\<exists>s3. push_block a n s2 = Inr s3 \<and> merge_buddy (fst (new_page_block a s2)) s3 = Inr s'))"
proof -
  obtain r1 s1 where 1: "remove_page_block pb s = Inr (r1, s1)" using assms by (auto simp: bindR_Inr_iff)
  note k1 = records_last [OF remove_page_block_last_entry [OF 1]]
  show ?thesis
  proof (cases "r1 = 0")
    case True
    then obtain r2 s2 where 2: "remove_page_block b s1 = Inr (r2, s2)" using assms 1 by (auto simp: bindR_Inr_iff)
    note k2 = records_last [OF remove_page_block_last_entry [OF 2]]
    show ?thesis
    proof (cases "r2 = 0")
      case True
      with \<open>r1 = 0\<close> have "bindR (push_block a n s2) (\<lambda>s3. merge_buddy (fst (new_page_block a s2)) s3) = Inr s'"
        using assms 1 2 by simp
      with k1 k2 show ?thesis by (auto simp: bindR_Inr_iff)
    qed (use assms 1 2 k1 k2 \<open>r1 = 0\<close> in simp)
  qed (use assms 1 k1 in simp)
qed

lemma merge_buddy_one:
  assumes "merge_buddy pb s = Inr s'"
  shows "records s' = records s \<or> (\<exists>a s2. records s2 = records s \<and>
    (\<exists>s3. push_block a (pb_order (fl_blk s pb) + 1) s2 = Inr s3 \<and>
      merge_buddy (fst (new_page_block a s2)) s3 = Inr s'))"
proof -
  let ?m = "\<lambda>b. bindR (remove_page_block pb s) (\<lambda>(ret, s1).
      if ret \<noteq> 0 then Inr s1
      else bindR (remove_page_block b s1) (\<lambda>(ret, s2).
      if ret \<noteq> 0 then Inr s2
      else let a = (if block_pfn b s < block_pfn pb s then block_pfn b s else pb_page (fl_blk s pb)) in
        bindR (push_block a (pb_order (fl_blk s pb) + 1) s2) (\<lambda>s3.
        merge_buddy (fst (new_page_block a s2)) s3)))"
  obtain b where "s' = s \<or> ?m b = Inr s'"
  proof (cases "get_block_buddy pb s")
    case (Inl e)
    with assms show ?thesis by (simp add: merge_buddy_push [of pb s])
  next
    case (Inr found)
    note e = assms [unfolded merge_buddy_push [of pb s] Inr bindR.simps]
    show ?thesis
    proof (cases found)
      case None
      with e show ?thesis using that by simp
    next
      case (Some b)
      with e have "s' = s \<or> ?m b = Inr s'"
        by (cases "block_is_used pb s \<or> block_is_used b s") (simp_all only: option.case if_True if_False sum.inject simp_thms)
      then show ?thesis by (rule that)
    qed
  qed
  then show ?thesis unfolding Let_def using merge_tail by blast
qed

lemma merge_buddy_records:
  "merge_buddy pb s = Inr s' \<Longrightarrow> records s' \<le> records s + (MAX_PAGE_ORDER - pb_order (fl_blk s pb))"
proof (induction "MAX_PAGE_ORDER + 1 - pb_order (fl_blk s pb)" arbitrary: pb s rule: less_induct)
  case less
  from merge_buddy_one [OF less.prems] show ?case
  proof (elim disjE exE conjE)
    fix a s2 s3 assume "records s2 = records s" "push_block a (pb_order (fl_blk s pb) + 1) s2 = Inr s3"
      and m: "merge_buddy (fst (new_page_block a s2)) s3 = Inr s'"
    with push_block_records [of a _ s2 s3] less.hyps [OF _ m] show ?thesis by force
  qed simp
qed

lemma page_free_records:
  assumes "page_free p s = Inr s'"
  shows "records s' \<le> records s + MAX_PAGE_ORDER"
proof -
  obtain k where "s' = s \<or> merge_buddy k (mark_block_free k s) = Inr s'"
    using assms by (auto simp: page_free_def result_simps split: option.splits)
  then show ?thesis using merge_buddy_records [of k "mark_block_free k s" s'] by auto
qed

end
