(* ===== verification/Page_Alloc_Fresh.thy ===== *)
theory Page_Alloc_Fresh
  imports Page_Alloc_Steps Page_Records
begin

text \<open>
  The allocator on a pool that is one whole block: the way page\_alloc splits it down to
  the requested order, and the way page\_free merges it back to the whole block. The
  lists in between are described by \<open>ladder\<close>.
\<close>

section \<open>Counts\<close>

abbreviation exact :: "fl_meta \<Rightarrow> (nat \<Rightarrow> nat list) \<Rightarrow> bool" where
  "exact s L \<equiv> exact_below (MAX_PAGE_ORDER + 1) s L"

lemma remove_next_loop_count:
  "remove_next_loop n i s = Inr (0, s') \<Longrightarrow> n \<le> MAX_PAGE_ORDER \<Longrightarrow>
     fl_count (fl_list s' n) = fl_count (fl_list s n) - 1 \<and> (\<forall>m. m \<noteq> n \<longrightarrow> fl_list s' m = fl_list s m)"
  by (induction n i s rule: remove_next_loop.induct) (auto simp: result_simps split: if_splits)

lemma remove_next_free_block_count:
  "remove_next_free_block n s = Inr (0, s') \<Longrightarrow> n \<le> MAX_PAGE_ORDER \<Longrightarrow>
     fl_count (fl_list s' n) = fl_count (fl_list s n) - 1 \<and> (\<forall>m. m \<noteq> n \<longrightarrow> fl_list s' m = fl_list s m)"
  by (auto simp: remove_next_free_block_def result_simps split: if_splits dest: remove_next_loop_count)

section \<open>Splitting the newest block\<close>

text \<open>The records of the lists keep their memory and their state.\<close>

definition frame :: "fl_meta \<Rightarrow> (nat \<Rightarrow> nat list) \<Rightarrow> fl_meta \<Rightarrow> bool" where
  "frame s L s' \<longleftrightarrow> (\<forall>m \<le> MAX_PAGE_ORDER. \<forall>j\<in>set (L m).
     pb_page (fl_blk s' j) = pb_page (fl_blk s j) \<and> block_is_used j s' = block_is_used j s)"

lemma push_halves_lists:
  assumes inv: "fl_inv P T s V L" and fresh: "fresh_region P T s V a (Suc n)" and l: "fl_last s = Some l"
  defines "s2 \<equiv> pushed a n (L n) (Suc l) s"
  defines "s' \<equiv> pushed (buddy_of n a) n (L n @ [Suc l]) (Suc (Suc l)) s2"
  shows "push_block a n s = Inr s2"
    and "push_block (get_buddy_pfn (fst (new_page_block a s)) s2) n s2 = Inr s'"
    and "fl_inv P T s' (insert (Suc (Suc l)) (insert (Suc l) V)) (L(n := L n @ [Suc l, Suc (Suc l)]))"
    and "Suc l \<notin> V" "Suc (Suc l) \<notin> V" "n \<le> MAX_PAGE_ORDER"
proof -
  have al: "aligned a (Suc n)" and T: "Suc n \<le> T" and P: "region a (Suc n) \<subseteq> P"
    and sep: "\<forall>k\<in>V. region a (Suc n) \<inter> blk_region s k = {}"
    using fresh unfolding fresh_region_def good_block_def by auto
  have n: "12 + n < 64" and n11: "n \<le> MAX_PAGE_ORDER" using T fl_inv_T [OF inv] by simp_all
  show "n \<le> MAX_PAGE_ORDER" by (rule n11)
  obtain l' where "fl_last s = Some l'" "V \<subseteq> {..l'}" using inv by (rule fl_inv_last)
  with l have new: "Suc l \<notin> V" "Suc (Suc l) \<notin> V" by auto
  then show "Suc l \<notin> V" "Suc (Suc l) \<notin> V" by auto
  have kn: "Suc l \<notin> set (L n)" using fl_inv_chain(4) [OF inv n11] new by blast
  note sp = region_split [OF n al]
  have f1: "fresh_region P T s V a n"
    using sp sep P T unfolding fresh_region_def good_block_def by auto
  show "push_block a n s = Inr s2" unfolding s2_def by (rule push_block_eq [OF inv n11 l])
  have inv2: "fl_inv P T s2 (insert (Suc l) V) (L(n := L n @ [Suc l]))"
    unfolding s2_def by (rule pushed_inv [OF inv f1 l])
  have last2: "fl_last s2 = Some (Suc l)" by (simp add: s2_def pushed_simps [OF kn])
  have b: "get_buddy_pfn (fst (new_page_block a s)) s2 = buddy_of n a"
    using l by (simp add: get_buddy_pfn_def block_pfn_def new_page_block_eq s2_def pushed_simps [OF kn])
  have reg: "blk_region s2 j = (if j = Suc l then region a n else blk_region s j)" for j
    unfolding s2_def by (rule pushed_region [OF kn])
  have f2: "fresh_region P T s2 (insert (Suc l) V) (buddy_of n a) n"
    using sp sep P T aligned_buddy [OF n sp(1)] region_buddy_disjoint [OF n sp(1)] new
    unfolding fresh_region_def good_block_def by (auto simp: reg)
  show "push_block (get_buddy_pfn (fst (new_page_block a s)) s2) n s2 = Inr s'"
    unfolding b s'_def using push_block_eq [OF inv2 n11 last2] by simp
  show "fl_inv P T s' (insert (Suc (Suc l)) (insert (Suc l) V)) (L(n := L n @ [Suc l, Suc (Suc l)]))"
    unfolding s'_def using pushed_inv [OF inv2 f2 last2] by simp
qed

lemma split_newest:
  assumes inv: "fl_inv P T s V L" and ex: "exact s L" and n: "0 < n" "n \<le> MAX_PAGE_ORDER"
    and k: "L n = xs @ [k]" "fl_last s = Some k" "block_is_free k s"
  shows "\<exists>s' V' x y. split_page_block n s = Inr (0, s') \<and>
    fl_inv P T s' V' (L(n := xs, n - 1 := L (n - 1) @ [x, y])) \<and>
    exact s' (L(n := xs, n - 1 := L (n - 1) @ [x, y])) \<and>
    fl_last s' = Some y \<and> pb_page (fl_blk s' x) = pb_page (fl_blk s k) \<and>
    pb_page (fl_blk s' y) = buddy_of (n - 1) (pb_page (fl_blk s k)) \<and>
    block_is_free x s' \<and> block_is_free y s' \<and> frame s (L(n := xs)) s' \<and> y = Suc (Suc k)"
proof -
  note c = fl_inv_chain [OF inv n(2)]
  have kV: "k \<in> V" and ok: "pb_order (fl_blk s k) = n" using c(3,4) k(1) by auto
  have len: "fl_count (fl_list s n) = length (L n)" using ex n(2) by (simp add: exact_below_def)
  have lf: "last_free s (L n) (length xs)" using k(1,3) by (auto simp: last_free_def)
  have get: "get_next_free_block n s = Inr (Some k)"
    using k(2,3) ok n(2) by (simp add: get_next_free_block_def)
  have free_some: "\<not> (\<forall>j. 0 < j \<longrightarrow> j < length (L n) \<longrightarrow> \<not> block_is_free (L n ! j) s) \<or>
      length (L n) = 1 \<and> block_is_free (L n ! 0) s"
    using k(1,3) by (cases xs) (auto simp: nth_append intro: exI [of _ "length xs"])
  obtain j s1 where j: "last_free s (L n) j" "remove_next_free_block n s = Inr (0, s1)" "relinks s s1"
    "fl_inv P T s1 V (L(n := take j (L n)))"
    using remove_next_free_block_cases [OF inv n(2)] free_some len by auto
  have "take j (L n) = xs" using last_free_unique [OF lf j(1)] k(1) by simp
  with j(4) have inv1: "fl_inv P T s1 V (L(n := xs))" by simp
  note cnt = remove_next_free_block_count [OF j(2) n(2)]
  let ?V = "V - {k}"
  have inv2: "fl_inv P T s1 ?V (L(n := xs))"
  proof (rule fl_inv_restrict [OF inv1])
    fix m assume m: "m \<le> MAX_PAGE_ORDER"
    have "k \<notin> set ((L(n := xs)) m)"
      using c(5) k(1) fl_inv_chain(3) [OF inv m] ok by auto
    then show "set ((L(n := xs)) m) \<subseteq> ?V" using fl_inv_chain(4) [OF inv1 m] by blast
  qed blast
  have pg: "pb_page (fl_blk s1 j) = pb_page (fl_blk s j)" "block_is_used j s1 = block_is_used j s" for j
    using j(3) relinks_used [OF j(3)] by (simp_all add: relinks_def)
  have fresh: "fresh_region P T s1 ?V (pb_page (fl_blk s k)) (Suc (n - 1))"
    using fl_inv_good [OF inv kV] fl_inv_region [OF inv kV] n(1) ok relinks_region [OF j(3)]
    unfolding fresh_region_def by (auto simp: blk_region_def)
  have last1: "fl_last s1 = Some k" using j(3) k(2) by (simp add: relinks_def)
  note h = push_halves_lists [OF inv2 fresh last1]
  define a where "a = pb_page (fl_blk s k)"
  define L1 where "L1 = (L(n := xs)) (n - 1)"
  define s2 where "s2 = pushed a (n - 1) L1 (Suc k) s1"
  define s' where "s' = pushed (buddy_of (n - 1) a) (n - 1) (L1 @ [Suc k]) (Suc (Suc k)) s2"
  have L1: "L1 = L (n - 1)" using n(1) by (cases n) (simp_all add: L1_def)
  have new: "Suc k \<notin> set L1" "Suc (Suc k) \<notin> set (L1 @ [Suc k])"
    using h(4,5) fl_inv_chain(4) [OF inv2 h(6)] unfolding L1_def by auto
  note ps = pushed_simps [OF new(1)] pushed_simps [OF new(2)] pushed_used [OF new(1)] pushed_used [OF new(2)]
  have "split_page_block n s = Inr (0, s')"
    using get j(2) h(1,2) by (simp add: split_page_block_push Let_def a_def s2_def s'_def L1_def)
  moreover have "fl_inv P T s' (insert (Suc (Suc k)) (insert (Suc k) ?V))
      (L(n := xs, n - 1 := L (n - 1) @ [Suc k, Suc (Suc k)]))"
    using h(3) n(1) by (cases n) (simp_all add: a_def s2_def s'_def L1_def)
  moreover have "exact s' (L(n := xs, n - 1 := L (n - 1) @ [Suc k, Suc (Suc k)]))"
    unfolding exact_below_def
  proof (intro allI impI)
    fix m assume m: "m < MAX_PAGE_ORDER + 1"
    show "fl_count (fl_list s' m) = length ((L(n := xs, n - 1 := L (n - 1) @ [Suc k, Suc (Suc k)])) m)"
      using ex m n(1) cnt k(1) by (cases "m = n"; cases "m = n - 1")
        (auto simp: exact_below_def s'_def s2_def ps)
  qed
  moreover have "frame s (L(n := xs)) s'"
    unfolding frame_def
  proof (intro allI impI ballI)
    fix m j assume "m \<le> MAX_PAGE_ORDER" "j \<in> set ((L(n := xs)) m)"
    then have "j \<in> ?V" using fl_inv_chain(4) [OF inv2] by blast
    then have "j \<noteq> Suc k" "j \<noteq> Suc (Suc k)" using h(4,5) by auto
    then show "pb_page (fl_blk s' j) = pb_page (fl_blk s j) \<and> block_is_used j s' = block_is_used j s"
      by (simp add: s'_def s2_def ps pg)
  qed
  ultimately show ?thesis
    by (intro exI [of _ s'] exI [of _ "insert (Suc (Suc k)) (insert (Suc k) ?V)"] exI [of _ "Suc k"]
        exI [of _ "Suc (Suc k)"])
      (simp add: s'_def s2_def ps a_def block_is_free_def)
qed

section \<open>The way down from one whole block\<close>

text \<open>
  The address of the upper half that is split next, \<open>d\<close> orders below the pool's.
\<close>

primrec upper :: "u64 \<Rightarrow> nat \<Rightarrow> nat \<Rightarrow> u64" where
  "upper base t 0 = base"
| "upper base t (Suc d) = buddy_of (t - Suc d) (upper base t d)"

lemma upper_step:
  "c < t \<Longrightarrow> upper base t (t - c) = buddy_of c (upper base t (t - Suc c))"
  by (simp add: Suc_diff_Suc [symmetric])

lemma upper_aligned:
  assumes "t < MAX_PAGE_ORDER" and "aligned base t" and "d \<le> t"
  shows "aligned (upper base t d) (t - d) \<and> unat (upper base t d) = unat base + blk_bytes t - blk_bytes (t - d)"
  using assms(3)
proof (induction d)
  case (Suc d)
  let ?c = "t - Suc d"
  have c: "Suc ?c = t - d" "12 + ?c < 64" using Suc.prems assms(1) by auto
  with Suc have al: "aligned (upper base t d) (Suc ?c)" by simp
  note sp = region_split [OF c(2) al]
  obtain q where q: "unat (upper base t d) = q * blk_bytes (Suc ?c)" using al by (rule aligned_multiple)
  then have q2: "unat (upper base t d) = (2 * q) * blk_bytes ?c" by simp
  have "unat (buddy_of ?c (upper base t d)) = unat (upper base t d) + blk_bytes ?c"
    using unat_buddy_multiple [OF c(2) q2] q2 by (simp add: algebra_simps)
  moreover have "blk_bytes (t - d) = 2 * blk_bytes ?c" using c(1) blk_bytes_Suc by metis
  moreover have "blk_bytes (t - d) \<le> blk_bytes t" by (rule blk_bytes_mono) simp
  ultimately show ?case
    using Suc.IH Suc.prems aligned_buddy [OF c(2) sp(1)] by simp
qed (use assms in simp)

text \<open>
  The lists between order \<open>c\<close> and the order of the pool hold one lower half each, the list
  of order \<open>c\<close> the newest upper half too.
\<close>

definition ladder :: "u64 \<Rightarrow> nat \<Rightarrow> nat \<Rightarrow> fl_meta \<Rightarrow> (nat \<Rightarrow> nat list) \<Rightarrow> nat \<Rightarrow> (nat \<Rightarrow> nat) \<Rightarrow> bool" where
  "ladder base t c s L k j \<longleftrightarrow> c \<le> t \<and> exact s L \<and> fl_last s = Some k \<and>
     pb_page (fl_blk s k) = upper base t (t - c) \<and>
     (\<forall>m \<le> MAX_PAGE_ORDER. L m =
        (if m < c \<or> t < m then [] else (if m < t then [j m] else []) @ (if m = c then [k] else []))) \<and>
     (\<forall>m. c \<le> m \<longrightarrow> m < t \<longrightarrow>
        pb_page (fl_blk s (j m)) = upper base t (t - Suc m) \<and> block_is_free (j m) s)"

lemma ladder_split:
  assumes inv: "fl_inv P t s V L" and lad: "ladder base t c s L k j" and c: "0 < c"
    and k: "block_is_free k s"
  shows "\<exists>s' V' L' k' j'. split_page_block c s = Inr (0, s') \<and> fl_inv P t s' V' L' \<and>
    ladder base t (c - 1) s' L' k' j' \<and> block_is_free k' s' \<and> k' = Suc (Suc k)"
proof -
  have t: "t < MAX_PAGE_ORDER" using fl_inv_T [OF inv] .
  have ct: "c \<le> t" "c \<le> MAX_PAGE_ORDER" using lad t by (simp_all add: ladder_def)
  have L: "L m = (if m < c \<or> t < m then [] else (if m < t then [j m] else []) @ (if m = c then [k] else []))"
    if "m \<le> MAX_PAGE_ORDER" for m using lad that unfolding ladder_def by blast
  let ?xs = "if c < t then [j c] else []"
  have Lc: "L c = ?xs @ [k]" using L [OF ct(2)] ct(1) by simp
  have Lb: "L (c - 1) = []" using L [of "c - 1"] c ct by simp
  obtain s' V' x y where s': "split_page_block c s = Inr (0, s')"
    "fl_inv P t s' V' (L(c := ?xs, c - 1 := [x, y]))" "exact s' (L(c := ?xs, c - 1 := [x, y]))"
    "fl_last s' = Some y" "pb_page (fl_blk s' x) = pb_page (fl_blk s k)"
    "pb_page (fl_blk s' y) = buddy_of (c - 1) (pb_page (fl_blk s k))"
    "block_is_free x s'" "block_is_free y s'" "frame s (L(c := ?xs)) s'" "y = Suc (Suc k)"
    using split_newest [OF inv _ c ct(2) Lc _ k] lad Lb unfolding ladder_def by auto
  have pk: "pb_page (fl_blk s k) = upper base t (t - c)" using lad by (simp add: ladder_def)
  have "pb_page (fl_blk s' ((j(c - 1 := x)) m)) = upper base t (t - Suc m) \<and>
      block_is_free ((j(c - 1 := x)) m) s'" if m: "c - 1 \<le> m" "m < t" for m
  proof (cases "m = c - 1")
    case True
    with s'(5,7) pk c show ?thesis by simp
  next
    case False
    then have m: "c \<le> m" "m < t" "m \<le> MAX_PAGE_ORDER" using m t by auto
    then have "j m \<in> set ((L(c := ?xs)) m)" using L [of m] by simp
    then show ?thesis using s'(9) lad m False unfolding frame_def ladder_def block_is_free_def by simp
  qed
  moreover have "(L(c := ?xs, c - 1 := [x, y])) m = (if m < c - 1 \<or> t < m then []
      else (if m < t then [(j(c - 1 := x)) m] else []) @ (if m = c - 1 then [y] else []))"
    if "m \<le> MAX_PAGE_ORDER" for m
    using L [OF that] c ct by (auto simp: not_less_eq_eq)
  moreover have "pb_page (fl_blk s' y) = upper base t (t - (c - 1))"
    using s'(6) pk upper_step [of "c - 1" t base] c ct by simp
  ultimately have "ladder base t (c - 1) s' (L(c := ?xs, c - 1 := [x, y])) y (j(c - 1 := x))"
    using s'(3,4) ct unfolding ladder_def by simp
  with s'(1,2,8,10) show ?thesis by blast
qed

lemma ladder_reduce:
  assumes "fl_inv P t s V L" and "ladder base t c s L k j" and "block_is_free k s" and "r \<le> c"
  shows "\<exists>s' V' L' k' j'. reduce_to_order c r s = Inr (Some k', s') \<and> fl_inv P t s' V' L' \<and>
    ladder base t r s' L' k' j' \<and> block_is_free k' s' \<and> k' = k + 2 * (c - r)"
  using assms
proof (induction "c - r" arbitrary: c s V L k j)
  case 0
  then have eq: "c = r" and last: "fl_last s = Some k" by (simp_all add: ladder_def)
  have r: "r \<le> MAX_PAGE_ORDER" using 0(3) fl_inv_T [OF 0(2)] eq by (simp add: ladder_def)
  have "k \<in> set (L r)" using 0(3) r eq by (simp add: ladder_def)
  then have "pb_order (fl_blk s k) = r" using fl_inv_chain(3) [OF 0(2) r] by blast
  then have "reduce_to_order c r s = Inr (Some k, s)"
    using 0(4) r eq last by (simp add: reduce_to_order.simps get_next_free_block_def)
  with 0 eq show ?case by force
next
  case (Suc d)
  then have c: "r < c" "0 < c" by auto
  obtain s' V' L' k' j' where s': "split_page_block c s = Inr (0, s')" "fl_inv P t s' V' L'"
    "ladder base t (c - 1) s' L' k' j'" "block_is_free k' s'" "k' = Suc (Suc k)"
    using ladder_split [OF Suc(3,4) c(2) Suc(5)] by blast
  have "reduce_to_order c r s = reduce_to_order (c - 1) r s'"
    using c s'(1) by (subst reduce_to_order.simps) simp
  moreover have "d = c - 1 - r" "r \<le> c - 1" "k' + 2 * (c - 1 - r) = k + 2 * (c - r)"
    using Suc(2) c s'(5) by auto
  ultimately show ?case using Suc(1) [OF _ s'(2,3,4)] by metis
qed

section \<open>The way back up\<close>

lemma remove_page_block_last:
  assumes inv: "fl_inv P T s V L" and ex: "exact s L" and n: "n \<le> MAX_PAGE_ORDER"
    and L: "L n = xs @ [k]" and xs: "length xs \<le> 1"
  shows "\<exists>s'. remove_page_block k s = Inr (0, s') \<and> relinks s s' \<and> fl_inv P T s' V (L(n := xs)) \<and>
    exact s' (L(n := xs))"
proof -
  have cnt: "fl_count (fl_list s m) = length (L m)" if "m \<le> MAX_PAGE_ORDER" for m
    using ex that by (simp add: exact_below_def)
  note c = fl_inv_chain [OF inv n]
  have ok: "pb_order (fl_blk s k) = n" using c(3) L by simp
  have ex': "exact s' (L(n := xs))"
    if "fl_list s' = (fl_list s)(n := l)" "fl_count l = length xs" for s' l
    using that cnt by (auto simp: exact_below_def)
  show ?thesis
  proof (cases xs)
    case Nil
    let ?s = "set_free_list n (fl_list s n\<lparr>fl_count := 0, fl_first := None\<rparr>) s"
    have "remove_page_block k s = Inr (0, ?s)"
      using cnt [OF n] n Nil L ok by (simp add: remove_page_block_def Let_def)
    moreover have "fl_inv P T ?s V (L(n := xs))"
      by (rule fl_inv_relinks [OF inv _ chains_upd [OF inv n]]) (auto simp: Nil)
    moreover have "exact ?s (L(n := xs))"
      by (rule ex' [of _ "fl_list s n\<lparr>fl_count := 0, fl_first := None\<rparr>"]) (simp_all add: Nil)
    ultimately show ?thesis by (intro exI [of _ ?s]) simp
  next
    case (Cons x ys)
    with xs have [simp]: "xs = [x]" by simp
    have nx: "nexts s x = Some k" "nexts s k = None" and first: "fl_first (fl_list s n) = Some x"
      using c(1) L by simp_all
    let ?s = "set_next k None (set_next x (pb_next (fl_blk s k))
      (set_free_list n (fl_list s n\<lparr>fl_count := fl_count (fl_list s n) - 1\<rparr>) s))"
    have "remove_page_block k s = Inr (0, ?s)"
      using cnt [OF n] n L ok first nx by (simp add: remove_page_block_def Let_def nexts_def [symmetric])
    moreover have "fl_inv P T ?s V (L(n := xs))"
    proof (rule fl_inv_relinks [OF inv _ chains_upd [OF inv n]])
      show "chain (nexts ?s) (fl_first (fl_list ?s n)) xs"
        using first c(5) L nx(2) by (simp add: nexts_def)
    qed (use L cnt [OF n] in \<open>auto simp: relinks_def\<close>)
    moreover have "exact ?s (L(n := xs))"
      by (rule ex' [of _ "fl_list s n\<lparr>fl_count := fl_count (fl_list s n) - 1\<rparr>"]) (simp_all add: cnt [OF n] L)
    ultimately show ?thesis by (intro exI [of _ ?s]) (simp add: relinks_def)
  qed
qed

lemma upper_less:
  assumes "t < MAX_PAGE_ORDER" and "aligned base t" and "c < t"
  shows "upper base t (t - Suc c) < upper base t (t - c)"
proof -
  have "blk_bytes (Suc c) \<le> blk_bytes t" using assms(3) by (intro blk_bytes_mono) simp
  moreover have "0 < blk_bytes c" by simp
  ultimately have "unat (upper base t (t - Suc c)) < unat (upper base t (t - c))"
    using upper_aligned [OF assms(1,2), of "t - Suc c"] upper_aligned [OF assms(1,2), of "t - c"] assms(3)
    by (simp del: blk_bytes_pos)
  then show ?thesis by (simp add: word_less_nat_alt)
qed

lemma ladder_lists:
  assumes "ladder base t c s L k j"
  shows "m \<le> MAX_PAGE_ORDER \<Longrightarrow> L m =
    (if m < c \<or> t < m then [] else (if m < t then [j m] else []) @ (if m = c then [k] else []))"
  using assms unfolding ladder_def by blast

lemma get_block_buddy_inv:
  assumes "fl_inv P T s V L" and "k \<in> V"
  shows "get_block_buddy k s = Inr (List.find (\<lambda>i. pb_page (fl_blk s i) =
    buddy_of (pb_order (fl_blk s k)) (pb_page (fl_blk s k))) (L (pb_order (fl_blk s k))))"
proof -
  have "pb_order (fl_blk s k) \<le> MAX_PAGE_ORDER" using good_block_order(2) [OF assms] by simp
  from find_pfn_in_order_inv [OF assms(1) this] show ?thesis
    by (simp add: get_block_buddy_def get_buddy_pfn_def block_pfn_def)
qed

lemma merge_top:
  assumes inv: "fl_inv P t s V L" and lad: "ladder base t t s L k j"
  shows "merge_buddy k s = Inr s"
proof -
  have t: "t \<le> MAX_PAGE_ORDER" using fl_inv_T [OF inv] by simp
  have L: "L t = [k]" using ladder_lists [OF lad t] by simp
  then have k: "k \<in> V" "pb_order (fl_blk s k) = t" using fl_inv_chain(3,4) [OF inv t] by auto
  have al: "aligned (pb_page (fl_blk s k)) t" using fl_inv_good [OF inv k(1)] k(2) by (simp add: good_block_def)
  have "buddy_of t (pb_page (fl_blk s k)) \<noteq> pb_page (fl_blk s k)"
    using buddy_neq [OF _ al] good_block_order(3) [OF inv k(1)] k(2) by simp
  then have "get_block_buddy k s = Inr None" using get_block_buddy_inv [OF inv k(1)] k(2) L by simp
  then show ?thesis by (subst merge_buddy_push) simp
qed

lemma ladder_unlink:
  assumes inv: "fl_inv P t s V L" and lad: "ladder base t c s L k j" and c: "c < t"
  obtains s1 s2 where "remove_page_block k s = Inr (0, s1)" "remove_page_block (j c) s1 = Inr (0, s2)"
    "relinks s s2" "fl_inv P t s2 (V - {k, j c}) (L(c := []))" "exact s2 (L(c := []))"
    "fl_inv P t s2 V (L(c := []))" "j c \<in> V" "k \<in> V" "pb_order (fl_blk s k) = c" "pb_order (fl_blk s (j c)) = c"
proof -
  have c11: "c \<le> MAX_PAGE_ORDER" using fl_inv_T [OF inv] c by simp
  have ex: "exact s L" using lad by (simp add: ladder_def)
  have Lc: "L c = [j c] @ [k]" using ladder_lists [OF lad c11] c by simp
  obtain s1 where s1: "remove_page_block k s = Inr (0, s1)" "relinks s s1"
    "fl_inv P t s1 V (L(c := [j c]))" "exact s1 (L(c := [j c]))"
    using remove_page_block_last [OF inv ex c11 Lc] by auto
  obtain s2 where s2: "remove_page_block (j c) s1 = Inr (0, s2)" "relinks s1 s2"
    "fl_inv P t s2 V (L(c := []))" "exact s2 (L(c := []))"
    using remove_page_block_last [OF s1(3,4) c11, of "[]" "j c"] by auto
  note ch = fl_inv_chain [OF inv c11]
  have o: "pb_order (fl_blk s k) = c" "pb_order (fl_blk s (j c)) = c" and V: "k \<in> V" "j c \<in> V"
    using ch(3,4) Lc by auto
  have "fl_inv P t s2 (V - {k, j c}) (L(c := []))"
  proof (rule fl_inv_restrict [OF s2(3)])
    fix m assume m: "m \<le> MAX_PAGE_ORDER"
    have "k \<notin> set ((L(c := [])) m)" "j c \<notin> set ((L(c := [])) m)"
      using fl_inv_chain(3) [OF inv m] o by auto
    then show "set ((L(c := [])) m) \<subseteq> V - {k, j c}" using fl_inv_chain(4) [OF s2(3) m] by blast
  qed blast
  then show ?thesis
    using that s1(1) s2(1) relinks_trans [OF s1(2) s2(2)] s2(3,4) V o by blast
qed

lemma ladder_push:
  assumes inv: "fl_inv P t s W L'" and lad: "ladder base t c s0 L k j" and re: "relinks s0 s" and c: "c < t"
    and L': "L' = L(c := [])" and ex: "exact s L'"
    and fresh: "fresh_region P t s W (upper base t (t - Suc c)) (Suc c)"
  shows "\<exists>s' V'' L'' k' j'. push_block (upper base t (t - Suc c)) (Suc c) s = Inr s' \<and>
    fst (new_page_block (upper base t (t - Suc c)) s) = k' \<and> fl_inv P t s' V'' L'' \<and>
    ladder base t (Suc c) s' L'' k' j' \<and> block_is_free k' s' \<and> k' = Suc k"
proof -
  let ?a = "upper base t (t - Suc c)"
  have c11: "Suc c \<le> MAX_PAGE_ORDER" using fl_inv_T [OF inv] c by simp
  have last: "fl_last s = Some k" using lad re by (simp add: ladder_def relinks_def)
  have new: "Suc k \<notin> W" using fl_inv_last [OF inv] last by (metis Suc_n_not_le_n atMost_iff option.inject subsetD)
  have notin: "Suc k \<notin> set (L' m)" if "m \<le> MAX_PAGE_ORDER" for m using fl_inv_chain(4) [OF inv that] new by blast
  note ps = pushed_simps [OF notin [OF c11]] pushed_used [OF notin [OF c11]]
  let ?s = "pushed ?a (Suc c) (L' (Suc c)) (Suc k) s" and ?L = "L'(Suc c := L' (Suc c) @ [Suc k])"
  have L: "L m = (if m < c \<or> t < m then [] else (if m < t then [j m] else []) @ (if m = c then [k] else []))"
    if "m \<le> MAX_PAGE_ORDER" for m using ladder_lists [OF lad that] .
  have "exact ?s ?L" using ex c11 by (simp add: exact_below_def ps)
  moreover have "pb_page (fl_blk ?s (j m)) = upper base t (t - Suc m) \<and> block_is_free (j m) ?s"
    if m: "Suc c \<le> m" "m < t" for m
  proof -
    have m11: "m \<le> MAX_PAGE_ORDER" using m fl_inv_T [OF inv] by simp
    have "j m \<in> set (L' m)" using L [OF m11] m L' by simp
    then have "j m \<noteq> Suc k" using notin [OF m11] by auto
    then show ?thesis
      using lad m re by (simp add: ps ladder_def block_is_free_def relinks_used [OF re]) (simp add: relinks_def)
  qed
  moreover have "?L m = (if m < Suc c \<or> t < m then []
      else (if m < t then [j m] else []) @ (if m = Suc c then [Suc k] else []))"
    if "m \<le> MAX_PAGE_ORDER" for m
    using L [OF that] c L' by auto
  ultimately have "ladder base t (Suc c) ?s ?L (Suc k) j"
    using c unfolding ladder_def by (simp add: ps)
  moreover have "push_block ?a (Suc c) s = Inr ?s" by (rule push_block_eq [OF inv c11 last])
  moreover have "fl_inv P t ?s (insert (Suc k) W) ?L" by (rule pushed_inv [OF inv fresh last])
  ultimately show ?thesis
    using last by (intro exI [of _ ?s] exI [of _ "insert (Suc k) W"] exI [of _ ?L] exI [of _ "Suc k"] exI [of _ j])
      (simp add: new_page_block_eq block_is_free_def ps)
qed

lemma ladder_merge:
  assumes "fl_inv P t s V L" and "ladder base t c s L k j" and "block_is_free k s" and al: "aligned base t"
  shows "\<exists>s' V' L' k' j'. merge_buddy k s = Inr s' \<and> fl_inv P t s' V' L' \<and>
    ladder base t t s' L' k' j' \<and> block_is_free k' s' \<and> k' = k + (t - c)"
  using assms(1-3)
proof (induction "t - c" arbitrary: c s V L k j)
  case 0
  then have "c = t" by (simp add: ladder_def)
  with 0 merge_top show ?case by force
next
  case (Suc d)
  note inv = Suc(3) and lad = Suc(4)
  have c: "c < t" "d = t - Suc c" using Suc(2) by auto
  have t: "t < MAX_PAGE_ORDER" using fl_inv_T [OF inv] .
  obtain s1 s2 where u: "remove_page_block k s = Inr (0, s1)" "remove_page_block (j c) s1 = Inr (0, s2)"
    "relinks s s2" "fl_inv P t s2 (V - {k, j c}) (L(c := []))" "exact s2 (L(c := []))"
    "fl_inv P t s2 V (L(c := []))" "j c \<in> V" "k \<in> V" "pb_order (fl_blk s k) = c" "pb_order (fl_blk s (j c)) = c"
    using ladder_unlink [OF inv lad c(1)] .
  let ?a = "upper base t (t - Suc c)"
  have pg: "pb_page (fl_blk s k) = buddy_of c ?a" "pb_page (fl_blk s (j c)) = ?a" "block_is_free (j c) s"
    using lad c upper_step [OF c(1), of base] by (auto simp: ladder_def)
  have less: "?a < buddy_of c ?a" using upper_less [OF t al c(1)] upper_step [OF c(1), of base] by simp
  have same: "pb_page (fl_blk s2 i) = pb_page (fl_blk s i)" "pb_order (fl_blk s2 i) = pb_order (fl_blk s i)" for i
    using u(3) by (simp_all add: relinks_def)
  have "fresh_region P t s2 (V - {k, j c}) ?a (Suc c)"
    using merged_region_fresh [OF u(6) u(8) u(7), of c] u(9,10) pg less
    by (simp add: same buddy_involution)
  from ladder_push [OF u(4) lad u(3) c(1) refl u(5) this] obtain s' V'' L'' k' j' where
    p: "push_block ?a (Suc c) s2 = Inr s'" "fst (new_page_block ?a s2) = k'" "fl_inv P t s' V'' L''"
      "ladder base t (Suc c) s' L'' k' j'" "block_is_free k' s'" "k' = Suc k" by blast
  have "c \<le> MAX_PAGE_ORDER" using c t by simp
  then have Lc: "L c = [j c, k]" using ladder_lists [OF lad] c by simp
  then have get: "get_block_buddy k s = Inr (Some (j c))"
    using get_block_buddy_inv [OF inv u(8)] u(9) pg by (simp add: buddy_involution)
  have "(if block_pfn (j c) s < block_pfn k s then block_pfn (j c) s else pb_page (fl_blk s k)) = ?a"
    using pg less by (simp add: block_pfn_def)
  then have "merge_buddy k s = merge_buddy k' s'"
    using get u(1,2,9) pg(3) Suc(5) p(1,2)
    by (subst merge_buddy_push) (simp add: Let_def block_is_free_def)
  moreover have "k' + (t - Suc c) = k + (t - c)" using p(6) c by simp
  ultimately show ?case using Suc(1) [OF c(2) p(3-5)] by metis
qed

section \<open>One whole block\<close>

definition whole_pool :: "u64 \<Rightarrow> nat \<Rightarrow> fl_meta \<Rightarrow> bool" where
  "whole_pool base t s \<longleftrightarrow> (\<exists>k. fl_last s = Some k \<and>
     (\<forall>m \<le> MAX_PAGE_ORDER. fl_list s m =
        (if m = t then \<lparr>fl_first = Some k, fl_count = 1\<rparr> else \<lparr>fl_first = None, fl_count = 0\<rparr>)) \<and>
     pb_page (fl_blk s k) = base \<and> pb_order (fl_blk s k) = t \<and> pb_next (fl_blk s k) = None \<and>
     block_is_free k s)"

lemma whole_pool_ladder:
  assumes "whole_pool base t s" and "t < MAX_PAGE_ORDER" and "aligned base t"
  obtains L k where "fl_inv (region base t) t s {k} L" "ladder base t t s L k (\<lambda>_. 0)" "block_is_free k s"
proof -
  obtain k where k: "fl_last s = Some k" "pb_page (fl_blk s k) = base" "pb_order (fl_blk s k) = t"
    "pb_next (fl_blk s k) = None" "block_is_free k s"
    "\<forall>m \<le> MAX_PAGE_ORDER. fl_list s m =
        (if m = t then \<lparr>fl_first = Some k, fl_count = 1\<rparr> else \<lparr>fl_first = None, fl_count = 0\<rparr>)"
    using assms(1) unfolding whole_pool_def by blast
  let ?L = "\<lambda>m. if m = t then [k] else []"
  have "region base t \<noteq> {}" using region_nonempty by blast
  then have "fl_inv (region base t) t s {k} ?L"
    using k assms(2,3) by (auto simp: fl_inv_defs nexts_def)
  moreover have "ladder base t t s ?L k (\<lambda>_. 0)"
    using k by (simp add: ladder_def exact_below_def)
  ultimately show ?thesis using that k(5) by blast
qed

lemma ladder_whole_pool:
  assumes inv: "fl_inv P t s V L" and lad: "ladder base t t s L k j" and k: "block_is_free k s"
  shows "whole_pool base t s"
proof -
  have L: "L m = (if m = t then [k] else [])" if "m \<le> MAX_PAGE_ORDER" for m
    using ladder_lists [OF lad that] by auto
  have t: "t \<le> MAX_PAGE_ORDER" using fl_inv_T [OF inv] by simp
  have "fl_list s m = (if m = t then \<lparr>fl_first = Some k, fl_count = 1\<rparr> else \<lparr>fl_first = None, fl_count = 0\<rparr>)"
    if m: "m \<le> MAX_PAGE_ORDER" for m
  proof -
    have "fl_count (fl_list s m) = length (L m)" using lad m by (simp add: ladder_def exact_below_def)
    then show ?thesis using fl_inv_chain(1) [OF inv m] L [OF m] by (cases "fl_list s m") auto
  qed
  moreover have "pb_next (fl_blk s k) = None" using fl_inv_chain(1) [OF inv t] L [OF t] by (simp add: nexts_def)
  moreover have "pb_order (fl_blk s k) = t" using fl_inv_chain(3) [OF inv t] L [OF t] by simp
  ultimately show ?thesis using lad k unfolding whole_pool_def ladder_def by auto
qed

lemma find_free_order_ladder:
  assumes inv: "fl_inv P t s V L" and lad: "ladder base t t s L k j" and k: "block_is_free k s"
    and "r \<le> t"
  shows "find_free_order r s = Inr t"
  using assms(4)
proof (induction "t - r" arbitrary: r)
  case 0
  then have r: "r = t" "t < MAX_PAGE_ORDER" using fl_inv_T [OF inv] by simp_all
  then have "fl_count (fl_list s t) = 1" "fl_first (fl_list s t) = Some k"
    using ladder_lists [OF lad, of t] fl_inv_chain(1) [OF inv, of t] lad
    by (auto simp: ladder_def exact_below_def)
  then have "list_has_free_block t s = Inr True"
    using r k by (simp add: list_has_free_block_def page_block_exists_def)
  with r show ?case by (subst find_free_order.simps) simp
next
  case (Suc d)
  then have r: "r < t" "r < MAX_PAGE_ORDER" using fl_inv_T [OF inv] by simp_all
  then have "fl_count (fl_list s r) = 0"
    using ladder_lists [OF lad, of r] lad by (auto simp: ladder_def exact_below_def)
  then have "list_has_free_block r s = Inr False"
    using r by (simp add: list_has_free_block_def page_block_exists_def)
  moreover have "find_free_order (r + 1) s = Inr t" using Suc(1) [of "r + 1"] Suc(2) r by simp
  ultimately show ?case using r by (subst find_free_order.simps) simp
qed

lemma whole_pool_alloc:
  assumes "whole_pool base t s" and "t < MAX_PAGE_ORDER" and "aligned base t"
    and n: "0 < n" "unat n \<le> PAGE_BLOCK t"
  obtains s1 V L k j where
    "page_alloc n s = Inr (upper base t (t - get_page_order n), mark_block_used k s1)"
    "fl_inv (region base t) t s1 V L" "ladder base t (get_page_order n) s1 L k j" "block_is_free k s1"
    "get_page_order n \<le> t" "Suc k = records s + 2 * (t - get_page_order n)"
proof -
  obtain L k where lad: "fl_inv (region base t) t s {k} L" "ladder base t t s L k (\<lambda>_. 0)" "block_is_free k s"
    using whole_pool_ladder [OF assms(1-3)] by blast
  let ?r = "get_page_order n"
  have le: "PAGE_BLOCK t \<le> MAX_PAGE_BLOCK" using assms(2) by (intro power_increasing) simp_all
  have "?r \<le> t"
  proof (rule ccontr)
    assume "\<not> ?r \<le> t"
    then have "?r \<noteq> 0" "t \<le> ?r - 1" by auto
    then have "PAGE_BLOCK t \<le> PAGE_BLOCK (?r - 1)" by (intro power_increasing) simp_all
    moreover have "PAGE_BLOCK (?r - 1) < unat n" using get_page_order_least(2) [of n] \<open>?r \<noteq> 0\<close> by blast
    ultimately show False using n(2) by linarith
  qed
  moreover have "find_free_order ?r s = Inr t" by (rule find_free_order_ladder [OF lad calculation])
  moreover obtain s1 V L' k' j' where
    r: "reduce_to_order t ?r s = Inr (Some k', s1)" "fl_inv (region base t) t s1 V L'"
      "ladder base t ?r s1 L' k' j'" "block_is_free k' s1" "k' = k + 2 * (t - ?r)"
    using ladder_reduce [OF lad calculation(1)] by blast
  ultimately have "get_block ?r s = Inr (Some k', s1)" using assms(2) by (simp add: get_block_def)
  then have "page_alloc n s = Inr (upper base t (t - ?r), mark_block_used k' s1)"
    using n le r(3) by (auto simp: page_alloc_def Let_def ladder_def)
  moreover have "fl_last s = Some k" using lad(2) by (simp add: ladder_def)
  ultimately show ?thesis using that r \<open>?r \<le> t\<close> by (simp add: records_def)
qed

lemma mark_free_used: "fl_inv P T (mark_block_free k (mark_block_used k s)) V L = fl_inv P T s V L"
  by (simp add: fl_inv_mark)

lemma ladder_mark:
  assumes "fl_inv P t s V L" and "ladder base t c s L k j" and "block_is_free k s"
  shows "ladder base t c (mark_block_free k (mark_block_used k s)) L k j"
  using assms(2,3) unfolding ladder_def by (auto simp: exact_below_def block_is_free_def)

lemma whole_pool_round:
  assumes "whole_pool base t s" and "t < MAX_PAGE_ORDER" and "aligned base t"
    and n: "0 < n" "unat n \<le> PAGE_BLOCK t"
  shows "\<exists>a s1 s2. page_alloc n s = Inr (a, s1) \<and>
    unat a = unat base + blk_bytes t - blk_bytes (get_page_order n) \<and>
    page_free a s1 = Inr s2 \<and> whole_pool base t s2 \<and>
    records s2 = records s + 3 * (t - get_page_order n)"
proof -
  let ?r = "get_page_order n"
  obtain s1 V L k j where a: "page_alloc n s = Inr (upper base t (t - ?r), mark_block_used k s1)"
    and inv: "fl_inv (region base t) t s1 V L" and lad: "ladder base t ?r s1 L k j"
    and k: "block_is_free k s1" and r: "?r \<le> t" and kr: "Suc k = records s + 2 * (t - ?r)"
    using whole_pool_alloc [OF assms] .
  let ?s1 = "mark_block_used k s1" and ?s = "mark_block_free k (mark_block_used k s1)"
  have r11: "?r \<le> MAX_PAGE_ORDER" using r assms(2) by simp
  have kL: "k \<in> set (L ?r)" using ladder_lists [OF lad r11] r by simp
  have kV: "k \<in> V" using fl_inv_chain(4) [OF inv r11] kL by blast
  have pk: "pb_page (fl_blk s1 k) = upper base t (t - ?r)" using lad by (simp add: ladder_def)
  have inv1: "fl_inv (region base t) t ?s1 V L" using inv by (simp add: fl_inv_mark)
  have "find_block_by_pfn (upper base t (t - ?r)) ?s1 = Inr (Some k)"
    using find_block_by_pfn_inv [OF inv1, of "upper base t (t - ?r)"]
  proof (elim disjE exE conjE bexE)
    fix m i assume "m \<le> MAX_PAGE_ORDER" "i \<in> set (L m)"
      and f: "find_block_by_pfn (upper base t (t - ?r)) ?s1 = Inr (Some i)"
        "pb_page (fl_blk ?s1 i) = upper base t (t - ?r)"
    then have "i \<in> V" using fl_inv_chain(4) [OF inv] by blast
    moreover have "pb_page (fl_blk s1 i) = pb_page (fl_blk s1 k)" using f(2) pk by simp
    ultimately have "i = k" using fl_inv_same_page [OF inv _ kV] by blast
    with f(1) show ?thesis by simp
  next
    assume "\<forall>n\<le>MAX_PAGE_ORDER. \<forall>k\<in>set (L n). pb_page (fl_blk ?s1 k) \<noteq> upper base t (t - ?r)"
    with r11 kL pk show ?thesis by simp
  qed
  then have free: "page_free (upper base t (t - ?r)) ?s1 = merge_buddy k ?s" by (simp add: page_free_def)
  have k': "block_is_free k ?s" by (simp add: block_is_free_def)
  have inv': "fl_inv (region base t) t ?s V L" using inv by (simp add: fl_inv_mark)
  obtain s2 V2 L2 k2 j2 where m: "merge_buddy k ?s = Inr s2" "fl_inv (region base t) t s2 V2 L2"
    "ladder base t t s2 L2 k2 j2" "block_is_free k2 s2" "k2 = k + (t - ?r)"
    using ladder_merge [OF inv' ladder_mark [OF inv lad k] k' assms(3)] by blast
  have "unat (upper base t (t - ?r)) = unat base + blk_bytes t - blk_bytes ?r"
    using upper_aligned [OF assms(2,3), of "t - ?r"] r by simp
  moreover have "whole_pool base t s2" by (rule ladder_whole_pool [OF m(2-4)])
  moreover have "page_free (upper base t (t - ?r)) ?s1 = Inr s2" using free m(1) by simp
  moreover have "records s2 = records s + 3 * (t - ?r)"
    using m(3,5) kr by (simp add: ladder_def records_def)
  ultimately show ?thesis using a by (intro exI conjI)
qed

end
