(* ===== verification/Page_Alloc_Calls.thy ===== *)
theory Page_Alloc_Calls
  imports Page_Alloc_Fresh
begin

text \<open>
  The page allocator after init\_free\_list under any sequence of calls. The callers'
  blocks are recorded beside the state; an invariant of the step relation, used through
  the locale \<open>invariant_system\<close>, says that they are disjoint blocks of the pool.
\<close>

section \<open>Initialisation\<close>

text \<open>The state with one free block of order \<open>o\<close> in an otherwise empty allocator.\<close>

definition pool_state :: "u64 \<Rightarrow> nat \<Rightarrow> fl_meta" where
  "pool_state base t = fl_meta_zero\<lparr>
     fl_list := (\<lambda>n. if n = t then \<lparr>fl_first = Some 0, fl_count = 1\<rparr> else \<lparr>fl_first = None, fl_count = 0\<rparr>),
     fl_last := Some 0,
     fl_blk := (\<lambda>_. zero_block)(0 := \<lparr>pb_page = base, pb_order = t, pb_flags = 0, pb_next = None\<rparr>)\<rparr>"

lemma init_free_loop_zero: "init_free_loop n addr 0 s = Inr s"
  by (induction n arbitrary: s) (auto simp: create_free_list_def)

lemma init_free_loop_pool:
  assumes "t < n" and "n \<le> MAX_PAGE_ORDER"
  shows "init_free_loop n base (PAGE_BLOCK t) (fl_meta_zero\<lparr>fl_last := None\<rparr>) = Inr (pool_state base t)"
  using assms
proof (induction n)
  case (Suc n)
  show ?case
  proof (cases "t = n")
    case True
    have "create_free_list base n 1 (fl_meta_zero\<lparr>fl_last := None\<rparr>) = Inr (pool_state base n)"
      using Suc.prems
      by (auto simp: create_free_list_def new_page_block_def add_block_to_order_def Let_def
          get_block_free_list_def fl_meta_zero_def zero_block_def pool_state_def block_phy_offset_def
          get_list_size_def set_block_def set_free_list_def fun_eq_iff)
    with True show ?thesis by (simp add: init_free_loop_zero)
  next
    case False
    with Suc.prems have "t < n" by simp
    then have "PAGE_BLOCK t < PAGE_BLOCK n" by simp
    then have "PAGE_BLOCK t div PAGE_BLOCK n = 0" by simp
    with Suc \<open>t < n\<close> show ?thesis by (simp add: create_free_list_def)
  qed
qed simp

lemma init_free_list_pool:
  assumes "t < MAX_PAGE_ORDER" and "unat sz = blk_bytes t"
  shows "init_free_list base sz fl_meta_zero = Inr (pool_state base t)"
proof -
  have "unat sz div PAGE_SIZE = PAGE_BLOCK t" using assms(2) by (simp add: blk_bytes_def)
  then show ?thesis
    using init_free_loop_pool [of t MAX_PAGE_ORDER base] assms(1) by (simp only: init_free_list_def)
qed

definition pool_lists :: "nat \<Rightarrow> nat \<Rightarrow> nat list" where
  "pool_lists t = (\<lambda>n. if n = t then [0] else [])"

lemma pool_state_inv:
  assumes "t < MAX_PAGE_ORDER" and "aligned base t"
  shows "fl_inv (region base t) t (pool_state base t) {0} (pool_lists t)"
    and "last_in (pool_state base t) {0}"
    and "exact_below n (pool_state base t) (pool_lists t)"
    and "\<not> block_is_used k (pool_state base t)"
  using assms region_nonempty [of base t]
  by (auto simp: fl_inv_defs pool_state_def pool_lists_def nexts_def last_in_def exact_below_def
      block_is_used_def zero_block_def fl_meta_zero_def)

section \<open>Every sequence of calls\<close>

text \<open>
  The calls of page\_alloc and page\_free in any order, with the list of the blocks the
  callers hold: the address and order of what page\_alloc returned and nobody freed. A
  call that faults is not a step.
\<close>

inductive pa_step :: "fl_meta \<times> (u64 \<times> nat) list \<Rightarrow> fl_meta \<times> (u64 \<times> nat) list \<Rightarrow> bool" where
  pa_alloc: "page_alloc n s = Inr (a, s') \<Longrightarrow> a \<noteq> 0 \<Longrightarrow>
     pa_step (s, live) (s', (a, get_page_order n) # live)"
| pa_alloc_fail: "page_alloc n s = Inr (0, s') \<Longrightarrow> pa_step (s, live) (s', live)"
| pa_free: "page_free p s = Inr s' \<Longrightarrow> pa_step (s, live) (s', filter (\<lambda>(a, n). a \<noteq> p) live)"

inductive_cases pa_stepE: "pa_step st st'"

definition pa_boot :: "u64 \<Rightarrow> u32 \<Rightarrow> fl_meta \<times> (u64 \<times> nat) list \<Rightarrow> bool" where
  "pa_boot base sz st \<longleftrightarrow> init_free_list base sz fl_meta_zero = Inr (fst st) \<and> snd st = []"

text \<open>The blocks that are marked used, by address and order.\<close>

definition used_blocks :: "fl_meta \<Rightarrow> nat set \<Rightarrow> (u64 \<times> nat) set" where
  "used_blocks s V = (\<lambda>k. (pb_page (fl_blk s k), pb_order (fl_blk s k))) ` {k\<in>V. block_is_used k s}"

definition pa_inv :: "nat set \<Rightarrow> nat \<Rightarrow> fl_meta \<times> (u64 \<times> nat) list \<Rightarrow> bool" where
  "pa_inv P T st \<longleftrightarrow> distinct (snd st) \<and>
     (\<exists>V L. fl_inv P T (fst st) V L \<and> last_in (fst st) V \<and> set (snd st) \<subseteq> used_blocks (fst st) V)"

lemma used_blocks_same:
  assumes "same_used s V s' V'"
  shows "used_blocks s' V' = used_blocks s V"
proof -
  have "{k\<in>V'. block_is_used k s'} = {k\<in>V. block_is_used k s}" using assms by (simp add: same_used_def)
  moreover have "pb_page (fl_blk s' k) = pb_page (fl_blk s k)" "pb_order (fl_blk s' k) = pb_order (fl_blk s k)"
    if "k \<in> {k\<in>V. block_is_used k s}" for k using assms that by (simp_all add: same_used_def)
  ultimately show ?thesis unfolding used_blocks_def by (simp add: image_def)
qed

lemma used_mark_used:
  assumes "k \<in> V"
  shows "used_blocks (mark_block_used k s) V =
     insert (pb_page (fl_blk s k), pb_order (fl_blk s k)) (used_blocks s V)"
  using assms by (auto simp: used_blocks_def image_def)

lemma used_mark_free:
  assumes "fl_inv P T s V L" and "k \<in> V"
  shows "used_blocks (mark_block_free k s) V = {(a, n) \<in> used_blocks s V. a \<noteq> pb_page (fl_blk s k)}"
  using fl_inv_same_page [OF assms(1)] assms(2) by (auto simp: used_blocks_def image_def)

lemma pa_inv_alloc:
  assumes "pa_inv P T (s, live)" and "page_alloc n s = Inr (a, s')" and "a \<noteq> 0"
  shows "pa_inv P T (s', (a, get_page_order n) # live)"
proof -
  obtain V L where inv: "distinct live" "fl_inv P T s V L" "last_in s V" "set live \<subseteq> used_blocks s V"
    using assms(1) by (auto simp: pa_inv_def)
  obtain s1 V' L' k where k: "keeps P T s V s1 V' L'" "s' = mark_block_used k s1" "k \<in> V'"
    "\<not> block_is_used k s1" "pb_page (fl_blk s1 k) = a" "pb_order (fl_blk s1 k) = get_page_order n"
    using page_alloc_inv [OF inv(2,3), of n] assms(2,3) by auto
  have inv1: "fl_inv P T s1 V' L'" "last_in s1 V'" and used: "used_blocks s1 V' = used_blocks s V"
    using k(1) used_blocks_same unfolding keeps_def by auto
  have "(a, get_page_order n) \<notin> used_blocks s1 V'"
    using k(3-5) fl_inv_same_page [OF inv1(1)] by (fastforce simp: used_blocks_def)
  moreover have "fl_inv P T s' V' L'" "last_in s' V'" using inv1 k(2) by (simp_all add: fl_inv_mark)
  moreover have "used_blocks s' V' = insert (a, get_page_order n) (used_blocks s V)"
    using used_mark_used [OF k(3)] k(2,5,6) used by simp
  ultimately show ?thesis using inv(1,4) used unfolding pa_inv_def by auto
qed

lemma pa_inv_alloc_fail:
  assumes "pa_inv P T (s, live)" and "page_alloc n s = Inr (0, s')"
  shows "pa_inv P T (s', live)"
proof -
  obtain V L where inv: "distinct live" "fl_inv P T s V L" "last_in s V" "set live \<subseteq> used_blocks s V"
    using assms(1) by (auto simp: pa_inv_def)
  show ?thesis using page_alloc_inv [OF inv(2,3), of n]
  proof (elim disjE exE conjE)
    fix s'' V' L' assume "page_alloc n s = Inr (0, s'')" "keeps P T s V s'' V' L'"
    moreover from this have "used_blocks s'' V' = used_blocks s V"
      using used_blocks_same unfolding keeps_def by blast
    ultimately show ?thesis using assms(2) inv(1,4) unfolding pa_inv_def keeps_def by auto
  next
    fix a s1 s'' V' L' k
    assume k: "page_alloc n s = Inr (a, s'')" "keeps P T s V s1 V' L'" "s'' = mark_block_used k s1" "k \<in> V'"
    then have "s' = mark_block_used k s1" using assms(2) by simp
    moreover have "used_blocks s1 V' = used_blocks s V"
      using k(2) used_blocks_same unfolding keeps_def by blast
    ultimately show ?thesis using inv(1,4) k(2) used_mark_used [OF k(4), of s1]
      unfolding pa_inv_def keeps_def by (auto simp: fl_inv_mark)
  next
    assume "page_alloc n s = Inl NullDeref" with assms(2) show ?thesis by simp
  qed
qed

lemma pa_inv_free:
  assumes "pa_inv P T (s, live)" and "page_free p s = Inr s'"
  shows "pa_inv P T (s', filter (\<lambda>(a, n). a \<noteq> p) live)"
proof -
  obtain V L where inv: "distinct live" "fl_inv P T s V L" "last_in s V" "set live \<subseteq> used_blocks s V"
    using assms(1) by (auto simp: pa_inv_def)
  obtain V' L' s1 where k: "keeps P T s1 V s' V' L'"
    "s1 = s \<or> (\<exists>k\<in>V. pb_page (fl_blk s k) = p \<and> s1 = mark_block_free k s)"
    using page_free_inv [OF inv(2,3), of p] assms(2) by auto
  have "used_blocks s' V' = used_blocks s1 V"
    using k(1) used_blocks_same unfolding keeps_def by blast
  moreover have "set (filter (\<lambda>(a, n). a \<noteq> p) live) \<subseteq> used_blocks s1 V"
    using k(2) inv(4) used_mark_free [OF inv(2)] by auto
  ultimately show ?thesis using k(1) inv(1) unfolding pa_inv_def keeps_def by auto
qed

lemma pa_inv_step: "pa_inv P T st \<Longrightarrow> pa_step st st' \<Longrightarrow> pa_inv P T st'"
  by (erule pa_stepE) (auto intro: pa_inv_alloc pa_inv_alloc_fail pa_inv_free)

lemma pa_inv_pool:
  assumes "t < MAX_PAGE_ORDER" and "aligned base t"
  shows "pa_inv (region base t) t (pool_state base t, [])"
  using pool_state_inv [OF assms] by (auto simp: pa_inv_def)

text \<open>
  The conditions under which the allocator works on its pool: a power of two of pages up
  to \<^verbatim>\<open>2^10\<close>, at an address aligned to the size of the pool.
\<close>

definition pool_ok :: "u64 \<Rightarrow> u32 \<Rightarrow> nat \<Rightarrow> bool" where
  "pool_ok base sz t \<longleftrightarrow> t < MAX_PAGE_ORDER \<and> unat sz = blk_bytes t \<and> aligned base t"

interpretation page_alloc_calls: invariant_system
  "\<lambda>st. pool_ok base sz t \<and> pa_boot base sz st" pa_step "pa_inv (region base t) t"
  for base :: u64 and sz :: u32 and t :: nat
proof
  fix st assume "pool_ok base sz t \<and> pa_boot base sz st"
  then show "pa_inv (region base t) t st"
    using init_free_list_pool [of t sz base] pa_inv_pool [of t base]
    by (cases st) (auto simp: pool_ok_def pa_boot_def)
qed (rule pa_inv_step)

section \<open>Runs\<close>

text \<open>A sequence of calls after init\_free\_list, as a function; it stops at a fault.\<close>

datatype pa_call = Alloc u32 | Free u64

fun run_calls :: "pa_call list \<Rightarrow> fl_meta \<times> (u64 \<times> nat) list \<Rightarrow> (fl_meta \<times> (u64 \<times> nat) list) result" where
  "run_calls [] st = Inr st"
| "run_calls (Alloc n # cs) (s, live) = bindR (page_alloc n s) (\<lambda>(a, s).
     run_calls cs (s, if a = 0 then live else (a, get_page_order n) # live))"
| "run_calls (Free p # cs) (s, live) = bindR (page_free p s) (\<lambda>s.
     run_calls cs (s, filter (\<lambda>(a, n). a \<noteq> p) live))"

definition boot_calls :: "u64 \<Rightarrow> u32 \<Rightarrow> pa_call list \<Rightarrow> (fl_meta \<times> (u64 \<times> nat) list) result" where
  "boot_calls base sz cs = bindR (init_free_list base sz fl_meta_zero) (\<lambda>s. run_calls cs (s, []))"

lemma run_calls_reach:
  "run_calls cs st = Inr st' \<Longrightarrow> reach init pa_step st \<Longrightarrow> reach init pa_step st'"
proof (induction cs st rule: run_calls.induct)
  case (2 n cs s live)
  then obtain a s1 where a: "page_alloc n s = Inr (a, s1)"
    "run_calls cs (s1, if a = 0 then live else (a, get_page_order n) # live) = Inr st'"
    by (auto simp: result_simps)
  then have "pa_step (s, live) (s1, if a = 0 then live else (a, get_page_order n) # live)"
    using pa_alloc pa_alloc_fail by auto
  with 2 a show ?case by (blast intro: reach_step)
next
  case (3 p cs s live)
  then obtain s1 where a: "page_free p s = Inr s1"
    "run_calls cs (s1, filter (\<lambda>(a, n). a \<noteq> p) live) = Inr st'"
    by (auto simp: result_simps)
  with 3 pa_free show ?case by (blast intro: reach_step)
qed simp

lemma boot_calls_inv:
  assumes "pool_ok base sz t" and "boot_calls base sz cs = Inr st"
  shows "pa_inv (region base t) t st"
proof -
  obtain s where s: "init_free_list base sz fl_meta_zero = Inr s" "run_calls cs (s, []) = Inr st"
    using assms(2) by (auto simp: boot_calls_def result_simps)
  then have "pool_ok base sz t \<and> pa_boot base sz (s, [])" using assms(1) by (simp add: pa_boot_def)
  then show ?thesis
    using page_alloc_calls.reach_inv run_calls_reach [OF s(2)] reach_init by metis
qed

lemma boot_calls_run:
  assumes "pool_ok base sz t"
  shows "boot_calls base sz cs = run_calls cs (pool_state base t, [])"
  using init_free_list_pool [of t sz base] assms by (simp add: boot_calls_def pool_ok_def)

lemma pa_inv_live:
  assumes "pa_inv P T (s, live)"
  shows "(a, n) \<in> set live \<Longrightarrow> region a n \<subseteq> P \<and> aligned a n"
    and "i < length live \<Longrightarrow> j < length live \<Longrightarrow> i \<noteq> j \<Longrightarrow>
      region (fst (live ! i)) (snd (live ! i)) \<inter> region (fst (live ! j)) (snd (live ! j)) = {}"
proof -
  obtain V L where inv: "distinct live" "fl_inv P T s V L" "set live \<subseteq> used_blocks s V"
    using assms by (auto simp: pa_inv_def)
  have node: "\<exists>k\<in>V. pb_page (fl_blk s k) = fst x \<and> pb_order (fl_blk s k) = snd x" if "x \<in> set live" for x
    using that inv(3) by (fastforce simp: used_blocks_def)
  show "region a n \<subseteq> P \<and> aligned a n" if "(a, n) \<in> set live"
    using node [OF that] inv(2) by (auto simp: fl_inv_def good_block_def)
  show "region (fst (live ! i)) (snd (live ! i)) \<inter> region (fst (live ! j)) (snd (live ! j)) = {}"
    if "i < length live" "j < length live" "i \<noteq> j"
  proof -
    obtain k where k: "k \<in> V" "pb_page (fl_blk s k) = fst (live ! i)" "pb_order (fl_blk s k) = snd (live ! i)"
      using node [of "live ! i"] \<open>i < length live\<close> by auto
    obtain l where l: "l \<in> V" "pb_page (fl_blk s l) = fst (live ! j)" "pb_order (fl_blk s l) = snd (live ! j)"
      using node [of "live ! j"] \<open>j < length live\<close> by auto
    have "live ! i \<noteq> live ! j" using inv(1) that by (simp add: nth_eq_iff_index_eq)
    then have "k \<noteq> l" using k l by (metis prod.expand)
    then show ?thesis using inv(2) k l unfolding fl_inv_def disjoint_blocks_def blk_region_def by metis
  qed
qed

text \<open>The counts of the lists are their lengths.\<close>

definition counts_exact :: "fl_meta \<Rightarrow> bool" where
  "counts_exact s \<longleftrightarrow> (\<forall>n \<in> {0..MAX_PAGE_ORDER}.
     nth_ptr (nexts s) (fl_count (fl_list s n)) (fl_first (fl_list s n)) = Inr None)"

lemma counts_exact_below:
  assumes "fl_inv P T s V L" and "counts_exact s"
  shows "exact s L"
  unfolding exact_below_def
proof (intro allI impI)
  fix n assume "n < MAX_PAGE_ORDER + 1"
  then have n: "n \<le> MAX_PAGE_ORDER" by simp
  have "nth_ptr (nexts s) (fl_count (fl_list s n)) (fl_first (fl_list s n)) = Inr None"
    using assms(2) n by (simp add: counts_exact_def)
  with fl_inv_chain(1,2) [OF assms(1) n] nth_ptr_chain_beyond show "fl_count (fl_list s n) = length (L n)"
    by (metis Inl_Inr_False le_neq_implies_less)
qed

lemma pa_inv_alloc_result:
  assumes "pa_inv P T (s, live)"
  shows "(\<exists>a s'. page_alloc n s = Inr (a, s')) \<or> page_alloc n s = Inl NullDeref \<and> \<not> counts_exact s"
proof -
  obtain V L where inv: "fl_inv P T s V L" "last_in s V" using assms by (auto simp: pa_inv_def)
  from page_alloc_inv [OF this, of n] counts_exact_below [OF inv(1)] show ?thesis by blast
qed

lemma pa_inv_free_result:
  assumes "pa_inv P T (s, live)"
  shows "\<exists>s'. page_free p s = Inr s'"
proof -
  obtain V L where "fl_inv P T s V L" "last_in s V" using assms by (auto simp: pa_inv_def)
  from page_free_inv [OF this] show ?thesis by blast
qed

lemma run_calls_fault:
  "run_calls cs st = Inl e \<Longrightarrow> pa_inv P T st \<Longrightarrow>
     \<exists>n cs1 cs2 s live. cs = cs1 @ Alloc n # cs2 \<and> run_calls cs1 st = Inr (s, live) \<and>
       page_alloc n s = Inl NullDeref \<and> e = NullDeref \<and> \<not> counts_exact s"
proof (induction cs st rule: run_calls.induct)
  case (2 n cs s live)
  show ?case
  proof (cases "page_alloc n s")
    case (Inl e')
    then have "cs = cs \<and> Alloc n # cs = [] @ Alloc n # cs" by simp
    moreover have "e = NullDeref \<and> page_alloc n s = Inl NullDeref \<and> \<not> counts_exact s"
      using pa_inv_alloc_result [OF 2(3), of n] 2(2) Inl by auto
    ultimately show ?thesis by (metis run_calls.simps(1))
  next
    case (Inr r)
    then obtain a s1 where a: "page_alloc n s = Inr (a, s1)" by (cases r) auto
    let ?st = "(s1, if a = 0 then live else (a, get_page_order n) # live)"
    have "pa_inv P T ?st" using 2(3) a pa_inv_alloc pa_inv_alloc_fail by auto
    moreover have "run_calls cs ?st = Inl e" using 2(2) a by simp
    ultimately obtain m cs1 cs2 s' live' where h: "cs = cs1 @ Alloc m # cs2"
      "run_calls cs1 ?st = Inr (s', live')" "page_alloc m s' = Inl NullDeref" "e = NullDeref"
      "\<not> counts_exact s'" using 2(1) [OF a refl] by blast
    then have "Alloc n # cs = (Alloc n # cs1) @ Alloc m # cs2 \<and>
        run_calls (Alloc n # cs1) (s, live) = Inr (s', live')" using a by simp
    with h(3-5) show ?thesis by blast
  qed
next
  case (3 p cs s live)
  obtain s1 where a: "page_free p s = Inr s1" using pa_inv_free_result [OF 3(3)] by blast
  let ?st = "(s1, filter (\<lambda>(a, n). a \<noteq> p) live)"
  have "pa_inv P T ?st" by (rule pa_inv_free [OF 3(3) a])
  moreover have "run_calls cs ?st = Inl e" using 3(2) a by simp
  ultimately obtain m cs1 cs2 s' live' where h: "cs = cs1 @ Alloc m # cs2"
    "run_calls cs1 ?st = Inr (s', live')" "page_alloc m s' = Inl NullDeref" "e = NullDeref"
    "\<not> counts_exact s'" using 3(1) [OF a] by blast
  then have "Free p # cs = (Free p # cs1) @ Alloc m # cs2 \<and>
      run_calls (Free p # cs1) (s, live) = Inr (s', live')" using a by simp
  with h(3-5) show ?case by blast
qed simp

text \<open>The state after a run, for the concrete examples.\<close>

lemma result_snd:
  assumes "map_sum id snd r = Inr y"
  shows "\<exists>x. r = Inr (x, y)"
  using assms by (cases r) auto

end
