(* ===== verification/Page_Alloc_Props.thy ===== *)
theory Page_Alloc_Props
  imports Page_Alloc_Calls
begin

text \<open>
  What the page allocator promises to its callers, and examples where the code breaks the
  promise. Promises that a call returns hold as long as the records that it makes fit in
  the area that linker.ld reserves for them.
\<close>

section \<open>The smoke test\<close>

text \<open>
  simple\_page\_alloc\_test: the inner loop of two rounds, and the outer loop over the
  orders \<open>i\<close>, both with the number of rounds left. The result is whether the test
  reached its end.
\<close>

primrec simple_test_rounds :: "nat \<Rightarrow> nat \<Rightarrow> fl_meta \<Rightarrow> (bool \<times> fl_meta) result" where
  "simple_test_rounds i 0 s = Inr (True, s)"
| "simple_test_rounds i (Suc j) s = bindR (page_alloc (word_of_nat (PAGE_BLOCK i)) s) (\<lambda>(x, s).
     if x = 0 then Inr (False, s)
     else bindR (page_free x s) (\<lambda>s. simple_test_rounds i j s))"

fun simple_test_loop :: "nat \<Rightarrow> nat \<Rightarrow> fl_meta \<Rightarrow> (bool \<times> fl_meta) result" where
  "simple_test_loop i 0 s = Inr (True, s)"
| "simple_test_loop i (Suc n) s = bindR (simple_test_rounds i 2 s) (\<lambda>(ok, s).
     if \<not> ok then Inr (False, s) else simple_test_loop (i + 1) n s)"

definition simple_page_alloc_test :: "fl_meta \<Rightarrow> (bool \<times> fl_meta) result" where
  "simple_page_alloc_test s = simple_test_loop 0 8 s"

lemma unat_page_block: "i < 32 \<Longrightarrow> unat (word_of_nat (PAGE_BLOCK i) :: u32) = PAGE_BLOCK i"
  by (simp only: unsigned_of_nat) (simp add: take_bit_nat_eq_self power_strict_increasing)

lemma get_page_order_power:
  assumes "i < 32"
  shows "get_page_order (word_of_nat (PAGE_BLOCK i)) = i"
proof -
  let ?n = "word_of_nat (PAGE_BLOCK i) :: u32"
  have n: "unat ?n = 2 ^ i" by (rule unat_page_block [OF assms])
  have "i \<le> get_page_order ?n" using get_page_order_least(1) [of ?n] n by simp
  moreover have "\<not> i < get_page_order ?n"
  proof
    assume "i < get_page_order ?n"
    then have "PAGE_BLOCK i \<le> PAGE_BLOCK (get_page_order ?n - 1)" by (intro power_increasing) auto
    with get_page_order_least(2) [of ?n] n \<open>i < get_page_order ?n\<close> show False by simp
  qed
  ultimately show ?thesis by simp
qed

lemma simple_test_rounds_pass:
  assumes "t < MAX_PAGE_ORDER" and "aligned base t" and "i \<le> t" and "base \<noteq> 0"
  shows "whole_pool base t s \<Longrightarrow> \<exists>s'. simple_test_rounds i j s = Inr (True, s') \<and> whole_pool base t s'"
proof (induction j arbitrary: s)
  case (Suc j)
  let ?n = "word_of_nat (PAGE_BLOCK i) :: u32"
  have i: "i < 32" using assms(1,3) by simp
  have n: "unat ?n = 2 ^ i" by (rule unat_page_block [OF i])
  then have "unat ?n \<noteq> 0" by simp
  then have "0 < ?n" by (metis unat_0 word_gt_0)
  moreover have "unat ?n \<le> PAGE_BLOCK t" using n assms(3) by simp
  ultimately obtain a s1 s2 where a: "page_alloc ?n s = Inr (a, s1)" "page_free a s1 = Inr s2"
    "whole_pool base t s2" "unat a = unat base + blk_bytes t - blk_bytes (get_page_order ?n)"
    using whole_pool_round [OF Suc.prems assms(1,2)] by blast
  have "blk_bytes (get_page_order ?n) \<le> blk_bytes t"
    using assms(3) by (simp only: get_page_order_power [OF i] blk_bytes_mono)
  moreover have "0 < unat base" using assms(4) by (simp add: unat_gt_0)
  ultimately have "a \<noteq> 0" using a(4) by auto
  with a Suc.IH [OF a(3)] show ?case by simp
qed simp

lemma simple_test_loop_passes:
  assumes "whole_pool base t s0" and "t < MAX_PAGE_ORDER" and "aligned base t" and "7 \<le> t" and "base \<noteq> 0"
  shows "i + n \<le> 8 \<Longrightarrow> whole_pool base t s \<Longrightarrow>
    \<exists>s'. simple_test_loop i n s = Inr (True, s') \<and> whole_pool base t s'"
proof (induction n arbitrary: i s)
  case (Suc n)
  have "i \<le> t" using Suc.prems(1) assms(4) by simp
  from simple_test_rounds_pass [OF assms(2,3) this assms(5) Suc.prems(2), of 2]
  obtain s1 where s1: "simple_test_rounds i 2 s = Inr (True, s1)" "whole_pool base t s1" by blast
  with Suc.IH [of "i + 1" s1] Suc.prems(1) show ?case by simp
qed simp

text \<open>No list holds a block of a higher order than the pool.\<close>

lemma get_block_above:
  assumes s: "whole_pool base t s" and r: "t < r" "r \<le> MAX_PAGE_ORDER"
  shows "get_block r s = Inr (None, s)"
proof -
  obtain k where k: "fl_last s = Some k" "pb_order (fl_blk s k) = t"
    and l: "\<forall>m \<le> MAX_PAGE_ORDER. fl_list s m =
        (if m = t then \<lparr>fl_first = Some k, fl_count = 1\<rparr> else \<lparr>fl_first = None, fl_count = 0\<rparr>)"
    using s unfolding whole_pool_def by blast
  have empty: "fl_list s m = \<lparr>fl_first = None, fl_count = 0\<rparr>" if "t < m" "m \<le> MAX_PAGE_ORDER" for m
    using l that by simp
  have "find_free_order m s = Inr MAX_PAGE_ORDER" if "t < m" "m \<le> MAX_PAGE_ORDER" for m
    using that
  proof (induction "MAX_PAGE_ORDER - m" arbitrary: m)
    case 0
    then show ?case by (subst find_free_order.simps) simp
  next
    case (Suc d)
    then have "m < MAX_PAGE_ORDER" by simp
    moreover have "list_has_free_block m s = Inr False"
      using empty [OF Suc.prems] Suc.prems by (simp add: list_has_free_block_def page_block_exists_def)
    moreover have "find_free_order (m + 1) s = Inr MAX_PAGE_ORDER" using Suc by simp
    ultimately show ?case by (subst find_free_order.simps) simp
  qed
  then have f: "get_block r s = reduce_to_order MAX_PAGE_ORDER r s" using r by (simp add: get_block_def)
  have nxt: "get_next_free_block m s = Inr None" if "t < m" "m \<le> MAX_PAGE_ORDER" for m
    using k empty [OF that] that by (simp add: get_next_free_block_def)
  have "t < MAX_PAGE_ORDER" using r by simp
  then have "split_page_block MAX_PAGE_ORDER s = Inr (1, s)"
    using nxt [of MAX_PAGE_ORDER] empty [of MAX_PAGE_ORDER]
    by (simp add: split_page_block_def remove_next_free_block_def)
  with nxt [OF r] show ?thesis unfolding f by (subst reduce_to_order.simps) simp
qed

section \<open>What holds\<close>

text \<open>
  C1. Whatever the sequence of calls of page_alloc and page_free after init_free_list, on
  an aligned pool of a power of two of pages: the blocks that callers hold lie in the
  pool, are aligned to their size and never overlap.
\<close>

theorem page_alloc_no_overlap:
  assumes "pool_ok base sz t" and "boot_calls base sz cs = Inr (s, live)"
  shows "(\<forall>(a, n) \<in> set live. region a n \<subseteq> region base t \<and> aligned a n) \<and>
    (\<forall>i < length live. \<forall>j < length live. i \<noteq> j \<longrightarrow>
       region (fst (live ! i)) (snd (live ! i)) \<inter> region (fst (live ! j)) (snd (live ! j)) = {})"
  using pa_inv_live [OF boot_calls_inv [OF assms]] by blast

lemma small_pool_ok: "pool_ok 0x10000 0x10000 4"
  by (simp add: pool_ok_def aligned_def blk_bytes_def)

lemma boot_pool_ok: "pool_ok 0x100000 0x100000 8"
  by (simp add: pool_ok_def aligned_def blk_bytes_def)

lemma boot_calls_example:
  "\<exists>s. boot_calls 0x10000 0x10000 [Alloc 1, Alloc 4, Free 0x1F000, Alloc 2] =
     Inr (s, [(0x1E000, 1), (0x18000, 2)])"
  unfolding boot_calls_run [OF small_pool_ok] by (rule result_snd) code_simp

theorem page_alloc_no_overlap_witness:
  "region 0x1E000 1 \<inter> region 0x18000 2 = {} \<and> region 0x18000 2 \<subseteq> region 0x10000 4"
proof -
  obtain s where s: "boot_calls 0x10000 0x10000 [Alloc 1, Alloc 4, Free 0x1F000, Alloc 2] =
     Inr (s, [(0x1E000, 1), (0x18000, 2)])"
    using boot_calls_example by blast
  note p = page_alloc_no_overlap [OF small_pool_ok s]
  from p [THEN conjunct2, rule_format, of 0 1] have "region 0x1E000 1 \<inter> region 0x18000 2 = {}" by simp
  with p show ?thesis by simp
qed

text \<open>
  C2. The block that a call of page_alloc returns is of the least order that holds the
  requested pages, lies aligned in the pool, and is disjoint from every block held.
\<close>

theorem page_alloc_block:
  assumes "pool_ok base sz t" and "boot_calls base sz cs = Inr (s, live)"
    and "page_alloc n s = Inr (a, s')" and "a \<noteq> 0"
  shows "aligned a (get_page_order n) \<and> region a (get_page_order n) \<subseteq> region base t \<and>
    unat n * PAGE_SIZE \<le> blk_bytes (get_page_order n) \<and>
    (get_page_order n = 0 \<or> blk_bytes (get_page_order n - 1) < unat n * PAGE_SIZE) \<and>
    (\<forall>(b, m) \<in> set live. region a (get_page_order n) \<inter> region b m = {})"
proof -
  note live = pa_inv_live [OF pa_inv_alloc [OF boot_calls_inv [OF assms(1,2)] assms(3,4)]]
  have "region a (get_page_order n) \<inter> region b m = {}" if bm: "(b, m) \<in> set live" for b m
  proof -
    from bm obtain i where "i < length live" "live ! i = (b, m)" by (auto simp: in_set_conv_nth)
    then show ?thesis using live(2) [of 0 "Suc i"] by simp
  qed
  moreover have "aligned a (get_page_order n)" "region a (get_page_order n) \<subseteq> region base t"
    using live(1) by simp_all
  ultimately show ?thesis using get_page_order_least [of n] by (auto simp: blk_bytes_def)
qed

lemma boot_alloc_example:
  "\<exists>s s'. boot_calls 0x10000 0x10000 [Alloc 1] = Inr (s, [(0x1F000, 0)]) \<and>
     page_alloc 3 s = Inr (0x18000, s')"
proof -
  have "map_sum id fst (bindR (boot_calls 0x10000 0x10000 [Alloc 1]) (\<lambda>(s, live).
      bindR (page_alloc 3 s) (\<lambda>(a, s'). Inr ((live, a), s')))) = Inr ([(0x1F000, 0)], 0x18000)"
    unfolding boot_calls_run [OF small_pool_ok] by code_simp
  then show ?thesis by (auto simp: result_simps map_sum_def split: sum.splits)
qed

theorem page_alloc_block_witness:
  "region 0x18000 (get_page_order 3) \<inter> region 0x1F000 0 = {}"
proof -
  obtain s s' where s: "boot_calls 0x10000 0x10000 [Alloc 1] = Inr (s, [(0x1F000, 0)])"
    "page_alloc 3 s = Inr (0x18000, s')"
    using boot_alloc_example by blast
  show ?thesis using page_alloc_block [OF small_pool_ok s] by simp
qed

text \<open>
  page_alloc and page_free always end, and never leave the arrays. The only fault a
  run can end with is a null pointer dereference inside page_alloc, and it needs a list
  whose count is not its length; page_free never faults.
\<close>

theorem page_calls_faults:
  assumes "pool_ok base sz t" and "boot_calls base sz cs = Inl e"
  shows "e = NullDeref \<and> (\<exists>n cs1 cs2 s live. cs = cs1 @ Alloc n # cs2 \<and>
    boot_calls base sz cs1 = Inr (s, live) \<and> page_alloc n s = Inl NullDeref \<and> \<not> counts_exact s)"
proof -
  note run = boot_calls_run [OF assms(1)]
  have "pa_inv (region base t) t (pool_state base t, [])"
    using pa_inv_pool assms(1) by (simp add: pool_ok_def)
  from run_calls_fault [OF _ this] assms(2) show ?thesis unfolding run by blast
qed

lemma boot_calls_fault:
  "boot_calls 0x100000 0x100000 [Alloc 2, Alloc 2, Alloc 2, Alloc 1, Alloc 1, Alloc 1] = Inl NullDeref"
proof -
  have "map_sum id snd (boot_calls 0x100000 0x100000
      [Alloc 2, Alloc 2, Alloc 2, Alloc 1, Alloc 1, Alloc 1]) = Inl NullDeref"
    unfolding boot_calls_run [OF boot_pool_ok] by code_simp
  then show ?thesis
    by (cases "boot_calls 0x100000 0x100000 [Alloc 2, Alloc 2, Alloc 2, Alloc 1, Alloc 1, Alloc 1]") auto
qed

theorem page_calls_faults_witness:
  "\<exists>n cs1 s live. boot_calls 0x100000 0x100000 cs1 = Inr (s, live) \<and>
     page_alloc n s = Inl NullDeref \<and> \<not> counts_exact s"
  using page_calls_faults [OF boot_pool_ok boot_calls_fault] by blast

text \<open>
  C4. While the reserved metadata area has room for the records that the call can make,
  22 for page_alloc and 11 for page_free: page_alloc returns whatever the request when the
  counts of the lists are their lengths, and page_free always returns. The records stay
  in the area.
\<close>

theorem page_calls_return:
  assumes "pool_ok base sz t" and "boot_calls base sz cs = Inr (s, live)"
  shows "(counts_exact s \<longrightarrow> records s + 22 \<le> META_RECORDS \<longrightarrow>
      (\<exists>a s'. page_alloc n s = Inr (a, s') \<and> records s' \<le> META_RECORDS)) \<and>
    (records s + 11 \<le> META_RECORDS \<longrightarrow>
      (\<exists>s'. page_free p s = Inr s' \<and> records s' \<le> META_RECORDS))"
proof -
  have "\<exists>a s'. page_alloc n s = Inr (a, s')" if "counts_exact s"
    using pa_inv_alloc_result [OF boot_calls_inv [OF assms]] that by blast
  moreover have "\<exists>s'. page_free p s = Inr s'"
    using pa_inv_free_result [OF boot_calls_inv [OF assms]] by blast
  ultimately show ?thesis by (fastforce dest: page_alloc_records page_free_records)
qed

lemma boot_calls_records:
  "\<exists>s. boot_calls 0x10000 0x10000 [Alloc 1, Alloc 4, Free 0x1F000, Alloc 2] =
     Inr (s, [(0x1E000, 1), (0x18000, 2)]) \<and> records s = 13"
proof -
  have "map_sum id (\<lambda>(s, live). (records s, live))
      (boot_calls 0x10000 0x10000 [Alloc 1, Alloc 4, Free 0x1F000, Alloc 2]) =
      Inr (13, [(0x1E000, 1), (0x18000, 2)])"
    unfolding boot_calls_run [OF small_pool_ok] by code_simp
  then show ?thesis by (auto simp: map_sum_def split: sum.splits)
qed

theorem page_calls_return_witness:
  "\<exists>s live s'. boot_calls 0x10000 0x10000 [Alloc 1, Alloc 4, Free 0x1F000, Alloc 2] =
     Inr (s, live) \<and> page_free 0x18000 s = Inr s' \<and> records s' \<le> META_RECORDS"
proof -
  obtain s where s: "boot_calls 0x10000 0x10000 [Alloc 1, Alloc 4, Free 0x1F000, Alloc 2] =
     Inr (s, [(0x1E000, 1), (0x18000, 2)])" "records s = 13"
    using boot_calls_records by blast
  then have "records s + 11 \<le> META_RECORDS" by (simp add: META_RECORDS_def)
  with page_calls_return [OF small_pool_ok s(1), of 1 "0x18000"] s(1) show ?thesis by blast
qed

lemma pool_state_whole: "t \<le> MAX_PAGE_ORDER \<Longrightarrow> whole_pool base t (pool_state base t)"
  by (auto simp: whole_pool_def pool_state_def block_is_free_def block_is_used_def)

text \<open>
  init_free_list on such a pool ends with the whole pool as one free block.
\<close>

theorem init_free_list_whole:
  assumes "t < MAX_PAGE_ORDER" and "unat sz = blk_bytes t"
  shows "\<exists>s. init_free_list base sz fl_meta_zero = Inr s \<and> whole_pool base t s"
  using init_free_list_pool [OF assms, of base] pool_state_whole [of t base] assms(1) by simp

theorem init_free_list_whole_witness:
  "\<exists>s. init_free_list 0x100000 0x100000 fl_meta_zero = Inr s \<and> whole_pool 0x100000 8 s"
  using init_free_list_whole [of 8 "0x100000" "0x100000"] by (simp add: blk_bytes_def)

text \<open>Rounds of a page_alloc and the page_free of what it returned.\<close>

fun alloc_free_rounds :: "u32 list \<Rightarrow> fl_meta \<Rightarrow> (u64 list \<times> fl_meta) result" where
  "alloc_free_rounds [] s = Inr ([], s)"
| "alloc_free_rounds (n # ns) s =
     bindR (page_alloc n s) (\<lambda>(a, s). bindR (page_free a s) (\<lambda>s.
     bindR (alloc_free_rounds ns s) (\<lambda>(as, s). Inr (a # as, s))))"

definition round_records :: "nat \<Rightarrow> u32 list \<Rightarrow> nat" where
  "round_records t ns = sum_list (map (\<lambda>n. 3 * (t - get_page_order n)) ns)"

text \<open>
  C3. Round trip: from the whole pool, requests that fit in it, each freed before the next,
  get the last block of their order and leave the whole pool merged, as long as their
  records fit in the reserved metadata area. A request that is split down over \<open>d\<close>
  orders uses up \<open>3 * d\<close> records for good, two for each split and one for each merge.
\<close>

theorem page_alloc_free_roundtrip:
  assumes "whole_pool base t s" and "t < MAX_PAGE_ORDER" and "aligned base t"
    and "\<forall>n\<in>set ns. 0 < n \<and> unat n \<le> PAGE_BLOCK t"
    and "records s + round_records t ns \<le> META_RECORDS"
  shows "\<exists>as s'. alloc_free_rounds ns s = Inr (as, s') \<and> whole_pool base t s' \<and>
    map unat as = map (\<lambda>n. unat base + blk_bytes t - blk_bytes (get_page_order n)) ns \<and>
    records s' = records s + round_records t ns \<and> records s' \<le> META_RECORDS"
  using assms(1,4,5)
proof (induction ns arbitrary: s)
  case (Cons n ns)
  then obtain a s1 s2 where a: "page_alloc n s = Inr (a, s1)" "page_free a s1 = Inr s2" "whole_pool base t s2"
    "unat a = unat base + blk_bytes t - blk_bytes (get_page_order n)"
    "records s2 = records s + 3 * (t - get_page_order n)"
    using whole_pool_round [OF Cons.prems(1) assms(2,3), of n] by auto
  obtain as s' where "alloc_free_rounds ns s2 = Inr (as, s')" "whole_pool base t s'"
    "map unat as = map (\<lambda>n. unat base + blk_bytes t - blk_bytes (get_page_order n)) ns"
    "records s' = records s2 + round_records t ns" "records s' \<le> META_RECORDS"
    using Cons.IH [OF a(3)] Cons.prems(2,3) a(5) by (auto simp: round_records_def)
  with a show ?case by (simp add: round_records_def)
qed (simp add: round_records_def)

lemma round_records_example: "round_records 8 [1, 256, 5] = 39"
  by code_simp

theorem page_alloc_free_roundtrip_witness:
  "\<exists>as s'. alloc_free_rounds [1, 256, 5] (pool_state 0x100000 8) = Inr (as, s') \<and>
     whole_pool 0x100000 8 s' \<and> length as = 3 \<and> records s' = 40"
proof -
  have r: "records (pool_state 0x100000 8) = 1" by (simp add: records_def pool_state_def)
  have "aligned (0x100000 :: u64) 8" by (simp add: aligned_def blk_bytes_def)
  then obtain as s' where s: "alloc_free_rounds [1, 256, 5] (pool_state 0x100000 8) = Inr (as, s')"
    "whole_pool 0x100000 8 s'" "map unat as =
        map (\<lambda>n. unat (0x100000 :: u64) + blk_bytes 8 - blk_bytes (get_page_order n)) [1, 256, 5]"
    "records s' = 1 + 39"
    using page_alloc_free_roundtrip [OF pool_state_whole, of 8 "0x100000" "[1, 256, 5]"]
    by (auto simp: r round_records_example META_RECORDS_def)
  then have "length as = 3" using map_eq_imp_length_eq [OF s(3)] by simp
  with s(1,2,4) show ?thesis by simp
qed

text \<open>
  The reserved area is soon full: on the pool of main, 72 rounds of one page, each freed
  before the next, make more records than fit in it, although the pool is whole again after
  each of them.
\<close>

lemma one_page_rounds_fill:
  assumes "whole_pool base 8 s" and "aligned base 8"
  shows "\<exists>as s'. alloc_free_rounds (replicate m 1) s = Inr (as, s') \<and> whole_pool base 8 s' \<and>
    records s' = records s + 24 * m"
  using assms(1)
proof (induction m arbitrary: s)
  case (Suc m)
  have "get_page_order 1 = 0" by (simp add: get_page_order_def page_order_loop.simps)
  with whole_pool_round [OF Suc.prems _ assms(2), of 1]
  obtain a s1 s2 where a: "page_alloc 1 s = Inr (a, s1)" "page_free a s1 = Inr s2" "whole_pool base 8 s2"
    "records s2 = records s + 24"
    by auto
  with Suc.IH [OF a(3)] show ?case by auto
qed simp

theorem one_page_rounds_overrun:
  assumes "whole_pool base 8 s" and "aligned base 8"
  shows "\<exists>as s'. alloc_free_rounds (replicate 72 1) s = Inr (as, s') \<and> whole_pool base 8 s' \<and>
    META_RECORDS < records s'"
  using one_page_rounds_fill [OF assms, of 72] by (auto simp: META_RECORDS_def)

theorem one_page_rounds_overrun_witness:
  "\<exists>as s'. alloc_free_rounds (replicate 72 1) (pool_state 0x100000 8) = Inr (as, s') \<and>
     whole_pool 0x100000 8 s' \<and> META_RECORDS < records s'"
  by (rule one_page_rounds_overrun [OF pool_state_whole]) (simp_all add: aligned_def blk_bytes_def)

text \<open>
  The smoke test of the allocator, simple_page_alloc_test, passes on every aligned
  pool of at least 128 pages that does not start at address 0, and leaves it whole.
\<close>

theorem simple_page_alloc_test_passes:
  assumes "whole_pool base t s" and "t < MAX_PAGE_ORDER" and "aligned base t"
    and "7 \<le> t" and "base \<noteq> 0"
  shows "\<exists>s'. simple_page_alloc_test s = Inr (True, s') \<and> whole_pool base t s'"
  using simple_test_loop_passes [OF assms, of 0 8 s] assms(1) by (simp add: simple_page_alloc_test_def)

theorem simple_page_alloc_test_passes_witness:
  "\<exists>s'. simple_page_alloc_test (pool_state 0x100000 8) = Inr (True, s') \<and> whole_pool 0x100000 8 s'"
  by (rule simple_page_alloc_test_passes [OF pool_state_whole]) (simp_all add: aligned_def blk_bytes_def)

text \<open>
  A request for no page, or for more pages than the whole pool has, is refused: the
  null pointer comes back and the state is unchanged.
\<close>

theorem page_alloc_refuses:
  assumes "whole_pool base t s" and "t < MAX_PAGE_ORDER" and "n = 0 \<or> PAGE_BLOCK t < unat n"
  shows "page_alloc n s = Inr (0, s)"
proof (cases "n = 0 \<or> MAX_PAGE_BLOCK < unat n")
  case True
  then show ?thesis by (auto simp: page_alloc_def)
next
  case False
  then have r: "t < get_page_order n" "get_page_order n \<le> MAX_PAGE_ORDER"
    using get_page_order_least(1) [of n] get_page_order_max [of n] assms(3)
    by (auto simp: not_le intro: power_less_imp_less_exp [of "2::nat"] order.strict_trans2)
  with False show ?thesis
    using get_block_above [OF assms(1) r] by (simp add: page_alloc_def)
qed

theorem page_alloc_refuses_witness:
  "page_alloc 257 (pool_state 0x100000 8) = Inr (0, pool_state 0x100000 8)"
  by (rule page_alloc_refuses [OF pool_state_whole]) simp_all

text \<open>
  C5. The address arithmetic of buddies on 64 bit addresses: on an aligned block, the
  halves that split_page_block makes are disjoint and make up the block, each is the
  buddy of the other, and the block that merge_buddy makes of two buddies is aligned for
  the next order and covers exactly the two.
\<close>

theorem buddy_split_merge:
  assumes "order < MAX_PAGE_ORDER"
  shows "buddy_of order (buddy_of order a) = a \<and>
    (aligned a (Suc order) \<longrightarrow> aligned a order \<and> aligned (buddy_of order a) order \<and>
       region a order \<inter> region (buddy_of order a) order = {} \<and>
       region a (Suc order) = region a order \<union> region (buddy_of order a) order) \<and>
    (aligned a order \<longrightarrow> (let f = if buddy_of order a < a then buddy_of order a else a in
       aligned f (Suc order) \<and> region f (Suc order) = region a order \<union> region (buddy_of order a) order))"
  using assms region_split [of order a] region_merge [of order a, OF _ _ refl] aligned_buddy [of order a]
    region_buddy_disjoint [of order a] by (simp add: buddy_involution Let_def)

theorem buddy_split_merge_witness:
  "aligned 0x4000 1 \<and> region (0x4000 :: u64) 2 = region 0x4000 1 \<union> region 0x6000 1"
proof -
  have "aligned (0x4000 :: u64) (Suc 1)" "buddy_of 1 (0x4000 :: u64) = 0x6000"
    by (simp_all add: aligned_def blk_bytes_def buddy_of_def)
  then show ?thesis using buddy_split_merge [of 1 "0x4000"] by (simp add: eval_nat_numeral)
qed

section \<open>What does not hold\<close>

text \<open>
  On the pool that kernel.c sets up, one page after a two page block cannot be had,
  although 254 pages are free: get_block finds the free half of two pages, but
  remove_next_free_block never takes the first block of a list.
\<close>

theorem page_alloc_misses_free_block:
  "\<exists>s. boot_calls 0x100000 0x100000 [Alloc 2, Alloc 1] = Inr (s, [(0x1FE000, 1)]) \<and>
     list_has_free_block 1 s = Inr True"
proof -
  have "map_sum id fst (bindR (boot_calls 0x100000 0x100000 [Alloc 2, Alloc 1]) (\<lambda>(s, live).
      bindR (list_has_free_block 1 s) (\<lambda>b. Inr ((live, b), s)))) = Inr ([(0x1FE000, 1)], True)"
    unfolding boot_calls_run [OF boot_pool_ok] by code_simp
  then show ?thesis by (auto simp: result_simps map_sum_def split: sum.splits)
qed

text \<open>
  Two buddies that are freed in the order of their allocation are not merged, because
  remove_page_block does not find the first block of a list of two; freed in the opposite
  order they are.
\<close>

theorem page_free_misses_merge:
  "\<exists>s s'. boot_calls 0x10000 0x10000 [Alloc 1, Alloc 1, Free 0x1F000, Free 0x1E000] = Inr (s, []) \<and>
     map (\<lambda>n. fl_count (fl_list s n)) [0, 1, 2, 3, 4] = [2, 1, 1, 1, 0] \<and>
     boot_calls 0x10000 0x10000 [Alloc 1, Alloc 1, Free 0x1E000, Free 0x1F000] = Inr (s', []) \<and>
     map (\<lambda>n. fl_count (fl_list s' n)) [0, 1, 2, 3, 4] = [0, 0, 0, 0, 1]"
proof -
  let ?c = "\<lambda>(s, live). ((live, map (\<lambda>n. fl_count (fl_list s n)) [0, 1, 2, 3, 4]), s)"
  have "map_sum id (fst \<circ> ?c) (boot_calls 0x10000 0x10000 [Alloc 1, Alloc 1, Free 0x1F000, Free 0x1E000])
      = Inr ([], [2, 1, 1, 1, 0])"
    unfolding boot_calls_run [OF small_pool_ok] by code_simp
  moreover have "map_sum id (fst \<circ> ?c) (boot_calls 0x10000 0x10000 [Alloc 1, Alloc 1, Free 0x1E000, Free 0x1F000])
      = Inr ([], [0, 0, 0, 0, 1])"
    unfolding boot_calls_run [OF small_pool_ok] by code_simp
  ultimately show ?thesis by (auto simp: map_sum_def split: sum.splits)
qed

text \<open>
  The list that create_free_list makes of two or more blocks: every block is linked twice,
  by its predecessor and by add_block_to_order, which finds the block itself at the end.
\<close>

definition looped :: "nat \<Rightarrow> nat \<Rightarrow> fl_meta \<Rightarrow> bool" where
  "looped order k s \<longleftrightarrow> fl_first (fl_list s order) = Some 0 \<and> fl_last s = Some k \<and>
     (\<forall>i < k. nexts s i = Some (Suc i)) \<and> (nexts s k = (if k = 0 then None else Some k))"

lemma chain_count: "(\<forall>i. a \<le> i \<longrightarrow> i < b \<longrightarrow> nxt i = Some (Suc i)) \<Longrightarrow> nxt b = None \<Longrightarrow> a \<le> b \<Longrightarrow>
   chain nxt (Some a) [a..<Suc b]"
proof (induction "b - a" arbitrary: a)
  case (Suc d)
  then have "chain nxt (Some (Suc a)) [Suc a..<Suc b]" by simp
  with Suc show ?case by (simp add: upt_rec [of a])
qed simp

lemma looped_step:
  fixes a :: u64
  assumes "looped order k s" and "order \<le> MAX_PAGE_ORDER"
  defines "s1 \<equiv> set_next k (Some (Suc k)) (snd (new_page_block a s))"
  shows "fst (new_page_block a s) = Suc k \<and> (\<exists>s'. add_block_to_order (Suc k) order s1 = Inr s' \<and> looped order (Suc k) s')"
proof -
  have new: "fst (new_page_block a s) = Suc k" "fl_last s1 = Some (Suc k)" "fl_list s1 = fl_list s"
    "nexts s1 = (nexts s)(Suc k := None, k := Some (Suc k))"
    using assms(1) by (simp_all add: looped_def new_page_block_eq s1_def)
  have "chain (nexts s1) (Some 0) [0..<Suc (Suc k)]"
    by (rule chain_count) (use assms(1) in \<open>auto simp: new(4) looped_def\<close>)
  then have last: "last_of (nexts s1) 0 = Some (Suc k)" by (simp add: last_of_chain)
  let ?s = "set_block (Suc k) (fl_blk s1 (Suc k)\<lparr>pb_order := order\<rparr>) s1"
  have "nexts ?s = nexts s1" by (auto simp: nexts_def)
  then show ?thesis
    using assms(1,2) last new
    by (auto simp: add_block_to_order_def looped_def Let_def less_Suc_eq)
qed

lemma looped_first:
  assumes "order \<le> MAX_PAGE_ORDER" and "fl_first (fl_list s order) = None" and "fl_last s = None"
  shows "\<exists>s1. add_block_to_order 0 order (snd (new_page_block addr s)) = Inr s1 \<and> looped order 0 s1"
  using assms by (auto simp: add_block_to_order_def new_page_block_def Let_def looped_def)

lemma looped_loop:
  assumes "looped order k s" and "order \<le> MAX_PAGE_ORDER"
  shows "\<exists>s'. create_free_loop m (Some k) addr order s = Inr s' \<and> looped order (k + m) s'"
  using assms(1)
proof (induction m arbitrary: k addr s)
  case (Suc m)
  obtain s' where n: "fst (new_page_block addr s) = Suc k"
    and s': "add_block_to_order (Suc k) order (set_next k (Some (Suc k)) (snd (new_page_block addr s))) = Inr s'"
      "looped order (Suc k) s'"
    using looped_step [OF Suc.prems assms(2), of addr] by blast
  with assms(2) Suc.IH [OF s'(2)] show ?case
    by (simp add: block_phy_offset_def get_list_size_def Let_def case_prod_unfold)
qed simp

text \<open>
  A pool with two or more blocks of one order gets a list that ends in a loop: the
  last block is its own successor, and the next add_block_to_order to it never returns.
\<close>

theorem create_free_list_loops:
  assumes "order \<le> MAX_PAGE_ORDER" and "fl_first (fl_list s order) = None" and "fl_last s = None"
    and "2 \<le> nr_blocks"
  shows "\<exists>s'. create_free_list addr order nr_blocks s = Inr s' \<and>
    pb_next (fl_blk s' (nr_blocks - 1)) = Some (nr_blocks - 1) \<and>
    (\<forall>pb \<ge> nr_blocks. add_block_to_order pb order s' = Inl Diverges)"
proof -
  obtain m where m: "nr_blocks = Suc (Suc m)"
    using le_Suc_ex [OF assms(4)] by auto
  obtain s1 where s1: "add_block_to_order 0 order (snd (new_page_block addr s)) = Inr s1" "looped order 0 s1"
    using looped_first [OF assms(1-3)] by blast
  have "fst (new_page_block addr s) = 0" using assms(3) by (simp add: new_page_block_def Let_def)
  with s1(1) assms(1,3) have "create_free_list addr order nr_blocks s =
      create_free_loop (Suc m) (Some 0) (addr + ucast (projr (block_phy_offset order s1))) order s1"
    unfolding create_free_list_def m
    by (subst create_free_loop.simps)
      (simp add: Let_def case_prod_unfold block_phy_offset_def get_list_size_def del: create_free_loop.simps)
  with looped_loop [OF s1(2) assms(1), of "Suc m"] obtain s' where
    s': "create_free_list addr order nr_blocks s = Inr s'" "looped order (Suc m) s'"
    by (auto simp del: create_free_loop.simps)
  have "last_of (nexts s') k = None" if "k \<le> Suc m" for k
    using that
  proof (induction "Suc m - k" arbitrary: k)
    case 0
    then show ?case using s'(2) by (auto simp: looped_def intro: last_of_cycle)
  next
    case (Suc d)
    then have "last_of (nexts s') (Suc k) = None" by simp
    with Suc s'(2) show ?case by (simp add: looped_def last_of_Some)
  qed
  then have "last_of (nexts s') 0 = None" by simp
  moreover have "nexts (set_block pb (fl_blk s' pb\<lparr>pb_order := order\<rparr>) s') = nexts s'" for pb
    by (auto simp: nexts_def)
  ultimately have "add_block_to_order pb order s' = Inl Diverges" for pb
    using s'(2) assms(1) by (simp add: add_block_to_order_def looped_def Let_def)
  with s' show ?thesis by (auto simp: looped_def m nexts_def)
qed

theorem create_free_list_loops_witness:
  "\<exists>s'. create_free_list 0x800000 10 2 fl_meta_zero = Inr s' \<and> pb_next (fl_blk s' 1) = Some 1"
proof -
  have "\<exists>s'. create_free_list 0x800000 10 2 fl_meta_zero = Inr s' \<and>
      pb_next (fl_blk s' (2 - 1)) = Some (2 - 1) \<and> (\<forall>pb\<ge>2. add_block_to_order pb 10 s' = Inl Diverges)"
    by (rule create_free_list_loops) (simp_all add: fl_meta_zero_def)
  then show ?thesis by auto
qed

text \<open>
  The blocks that init_free_list makes need not be disjoint nor in the pool. Three
  pages give a block of two pages and one of one page at the same address; three blocks
  of 4 MiB give a third block that starts where the pool of 12 MiB ends.
\<close>

theorem init_free_list_overlap:
  "(\<exists>s. init_free_list 0x100000 0x3000 fl_meta_zero = Inr s \<and>
      map (\<lambda>k. (pb_page (fl_blk s k), pb_order (fl_blk s k))) [0, 1] = [(0x100000, 1), (0x100000, 0)]) \<and>
   (\<exists>s. create_free_list 0x800000 10 3 fl_meta_zero = Inr s \<and>
      map (\<lambda>k. pb_page (fl_blk s k)) [0, 1, 2] = [0x800000, 0xC00000, 0x1400000])"
proof
  have "map_sum id (\<lambda>s. map (\<lambda>k. (pb_page (fl_blk s k), pb_order (fl_blk s k))) [0, 1])
      (init_free_loop 11 0x100000 3 (fl_meta_zero\<lparr>fl_last := None\<rparr>)) = Inr [(0x100000, 1), (0x100000, 0)]"
    by code_simp
  then show "\<exists>s. init_free_list 0x100000 0x3000 fl_meta_zero = Inr s \<and>
      map (\<lambda>k. (pb_page (fl_blk s k), pb_order (fl_blk s k))) [0, 1] = [(0x100000, 1), (0x100000, 0)]"
    by (auto simp: init_free_list_def map_sum_def split: sum.splits)
next
  have "map_sum id (\<lambda>s. map (\<lambda>k. pb_page (fl_blk s k)) [0, 1, 2]) (create_free_list 0x800000 10 3 fl_meta_zero)
      = Inr [0x800000, 0xC00000, 0x1400000]"
    by code_simp
  then show "\<exists>s. create_free_list 0x800000 10 3 fl_meta_zero = Inr s \<and>
      map (\<lambda>k. pb_page (fl_blk s k)) [0, 1, 2] = [0x800000, 0xC00000, 0x1400000]"
    by (auto simp: map_sum_def split: sum.splits)
qed

end
