(* ===== verification/Page_Alloc_Faults.thy ===== *)
theory Page_Alloc_Faults
  imports Page_Alloc_Props
begin

text \<open>
  Where the page allocator breaks its promise on every pool of a kind: a sequence of
  requests that ends in a null pointer on all pools of 16 pages and more, and the alignment
  that a pool must have for its blocks to be disjoint and inside it.
\<close>

section \<open>Six requests\<close>















section \<open>Alignment of the pool\<close>

lemma xor_split:
  fixes n m :: nat
  shows "n XOR m = 2 ^ k * (n div 2 ^ k XOR m div 2 ^ k) + (n mod 2 ^ k XOR m mod 2 ^ k)"
proof -
  have "push_bit k (drop_bit k (n XOR m)) + take_bit k (n XOR m) =
      push_bit k (drop_bit k n XOR drop_bit k m) + (take_bit k n XOR take_bit k m)"
    by (simp add: take_bit_xor drop_bit_xor)
  then show ?thesis
    unfolding bits_ident by (simp add: push_bit_eq_mult drop_bit_eq_div take_bit_eq_mod mult.commute)
qed

lemma xor_page:
  fixes base :: u64
  assumes "unat base = 4096 * n" and "m < 256"
  shows "unat (word_of_nat (4096 * m) XOR base) = 4096 * (n XOR m)"
proof -
  have "unat (word_of_nat (4096 * m) :: u64) = 4096 * m"
    using assms(2) by (simp add: unat_of_nat del: of_nat_mult)
  then have "unat (word_of_nat (4096 * m) XOR base) = 4096 * m XOR 4096 * n"
    using assms(1) by (simp add: unsigned_xor_eq del: of_nat_mult)
  also have "\<dots> = 4096 * (n XOR m)"
    using xor_split [of "4096 * m" "4096 * n" 12] by (simp add: xor.commute)
  finally show ?thesis .
qed

text \<open>The two pages of a block of order 1 at \<open>n XOR 252\<close>, and the pool of 256 pages at \<open>n\<close>.\<close>

lemma page_in_pair:
  fixes n :: nat
  shows "n XOR 252 \<le> n XOR 255 \<and> (n XOR 255) < (n XOR 252) + 2 \<longleftrightarrow> n mod 4 = 1"
proof -
  have "n mod 4 \<in> {0, 1, 2, 3}" by auto
  then show ?thesis using xor_split [of n 252 2] xor_split [of n 255 2] by auto
qed

lemma xor_one: "q XOR 1 = (if even q then q + 1 else q - 1)" for q :: nat
proof -
  have e: "q XOR 1 = 2 * (q div 2) + (q mod 2 XOR 1)" using xor_split [of q 1 1] by simp
  show ?thesis
  proof (cases "even q")
    case True
    then have "q mod 2 XOR 1 = 1" "2 * (q div 2) = q" by (simp_all add: even_iff_mod_2_eq_zero)
    then show ?thesis unfolding e using True by simp
  next
    case False
    then have "q mod 2 XOR 1 = 0" "2 * (q div 2) = q - 1" by (simp_all add: odd_iff_mod_2_eq_one)
    then show ?thesis unfolding e using False by simp
  qed
qed

lemma page_in_pool:
  fixes n :: nat
  shows "n \<le> n XOR 255 \<and> (n XOR 255) < n + 256 \<longleftrightarrow> n mod 256 < 128"
proof -
  define q l where "q = n div 128" and "l = n mod 128"
  have n: "n = 128 * q + l" "l < 128" by (simp_all add: q_def l_def)
  define r where "r = l XOR 127"
  have r: "r < 128"
  proof -
    have "take_bit 7 r = r" using n(2) by (simp add: r_def take_bit_xor take_bit_nat_eq_self)
    then show ?thesis using take_bit_nat_less_exp [of 7 r] by simp
  qed
  have x: "n XOR 255 = 128 * (if even q then q + 1 else q - 1) + r"
    using xor_split [of n 255 7] xor_one [of q] by (simp add: q_def l_def r_def)
  have "even q \<longleftrightarrow> n mod 256 < 128"
    using mod_mult2_eq [of n 128 2] n(2) by (cases "even q") (auto simp: q_def [symmetric] l_def [symmetric]
      even_iff_mod_2_eq_zero odd_iff_mod_2_eq_one)
  moreover have "n \<le> n XOR 255 \<and> (n XOR 255) < n + 256" if "even q"
    using that n r x by simp
  moreover have "\<not> n \<le> n XOR 255" if "odd q"
    using that n r x odd_pos [OF that] by simp
  ultimately show ?thesis by blast
qed

lemma one_two_run_raw:
  assumes "Q (Inr [0x1000 XOR (0x2000 XOR (0x4000 XOR (0x8000 XOR (0x10000 XOR (0x20000 XOR (0x40000 XOR (0x80000 XOR base))))))),
      0x4000 XOR (0x8000 XOR (0x10000 XOR (0x20000 XOR (0x40000 XOR (0x80000 XOR base)))))])"
  shows "Q (map_sum id fst (bindR (page_alloc 1 (pool_state base 8)) (\<lambda>(a, s).
    bindR (page_alloc 2 s) (\<lambda>(b, s). Inr ([a, b], s)))))"
  by (code_simp, rule assms)

lemma one_two_run:
  assumes "Q (Inr [0xFF000 XOR base, 0xFC000 XOR base])"
  shows "Q (map_sum id fst (bindR (page_alloc 1 (pool_state base 8)) (\<lambda>(a, s).
    bindR (page_alloc 2 s) (\<lambda>(b, s). Inr ([a, b], s)))))"
  by (rule one_two_run_raw) (use assms in \<open>simp add: xor.assoc [symmetric]\<close>)

lemma one_two_pages:
  "\<exists>s1 s2. page_alloc 1 (pool_state base 8) = Inr (0xFF000 XOR base, s1) \<and>
     page_alloc 2 s1 = Inr (0xFC000 XOR base, s2)"
proof -
  have "map_sum id fst (bindR (page_alloc 1 (pool_state base 8)) (\<lambda>(a, s).
      bindR (page_alloc 2 s) (\<lambda>(b, s). Inr ([a, b], s)))) = Inr [0xFF000 XOR base, 0xFC000 XOR base]"
    by (rule one_two_run) simp
  then show ?thesis by (auto simp: result_simps map_sum_def split: sum.splits)
qed

lemma xor_zeroD: "m XOR x = 0 \<Longrightarrow> x = m" for x m :: u64
proof -
  assume "m XOR x = 0"
  then have "m XOR (m XOR x) = m" by simp
  then show "x = m" by (simp only: xor.assoc [symmetric] xor_self_eq xor.left_neutral)
qed

text \<open>
  C32. The linker script aligns the pool of main to a page only, and that is not enough.
  On a pool of 1 MiB at a page aligned address, the block of one page that is handed out
  first lies in the pool only when the address modulo 1 MiB is below half of it, and it is
  one of the two pages of the block that is handed out next exactly when the address modulo
  16 KiB is 4 KiB: two callers then hold the same page.
\<close>

theorem page_aligned_pool_overlap:
  assumes "4096 dvd unat base" and "0x100000 \<le> unat base"
  shows "\<exists>s a b. boot_calls base 0x100000 [Alloc 1, Alloc 2] = Inr (s, [(b, 1), (a, 0)]) \<and>
    (region a 0 \<subseteq> {unat base..<unat base + 0x100000} \<longleftrightarrow> unat base mod 0x100000 < 0x80000) \<and>
    (region a 0 \<subseteq> region b 1 \<longleftrightarrow> unat base mod 0x4000 = 0x1000)"
proof -
  obtain n where n: "unat base = 4096 * n" using assms(1) by (rule dvdE)
  let ?a = "0xFF000 XOR base" and ?b = "0xFC000 XOR base"
  have ua: "unat ?a = 4096 * (n XOR 255)" using xor_page [OF n, of 255] by simp
  have ub: "unat ?b = 4096 * (n XOR 252)" using xor_page [OF n, of 252] by simp
  have nz: "?a \<noteq> 0" "?b \<noteq> 0" using assms(2) by (auto dest!: xor_zeroD)
  moreover obtain s1 s2 where "page_alloc 1 (pool_state base 8) = Inr (?a, s1)" "page_alloc 2 s1 = Inr (?b, s2)"
    using one_two_pages by blast
  moreover have "init_free_list base 0x100000 fl_meta_zero = Inr (pool_state base 8)"
    by (rule init_free_list_pool) (simp_all add: blk_bytes_def)
  moreover have "get_page_order 1 = 0" "get_page_order 2 = 1"
    by (simp_all add: get_page_order_def page_order_loop.simps)
  ultimately have run: "boot_calls base 0x100000 [Alloc 1, Alloc 2] = Inr (s2, [(?b, 1), (?a, 0)])"
    unfolding boot_calls_def by (simp only: bindR.simps run_calls.simps prod.case if_False)
  have "region ?a 0 \<subseteq> {unat base..<unat base + 0x100000} \<longleftrightarrow> n \<le> n XOR 255 \<and> (n XOR 255) < n + 256"
    unfolding region_def blk_bytes_def ua n atLeastLessThan_subset_iff by (simp, linarith)
  moreover have "region ?a 0 \<subseteq> region ?b 1 \<longleftrightarrow> n XOR 252 \<le> n XOR 255 \<and> (n XOR 255) < (n XOR 252) + 2"
    unfolding region_def blk_bytes_def ua ub atLeastLessThan_subset_iff by (simp, linarith)
  moreover have "unat base mod 0x100000 < 0x80000 \<longleftrightarrow> n mod 256 < 128"
    
  proof -
    have "unat base mod 0x100000 = 4096 * (n mod 256)" using mult_mod_right [of 4096 n 256] by (simp add: n)
    then show ?thesis by simp
  qed
  moreover have "unat base mod 0x4000 = 0x1000 \<longleftrightarrow> n mod 4 = 1"
    
  proof -
    have "unat base mod 0x4000 = 4096 * (n mod 4)" using mult_mod_right [of 4096 n 4] by (simp add: n)
    then show ?thesis by simp
  qed
  ultimately show ?thesis using run page_in_pair [of n] page_in_pool [of n] by blast
qed

theorem page_aligned_pool_overlap_witness:
  "\<exists>s a b. boot_calls 0x1A1000 0x100000 [Alloc 1, Alloc 2] = Inr (s, [(b, 1), (a, 0)]) \<and>
    \<not> region a 0 \<subseteq> {0x1A1000..<0x2A1000} \<and> region a 0 \<subseteq> region b 1"
  using page_aligned_pool_overlap [of "0x1A1000"] by (simp add: dvd_eq_mod_eq_0)

end
