(* ===== verification/Slub.thy ===== *)
theory Slub
  imports Page_Alloc_Calls
begin

text \<open>
  The allocator of small objects, slub.c and slub.h, on top of the page allocator. Every
  core has a \<open>kmem_fl\<close> with one cache per object size; caches and objects are records
  that are laid out one after the other from \<open>kf_end\<close>, so a pointer to one is its
  address. The arguments \<open>cpu\<close> and \<open>t\<close> stand for the results of curr\_core\_id and
  get\_curr\_task: the number of the core, and the context of the current task (None for a
  null pointer).
\<close>

section \<open>Data\<close>

abbreviation MIN_ORDER_KMEM :: nat where "MIN_ORDER_KMEM \<equiv> 6"
abbreviation MAX_ORDER_KMEM :: nat where "MAX_ORDER_KMEM \<equiv> 10"
abbreviation MAX_REMOTE_CORE_ID :: nat where "MAX_REMOTE_CORE_ID \<equiv> 3"
abbreviation KMEM_OBJECT_SIZE :: "nat \<Rightarrow> nat" where "KMEM_OBJECT_SIZE order \<equiv> 2 ^ order"
abbreviation KMEM_CACHE_CREATE_ONLY :: u64 where "KMEM_CACHE_CREATE_ONLY \<equiv> 0xAB"
abbreviation KMEM_CACHE_AVAIL :: u8 where "KMEM_CACHE_AVAIL \<equiv> 0"
abbreviation KMEM_CACHE_N_AVAIL :: u8 where "KMEM_CACHE_N_AVAIL \<equiv> 1"

text \<open>The sizes of the two structs on a 64 bit machine.\<close>

abbreviation SIZEOF_KMEM_OBJ :: u64 where "SIZEOF_KMEM_OBJ \<equiv> 32"
abbreviation SIZEOF_KMEM_CACHE :: u64 where "SIZEOF_KMEM_CACHE \<equiv> 48"

record kmem_obj =
  ob_addr :: u64
  ob_order :: nat
  ob_core :: nat
  ob_cache :: u64
  ob_next :: "u64 option"

record kmem_cache =
  kc_order :: nat
  kc_fl :: nat
  kc_page :: u64
  kc_first :: "u64 option"
  kc_status :: u8
  kc_next :: "u64 option"

record kmem_fl =
  kf_cache :: "nat \<Rightarrow> u64 option"
  kf_end :: u64

text \<open>\<open>sl_used\<close> is the field used\_kmem of every task context.\<close>

record slub =
  sl_fls :: "nat \<Rightarrow> kmem_fl"
  sl_obj :: "u64 \<Rightarrow> kmem_obj"
  sl_cache :: "u64 \<Rightarrow> kmem_cache"
  sl_used :: "nat \<Rightarrow> u64 option"
  sl_pages :: fl_meta

definition set_obj :: "u64 \<Rightarrow> kmem_obj \<Rightarrow> slub \<Rightarrow> slub" where
  "set_obj k b s = s\<lparr>sl_obj := (sl_obj s)(k := b)\<rparr>"

definition set_cache :: "u64 \<Rightarrow> kmem_cache \<Rightarrow> slub \<Rightarrow> slub" where
  "set_cache k b s = s\<lparr>sl_cache := (sl_cache s)(k := b)\<rparr>"

definition set_fl :: "nat \<Rightarrow> kmem_fl \<Rightarrow> slub \<Rightarrow> slub" where
  "set_fl k b s = s\<lparr>sl_fls := (sl_fls s)(k := b)\<rparr>"

definition set_obj_next :: "u64 \<Rightarrow> u64 option \<Rightarrow> slub \<Rightarrow> slub" where
  "set_obj_next k q s = set_obj k (sl_obj s k\<lparr>ob_next := q\<rparr>) s"

definition obj_nexts :: "slub \<Rightarrow> u64 \<Rightarrow> u64 option" where
  "obj_nexts s k = ob_next (sl_obj s k)"

definition cache_nexts :: "slub \<Rightarrow> u64 \<Rightarrow> u64 option" where
  "cache_nexts s k = kc_next (sl_cache s k)"

section \<open>Free lists and caches\<close>

definition kmem_get_curr_fl :: "nat \<Rightarrow> slub \<Rightarrow> kmem_fl result" where
  "kmem_get_curr_fl cpu s = (if cpu \<le> MAX_REMOTE_CORE_ID then Inr (sl_fls s cpu) else Inl OutOfBounds)"

definition cache_index :: "nat \<Rightarrow> nat result" where
  "cache_index order =
     (if MIN_ORDER_KMEM \<le> order \<and> order \<le> MAX_ORDER_KMEM then Inr (order - MIN_ORDER_KMEM)
      else Inl OutOfBounds)"

definition kmem_get_curr_cache :: "nat \<Rightarrow> nat \<Rightarrow> slub \<Rightarrow> u64 option result" where
  "kmem_get_curr_cache cpu order s =
     bindR (kmem_get_curr_fl cpu s) (\<lambda>fl.
     bindR (cache_index order) (\<lambda>i. Inr (kf_cache fl i)))"

definition kmem_add_cache :: "nat \<Rightarrow> u64 option \<Rightarrow> slub \<Rightarrow> slub result" where
  "kmem_add_cache cpu c s =
     bindR (derefR c) (\<lambda>c.
     let order = kc_order (sl_cache s c) in
     bindR (kmem_get_curr_cache cpu order s) (\<lambda>fl_c.
     case fl_c of
       None \<Rightarrow>
         bindR (kmem_get_curr_fl cpu s) (\<lambda>fl.
         bindR (cache_index order) (\<lambda>i.
         Inr (set_fl cpu (fl\<lparr>kf_cache := (kf_cache fl)(i := Some c)\<rparr>) s)))
     | Some f \<Rightarrow>
         bindR (loopR (last_of (cache_nexts s) f)) (\<lambda>l.
         Inr (set_cache l (sl_cache s l\<lparr>kc_next := Some c\<rparr>) s))))"

definition kmem_cache_is_available :: "u64 \<Rightarrow> slub \<Rightarrow> bool" where
  "kmem_cache_is_available c s \<longleftrightarrow> kc_status (sl_cache s c) = KMEM_CACHE_AVAIL"

definition kmem_add_obj :: "u64 \<Rightarrow> u64 \<Rightarrow> slub \<Rightarrow> slub result" where
  "kmem_add_obj c obj s =
     (case kc_first (sl_cache s c) of
       None \<Rightarrow>
         let s = set_cache c (sl_cache s c\<lparr>kc_first := Some obj,
                   kc_page := ob_addr (sl_obj s obj) AND NOT 0xFFF\<rparr>) s
         in Inr (set_obj_next obj None s)
     | Some f \<Rightarrow>
         bindR (loopR (last_of (obj_nexts s) f)) (\<lambda>n_obj.
         let s = set_obj_next n_obj (Some obj) s in
         Inr (if \<not> kmem_cache_is_available c s
              then set_cache c (sl_cache s c\<lparr>kc_status := KMEM_CACHE_AVAIL\<rparr>) s else s)))"

definition slub_page_alloc :: "u32 \<Rightarrow> slub \<Rightarrow> (u64 \<times> slub) result" where
  "slub_page_alloc n s = bindR (page_alloc n (sl_pages s)) (\<lambda>(p, m). Inr (p, s\<lparr>sl_pages := m\<rparr>))"

definition kmem_create_obj :: "nat \<Rightarrow> u64 \<Rightarrow> slub \<Rightarrow> (u64 \<times> slub) result" where
  "kmem_create_obj cpu c s =
     (let order = kc_order (sl_cache s c);
          blk_offset = word_of_nat (KMEM_OBJECT_SIZE order);
          fl = kc_fl (sl_cache s c);
          obj = kf_end (sl_fls s fl);
          s = set_fl fl (sl_fls s fl\<lparr>kf_end := obj + SIZEOF_KMEM_OBJ\<rparr>) s;
          s = set_obj obj (sl_obj s obj\<lparr>ob_order := order, ob_core := cpu, ob_cache := c,
                ob_next := None\<rparr>) s
      in bindR (case kc_first (sl_cache s c) of
           None \<Rightarrow> slub_page_alloc 1 s
         | Some f \<Rightarrow> bindR (loopR (last_of (obj_nexts s) f)) (\<lambda>n_obj.
             Inr (ob_addr (sl_obj s n_obj) + blk_offset, s)))
         (\<lambda>(addr, s).
         let s = set_obj obj (sl_obj s obj\<lparr>ob_addr := addr\<rparr>) s in
         bindR (kmem_add_obj c obj s) (\<lambda>s. Inr (obj, s))))"

primrec kmem_populate_loop :: "nat \<Rightarrow> nat \<Rightarrow> u64 \<Rightarrow> slub \<Rightarrow> slub result" where
  "kmem_populate_loop 0 cpu c s = Inr s"
| "kmem_populate_loop (Suc n) cpu c s = bindR (kmem_create_obj cpu c s) (\<lambda>(obj, s).
     kmem_populate_loop n cpu c s)"

definition kmem_populate_cache :: "nat \<Rightarrow> u64 \<Rightarrow> slub \<Rightarrow> slub result" where
  "kmem_populate_cache cpu c s =
     kmem_populate_loop (PAGE_SIZE div KMEM_OBJECT_SIZE (kc_order (sl_cache s c))) cpu c s"

text \<open>Returns a null pointer if there is no page for the records.\<close>

definition kmem_create_cache :: "nat \<Rightarrow> nat \<Rightarrow> u64 \<Rightarrow> slub \<Rightarrow> (u64 option \<times> slub) result" where
  "kmem_create_cache cpu order flags s =
     bindR (kmem_get_curr_fl cpu s) (\<lambda>fl.
     bindR (if kf_end fl = 0
            then bindR (slub_page_alloc 1 s) (\<lambda>(p, s).
                   Inr (set_fl cpu (sl_fls s cpu\<lparr>kf_end := p\<rparr>) s))
            else Inr s) (\<lambda>s.
     let c = kf_end (sl_fls s cpu) in
     if c = 0 then Inr (None, s)
     else
       let s = set_fl cpu (sl_fls s cpu\<lparr>kf_end := c + SIZEOF_KMEM_CACHE\<rparr>) s;
           s = set_cache c (sl_cache s c\<lparr>kc_order := order, kc_fl := cpu,
                 kc_status := KMEM_CACHE_N_AVAIL, kc_next := None\<rparr>) s
       in bindR (if flags \<noteq> KMEM_CACHE_CREATE_ONLY then kmem_populate_cache cpu c s else Inr s)
            (\<lambda>s. Inr (Some c, s))))"

primrec kmem_init_loop :: "nat list \<Rightarrow> nat \<Rightarrow> slub \<Rightarrow> slub result" where
  "kmem_init_loop [] cpu s = Inr s"
| "kmem_init_loop (i # is) cpu s =
     bindR (kmem_create_cache cpu i 0 s) (\<lambda>(c, s).
     bindR (kmem_add_cache cpu c s) (\<lambda>s. kmem_init_loop is cpu s))"

definition kmem_init_caches :: "nat \<Rightarrow> slub \<Rightarrow> slub result" where
  "kmem_init_caches cpu s = kmem_init_loop [MIN_ORDER_KMEM..<MAX_ORDER_KMEM + 1] cpu s"

section \<open>Allocation\<close>

text \<open>
  \<^verbatim>\<open>while (size > KMEM_OBJECT_SIZE(i)) i++\<close>. kmalloc passes sizes below a page,
  so the shift stays within an int.
\<close>

function kmem_order_loop :: "u32 \<Rightarrow> nat \<Rightarrow> nat" where
  "kmem_order_loop sz i = (if KMEM_OBJECT_SIZE i < unat sz then kmem_order_loop sz (i + 1) else i)"
  by pat_completeness auto
termination
  by (relation "measure (\<lambda>(sz, i). unat sz - 2 ^ i)") (auto intro: diff_less_mono2)

declare kmem_order_loop.simps [simp del]

definition kmem_get_obj_order :: "u32 \<Rightarrow> nat" where
  "kmem_get_obj_order sz = kmem_order_loop sz MIN_ORDER_KMEM"

text \<open>
  \<^verbatim>\<open>while (obj->next) { p_obj = obj; obj = obj->next; }\<close>: the last two objects.
\<close>

partial_function (option) last_pair :: "('a \<Rightarrow> 'a option) \<Rightarrow> 'a \<Rightarrow> 'a \<Rightarrow> ('a \<times> 'a) option" where
  "last_pair nxt p x = (case nxt x of None \<Rightarrow> Some (p, x) | Some y \<Rightarrow> last_pair nxt x y)"

definition kmem_extract_obj_from_cache :: "u64 option \<Rightarrow> slub \<Rightarrow> (u64 option \<times> slub) result" where
  "kmem_extract_obj_from_cache c s =
     bindR (derefR c) (\<lambda>c.
     case kc_first (sl_cache s c) of
       None \<Rightarrow> Inr (None, s)
     | Some f \<Rightarrow> bindR (loopR (last_pair (obj_nexts s) f f)) (\<lambda>(p_obj, obj).
         Inr (Some obj, set_obj_next p_obj None s)))"

definition kmem_extract_obj_from_fl :: "nat \<Rightarrow> nat \<Rightarrow> slub \<Rightarrow> (u64 option \<times> slub) result" where
  "kmem_extract_obj_from_fl cpu order s =
     bindR (kmem_get_curr_cache cpu order s) (\<lambda>c. kmem_extract_obj_from_cache c s)"

definition set_used :: "nat \<Rightarrow> u64 option \<Rightarrow> slub \<Rightarrow> slub" where
  "set_used t q s = s\<lparr>sl_used := (sl_used s)(t := q)\<rparr>"

definition kmem_add_to_task :: "nat \<Rightarrow> u64 \<Rightarrow> slub \<Rightarrow> slub result" where
  "kmem_add_to_task t obj s =
     (let used = sl_used s t; s = set_obj_next obj None s in
      case used of
        None \<Rightarrow> Inr (set_used t (Some obj) s)
      | Some f \<Rightarrow> bindR (loopR (last_of (obj_nexts s) f)) (\<lambda>o_last.
          Inr (set_obj_next o_last (Some obj) s)))"

definition kmem_acquire_obj :: "nat \<Rightarrow> u32 \<Rightarrow> slub \<Rightarrow> (u64 option \<times> slub) result" where
  "kmem_acquire_obj cpu sz s = kmem_extract_obj_from_fl cpu (kmem_get_obj_order sz) s"

definition slub_alloc :: "nat \<Rightarrow> nat option \<Rightarrow> u32 \<Rightarrow> slub \<Rightarrow> (u64 \<times> slub) result" where
  "slub_alloc cpu t sz s =
     bindR (kmem_get_curr_fl cpu s) (\<lambda>fl.
     bindR (if kf_cache fl 0 = None then kmem_init_caches cpu s else Inr s) (\<lambda>s.
     bindR (kmem_acquire_obj cpu sz s) (\<lambda>(obj, s).
     case obj of
       None \<Rightarrow> Inr (0, s)
     | Some obj \<Rightarrow>
         (case t of
            None \<Rightarrow> Inr (0, s)
          | Some t \<Rightarrow> bindR (kmem_add_to_task t obj s) (\<lambda>s. Inr (ob_addr (sl_obj s obj), s))))))"

section \<open>Freeing\<close>

text \<open>
  The loop of kmem\_get\_obj\_parent: the object before the first one with the address.
\<close>

partial_function (option) find_parent ::
  "('a \<Rightarrow> 'a option) \<Rightarrow> ('a \<Rightarrow> bool) \<Rightarrow> 'a \<Rightarrow> 'a option \<Rightarrow> 'a option option" where
  "find_parent nxt P p q =
     (case q of None \<Rightarrow> Some None
      | Some x \<Rightarrow> if P x then Some (Some p) else find_parent nxt P x (nxt x))"

declare last_pair.simps [code] find_parent.simps [code]

definition kmem_get_obj_parent :: "u64 option \<Rightarrow> u64 \<Rightarrow> slub \<Rightarrow> u64 option result" where
  "kmem_get_obj_parent objs addr s =
     (case objs of
        None \<Rightarrow> Inr None
      | Some x \<Rightarrow>
          if addr = 0 then Inr None
          else if ob_addr (sl_obj s x) = addr then Inr (Some x)
          else loopR (find_parent (obj_nexts s) (\<lambda>x. ob_addr (sl_obj s x) = addr) x (Some x)))"

definition kmem_extract_obj_child :: "u64 option \<Rightarrow> slub \<Rightarrow> u64 option \<times> slub" where
  "kmem_extract_obj_child parent s =
     (case parent of
        None \<Rightarrow> (None, s)
      | Some p \<Rightarrow>
          (case ob_next (sl_obj s p) of
             None \<Rightarrow> (Some p, s)
           | Some child \<Rightarrow>
               let s = set_obj_next p (ob_next (sl_obj s child)) s
               in (Some child, set_obj_next child None s)))"

definition kmem_extract_obj :: "nat \<Rightarrow> u64 \<Rightarrow> slub \<Rightarrow> (u64 option \<times> slub) result" where
  "kmem_extract_obj t addr s =
     bindR (kmem_get_obj_parent (sl_used s t) addr s) (\<lambda>target_obj.
     Inr (kmem_extract_obj_child target_obj s))"

definition kmem_find_relative_cache :: "nat \<Rightarrow> u64 \<Rightarrow> slub \<Rightarrow> u64 option result" where
  "kmem_find_relative_cache cpu obj s =
     (let parent_page = ob_addr (sl_obj s obj) AND NOT 0xFFF in
      bindR (kmem_get_curr_cache cpu (ob_order (sl_obj s obj)) s) (\<lambda>c.
      loopR (find_ptr (cache_nexts s) (\<lambda>c. kc_page (sl_cache s c) = parent_page) c)))"

definition kmem_reclaim_obj :: "nat \<Rightarrow> u64 \<Rightarrow> slub \<Rightarrow> slub result" where
  "kmem_reclaim_obj cpu obj s =
     (let order = ob_order (sl_obj s obj) in
      if cpu = ob_core (sl_obj s obj)
      then bindR (kmem_get_curr_cache cpu order s) (\<lambda>c.
           bindR (derefR c) (\<lambda>c. kmem_add_obj c obj s))
      else bindR (kmem_find_relative_cache cpu obj s) (\<lambda>c.
           bindR (case c of
               Some c \<Rightarrow> Inr (Some c, s)
             | None \<Rightarrow> kmem_create_cache cpu order KMEM_CACHE_CREATE_ONLY s) (\<lambda>(c, s).
           bindR (derefR c) (\<lambda>c. kmem_add_obj c obj s))))"

text \<open>Returns 0 when the object was taken back, -1 when the task has none at the address.\<close>

definition slub_free :: "nat \<Rightarrow> nat option \<Rightarrow> u64 \<Rightarrow> slub \<Rightarrow> (int \<times> slub) result" where
  "slub_free cpu t addr s =
     (if addr = 0 then Inr (0, s)
      else bindR (derefR t) (\<lambda>t.
           bindR (kmem_extract_obj t addr s) (\<lambda>(obj, s).
           case obj of
             None \<Rightarrow> Inr (-1, s)
           | Some obj \<Rightarrow> bindR (kmem_reclaim_obj cpu obj s) (\<lambda>s. Inr (0, s)))))"

section \<open>kmalloc and kfree\<close>

text \<open>From mm.c.\<close>

definition kmalloc :: "nat \<Rightarrow> nat option \<Rightarrow> u32 \<Rightarrow> slub \<Rightarrow> (u64 \<times> slub) result" where
  "kmalloc cpu t sz s =
     (let pages = sz div word_of_nat PAGE_SIZE in
      if pages \<noteq> 0
      then slub_page_alloc (pages + (if sz mod word_of_nat PAGE_SIZE \<noteq> 0 then 1 else 0)) s
      else slub_alloc cpu t sz s)"

definition kfree :: "nat \<Rightarrow> nat option \<Rightarrow> u64 \<Rightarrow> slub \<Rightarrow> slub result" where
  "kfree cpu t p s =
     bindR (slub_free cpu t p s) (\<lambda>(ret, s).
     if ret \<noteq> 0 then bindR (page_free p (sl_pages s)) (\<lambda>m. Inr (s\<lparr>sl_pages := m\<rparr>))
     else Inr s)"

end
