(* ===== verification/Slub_Inv.thy ===== *)
theory Slub_Inv
  imports Slub
begin

text \<open>
  The invariant of the object allocator of one core, the initialisation that establishes
  it, and the effect of taking an object out of a cache and of giving it back.
\<close>

section \<open>Updates\<close>

lemma slub_set_simps [simp]:
  "sl_obj (set_obj k b s) = (sl_obj s)(k := b)" "sl_cache (set_obj k b s) = sl_cache s"
  "sl_fls (set_obj k b s) = sl_fls s" "sl_used (set_obj k b s) = sl_used s" "sl_pages (set_obj k b s) = sl_pages s"
  "sl_obj (set_cache k c s) = sl_obj s" "sl_cache (set_cache k c s) = (sl_cache s)(k := c)"
  "sl_fls (set_cache k c s) = sl_fls s" "sl_used (set_cache k c s) = sl_used s" "sl_pages (set_cache k c s) = sl_pages s"
  "sl_obj (set_fl i f s) = sl_obj s" "sl_cache (set_fl i f s) = sl_cache s"
  "sl_fls (set_fl i f s) = (sl_fls s)(i := f)" "sl_used (set_fl i f s) = sl_used s" "sl_pages (set_fl i f s) = sl_pages s"
  "sl_obj (set_used t q s) = sl_obj s" "sl_cache (set_used t q s) = sl_cache s"
  "sl_fls (set_used t q s) = sl_fls s" "sl_used (set_used t q s) = (sl_used s)(t := q)"
  "sl_pages (set_used t q s) = sl_pages s"
  by (simp_all add: set_obj_def set_cache_def set_fl_def set_used_def)

lemma obj_nexts_simps [simp]:
  "obj_nexts (set_obj k b s) = (obj_nexts s)(k := ob_next b)"
  "obj_nexts (set_obj_next k q s) = (obj_nexts s)(k := q)"
  "obj_nexts (set_cache c d s) = obj_nexts s" "obj_nexts (set_fl i f s) = obj_nexts s"
  "obj_nexts (set_used t p s) = obj_nexts s" "obj_nexts (s\<lparr>sl_pages := m\<rparr>) = obj_nexts s"
  by (auto simp: obj_nexts_def set_obj_next_def)

lemma set_obj_next_simps [simp]:
  "sl_obj (set_obj_next k q s) = (sl_obj s)(k := sl_obj s k\<lparr>ob_next := q\<rparr>)"
  "sl_cache (set_obj_next k q s) = sl_cache s" "sl_fls (set_obj_next k q s) = sl_fls s"
  "sl_used (set_obj_next k q s) = sl_used s" "sl_pages (set_obj_next k q s) = sl_pages s"
  by (simp_all add: set_obj_next_def)

section \<open>Populating a cache\<close>

text \<open>The records of the objects of a cache, laid out from an address on.\<close>

definition obj_recs :: "u64 \<Rightarrow> nat \<Rightarrow> u64 list" where
  "obj_recs e n = map (\<lambda>i. e + word_of_nat i * SIZEOF_KMEM_OBJ) [0..<n]"

lemma obj_recs_Suc: "obj_recs e (Suc n) = obj_recs e n @ [e + word_of_nat n * SIZEOF_KMEM_OBJ]"
  by (simp add: obj_recs_def)

lemma length_obj_recs [simp]: "length (obj_recs e n) = n"
  by (simp add: obj_recs_def)

lemma word_times_inj:
  fixes e :: u64
  assumes "i < 2 ^ 58" and "j < 2 ^ 58" and "e + word_of_nat i * 32 = e + word_of_nat j * 32"
  shows "i = j"
proof -
  have "unat (word_of_nat i * 32 :: u64) = i * 32" if "i < 2 ^ 58" for i
  proof -
    have "(word_of_nat i * 32 :: u64) = word_of_nat (i * 32)" by simp
    then have "unat (word_of_nat i * 32 :: u64) = take_bit 64 (i * 32)" by (simp only: unsigned_of_nat) simp
    then show ?thesis using that by (simp add: take_bit_nat_eq_self)
  qed
  with assms show ?thesis by (metis add_left_cancel mult_cancel2 zero_neq_numeral)
qed

lemma obj_recs_new: "n < 2 ^ 58 \<Longrightarrow> e + word_of_nat n * SIZEOF_KMEM_OBJ \<notin> set (obj_recs e n)"
proof
  assume n: "n < 2 ^ 58" and "e + word_of_nat n * SIZEOF_KMEM_OBJ \<in> set (obj_recs e n)"
  then obtain i where i: "i < n" "e + word_of_nat n * SIZEOF_KMEM_OBJ = e + word_of_nat i * SIZEOF_KMEM_OBJ"
    by (auto simp: obj_recs_def)
  from word_times_inj [OF n _ i(2)] i(1) n show False by simp
qed

text \<open>
  The state \<open>s'\<close> after \<open>n\<close> objects were added to the empty cache \<open>c\<close> of \<open>s\<close>: their
  records follow one another, their addresses too, in one page \<open>p\<close>.
\<close>

definition populated :: "nat \<Rightarrow> u64 \<Rightarrow> slub \<Rightarrow> u64 \<Rightarrow> fl_meta \<Rightarrow> nat \<Rightarrow> slub \<Rightarrow> bool" where
  "populated cpu c s p m n s' \<longleftrightarrow>
     (let e = kf_end (sl_fls s cpu); order = kc_order (sl_cache s c) in
      chain (obj_nexts s') (kc_first (sl_cache s' c)) (obj_recs e n) \<and>
      (\<forall>i < n. let b = sl_obj s' (e + word_of_nat i * SIZEOF_KMEM_OBJ) in
         ob_addr b = p + word_of_nat (i * KMEM_OBJECT_SIZE order) \<and> ob_order b = order \<and> ob_core b = cpu) \<and>
      (\<forall>x. x \<notin> set (obj_recs e n) \<longrightarrow> sl_obj s' x = sl_obj s x) \<and>
      (\<forall>x. x \<noteq> c \<longrightarrow> sl_cache s' x = sl_cache s x) \<and>
      kc_order (sl_cache s' c) = order \<and> kc_fl (sl_cache s' c) = cpu \<and> kc_next (sl_cache s' c) = kc_next (sl_cache s c) \<and>
      sl_fls s' = (sl_fls s)(cpu := sl_fls s cpu\<lparr>kf_end := e + word_of_nat n * SIZEOF_KMEM_OBJ\<rparr>) \<and>
      sl_used s' = sl_used s \<and> sl_pages s' = m)"

lemma create_first_obj:
  assumes "kc_first (sl_cache s c) = None" and "kc_fl (sl_cache s c) = cpu"
    and "page_alloc 1 (sl_pages s) = Inr (p, m)"
  shows "\<exists>s'. kmem_create_obj cpu c s = Inr (kf_end (sl_fls s cpu), s') \<and> populated cpu c s p m 1 s'"
  using assms
  by (auto simp: kmem_create_obj_def Let_def slub_page_alloc_def kmem_add_obj_def populated_def obj_recs_def)

lemma create_next_obj:
  assumes pop: "populated cpu c s p m (Suc n) s1" and n: "Suc n < 2 ^ 58"
    and first: "kc_first (sl_cache s c) = None" 
  shows "\<exists>b s'. kmem_create_obj cpu c s1 = Inr (b, s') \<and> populated cpu c s p m (Suc (Suc n)) s'"
proof -
  define e where "e = kf_end (sl_fls s cpu)"
  define order where "order = kc_order (sl_cache s c)"
  define new where "new = e + word_of_nat (Suc n) * SIZEOF_KMEM_OBJ"
  define l where "l = e + word_of_nat n * SIZEOF_KMEM_OBJ"
  have p: "chain (obj_nexts s1) (kc_first (sl_cache s1 c)) (obj_recs e (Suc n))"
    "\<forall>i < Suc n. ob_addr (sl_obj s1 (e + word_of_nat i * SIZEOF_KMEM_OBJ)) = p + word_of_nat (i * KMEM_OBJECT_SIZE order) \<and>
       ob_order (sl_obj s1 (e + word_of_nat i * SIZEOF_KMEM_OBJ)) = order \<and> ob_core (sl_obj s1 (e + word_of_nat i * SIZEOF_KMEM_OBJ)) = cpu"
    "\<forall>x. x \<notin> set (obj_recs e (Suc n)) \<longrightarrow> sl_obj s1 x = sl_obj s x"
    "\<forall>x. x \<noteq> c \<longrightarrow> sl_cache s1 x = sl_cache s x"
    "kc_order (sl_cache s1 c) = order" "kc_fl (sl_cache s1 c) = cpu" "kc_next (sl_cache s1 c) = kc_next (sl_cache s c)"
    "sl_fls s1 = (sl_fls s)(cpu := sl_fls s cpu\<lparr>kf_end := new\<rparr>)"
    "sl_used s1 = sl_used s" "sl_pages s1 = m"
    using pop unfolding populated_def Let_def e_def order_def new_def by blast+
  have newout: "new \<notin> set (obj_recs e (Suc n))" unfolding new_def by (rule obj_recs_new [OF n])
  then have newl: "new \<noteq> l" by (auto simp: obj_recs_Suc l_def)
  obtain f where f: "kc_first (sl_cache s1 c) = Some f"
    using p(1) by (cases "kc_first (sl_cache s1 c)") (auto simp: obj_recs_Suc)
  let ?nx = "(obj_nexts s1)(new := None)"
  have ch: "chain ?nx (Some f) (obj_recs e (Suc n))"
    using p(1) f newout by (simp add: chain_upd_other)
  then have last: "last_of ?nx f = Some l" by (simp add: last_of_chain obj_recs_Suc l_def)
  have ch2: "chain (?nx(l := Some new)) (Some f) (obj_recs e (Suc (Suc n)))"
    using chain_snoc [of ?nx "Some f" "obj_recs e n" l new] ch newout
    by (simp add: obj_recs_Suc l_def new_def)
  have al: "ob_addr (sl_obj s1 l) = p + word_of_nat (n * KMEM_OBJECT_SIZE order)" using p(2) by (simp add: l_def)
  have idx: "e + word_of_nat i * SIZEOF_KMEM_OBJ \<noteq> new" if "i < Suc n" for i
  proof -
    have "e + word_of_nat i * SIZEOF_KMEM_OBJ \<in> set (obj_recs e (Suc n))"
      unfolding obj_recs_def set_map by (rule imageI) (use that in auto)
    then show ?thesis using newout by metis
  qed
  let ?b = "sl_obj s1 new\<lparr>ob_order := order, ob_core := cpu, ob_cache := c, ob_next := None\<rparr>"
  let ?s2 = "set_obj new ?b (set_fl cpu (sl_fls s cpu\<lparr>kf_end := new + SIZEOF_KMEM_OBJ\<rparr>) s1)"
  let ?addr = "ob_addr (sl_obj ?s2 l) + word_of_nat (KMEM_OBJECT_SIZE order)"
  let ?s3 = "set_obj new (?b\<lparr>ob_addr := ?addr\<rparr>) ?s2"
  have "kmem_create_obj cpu c s1 = bindR (kmem_add_obj c new ?s3) (\<lambda>s. Inr (new, s))"
    using last f by (simp add: kmem_create_obj_def Let_def p(5,6,8) fun_upd_idem)
  moreover obtain s' where s': "kmem_add_obj c new ?s3 = Inr s'" and
    eq: "sl_obj s' = (sl_obj ?s3)(l := sl_obj ?s3 l\<lparr>ob_next := Some new\<rparr>)"
      "\<forall>x. x \<noteq> c \<longrightarrow> sl_cache s' x = sl_cache s1 x" "kc_order (sl_cache s' c) = order" "kc_fl (sl_cache s' c) = cpu"
      "kc_next (sl_cache s' c) = kc_next (sl_cache s1 c)" "kc_first (sl_cache s' c) = Some f"
      "sl_fls s' = sl_fls ?s3" "sl_used s' = sl_used s1" "sl_pages s' = m"
      "obj_nexts s' = ?nx(l := Some new)"
    using last f p by (cases "kmem_cache_is_available c s1")
      (auto simp: kmem_add_obj_def Let_def kmem_cache_is_available_def)
  moreover have "populated cpu c s p m (Suc (Suc n)) s'"
  proof -
    have "ob_addr (sl_obj s' (e + word_of_nat i * SIZEOF_KMEM_OBJ)) = p + word_of_nat (i * KMEM_OBJECT_SIZE order) \<and>
       ob_order (sl_obj s' (e + word_of_nat i * SIZEOF_KMEM_OBJ)) = order \<and> ob_core (sl_obj s' (e + word_of_nat i * SIZEOF_KMEM_OBJ)) = cpu"
      if i: "i < Suc (Suc n)" for i
    proof (cases "i = Suc n")
      case True
      have i: "e + word_of_nat i * SIZEOF_KMEM_OBJ = new" by (simp only: True new_def)
      have "sl_obj s' new = ?b\<lparr>ob_addr := ?addr\<rparr>" using newl by (simp add: eq(1))
      then show ?thesis unfolding i using newl al True by (simp add: algebra_simps)
    next
      case False
      then have "i < Suc n" using i by simp
      then show ?thesis using p(2) idx [of i] newl by (auto simp: eq(1))
    qed
    moreover have "sl_obj s' x = sl_obj s x" if "x \<notin> set (obj_recs e (Suc (Suc n)))" for x
      using that p(3) by (auto simp: eq(1) obj_recs_Suc l_def new_def)
    moreover have "new + SIZEOF_KMEM_OBJ = e + word_of_nat (Suc (Suc n)) * SIZEOF_KMEM_OBJ"
      by (simp add: new_def algebra_simps)
    ultimately show ?thesis
      unfolding populated_def Let_def e_def [symmetric] order_def [symmetric]
      using ch2 p eq by (simp del: of_nat_Suc)
  qed
  ultimately show ?thesis by simp
qed

lemma populate_loop:
  assumes "populated cpu c s p m (Suc n) s1" and "Suc n + k < 2 ^ 58" and "kc_first (sl_cache s c) = None"
  shows "\<exists>s'. kmem_populate_loop k cpu c s1 = Inr s' \<and> populated cpu c s p m (Suc n + k) s'"
  using assms(1,2)
proof (induction k arbitrary: n s1)
  case (Suc k)
  obtain b s2 where "kmem_create_obj cpu c s1 = Inr (b, s2)" "populated cpu c s p m (Suc (Suc n)) s2"
    using create_next_obj [OF Suc.prems(1) _ assms(3)] Suc.prems(2) by auto
  with Suc.IH [of "Suc n" s2] Suc.prems(2) show ?case by simp
qed auto

lemma populate_cache:
  assumes "kc_first (sl_cache s c) = None" and "kc_fl (sl_cache s c) = cpu"
    and "kc_order (sl_cache s c) \<le> 12"
    and "page_alloc 1 (sl_pages s) = Inr (p, m)"
  shows "\<exists>s'. kmem_populate_cache cpu c s = Inr s' \<and>
    populated cpu c s p m (PAGE_SIZE div KMEM_OBJECT_SIZE (kc_order (sl_cache s c))) s'"
proof -
  let ?o = "kc_order (sl_cache s c)"
  have "(2 :: nat) ^ ?o \<le> 2 ^ 12" using assms(3) by (rule power_increasing) simp
  then have "0 < PAGE_SIZE div 2 ^ ?o" by (simp add: div_greater_zero_iff)
  then obtain k where k: "PAGE_SIZE div 2 ^ ?o = Suc k" by (cases "PAGE_SIZE div 2 ^ ?o") auto
  have "Suc k \<le> PAGE_SIZE" unfolding k [symmetric] by (rule div_le_dividend)
  then have "Suc 0 + k < 2 ^ 58" by simp
  moreover obtain s1 where s1: "kmem_create_obj cpu c s = Inr (kf_end (sl_fls s cpu), s1)" "populated cpu c s p m (Suc 0) s1"
    using create_first_obj [OF assms(1,2,4)] by auto
  ultimately obtain s' where "kmem_populate_loop k cpu c s1 = Inr s'" "populated cpu c s p m (Suc 0 + k) s'"
    using populate_loop [OF s1(2) _ assms(1)] by blast
  with s1 k show ?thesis by (simp add: kmem_populate_cache_def)
qed

section \<open>The initial caches\<close>

text \<open>
  The number of objects of a cache and the offset of its record from the start of the
  metadata page.
\<close>

definition nr_objs :: "nat \<Rightarrow> nat" where
  "nr_objs k = PAGE_SIZE div KMEM_OBJECT_SIZE k"

primrec meta_offset :: "nat \<Rightarrow> nat" where
  "meta_offset 0 = 0"
| "meta_offset (Suc k) = meta_offset k + (if k < MIN_ORDER_KMEM then 0 else 48 + 32 * nr_objs k)"

lemma meta_offset_zero: "k \<le> MIN_ORDER_KMEM \<Longrightarrow> meta_offset k = 0"
  by (induction k) auto

lemma meta_offset_mono: "j \<le> k \<Longrightarrow> meta_offset j \<le> meta_offset k"
  by (induction k) (auto simp: le_Suc_eq)

lemma meta_offset_step:
  "MIN_ORDER_KMEM \<le> k \<Longrightarrow> meta_offset (Suc k) = meta_offset k + 48 + 32 * nr_objs k"
  by simp

lemma meta_offset_less: "MIN_ORDER_KMEM \<le> j \<Longrightarrow> j < k \<Longrightarrow> meta_offset j + 48 + 32 * nr_objs j \<le> meta_offset k"
  using meta_offset_mono [of "Suc j" k] by simp

lemma nr_objs_le: "nr_objs k \<le> PAGE_SIZE"
  unfolding nr_objs_def by (rule div_le_dividend)

lemma meta_offset_bound: "meta_offset k \<le> k * 200000"
proof (induction k)
  case (Suc k)
  then show ?case using nr_objs_le [of k] by simp
qed simp

definition cache_at :: "u64 \<Rightarrow> nat \<Rightarrow> u64" where
  "cache_at M k = M + word_of_nat (meta_offset k)"

definition objs_at :: "u64 \<Rightarrow> nat \<Rightarrow> u64 list" where
  "objs_at M k = obj_recs (cache_at M k + SIZEOF_KMEM_CACHE) (nr_objs k)"

lemma word_plus_inj:
  fixes M :: u64
  shows "i < 2 ^ 64 \<Longrightarrow> j < 2 ^ 64 \<Longrightarrow> M + word_of_nat i = M + word_of_nat j \<Longrightarrow> i = j"
  by (simp add: word_of_nat_eq_iff take_bit_nat_eq_self)

lemma objs_at_alt:
  "objs_at M k = map (\<lambda>i. M + word_of_nat (meta_offset k + 48 + 32 * i)) [0..<nr_objs k]"
  by (simp add: objs_at_def obj_recs_def cache_at_def algebra_simps)

lemma cache_at_inj: "cache_at M j = cache_at M k \<Longrightarrow> MIN_ORDER_KMEM \<le> j \<Longrightarrow> MIN_ORDER_KMEM \<le> k \<Longrightarrow>
    j \<le> 12 \<Longrightarrow> k \<le> 12 \<Longrightarrow> j = k"
proof (rule ccontr)
  assume eq: "cache_at M j = cache_at M k" and b: "MIN_ORDER_KMEM \<le> j" "MIN_ORDER_KMEM \<le> k" "j \<le> 12" "k \<le> 12"
    and "j \<noteq> k"
  have "meta_offset j = meta_offset k"
    using word_plus_inj [OF _ _ eq [unfolded cache_at_def]] meta_offset_bound [of j] meta_offset_bound [of k] b by simp
  then show False using \<open>j \<noteq> k\<close> meta_offset_less [of j k] meta_offset_less [of k j] b
    by (cases "j < k") auto
qed

lemma objs_at_disjoint:
  assumes "MIN_ORDER_KMEM \<le> j" "j < k" "k \<le> 12"
  shows "set (objs_at M j) \<inter> set (objs_at M k) = {}"
proof (rule ccontr)
  assume "set (objs_at M j) \<inter> set (objs_at M k) \<noteq> {}"
  then obtain a b where ab: "a < nr_objs j" "b < nr_objs k"
    "M + word_of_nat (meta_offset j + 48 + 32 * a) = M + word_of_nat (meta_offset k + 48 + 32 * b)"
    unfolding objs_at_alt by auto
  have "meta_offset j + 48 + 32 * a < 2 ^ 64" "meta_offset k + 48 + 32 * b < 2 ^ 64"
    using ab(1,2) meta_offset_bound [of j] meta_offset_bound [of k] nr_objs_le [of j] nr_objs_le [of k] assms by simp_all
  from word_plus_inj [OF this ab(3)] meta_offset_less [OF assms(1,2)] ab(1) show False by simp
qed

text \<open>Taking single pages from the page allocator.\<close>

fun take_pages :: "nat \<Rightarrow> fl_meta \<Rightarrow> (u64 list \<times> fl_meta) result" where
  "take_pages 0 m = Inr ([], m)"
| "take_pages (Suc n) m = bindR (page_alloc 1 m) (\<lambda>(p, m).
     bindR (take_pages n m) (\<lambda>(ps, m). Inr (p # ps, m)))"

text \<open>
  After the caches of the orders below \<open>k\<close> were made, with metadata page \<open>M\<close> and pages
  \<open>pg j\<close> for the objects.
\<close>

definition cache_ok :: "nat \<Rightarrow> u64 \<Rightarrow> (nat \<Rightarrow> u64) \<Rightarrow> nat \<Rightarrow> slub \<Rightarrow> bool" where
  "cache_ok cpu M pg j s \<longleftrightarrow>
     kf_cache (sl_fls s cpu) (j - MIN_ORDER_KMEM) = Some (cache_at M j) \<and>
     kc_order (sl_cache s (cache_at M j)) = j \<and> kc_next (sl_cache s (cache_at M j)) = None \<and>
     chain (obj_nexts s) (kc_first (sl_cache s (cache_at M j))) (objs_at M j) \<and>
     (\<forall>i < nr_objs j. let b = sl_obj s (objs_at M j ! i) in
        ob_addr b = pg j + word_of_nat (i * KMEM_OBJECT_SIZE j) \<and> ob_order b = j \<and> ob_core b = cpu)"

definition init_inv :: "nat \<Rightarrow> slub \<Rightarrow> u64 \<Rightarrow> (nat \<Rightarrow> u64) \<Rightarrow> nat \<Rightarrow> fl_meta \<Rightarrow> slub \<Rightarrow> bool" where
  "init_inv cpu s0 M pg k m s \<longleftrightarrow>
     kf_end (sl_fls s cpu) = cache_at M k \<and>
     (\<forall>j. MIN_ORDER_KMEM \<le> j \<longrightarrow> j < k \<longrightarrow> cache_ok cpu M pg j s) \<and>
     (\<forall>j. k \<le> j \<longrightarrow> kf_cache (sl_fls s cpu) (j - MIN_ORDER_KMEM) = None) \<and>
     (\<forall>x. (\<forall>j. MIN_ORDER_KMEM \<le> j \<longrightarrow> j < k \<longrightarrow> x \<noteq> cache_at M j) \<longrightarrow> sl_cache s x = sl_cache s0 x) \<and>
     sl_used s = sl_used s0 \<and> sl_pages s = m \<and> (\<forall>c. c \<noteq> cpu \<longrightarrow> sl_fls s c = sl_fls s0 c)"

lemma create_cache:
  assumes "cpu \<le> MAX_REMOTE_CORE_ID" and "kf_end (sl_fls s cpu) = e" and "e \<noteq> 0" and "k \<le> 12"
    and "kc_first (sl_cache s e) = None" and "page_alloc 1 (sl_pages s) = Inr (p, m)"
  defines "s0 \<equiv> set_cache e (sl_cache s e\<lparr>kc_order := k, kc_fl := cpu, kc_status := KMEM_CACHE_N_AVAIL,
      kc_next := None\<rparr>) (set_fl cpu (sl_fls s cpu\<lparr>kf_end := e + SIZEOF_KMEM_CACHE\<rparr>) s)"
  shows "\<exists>s'. kmem_create_cache cpu k 0 s = Inr (Some e, s') \<and> populated cpu e s0 p m (nr_objs k) s'"
proof -
  have "kc_first (sl_cache s0 e) = None" "kc_fl (sl_cache s0 e) = cpu" "kc_order (sl_cache s0 e) = k"
    "page_alloc 1 (sl_pages s0) = Inr (p, m)"
    using assms(5,6) by (simp_all add: s0_def)
  with populate_cache [of s0 e cpu p m] assms(4) obtain s' where
    "kmem_populate_cache cpu e s0 = Inr s'" "populated cpu e s0 p m (nr_objs k) s'"
    by (auto simp: nr_objs_def)
  then show ?thesis
    using assms(1-3) by (simp add: kmem_create_cache_def kmem_get_curr_fl_def Let_def s0_def)
qed

lemma nth_objs_at: "i < nr_objs k \<Longrightarrow> objs_at M k ! i = cache_at M k + SIZEOF_KMEM_CACHE + word_of_nat i * SIZEOF_KMEM_OBJ"
  by (simp add: objs_at_def obj_recs_def)

lemma init_step:
  assumes inv: "init_inv cpu s0 M pg k m s" and cpu: "cpu \<le> MAX_REMOTE_CORE_ID"
    and k: "MIN_ORDER_KMEM \<le> k" "k \<le> MAX_ORDER_KMEM" and e: "cache_at M k \<noteq> 0"
    and new: "\<forall>x. kc_first (sl_cache s0 x) = None" and p: "page_alloc 1 m = Inr (pg k, m')"
  shows "\<exists>s1 s'. kmem_create_cache cpu k 0 s = Inr (Some (cache_at M k), s1) \<and>
    kmem_add_cache cpu (Some (cache_at M k)) s1 = Inr s' \<and> init_inv cpu s0 M pg (Suc k) m' s'"
proof -
  let ?e = "cache_at M k"
  have ends: "kf_end (sl_fls s cpu) = ?e" "sl_pages s = m" "sl_used s = sl_used s0"
    and old: "\<And>j. MIN_ORDER_KMEM \<le> j \<Longrightarrow> j < k \<Longrightarrow> cache_ok cpu M pg j s"
    and none: "\<And>j. k \<le> j \<Longrightarrow> kf_cache (sl_fls s cpu) (j - MIN_ORDER_KMEM) = None"
    and rest: "\<And>x. (\<And>j. MIN_ORDER_KMEM \<le> j \<Longrightarrow> j < k \<Longrightarrow> x \<noteq> cache_at M j) \<Longrightarrow> sl_cache s x = sl_cache s0 x"
    and fls: "\<And>c. c \<noteq> cpu \<Longrightarrow> sl_fls s c = sl_fls s0 c"
    using inv unfolding init_inv_def by blast+
  have ne: "cache_at M j \<noteq> ?e" if "MIN_ORDER_KMEM \<le> j" "j < k" for j
    using cache_at_inj [of M j k] that k by auto
  have "sl_cache s ?e = sl_cache s0 ?e" using ne rest by metis
  then have first: "kc_first (sl_cache s ?e) = None" using new by simp
  let ?s0 = "set_cache ?e (sl_cache s ?e\<lparr>kc_order := k, kc_fl := cpu, kc_status := KMEM_CACHE_N_AVAIL,
      kc_next := None\<rparr>) (set_fl cpu (sl_fls s cpu\<lparr>kf_end := ?e + SIZEOF_KMEM_CACHE\<rparr>) s)"
  obtain s1 where s1: "kmem_create_cache cpu k 0 s = Inr (Some ?e, s1)" "populated cpu ?e ?s0 (pg k) m' (nr_objs k) s1"
  proof -
    have "k \<le> 12" "page_alloc 1 (sl_pages s) = Inr (pg k, m')" using k p ends(2) by simp_all
    from create_cache [OF cpu ends(1) e this(1) first this(2)] that show ?thesis by blast
  qed
  have pop: "chain (obj_nexts s1) (kc_first (sl_cache s1 ?e)) (objs_at M k)"
    "\<And>i. i < nr_objs k \<Longrightarrow> ob_addr (sl_obj s1 (objs_at M k ! i)) = pg k + word_of_nat (i * KMEM_OBJECT_SIZE k) \<and>
       ob_order (sl_obj s1 (objs_at M k ! i)) = k \<and> ob_core (sl_obj s1 (objs_at M k ! i)) = cpu"
    "\<And>x. x \<notin> set (objs_at M k) \<Longrightarrow> sl_obj s1 x = sl_obj s x"
    "\<And>x. x \<noteq> ?e \<Longrightarrow> sl_cache s1 x = sl_cache s x"
    "kc_order (sl_cache s1 ?e) = k" "kc_next (sl_cache s1 ?e) = None"
    "sl_fls s1 = (sl_fls s)(cpu := sl_fls s cpu\<lparr>kf_end := ?e + SIZEOF_KMEM_CACHE + word_of_nat (nr_objs k) * SIZEOF_KMEM_OBJ\<rparr>)"
    "sl_used s1 = sl_used s" "sl_pages s1 = m'"
    using s1(2) unfolding populated_def Let_def by (auto simp: nth_objs_at objs_at_def [symmetric])
  have end': "?e + SIZEOF_KMEM_CACHE + word_of_nat (nr_objs k) * SIZEOF_KMEM_OBJ = cache_at M (Suc k)"
    using k(1) by (simp add: cache_at_def algebra_simps)
  let ?s' = "set_fl cpu (sl_fls s1 cpu\<lparr>kf_cache := (kf_cache (sl_fls s1 cpu))(k - MIN_ORDER_KMEM := Some ?e)\<rparr>) s1"
  have "kf_cache (sl_fls s1 cpu) (k - MIN_ORDER_KMEM) = None" using none [of k] by (simp add: pop(7))
  then have add: "kmem_add_cache cpu (Some ?e) s1 = Inr ?s'"
    using cpu k pop(5) by (simp add: kmem_add_cache_def kmem_get_curr_cache_def kmem_get_curr_fl_def cache_index_def Let_def)
  have nx: "obj_nexts s1 x = obj_nexts s x" if "x \<notin> set (objs_at M k)" for x
    using pop(3) [OF that] by (simp add: obj_nexts_def)
  have ok: "cache_ok cpu M pg j ?s'" if j: "MIN_ORDER_KMEM \<le> j" "j < Suc k" for j
  proof (cases "j = k")
    case True
    then show ?thesis using pop(1,2,5,6) by (simp add: cache_ok_def Let_def)
  next
    case False
    then have j: "MIN_ORDER_KMEM \<le> j" "j < k" using j by auto
    have dis: "set (objs_at M j) \<inter> set (objs_at M k) = {}" using objs_at_disjoint [OF j] k by simp
    have "chain (obj_nexts s1) q (objs_at M j) = chain (obj_nexts s) q (objs_at M j)" for q
      by (rule chain_cong) (use dis nx in blast)
    moreover have "sl_obj s1 (objs_at M j ! i) = sl_obj s (objs_at M j ! i)" if "i < nr_objs j" for i
    proof (rule pop(3))
      have "length (objs_at M j) = nr_objs j" by (simp add: objs_at_def)
      then have "objs_at M j ! i \<in> set (objs_at M j)" using that by simp
      then show "objs_at M j ! i \<notin> set (objs_at M k)" using dis by blast
    qed
    moreover have "j - MIN_ORDER_KMEM \<noteq> k - MIN_ORDER_KMEM" using j by simp
    ultimately show ?thesis
      using old [OF j] pop(4) [OF ne [OF j]] by (simp add: cache_ok_def pop(7))
  qed
  have none': "kf_cache (sl_fls ?s' cpu) (j - MIN_ORDER_KMEM) = None" if "Suc k \<le> j" for j
    using none [of j] that k by (simp add: pop(7))
  have "init_inv cpu s0 M pg (Suc k) m' ?s'"
    unfolding init_inv_def
    using ok none' rest pop(4) fls ends(3) k by (simp add: pop(7-9) end' del: meta_offset.simps)
  with s1(1) add show ?thesis by blast
qed


lemma init_loop:
  assumes "init_inv cpu s0 M pg k m s" and "cpu \<le> MAX_REMOTE_CORE_ID" and "MIN_ORDER_KMEM \<le> k"
    and "k + length ps \<le> MAX_ORDER_KMEM + 1" and "\<forall>j \<le> MAX_ORDER_KMEM. cache_at M j \<noteq> 0"
    and "\<forall>x. kc_first (sl_cache s0 x) = None" and "take_pages (length ps) m = Inr (ps, m')"
    and "\<forall>i < length ps. pg (k + i) = ps ! i"
  shows "\<exists>s'. kmem_init_loop [k..<k + length ps] cpu s = Inr s' \<and> init_inv cpu s0 M pg (k + length ps) m' s'"
  using assms(1,3,4,7,8)
proof (induction ps arbitrary: k m s)
  case (Cons p ps)
  obtain m1 where p: "page_alloc 1 m = Inr (p, m1)" "take_pages (length ps) m1 = Inr (ps, m')"
    using Cons.prems(4) by (auto simp: result_simps)
  have pk: "pg k = p" and rest: "\<forall>i < length ps. pg (Suc k + i) = ps ! i" using Cons.prems(5) by auto
  obtain s1 s2 where s: "kmem_create_cache cpu k 0 s = Inr (Some (cache_at M k), s1)"
    "kmem_add_cache cpu (Some (cache_at M k)) s1 = Inr s2" "init_inv cpu s0 M pg (Suc k) m1 s2"
    using init_step [OF Cons.prems(1) assms(2) Cons.prems(2) _ _ assms(6)] assms(5) Cons.prems(3) p(1) pk by auto
  obtain s' where "kmem_init_loop [Suc k..<Suc k + length ps] cpu s2 = Inr s'"
    "init_inv cpu s0 M pg (Suc k + length ps) m' s'"
    using Cons.IH [OF s(3) _ _ p(2) rest] Cons.prems(2,3) by auto
  moreover have "[k..<k + length (p # ps)] = k # [Suc k..<Suc k + length ps]"
    by (simp add: upt_conv_Cons del: upt_Suc)
  ultimately show ?case using s(1,2) by (simp del: upt_Suc)
qed simp

lemma kmem_create_cache_page:
  assumes "cpu \<le> MAX_REMOTE_CORE_ID" and "kf_end (sl_fls s cpu) = 0" and "page_alloc 1 (sl_pages s) = Inr (M, m)"
    and "M \<noteq> 0"
  shows "kmem_create_cache cpu k flags s =
    kmem_create_cache cpu k flags (set_fl cpu (sl_fls s cpu\<lparr>kf_end := M\<rparr>) (s\<lparr>sl_pages := m\<rparr>))"
  using assms by (simp add: kmem_create_cache_def kmem_get_curr_fl_def slub_page_alloc_def)

lemma kmem_init_caches_inv:
  assumes cpu: "cpu \<le> MAX_REMOTE_CORE_ID" and fresh: "sl_fls s cpu = \<lparr>kf_cache = (\<lambda>_. None), kf_end = 0\<rparr>"
    and new: "\<forall>x. kc_first (sl_cache s x) = None" and pages: "take_pages 6 (sl_pages s) = Inr (M # ps, m)"
    and M: "\<forall>j \<le> MAX_ORDER_KMEM. cache_at M j \<noteq> 0"
  shows "\<exists>s'. kmem_init_caches cpu s = Inr s' \<and>
    init_inv cpu s M (\<lambda>k. ps ! (k - MIN_ORDER_KMEM)) (MAX_ORDER_KMEM + 1) m s'"
proof -
  obtain m0 where m0: "page_alloc 1 (sl_pages s) = Inr (M, m0)" "take_pages 5 m0 = Inr (ps, m)"
    using pages by (auto simp: result_simps eval_nat_numeral)
  have len: "length ps = 5" using m0(2) by (auto simp: result_simps eval_nat_numeral)
  let ?s = "set_fl cpu (sl_fls s cpu\<lparr>kf_end := M\<rparr>) (s\<lparr>sl_pages := m0\<rparr>)"
  let ?pg = "\<lambda>k. ps ! (k - MIN_ORDER_KMEM)"
  have "init_inv cpu s M ?pg MIN_ORDER_KMEM m0 ?s"
    using fresh by (simp add: init_inv_def cache_at_def meta_offset_zero)
  from init_loop [OF this cpu _ _ M new, of ps m] m0(2) len obtain s' where
    s': "kmem_init_loop [MIN_ORDER_KMEM..<MIN_ORDER_KMEM + 5] cpu ?s = Inr s'"
    "init_inv cpu s M ?pg (MIN_ORDER_KMEM + 5) m s'"
    by auto
  have "M \<noteq> 0" using M [rule_format, of 0] by (simp add: cache_at_def)
  with kmem_create_cache_page [OF cpu _ m0(1)] fresh
  have "kmem_create_cache cpu MIN_ORDER_KMEM 0 s = kmem_create_cache cpu MIN_ORDER_KMEM 0 ?s" by simp
  then have "kmem_init_loop (MIN_ORDER_KMEM # is) cpu s = kmem_init_loop (MIN_ORDER_KMEM # is) cpu ?s" for "is" by simp
  moreover have "[MIN_ORDER_KMEM..<MAX_ORDER_KMEM + 1] = MIN_ORDER_KMEM # [Suc MIN_ORDER_KMEM..<MAX_ORDER_KMEM + 1]"
    by (rule upt_conv_Cons) simp
  ultimately have "kmem_init_caches cpu s = kmem_init_loop [MIN_ORDER_KMEM..<MIN_ORDER_KMEM + 5] cpu ?s"
    unfolding kmem_init_caches_def by (simp del: kmem_init_loop.simps upt_Suc)
  with s' show ?thesis by simp
qed

text \<open>The five caches and their 124 objects take 4208 bytes, more than the page they start in.\<close>

lemma meta_offset_total: "meta_offset (MAX_ORDER_KMEM + 1) = 4208"
proof -
  have "meta_offset 7 = 2096" using meta_offset_step [of 6] by (simp add: meta_offset_zero nr_objs_def)
  then have "meta_offset 8 = 3168" using meta_offset_step [of 7] by (simp add: nr_objs_def)
  then have "meta_offset 9 = 3728" using meta_offset_step [of 8] by (simp add: nr_objs_def)
  then have "meta_offset 10 = 4032" using meta_offset_step [of 9] by (simp add: nr_objs_def)
  then show ?thesis using meta_offset_step [of 10] by (simp add: nr_objs_def)
qed

section \<open>The lists of one core\<close>

definition obj_region :: "slub \<Rightarrow> u64 \<Rightarrow> nat set" where
  "obj_region s x = {unat (ob_addr (sl_obj s x)) ..< unat (ob_addr (sl_obj s x)) + KMEM_OBJECT_SIZE (ob_order (sl_obj s x))}"

definition kmem_orders :: "nat set" where
  "kmem_orders = {MIN_ORDER_KMEM..MAX_ORDER_KMEM}"

definition all_objs :: "(nat \<Rightarrow> u64 list) \<Rightarrow> u64 list \<Rightarrow> u64 set" where
  "all_objs F U = (\<Union>k\<in>kmem_orders. set (F k)) \<union> set U"

text \<open>
  \<open>F\<close> gives the free objects of the caches of core \<open>cpu\<close>, \<open>U\<close> the used objects of the
  task \<open>t\<close>: the lists hold different objects, and the memory of different objects is
  disjoint.
\<close>

definition slub_inv :: "nat \<Rightarrow> nat \<Rightarrow> slub \<Rightarrow> (nat \<Rightarrow> u64) \<Rightarrow> (nat \<Rightarrow> u64 list) \<Rightarrow> u64 list \<Rightarrow> bool" where
  "slub_inv cpu t s C F U \<longleftrightarrow>
     cpu \<le> MAX_REMOTE_CORE_ID \<and> inj_on C kmem_orders \<and>
     (\<forall>k\<in>kmem_orders. kf_cache (sl_fls s cpu) (k - MIN_ORDER_KMEM) = Some (C k) \<and>
        chain (obj_nexts s) (kc_first (sl_cache s (C k))) (F k) \<and> F k \<noteq> [] \<and>
        (\<forall>x\<in>set (F k). ob_order (sl_obj s x) = k) \<and> set (F k) \<inter> set U = {}) \<and>
     chain (obj_nexts s) (sl_used s t) U \<and>
     (\<forall>x\<in>all_objs F U. ob_order (sl_obj s x) \<in> kmem_orders \<and> ob_core (sl_obj s x) = cpu \<and>
        ob_addr (sl_obj s x) \<noteq> 0) \<and>
     (\<forall>x\<in>all_objs F U. \<forall>y\<in>all_objs F U. x \<noteq> y \<longrightarrow> obj_region s x \<inter> obj_region s y = {})"

lemma slub_invD:
  assumes "slub_inv cpu t s C F U"
  shows "cpu \<le> MAX_REMOTE_CORE_ID"
    and "k \<in> kmem_orders \<Longrightarrow> kf_cache (sl_fls s cpu) (k - MIN_ORDER_KMEM) = Some (C k)"
    and "k \<in> kmem_orders \<Longrightarrow> chain (obj_nexts s) (kc_first (sl_cache s (C k))) (F k)"
    and "k \<in> kmem_orders \<Longrightarrow> F k \<noteq> []"
    and "k \<in> kmem_orders \<Longrightarrow> x \<in> set (F k) \<Longrightarrow> ob_order (sl_obj s x) = k"
    and "k \<in> kmem_orders \<Longrightarrow> set (F k) \<inter> set U = {}"
    and "chain (obj_nexts s) (sl_used s t) U"
    and "x \<in> all_objs F U \<Longrightarrow> ob_order (sl_obj s x) \<in> kmem_orders \<and> ob_core (sl_obj s x) = cpu \<and> ob_addr (sl_obj s x) \<noteq> 0"
    and "x \<in> all_objs F U \<Longrightarrow> y \<in> all_objs F U \<Longrightarrow> x \<noteq> y \<Longrightarrow> obj_region s x \<inter> obj_region s y = {}"
    and "inj_on C kmem_orders"
  using assms unfolding slub_inv_def by blast+

lemma slub_addr_inj:
  assumes "slub_inv cpu t s C F U" and "x \<in> all_objs F U" and "y \<in> all_objs F U"
    and "ob_addr (sl_obj s x) = ob_addr (sl_obj s y)"
  shows "x = y"
proof (rule ccontr)
  assume "x \<noteq> y"
  then have "obj_region s x \<inter> obj_region s y = {}" using slub_invD(9) [OF assms(1-3)] by blast
  moreover have "unat (ob_addr (sl_obj s x)) \<in> obj_region s x \<inter> obj_region s y"
    using assms(4) by (simp add: obj_region_def)
  ultimately show False by blast
qed

lemma slub_objs_in: "k \<in> kmem_orders \<Longrightarrow> set (F k) \<subseteq> all_objs F U" "set U \<subseteq> all_objs F U"
  by (auto simp: all_objs_def)

lemma all_objs_split: "k \<in> kmem_orders \<Longrightarrow>
    all_objs F U = set (F k) \<union> (\<Union>j\<in>kmem_orders - {k}. set (F j)) \<union> set U"
  by (auto simp: all_objs_def)

lemma all_objs_upd: "k \<in> kmem_orders \<Longrightarrow>
    all_objs (F(k := xs)) U = set xs \<union> (\<Union>j\<in>kmem_orders - {k}. set (F j)) \<union> set U"
  by (auto simp: all_objs_split [of k])

text \<open>The fields that the list operations leave alone.\<close>

definition same_objs :: "slub \<Rightarrow> slub \<Rightarrow> bool" where
  "same_objs s s' \<longleftrightarrow> (\<forall>x. ob_addr (sl_obj s' x) = ob_addr (sl_obj s x) \<and>
     ob_order (sl_obj s' x) = ob_order (sl_obj s x) \<and> ob_core (sl_obj s' x) = ob_core (sl_obj s x)) \<and>
     sl_fls s' = sl_fls s \<and> sl_pages s' = sl_pages s"

lemma same_objs_next [simp]: "same_objs s (set_obj_next k q s') = same_objs s s'"
  "same_objs s (set_used t q s') = same_objs s s'"
  "same_objs s (set_cache c d s') = same_objs s s'"
  by (auto simp: same_objs_def)

lemma same_objs_refl [simp]: "same_objs s s"
  by (simp add: same_objs_def)

text \<open>Moving objects between the lists keeps the invariant.\<close>

lemma slub_inv_move:
  assumes inv: "slub_inv cpu t s C F U" and same: "same_objs s s'"
    and all: "all_objs F' U' = all_objs F U"
    and ord: "\<And>k x. k \<in> kmem_orders \<Longrightarrow> x \<in> set (F' k) \<Longrightarrow> ob_order (sl_obj s x) = k"
    and ne: "\<And>k. k \<in> kmem_orders \<Longrightarrow> F' k \<noteq> []"
    and dis: "\<And>k. k \<in> kmem_orders \<Longrightarrow> set (F' k) \<inter> set U' = {}"
    and ch: "\<And>k. k \<in> kmem_orders \<Longrightarrow> chain (obj_nexts s') (kc_first (sl_cache s' (C k))) (F' k)"
    and chU: "chain (obj_nexts s') (sl_used s' t) U'"
  shows "slub_inv cpu t s' C F' U'"
proof -
  have f: "ob_addr (sl_obj s' x) = ob_addr (sl_obj s x)" "ob_order (sl_obj s' x) = ob_order (sl_obj s x)"
    "ob_core (sl_obj s' x) = ob_core (sl_obj s x)" "sl_fls s' = sl_fls s" for x
    using same by (auto simp: same_objs_def)
  then have r: "obj_region s' x = obj_region s x" for x by (simp add: obj_region_def)
  show ?thesis
    unfolding slub_inv_def all
    using inv ord ne dis ch chU unfolding slub_inv_def by (simp add: f r)
qed

lemma last_pair_chain:
  "chain nxt (Some x) (x # xs @ [y, z]) \<Longrightarrow> last_pair nxt p x = Some (y, z)"
proof (induction xs arbitrary: x p)
  case Nil
  then show ?case by (simp add: last_pair.simps)
next
  case (Cons a xs)
  then have "nxt x = Some a" "chain nxt (Some a) (a # xs @ [y, z])" by simp_all
  with Cons.IH [of a x] show ?case by (subst last_pair.simps) simp
qed

lemma last_pair_two:
  "chain nxt (Some f) (xs @ [y, z]) \<Longrightarrow> last_pair nxt f f = Some (y, z)"
proof (cases xs)
  case Nil
  moreover assume "chain nxt (Some f) (xs @ [y, z])"
  ultimately have "nxt f = Some z" "nxt z = None" "f = y" by auto
  then show ?thesis by (simp add: last_pair.simps [of nxt y y] last_pair.simps [of nxt y z])
next
  case (Cons a as)
  moreover assume "chain nxt (Some f) (xs @ [y, z])"
  ultimately show ?thesis using last_pair_chain [of nxt f as y z f] by simp
qed

lemma find_parent_chain:
  "chain nxt q xs \<Longrightarrow> xs = us @ p # x # vs \<Longrightarrow> P x \<Longrightarrow> (\<forall>y\<in>set (us @ [p]). \<not> P y) \<Longrightarrow>
     find_parent nxt P r q = Some (Some p)"
proof (induction us arbitrary: q xs r)
  case Nil
  then have "q = Some p" "nxt p = Some x" by auto
  with Nil(3,4) show ?case by (simp add: find_parent.simps [of nxt P r] find_parent.simps [of nxt P p])
next
  case (Cons u us)
  then have "q = Some u" "chain nxt (nxt u) (us @ p # x # vs)" "\<not> P u" by auto
  with Cons.IH [OF this(2) refl Cons.prems(3)] Cons.prems(4) show ?case
    by (simp add: find_parent.simps [of nxt P r])
qed

lemma find_parent_none:
  "chain nxt q xs \<Longrightarrow> (\<forall>y\<in>set xs. \<not> P y) \<Longrightarrow> find_parent nxt P r q = Some None"
proof (induction xs arbitrary: q r)
  case (Cons a xs)
  then show ?case by (subst find_parent.simps) simp
qed (simp add: find_parent.simps)

section \<open>Size classes\<close>

lemma kmem_order_loop_least: "(i = MIN_ORDER_KMEM \<or> KMEM_OBJECT_SIZE (i - 1) < unat n) \<Longrightarrow> MIN_ORDER_KMEM \<le> i \<Longrightarrow>
   unat n \<le> KMEM_OBJECT_SIZE (kmem_order_loop n i) \<and> MIN_ORDER_KMEM \<le> kmem_order_loop n i \<and>
   (kmem_order_loop n i = MIN_ORDER_KMEM \<or> KMEM_OBJECT_SIZE (kmem_order_loop n i - 1) < unat n)"
proof (induction n i rule: kmem_order_loop.induct)
  case (1 n i)
  show ?case
  proof (cases "KMEM_OBJECT_SIZE i < unat n")
    case True
    then have "kmem_order_loop n i = kmem_order_loop n (i + 1)" by (subst kmem_order_loop.simps) simp
    with 1 True show ?thesis by simp
  next
    case False
    then have "kmem_order_loop n i = i" by (subst kmem_order_loop.simps) simp
    with 1 False show ?thesis by simp
  qed
qed

lemma kmem_get_obj_order_least:
  "unat n \<le> KMEM_OBJECT_SIZE (kmem_get_obj_order n)" "MIN_ORDER_KMEM \<le> kmem_get_obj_order n"
  "kmem_get_obj_order n = MIN_ORDER_KMEM \<or> KMEM_OBJECT_SIZE (kmem_get_obj_order n - 1) < unat n"
  using kmem_order_loop_least [of MIN_ORDER_KMEM n] by (simp_all add: kmem_get_obj_order_def)

lemma kmem_get_obj_order_max:
  "kmem_get_obj_order n \<le> MAX_ORDER_KMEM \<longleftrightarrow> unat n \<le> 1024"
proof
  assume "kmem_get_obj_order n \<le> MAX_ORDER_KMEM"
  then have "KMEM_OBJECT_SIZE (kmem_get_obj_order n) \<le> KMEM_OBJECT_SIZE MAX_ORDER_KMEM"
    by (intro power_increasing) simp_all
  with kmem_get_obj_order_least(1) [of n] show "unat n \<le> 1024" by simp
next
  assume n: "unat n \<le> 1024"
  show "kmem_get_obj_order n \<le> MAX_ORDER_KMEM"
  proof (rule ccontr)
    assume o: "\<not> kmem_get_obj_order n \<le> MAX_ORDER_KMEM"
    then have "KMEM_OBJECT_SIZE MAX_ORDER_KMEM \<le> KMEM_OBJECT_SIZE (kmem_get_obj_order n - 1)"
      by (intro power_increasing) simp_all
    moreover have "KMEM_OBJECT_SIZE (kmem_get_obj_order n - 1) < unat n"
      using kmem_get_obj_order_least(3) [of n] o by auto
    ultimately show False using n by simp
  qed
qed

lemma kmem_orders_iff: "kmem_get_obj_order n \<in> kmem_orders \<longleftrightarrow> unat n \<le> 1024"
  using kmem_get_obj_order_max [of n] kmem_get_obj_order_least(2) [of n] by (simp add: kmem_orders_def)

section \<open>Allocating and freeing an object\<close>

lemma get_curr_cache_inv:
  assumes "slub_inv cpu t s C F U" and "k \<in> kmem_orders"
  shows "kmem_get_curr_cache cpu k s = Inr (Some (C k))"
  using slub_invD(1,2) [OF assms(1)] assms(2)
  by (simp add: kmem_get_curr_cache_def kmem_get_curr_fl_def cache_index_def kmem_orders_def)

lemma slub_alloc_acquire:
  assumes inv: "slub_inv cpu t s C F U"
  shows "slub_alloc cpu (Some t) n s =
    bindR (kmem_acquire_obj cpu n s) (\<lambda>(obj, s). case obj of None \<Rightarrow> Inr (0, s)
       | Some obj \<Rightarrow> bindR (kmem_add_to_task t obj s) (\<lambda>s. Inr (ob_addr (sl_obj s obj), s)))"
proof -
  have "kf_cache (sl_fls s cpu) 0 = Some (C MIN_ORDER_KMEM)"
    using slub_invD(2) [OF inv, of MIN_ORDER_KMEM] by (simp add: kmem_orders_def)
  with slub_invD(1) [OF inv] show ?thesis
    by (simp add: slub_alloc_def kmem_get_curr_fl_def) (rule bindR_cong, auto split: option.splits)
qed

lemma add_to_task:
  assumes "chain (obj_nexts s) (sl_used s t) U" and "x \<notin> set U"
  shows "\<exists>s'. kmem_add_to_task t x s = Inr s' \<and> chain (obj_nexts s') (sl_used s' t) (U @ [x]) \<and>
    same_objs s s' \<and> sl_cache s' = sl_cache s \<and> (\<forall>y. y \<noteq> x \<longrightarrow> y \<notin> set U \<longrightarrow> obj_nexts s' y = obj_nexts s y)"
proof (cases U rule: rev_cases)
  case Nil
  with assms have "sl_used s t = None" by simp
  then show ?thesis by (simp add: kmem_add_to_task_def Let_def Nil)
next
  case (snoc us l)
  let ?nx = "(obj_nexts s)(x := None)"
  obtain f where f: "sl_used s t = Some f" using assms(1) snoc by (cases "sl_used s t") auto
  have c: "chain ?nx (Some f) (us @ [l])" using assms f snoc by (simp add: chain_upd_other)
  then have last: "last_of ?nx f = Some l" by (simp add: last_of_chain)
  have "chain (?nx(l := Some x)) (Some f) (us @ [l, x])" using chain_snoc [OF c, of x] assms(2) snoc by simp
  with f last show ?thesis by (simp add: kmem_add_to_task_def Let_def snoc)
qed

lemma slub_alloc_inv:
  assumes inv: "slub_inv cpu t s C F U" and n: "unat n \<le> 1024"
    and F: "F (kmem_get_obj_order n) = xs @ [y, x]"
  shows "\<exists>s'. slub_alloc cpu (Some t) n s = Inr (ob_addr (sl_obj s x), s') \<and> same_objs s s' \<and>
    slub_inv cpu t s' C (F(kmem_get_obj_order n := xs @ [y])) (U @ [x])"
proof -
  let ?k = "kmem_get_obj_order n"
  have k: "?k \<in> kmem_orders" using n by (simp add: kmem_orders_iff)
  note I = slub_invD [OF inv]
  have ch: "chain (obj_nexts s) (kc_first (sl_cache s (C ?k))) (xs @ [y, x])" using I(3) [OF k] F by simp
  then obtain f where f: "kc_first (sl_cache s (C ?k)) = Some f" by (cases "kc_first (sl_cache s (C ?k))") auto
  have pair: "last_pair (obj_nexts s) f f = Some (y, x)" using ch f last_pair_two by metis
  let ?s1 = "set_obj_next y None s"
  have acq: "kmem_acquire_obj cpu n s = Inr (Some x, ?s1)"
    using get_curr_cache_inv [OF inv k] f pair
    by (simp add: kmem_acquire_obj_def kmem_extract_obj_from_fl_def kmem_extract_obj_from_cache_def)
  have xin: "x \<in> set (F ?k)" "y \<in> set (F ?k)" using F by simp_all
  then have xU: "x \<notin> set U" "y \<notin> set U" using I(6) [OF k] by blast+
  have "chain (obj_nexts ?s1) (sl_used ?s1 t) U" using I(7) xU by (simp add: chain_upd_other)
  from add_to_task [OF this xU(1)] obtain s' where s': "kmem_add_to_task t x ?s1 = Inr s'"
    "chain (obj_nexts s') (sl_used s' t) (U @ [x])" "same_objs ?s1 s'" "sl_cache s' = sl_cache ?s1"
    "\<And>z. z \<noteq> x \<Longrightarrow> z \<notin> set U \<Longrightarrow> obj_nexts s' z = obj_nexts ?s1 z" by blast
  have same: "same_objs s s'" using s'(3) by (simp add: same_objs_def)
  have "slub_inv cpu t s' C (F(?k := xs @ [y])) (U @ [x])"
  proof (rule slub_inv_move [OF inv same])
    show "all_objs (F(?k := xs @ [y])) (U @ [x]) = all_objs F U"
      unfolding all_objs_upd [OF k] all_objs_split [OF k, of F] F by auto
    show "ob_order (sl_obj s z) = j" if "j \<in> kmem_orders" "z \<in> set ((F(?k := xs @ [y])) j)" for j z
      using that I(5) [of j z] F by (auto split: if_splits)
    show "(F(?k := xs @ [y])) j \<noteq> []" if "j \<in> kmem_orders" for j using I(4) [OF that] by simp
    have dist: "distinct (xs @ [y, x])" using ch by (rule chain_distinct)
    show "set ((F(?k := xs @ [y])) j) \<inter> set (U @ [x]) = {}" if "j \<in> kmem_orders" for j
      using I(6) [OF that] I(5) [OF that] I(5) [OF k xin(1)] dist F by auto
    show "chain (obj_nexts s') (kc_first (sl_cache s' (C j))) ((F(?k := xs @ [y])) j)" if j: "j \<in> kmem_orders" for j
    proof (cases "j = ?k")
      case True
      have "chain ((obj_nexts s)(y := None)) (kc_first (sl_cache s (C ?k))) (xs @ [y])"
        using chain_cut [of "obj_nexts s" _ xs y "[x]"] ch by simp
      moreover have "obj_nexts s' z = ((obj_nexts s)(y := None)) z" if "z \<in> set (xs @ [y])" for z
      proof -
        have "z \<in> set (F ?k)" "z \<noteq> x" using that dist F by auto
        then have "z \<notin> set U" using I(6) [OF k] by blast
        then show ?thesis using s'(5) [OF \<open>z \<noteq> x\<close>] by simp
      qed
      ultimately show ?thesis using True s'(4) chain_cong [of "xs @ [y]" "obj_nexts s'" "(obj_nexts s)(y := None)"] by simp
    next
      case False
      have "obj_nexts s' z = obj_nexts s z" if "z \<in> set (F j)" for z
      proof -
        have "z \<noteq> x" "z \<noteq> y" using I(5) [OF j that] I(5) [OF k xin(1)] I(5) [OF k xin(2)] False by auto
        moreover have "z \<notin> set U" using I(6) [OF j] that by blast
        ultimately show ?thesis using s'(5) [of z] by simp
      qed
      then have "chain (obj_nexts s') q (F j) = chain (obj_nexts s) q (F j)" for q by (rule chain_cong)
      with False I(3) [OF j] s'(4) show ?thesis by simp
    qed
  qed (use s'(2) in auto)
  moreover have "ob_addr (sl_obj s' x) = ob_addr (sl_obj s x)" using same by (simp add: same_objs_def)
  ultimately show ?thesis using slub_alloc_acquire [OF inv] acq s'(1) same by simp
qed


lemma slub_addr_notin:
  assumes "slub_inv cpu t s C F U" and "U = us @ x # vs" and "y \<in> set us \<union> set vs"
  shows "ob_addr (sl_obj s y) \<noteq> ob_addr (sl_obj s x)"
proof
  assume eq: "ob_addr (sl_obj s y) = ob_addr (sl_obj s x)"
  have "x \<in> all_objs F U" "y \<in> all_objs F U" using assms(2,3) slub_objs_in(2) [of U F] by auto
  then have "y = x" using slub_addr_inj [OF assms(1) _ _ eq] by blast
  moreover have "distinct U" using slub_invD(7) [OF assms(1)] by (rule chain_distinct)
  ultimately show False using assms(2,3) by auto
qed

text \<open>Giving an object back to its cache.\<close>

lemma reclaim_inv:
  assumes inv: "slub_inv cpu t s C F U" and U: "U = us @ p # x # vs"
  defines "k \<equiv> ob_order (sl_obj s x)"
    and "s1 \<equiv> set_obj_next x None (set_obj_next p (ob_next (sl_obj s x)) s)"
  shows "\<exists>s'. kmem_reclaim_obj cpu x s1 = Inr s' \<and> same_objs s s' \<and>
    slub_inv cpu t s' C (F(k := F k @ [x])) (us @ p # vs)"
proof -
  note I = slub_invD [OF inv]
  have x: "x \<in> all_objs F U" using U by (simp add: all_objs_def)
  have k: "k \<in> kmem_orders" and core: "ob_core (sl_obj s x) = cpu" using I(8) [OF x] by (simp_all add: k_def)
  have dU: "distinct (us @ p # x # vs)" using I(7) U chain_distinct by blast
  have xF: "x \<notin> set (F j)" "p \<notin> set (F j)" if "j \<in> kmem_orders" for j using I(6) [OF that] U by auto
  have keepF: "chain (obj_nexts s1) q (F j) = chain (obj_nexts s) q (F j)" if "j \<in> kmem_orders" for q j
    using xF [OF that] by (simp add: s1_def chain_upd_other)
  obtain fs l where Fk: "F k = fs @ [l]" using I(4) [OF k] by (cases "F k" rule: rev_cases) auto
  have chk: "chain (obj_nexts s1) (kc_first (sl_cache s (C k))) (fs @ [l])" using I(3) [OF k] keepF [OF k] Fk by simp
  then obtain f where f: "kc_first (sl_cache s (C k)) = Some f" by (cases "kc_first (sl_cache s (C k))") auto
  have last: "last_of (obj_nexts s1) f = Some l" using chk f by (simp add: last_of_chain)
  have gc: "kmem_get_curr_cache cpu k s1 = Inr (Some (C k))"
    using get_curr_cache_inv [OF inv k] I(1) by (simp add: s1_def kmem_get_curr_cache_def kmem_get_curr_fl_def)
  have px: "p \<noteq> x" using dU by auto
  have ok1: "ob_order (sl_obj s1 x) = k" "ob_core (sl_obj s1 x) = cpu" using px core by (simp_all add: s1_def k_def)
  obtain s' where s': "kmem_reclaim_obj cpu x s1 = Inr s'" "obj_nexts s' = (obj_nexts s1)(l := Some x)"
    "same_objs s s'" "sl_used s' = sl_used s" "\<And>j. kc_first (sl_cache s' j) = kc_first (sl_cache s j)"
  proof -
    let ?s2 = "set_obj_next l (Some x) s1"
    let ?s3 = "if \<not> kmem_cache_is_available (C k) ?s2
        then set_cache (C k) (sl_cache ?s2 (C k)\<lparr>kc_status := KMEM_CACHE_AVAIL\<rparr>) ?s2 else ?s2"
    have "kc_first (sl_cache s1 (C k)) = Some f" using f by (simp add: s1_def)
    then have "kmem_reclaim_obj cpu x s1 = Inr ?s3"
      using gc ok1 last by (simp add: kmem_reclaim_obj_def kmem_add_obj_def Let_def)
    then show ?thesis by (rule that) (auto simp: s1_def same_objs_def)
  qed
  have "slub_inv cpu t s' C (F(k := F k @ [x])) (us @ p # vs)"
  proof (rule slub_inv_move [OF inv s'(3)])
    show "all_objs (F(k := F k @ [x])) (us @ p # vs) = all_objs F U"
      unfolding all_objs_upd [OF k] all_objs_split [OF k, of F] U by auto
    show "ob_order (sl_obj s z) = j" if "j \<in> kmem_orders" "z \<in> set ((F(k := F k @ [x])) j)" for j z
      using that I(5) [of j z] by (auto simp: k_def split: if_splits)
    show "(F(k := F k @ [x])) j \<noteq> []" if "j \<in> kmem_orders" for j using I(4) [OF that] by simp
    show "set ((F(k := F k @ [x])) j) \<inter> set (us @ p # vs) = {}" if "j \<in> kmem_orders" for j
      using I(6) [OF that] dU U by auto
    show "chain (obj_nexts s') (kc_first (sl_cache s' (C j))) ((F(k := F k @ [x])) j)" if j: "j \<in> kmem_orders" for j
    proof (cases "j = k")
      case True
      have "obj_nexts s1 x = None" by (simp add: s1_def)
      then have "chain ((obj_nexts s1)(l := Some x)) (kc_first (sl_cache s (C k))) (fs @ [l, x])"
        using chain_snoc [OF chk, of x] xF [OF k] Fk by simp
      then show ?thesis using True s'(2,5) Fk by simp
    next
      case False
      have "l \<notin> set (F j)" using I(5) [OF j] I(5) [OF k, of l] Fk False by auto
      with False show ?thesis using I(3) [OF j] s'(2,5) keepF [OF j] by (simp add: chain_upd_other)
    qed
    have nx: "obj_nexts s x = ob_next (sl_obj s x)" by (simp add: obj_nexts_def)
    have "chain ((obj_nexts s)(p := ob_next (sl_obj s x))) (sl_used s t) (us @ p # vs)"
      using chain_unlink [of "obj_nexts s" "sl_used s t" us p x vs] I(7) U nx by simp
    moreover have "x \<notin> set (us @ p # vs)" using dU by auto
    ultimately have "chain (obj_nexts s1) (sl_used s t) (us @ p # vs)"
      unfolding s1_def obj_nexts_simps by (simp only: chain_upd_other not_False_eq_True)
    moreover have "l \<notin> set (us @ p # vs)" using I(6) [OF k] Fk U by auto
    ultimately show "chain (obj_nexts s') (sl_used s' t) (us @ p # vs)"
      using s'(2,4) by (simp add: chain_upd_other)
  qed
  with s'(1,3) show ?thesis by blast
qed

lemma slub_free_child:
  assumes inv: "slub_inv cpu t s C F U" and U: "U = us @ p # x # vs"
    and parent: "kmem_get_obj_parent (sl_used s t) a s = Inr (Some p)" and a: "a \<noteq> 0"
  shows "\<exists>s'. slub_free cpu (Some t) a s = Inr (0, s') \<and> same_objs s s' \<and>
    slub_inv cpu t s' C (F(ob_order (sl_obj s x) := F (ob_order (sl_obj s x)) @ [x])) (us @ p # vs)"
proof -
  have "obj_nexts s p = Some x"
    using chain_mid_next [of "obj_nexts s" "sl_used s t" us p x vs] slub_invD(7) [OF inv] U by simp
  then have child: "kmem_extract_obj_child (Some p) s =
      (Some x, set_obj_next x None (set_obj_next p (ob_next (sl_obj s x)) s))"
    by (simp add: kmem_extract_obj_child_def obj_nexts_def Let_def)
  from reclaim_inv [OF inv U] a parent child show ?thesis
    by (auto simp: slub_free_def kmem_extract_obj_def)
qed

text \<open>Every used object but the first of its list goes back to its cache.\<close>

lemma slub_free_inv:
  assumes inv: "slub_inv cpu t s C F U" and U: "U = us @ p # x # vs"
  shows "\<exists>s'. slub_free cpu (Some t) (ob_addr (sl_obj s x)) s = Inr (0, s') \<and> same_objs s s' \<and>
    slub_inv cpu t s' C (F(ob_order (sl_obj s x) := F (ob_order (sl_obj s x)) @ [x])) (us @ p # vs)"
proof (rule slub_free_child [OF inv U])
  have x: "x \<in> all_objs F U" using U by (simp add: all_objs_def)
  show "ob_addr (sl_obj s x) \<noteq> 0" using slub_invD(8) [OF inv x] by blast
  obtain f where f: "sl_used s t = Some f" using slub_invD(7) [OF inv] U by (cases "sl_used s t") auto
  have no: "\<forall>y\<in>set (us @ [p]). ob_addr (sl_obj s y) \<noteq> ob_addr (sl_obj s x)"
    using slub_addr_notin [OF inv, of "us @ [p]" x vs] U by auto
  moreover have "f \<in> set (us @ [p])" using f slub_invD(7) [OF inv] U by (cases us) auto
  ultimately show "kmem_get_obj_parent (sl_used s t) (ob_addr (sl_obj s x)) s = Inr (Some p)"
    using find_parent_chain [of "obj_nexts s" "sl_used s t" U us p x vs "\<lambda>z. ob_addr (sl_obj s z) = ob_addr (sl_obj s x)" f]
      slub_invD(7,8) [OF inv] U f x no by (auto simp: kmem_get_obj_parent_def)
qed

lemma slub_free_first:
  assumes inv: "slub_inv cpu t s C F U" and U: "U = x # y # vs"
  shows "\<exists>s'. slub_free cpu (Some t) (ob_addr (sl_obj s x)) s = Inr (0, s') \<and> same_objs s s' \<and>
    slub_inv cpu t s' C (F(ob_order (sl_obj s y) := F (ob_order (sl_obj s y)) @ [y])) (x # vs)"
proof -
  have x: "x \<in> all_objs F U" using U by (simp add: all_objs_def)
  have a: "ob_addr (sl_obj s x) \<noteq> 0" using slub_invD(8) [OF inv x] by blast
  have "sl_used s t = Some x" using slub_invD(7) [OF inv] U by simp
  then have "kmem_get_obj_parent (sl_used s t) (ob_addr (sl_obj s x)) s = Inr (Some x)"
    using a by (simp add: kmem_get_obj_parent_def)
  from slub_free_child [OF inv _ this a, of "[]" y vs] U show ?thesis by simp
qed

lemma slub_free_unknown:
  assumes inv: "slub_inv cpu t s C F U" and "\<forall>x\<in>set U. ob_addr (sl_obj s x) \<noteq> a" and a: "a \<noteq> 0"
  shows "slub_free cpu (Some t) a s = Inr (-1, s)"
proof -
  have "kmem_get_obj_parent (sl_used s t) a s = Inr None"
  proof (cases U)
    case Nil
    then have "sl_used s t = None" using slub_invD(7) [OF inv] by simp
    then show ?thesis by (simp add: kmem_get_obj_parent_def)
  next
    case (Cons u us)
    then have "sl_used s t = Some u" using slub_invD(7) [OF inv] by simp
    then show ?thesis
      using find_parent_none [OF slub_invD(7) [OF inv], of "\<lambda>x. ob_addr (sl_obj s x) = a" u] assms(2) Cons a
      by (simp add: kmem_get_obj_parent_def del: find_parent.simps)
  qed
  then show ?thesis using a by (simp add: slub_free_def kmem_extract_obj_def kmem_extract_obj_child_def)
qed

section \<open>The state after the initialisation\<close>

lemma cache_at_nonzero:
  assumes "M \<noteq> 0" and "unat M + 4208 < 2 ^ 64" and "j \<le> MAX_ORDER_KMEM"
  shows "cache_at M j \<noteq> 0"
proof -
  have "meta_offset j \<le> 4208" using meta_offset_mono [of j "MAX_ORDER_KMEM + 1"] meta_offset_total assms(3) by simp
  then have "unat (cache_at M j) = unat M + meta_offset j"
    using assms(2) unfolding cache_at_def by (subst unat_plus_simple [THEN iffD1])
      (auto simp: unsigned_of_nat take_bit_nat_eq_self no_olen_add_nat)
  then have "0 < unat (cache_at M j)" using assms(1) by (simp add: unat_gt_0)
  then show ?thesis by auto
qed

lemma aligned_page_bound:
  assumes "aligned p 0"
  shows "unat p + PAGE_SIZE \<le> 2 ^ 64"
proof -
  obtain q where q: "unat p = q * PAGE_SIZE" using assms by (auto simp: aligned_def blk_bytes_def elim!: dvdE)
  have "unat p < 2 ^ 64" using unsigned_less [of p] by simp
  then have "q < 2 ^ 52" using q by simp
  then have "(q + 1) * PAGE_SIZE \<le> 2 ^ 52 * PAGE_SIZE" by (intro mult_le_mono1) simp
  then show ?thesis using q by simp
qed

lemma obj_in_page:
  assumes "aligned p 0" and "k \<in> kmem_orders" and "i < nr_objs k"
  shows "unat (p + word_of_nat (i * KMEM_OBJECT_SIZE k)) = unat p + i * KMEM_OBJECT_SIZE k \<and>
    i * KMEM_OBJECT_SIZE k + KMEM_OBJECT_SIZE k \<le> PAGE_SIZE"
proof -
  have "Suc i * KMEM_OBJECT_SIZE k \<le> nr_objs k * KMEM_OBJECT_SIZE k" using assms(3) by (intro mult_le_mono1) simp
  also have "\<dots> \<le> PAGE_SIZE" unfolding nr_objs_def by (rule div_times_less_eq_dividend)
  finally have le: "i * KMEM_OBJECT_SIZE k + KMEM_OBJECT_SIZE k \<le> PAGE_SIZE" by simp
  have "(1 :: nat) \<le> KMEM_OBJECT_SIZE k" by simp
  then have "i * KMEM_OBJECT_SIZE k < PAGE_SIZE" using le by linarith
  then have "unat p + i * KMEM_OBJECT_SIZE k < 2 ^ 64" using aligned_page_bound [OF assms(1)] by linarith
  then have "unat (p + word_of_nat (i * KMEM_OBJECT_SIZE k)) = unat p + i * KMEM_OBJECT_SIZE k"
    by (subst unat_plus_simple [THEN iffD1]) (simp_all only: no_olen_add_nat unsigned_of_nat, simp_all add: take_bit_nat_eq_self)
  with le show ?thesis by simp
qed


text \<open>Distinct pages for the objects of the five sizes.\<close>

definition pages_ok :: "(nat \<Rightarrow> u64) \<Rightarrow> bool" where
  "pages_ok pg \<longleftrightarrow> (\<forall>k\<in>kmem_orders. aligned (pg k) 0 \<and> pg k \<noteq> 0) \<and>
     (\<forall>j\<in>kmem_orders. \<forall>k\<in>kmem_orders. j \<noteq> k \<longrightarrow> region (pg j) 0 \<inter> region (pg k) 0 = {})"

lemma init_obj:
  assumes inv: "init_inv cpu s0 M pg (MAX_ORDER_KMEM + 1) m s" and pg: "pages_ok pg"
    and k: "k \<in> kmem_orders" and x: "x \<in> set (objs_at M k)"
  shows "\<exists>i < nr_objs k. x = objs_at M k ! i \<and> unat (ob_addr (sl_obj s x)) = unat (pg k) + i * KMEM_OBJECT_SIZE k \<and>
    ob_order (sl_obj s x) = k \<and> ob_core (sl_obj s x) = cpu \<and>
    obj_region s x = {unat (pg k) + i * KMEM_OBJECT_SIZE k ..< unat (pg k) + (i + 1) * KMEM_OBJECT_SIZE k} \<and>
    obj_region s x \<subseteq> region (pg k) 0"
proof -
  have "length (objs_at M k) = nr_objs k" by (simp add: objs_at_def)
  then obtain i where i: "i < nr_objs k" "x = objs_at M k ! i" using x by (metis in_set_conv_nth)
  have "cache_ok cpu M pg k s" using inv k by (simp add: init_inv_def kmem_orders_def)
  then have b: "ob_addr (sl_obj s x) = pg k + word_of_nat (i * KMEM_OBJECT_SIZE k)" "ob_order (sl_obj s x) = k"
    "ob_core (sl_obj s x) = cpu" using i by (auto simp: cache_ok_def Let_def)
  have "aligned (pg k) 0" using pg k by (simp add: pages_ok_def)
  from obj_in_page [OF this k i(1)] have a: "unat (ob_addr (sl_obj s x)) = unat (pg k) + i * KMEM_OBJECT_SIZE k"
    and le: "i * KMEM_OBJECT_SIZE k + KMEM_OBJECT_SIZE k \<le> PAGE_SIZE" by (simp_all only: b)
  have r: "obj_region s x = {unat (pg k) + i * KMEM_OBJECT_SIZE k ..< unat (pg k) + (i + 1) * KMEM_OBJECT_SIZE k}"
    unfolding obj_region_def a b(2) by (simp add: algebra_simps)
  then have "obj_region s x \<subseteq> region (pg k) 0"
    using le unfolding region_def blk_bytes_def by (auto simp: algebra_simps)
  with i a b r show ?thesis by blast
qed

lemma steps_disjoint:
  fixes z :: nat
  assumes "i \<noteq> j"
  shows "{a + i * z ..< a + (i + 1) * z} \<inter> {a + j * z ..< a + (j + 1) * z} = {}"
proof (cases "i < j")
  case True
  then have "(i + 1) * z \<le> j * z" by (intro mult_le_mono1) simp
  then show ?thesis by auto
next
  case False
  with assms have "(j + 1) * z \<le> i * z" by (intro mult_le_mono1) simp
  then show ?thesis by auto
qed

lemma init_slub_inv:
  assumes inv: "init_inv cpu s0 M pg (MAX_ORDER_KMEM + 1) m s" and pg: "pages_ok pg"
    and cpu: "cpu \<le> MAX_REMOTE_CORE_ID" and used: "sl_used s0 t = None"
  shows "slub_inv cpu t s (cache_at M) (objs_at M) []"
proof -
  have ok: "cache_ok cpu M pg k s" if "k \<in> kmem_orders" for k
    using inv that by (simp add: init_inv_def kmem_orders_def)
  have len: "length (objs_at M k) = nr_objs k" for k by (simp add: objs_at_def)
  have ne: "objs_at M k \<noteq> []" if "k \<in> kmem_orders" for k
  proof -
    have "(2 :: nat) ^ k \<le> 2 ^ 12" using that by (intro power_increasing) (auto simp: kmem_orders_def)
    then have "0 < nr_objs k" unfolding nr_objs_def by (simp add: div_greater_zero_iff)
    then show ?thesis using len [of k] by auto
  qed
  note obj = init_obj [OF inv pg]
  have nz: "ob_addr (sl_obj s x) \<noteq> 0" if k: "k \<in> kmem_orders" and x: "x \<in> set (objs_at M k)" for k x
  proof -
    have "0 < unat (pg k)" using pg k by (simp add: pages_ok_def unat_gt_0)
    moreover have "unat (pg k) \<le> unat (ob_addr (sl_obj s x))" using obj [OF k x] by auto
    ultimately have "0 < unat (ob_addr (sl_obj s x))" by linarith
    then show ?thesis by auto
  qed
  have dis: "obj_region s x \<inter> obj_region s y = {}"
    if x: "x \<in> set (objs_at M j)" "j \<in> kmem_orders" and y: "y \<in> set (objs_at M k)" "k \<in> kmem_orders" and xy: "x \<noteq> y"
    for x y j k
  proof -
    obtain i where i: "x = objs_at M j ! i" "obj_region s x \<subseteq> region (pg j) 0"
      "obj_region s x = {unat (pg j) + i * KMEM_OBJECT_SIZE j ..< unat (pg j) + (i + 1) * KMEM_OBJECT_SIZE j}"
      using obj [OF x(2,1)] by blast
    obtain i' where i': "y = objs_at M k ! i'" "obj_region s y \<subseteq> region (pg k) 0"
      "obj_region s y = {unat (pg k) + i' * KMEM_OBJECT_SIZE k ..< unat (pg k) + (i' + 1) * KMEM_OBJECT_SIZE k}"
      using obj [OF y(2,1)] by blast
    show ?thesis
    proof (cases "j = k")
      case True
      then have "i \<noteq> i'" using xy i(1) i'(1) by auto
      then show ?thesis unfolding i(3) i'(3) True by (rule steps_disjoint)
    next
      case False
      then have "region (pg j) 0 \<inter> region (pg k) 0 = {}" using pg x(2) y(2) by (simp add: pages_ok_def)
      then show ?thesis using i(2) i'(2) by blast
    qed
  qed
  have inj: "inj_on (cache_at M) kmem_orders"
    by (rule inj_onI) (rule cache_at_inj, auto simp: kmem_orders_def)
  have "sl_used s t = None" using inv used by (simp add: init_inv_def)
  then show ?thesis
    unfolding slub_inv_def all_objs_def
    using cpu inj ok ne obj nz dis by (auto simp: cache_ok_def) (metis)+
qed


text \<open>Pages that the page allocator hands out one after the other.\<close>

lemma take_pages_inv:
  "take_pages n m = Inr (ps, m') \<Longrightarrow> pa_inv P T (m, live) \<Longrightarrow> 0 \<notin> set ps \<Longrightarrow>
     pa_inv P T (m', rev (map (\<lambda>p. (p, 0)) ps) @ live) \<and> length ps = n"
proof (induction n arbitrary: m ps live)
  case (Suc n)
  obtain p m1 qs where p: "page_alloc 1 m = Inr (p, m1)" "take_pages n m1 = Inr (qs, m')" "ps = p # qs"
    using Suc.prems(1) by (auto simp: result_simps)
  have o1: "get_page_order 1 = 0" by (simp add: get_page_order_def page_order_loop.simps)
  have "pa_inv P T (m1, (p, get_page_order 1) # live)"
    using pa_inv_alloc [OF Suc.prems(2) p(1)] Suc.prems(3) p(3) by simp
  with Suc.IH [OF p(2), of "(p, 0) # live"] Suc.prems(3) p(3) o1 show ?case by simp
qed simp

lemma take_pages_disjoint:
  assumes "take_pages n m = Inr (ps, m')" and "pa_inv P T (m, live)" and "0 \<notin> set ps"
  shows "length ps = n \<and> (\<forall>p\<in>set ps. aligned p 0 \<and> region p 0 \<subseteq> P) \<and>
    (\<forall>i<n. \<forall>j<n. i \<noteq> j \<longrightarrow> region (ps ! i) 0 \<inter> region (ps ! j) 0 = {})"
proof -
  let ?l = "rev (map (\<lambda>p. (p, 0)) ps) @ live"
  have inv: "pa_inv P T (m', ?l)" and len: "length ps = n" using take_pages_inv [OF assms] by blast+
  note live = pa_inv_live [OF inv]
  have nth: "?l ! (n - Suc i) = (ps ! i, 0)" if "i < n" for i
    using that len by (simp add: nth_append rev_nth)
  have "region (ps ! i) 0 \<inter> region (ps ! j) 0 = {}" if ij: "i < n" "j < n" "i \<noteq> j" for i j
    using live(2) [of "n - Suc i" "n - Suc j"] nth [of i] nth [of j] ij len by simp
  moreover have "aligned p 0 \<and> region p 0 \<subseteq> P" if "p \<in> set ps" for p
    using live(1) [of p 0] that by auto
  ultimately show ?thesis using len by blast
qed

text \<open>What a core has before its first kmalloc: nothing, and cleared memory for the records.\<close>

definition slub_fresh :: "nat \<Rightarrow> nat \<Rightarrow> slub \<Rightarrow> bool" where
  "slub_fresh cpu t s \<longleftrightarrow> cpu \<le> MAX_REMOTE_CORE_ID \<and>
     sl_fls s cpu = \<lparr>kf_cache = (\<lambda>_. None), kf_end = 0\<rparr> \<and>
     (\<forall>x. kc_first (sl_cache s x) = None) \<and> sl_used s t = None"

lemma init_caches_boot:
  assumes fresh: "slub_fresh cpu t s" and pages: "take_pages 6 (sl_pages s) = Inr (M # ps, m)"
    and pa: "pa_inv P T (sl_pages s, live)" and nz: "0 \<notin> set (M # ps)" and M: "unat M + 4208 < 2 ^ 64"
  shows "\<exists>s'. kmem_init_caches cpu s = Inr s' \<and> slub_inv cpu t s' (cache_at M) (objs_at M) [] \<and>
    kf_end (sl_fls s' cpu) = M + 4208 \<and>
    (\<forall>k\<in>kmem_orders. length (objs_at M k) = PAGE_SIZE div KMEM_OBJECT_SIZE k \<and>
       (\<forall>x\<in>set (objs_at M k). obj_region s' x \<subseteq> region (ps ! (k - MIN_ORDER_KMEM)) 0)) \<and>
    sl_pages s' = m"
proof -
  let ?pg = "\<lambda>k. ps ! (k - MIN_ORDER_KMEM)"
  have d: "length (M # ps) = 6" "\<And>p. p \<in> set (M # ps) \<Longrightarrow> aligned p 0"
    "\<And>i j. i < 6 \<Longrightarrow> j < 6 \<Longrightarrow> i \<noteq> j \<Longrightarrow> region ((M # ps) ! i) 0 \<inter> region ((M # ps) ! j) 0 = {}"
    using take_pages_disjoint [OF pages pa nz] by blast+
  have idx: "k - MIN_ORDER_KMEM < length ps" if "k \<in> kmem_orders" for k
    using that d(1) by (auto simp: kmem_orders_def)
  have "pages_ok ?pg"
    unfolding pages_ok_def
  proof (intro conjI ballI impI)
    fix k assume k: "k \<in> kmem_orders"
    then have "?pg k \<in> set ps" using idx by simp
    then show "aligned (?pg k) 0" "?pg k \<noteq> 0" using d(2) nz by auto
  next
    fix j k assume jk: "j \<in> kmem_orders" "k \<in> kmem_orders" "j \<noteq> k"
    then have "j - MIN_ORDER_KMEM \<noteq> k - MIN_ORDER_KMEM" by (auto simp: kmem_orders_def)
    with d(3) [of "Suc (j - MIN_ORDER_KMEM)" "Suc (k - MIN_ORDER_KMEM)"] idx [OF jk(1)] idx [OF jk(2)] d(1)
    show "region (?pg j) 0 \<inter> region (?pg k) 0 = {}" by simp
  qed
  moreover have "\<forall>j \<le> MAX_ORDER_KMEM. cache_at M j \<noteq> 0"
    using cache_at_nonzero [OF _ M] nz by simp
  moreover obtain s' where s': "kmem_init_caches cpu s = Inr s'" "init_inv cpu s M ?pg (MAX_ORDER_KMEM + 1) m s'"
    using kmem_init_caches_inv [OF _ _ _ pages calculation(2)] fresh by (auto simp: slub_fresh_def)
  ultimately have "slub_inv cpu t s' (cache_at M) (objs_at M) []"
    and "\<forall>k\<in>kmem_orders. \<forall>x\<in>set (objs_at M k). obj_region s' x \<subseteq> region (?pg k) 0"
    using init_slub_inv fresh init_obj by (auto simp: slub_fresh_def) (meson in_mono)
  moreover have "kf_end (sl_fls s' cpu) = M + 4208" "sl_pages s' = m"
    using s'(2) meta_offset_total by (simp_all add: init_inv_def cache_at_def)
  ultimately show ?thesis using s'(1) by (auto simp: objs_at_def nr_objs_def)
qed

end
