(* ===== verification/Slub_Props.thy ===== *)
theory Slub_Props
  imports Slub_Inv
begin

text \<open>
  What kmalloc and kfree promise for sizes below a page, and where they break it.
\<close>

section \<open>A booted core\<close>

definition slub_boot :: slub where
  "slub_boot = \<lparr>sl_fls = (\<lambda>_. \<lparr>kf_cache = (\<lambda>_. None), kf_end = 0\<rparr>),
     sl_obj = (\<lambda>_. \<lparr>ob_addr = 0, ob_order = 0, ob_core = 0, ob_cache = 0, ob_next = None\<rparr>),
     sl_cache = (\<lambda>_. \<lparr>kc_order = 0, kc_fl = 0, kc_page = 0, kc_first = None, kc_status = 0, kc_next = None\<rparr>),
     sl_used = (\<lambda>_. None), sl_pages = pool_state 0x10000 4\<rparr>"

lemma slub_boot_fresh: "slub_fresh 0 0 slub_boot"
  by (simp add: slub_boot_def slub_fresh_def)

lemma slub_boot_pages:
  "\<exists>m. take_pages 6 (sl_pages slub_boot) = Inr ([0x1F000, 0x1E000, 0x1D000, 0x1C000, 0x1B000, 0x1A000], m)"
proof -
  have "map_sum id fst (take_pages 6 (pool_state 0x10000 4)) =
      Inr [0x1F000, 0x1E000, 0x1D000, 0x1C000, 0x1B000, 0x1A000]" by code_simp
  then show ?thesis by (auto simp: slub_boot_def map_sum_def split: sum.splits)
qed

text \<open>
  C8. The first kmalloc of a core makes the five caches. With six pages from the page
  allocator, every cache of order k holds 4096 / 2^k free objects, which split one page of
  their own, and all objects are disjoint. The records of caches and objects take 4208
  bytes, 112 more than the page they are laid out in.
\<close>

theorem kmem_init_caches_establishes:
  assumes "pool_ok base sz t" and "boot_calls base sz cs = Inr (sl_pages s, live)"
    and "slub_fresh cpu task s" and "take_pages 6 (sl_pages s) = Inr (M # ps, m)" and "0 \<notin> set (M # ps)"
    and "unat M + 4208 < 2 ^ 64"
  shows "\<exists>s'. kmem_init_caches cpu s = Inr s' \<and> slub_inv cpu task s' (cache_at M) (objs_at M) [] \<and>
    kf_end (sl_fls s' cpu) = M + 4208 \<and>
    (\<forall>k\<in>kmem_orders. length (objs_at M k) = PAGE_SIZE div KMEM_OBJECT_SIZE k \<and>
       (\<forall>x\<in>set (objs_at M k). obj_region s' x \<subseteq> region (ps ! (k - MIN_ORDER_KMEM)) 0))"
  using init_caches_boot [OF assms(3,4) boot_calls_inv [OF assms(1,2)] assms(5,6)] by blast

lemma slub_boot_calls: "pool_ok 0x10000 0x10000 4 \<and> boot_calls 0x10000 0x10000 [] = Inr (sl_pages slub_boot, [])"
proof -
  have ok: "pool_ok 0x10000 0x10000 4" by (simp add: pool_ok_def aligned_def blk_bytes_def)
  then show ?thesis using boot_calls_run [OF ok, of "[]"] by (simp add: slub_boot_def)
qed

theorem kmem_init_caches_establishes_witness:
  "\<exists>s'. kmem_init_caches 0 slub_boot = Inr s' \<and> slub_inv 0 0 s' (cache_at 0x1F000) (objs_at 0x1F000) [] \<and>
     length (objs_at 0x1F000 10) = 4"
proof -
  obtain m where "take_pages 6 (sl_pages slub_boot) = Inr ([0x1F000, 0x1E000, 0x1D000, 0x1C000, 0x1B000, 0x1A000], m)"
    using slub_boot_pages by blast
  from kmem_init_caches_establishes [OF slub_boot_calls [THEN conjunct1] slub_boot_calls [THEN conjunct2]
      slub_boot_fresh this] obtain s' where
    "kmem_init_caches 0 slub_boot = Inr s'" "slub_inv 0 0 s' (cache_at 0x1F000) (objs_at 0x1F000) []" by auto
  moreover have "length (objs_at 0x1F000 10) = 4" by (simp add: objs_at_def nr_objs_def)
  ultimately show ?thesis by blast
qed

lemma slub_boot_inv:
  "\<exists>s C F. slub_inv 0 0 s C F [] \<and> (\<exists>a b c d. F 10 = [a, b, c, d])"
proof -
  obtain m where m: "take_pages 6 (sl_pages slub_boot) = Inr ([0x1F000, 0x1E000, 0x1D000, 0x1C000, 0x1B000, 0x1A000], m)"
    using slub_boot_pages by blast
  have "\<exists>s'. slub_inv 0 0 s' (cache_at 0x1F000) (objs_at 0x1F000) []"
    using init_caches_boot [OF slub_boot_fresh m
        boot_calls_inv [OF slub_boot_calls [THEN conjunct1] slub_boot_calls [THEN conjunct2]]] by auto
  moreover have "\<exists>a b c d. objs_at 0x1F000 10 = [a, b, c, d]"
    by (simp add: objs_at_alt nr_objs_def upt_rec)
  ultimately show ?thesis by blast
qed

lemma order_1024: "kmem_get_obj_order 1024 = 10"
proof -
  have "kmem_get_obj_order 1024 \<le> 10" using kmem_get_obj_order_max [of 1024] by simp
  moreover have "9 < kmem_get_obj_order 1024"
  proof (rule ccontr)
    assume "\<not> 9 < kmem_get_obj_order 1024"
    then have "KMEM_OBJECT_SIZE (kmem_get_obj_order 1024) \<le> KMEM_OBJECT_SIZE 9" by (intro power_increasing) simp_all
    then show False using kmem_get_obj_order_least(1) [of 1024] by simp
  qed
  ultimately show ?thesis by simp
qed

section \<open>What holds\<close>

text \<open>
  C6. kmalloc of at most 1024 bytes, while its cache has two objects or more, returns the
  last object of the cache: at least as long as requested, not null, and disjoint from
  all objects the task uses and from all free ones. The object moves from the cache to
  the list of the task, and all other lists stay.
\<close>

theorem slub_alloc_disjoint:
  assumes "slub_inv cpu t s C F U" and "unat n \<le> 1024" and "F (kmem_get_obj_order n) = xs @ [y, x]"
  shows "\<exists>a s'. slub_alloc cpu (Some t) n s = Inr (a, s') \<and> a = ob_addr (sl_obj s' x) \<and> a \<noteq> 0 \<and>
    unat n \<le> KMEM_OBJECT_SIZE (ob_order (sl_obj s' x)) \<and>
    (\<forall>z\<in>all_objs (F(kmem_get_obj_order n := xs @ [y])) U. z \<noteq> x \<longrightarrow> obj_region s' x \<inter> obj_region s' z = {}) \<and>
    slub_inv cpu t s' C (F(kmem_get_obj_order n := xs @ [y])) (U @ [x])"
proof -
  let ?k = "kmem_get_obj_order n" and ?F = "F(kmem_get_obj_order n := xs @ [y])"
  obtain s' where s': "slub_alloc cpu (Some t) n s = Inr (ob_addr (sl_obj s x), s')" "same_objs s s'"
    "slub_inv cpu t s' C ?F (U @ [x])" using slub_alloc_inv [OF assms] by blast
  have k: "?k \<in> kmem_orders" using assms(2) by (simp add: kmem_orders_iff)
  have x: "x \<in> all_objs ?F (U @ [x])" and sub: "all_objs ?F U \<subseteq> all_objs ?F (U @ [x])"
    by (auto simp: all_objs_def)
  have "ob_order (sl_obj s x) = ?k" using slub_invD(5) [OF assms(1) k, of x] assms(3) by simp
  then have o: "ob_order (sl_obj s' x) = ?k" "ob_addr (sl_obj s x) = ob_addr (sl_obj s' x)"
    using s'(2) by (simp_all add: same_objs_def)
  then show ?thesis
    using s' slub_invD(8) [OF s'(3) x] slub_invD(9) [OF s'(3) x] sub kmem_get_obj_order_least(1) [of n]
    by (auto dest!: subsetD)
qed

theorem slub_alloc_disjoint_witness:
  "\<exists>s C F U a s'. slub_inv 0 0 s C F U \<and> slub_alloc 0 (Some 0) 1024 s = Inr (a, s') \<and> a \<noteq> 0"
proof -
  obtain s C F a b c d where s: "slub_inv 0 0 s C F []" "F 10 = [a, b] @ [c, d]" using slub_boot_inv by auto
  from slub_alloc_disjoint [OF s(1), of 1024 "[a, b]" c d] s show ?thesis by (auto simp: order_1024)
qed

text \<open>
  C7. kfree of an object that is not the first of the task's list takes exactly this
  object out of the list and puts it at the end of its cache, and it returns 0, so the
  page allocator is not asked. The objects keep address and size.
\<close>

theorem slub_free_returns_object:
  assumes "slub_inv cpu t s C F U" and "U = us @ p # x # vs"
  shows "\<exists>s'. slub_free cpu (Some t) (ob_addr (sl_obj s x)) s = Inr (0, s') \<and>
    kfree cpu (Some t) (ob_addr (sl_obj s x)) s = Inr s' \<and> same_objs s s' \<and>
    slub_inv cpu t s' C (F(ob_order (sl_obj s x) := F (ob_order (sl_obj s x)) @ [x])) (us @ p # vs)"
  using slub_free_inv [OF assms] by (auto simp: kfree_def)

lemma slub_two_used:
  "\<exists>s C F a b c d. slub_inv 0 0 s C F [d, c] \<and> F 10 = [a, b] \<and> ob_order (sl_obj s c) = 10 \<and> ob_order (sl_obj s d) = 10"
proof -
  obtain s C F a b c d where s: "slub_inv 0 0 s C F []" "F 10 = [a, b] @ [c, d]" using slub_boot_inv by auto
  have k: "10 \<in> kmem_orders" by (simp add: kmem_orders_def)
  obtain s1 where s1: "same_objs s s1" "slub_inv 0 0 s1 C (F(10 := [a, b] @ [c])) ([] @ [d])"
    using slub_alloc_inv [OF s(1), of 1024 "[a, b]" c d] s(2) by (auto simp: order_1024)
  then obtain s2 where s2: "same_objs s1 s2" "slub_inv 0 0 s2 C ((F(10 := [a, b, c]))(10 := [a] @ [b])) ([d] @ [c])"
    using slub_alloc_inv [OF s1(2), of 1024 "[a]" b c] by (auto simp: order_1024)
  moreover have "ob_order (sl_obj s2 c) = 10 \<and> ob_order (sl_obj s2 d) = 10"
    using slub_invD(5) [OF s(1) k] s(2) s1(1) s2(1) by (simp add: same_objs_def)
  ultimately show ?thesis
    by (intro exI [of _ s2] exI [of _ C] exI [of _ "(F(10 := [a, b, c]))(10 := [a] @ [b])"] exI [of _ a]
        exI [of _ b] exI [of _ c] exI [of _ d]) simp
qed

theorem slub_free_returns_object_witness:
  "\<exists>s s' C F a b c d. slub_inv 0 0 s C F [d, c] \<and> kfree 0 (Some 0) (ob_addr (sl_obj s c)) s = Inr s' \<and>
     slub_inv 0 0 s' C (F(10 := [a, b, c])) [d]"
proof -
  obtain s C F a b c d where s: "slub_inv 0 0 s C F [d, c]" "F 10 = [a, b]" "ob_order (sl_obj s c) = 10"
    using slub_two_used by blast
  from slub_free_returns_object [OF s(1), of "[]" d c "[]"] s show ?thesis by fastforce
qed

text \<open>
  Round trip: what kmalloc took, kfree puts back. When the task already uses an
  object, an allocation and the release of its result restore every list.
\<close>

theorem slub_alloc_free_roundtrip:
  assumes "slub_inv cpu t s C F U" and "unat n \<le> 1024" and "F (kmem_get_obj_order n) = xs @ [y, x]"
    and "U \<noteq> []"
  shows "\<exists>a s1 s2. slub_alloc cpu (Some t) n s = Inr (a, s1) \<and> slub_free cpu (Some t) a s1 = Inr (0, s2) \<and>
    same_objs s s2 \<and> slub_inv cpu t s2 C F U"
proof -
  let ?k = "kmem_get_obj_order n"
  obtain s1 where s1: "slub_alloc cpu (Some t) n s = Inr (ob_addr (sl_obj s x), s1)" "same_objs s s1"
    "slub_inv cpu t s1 C (F(?k := xs @ [y])) (U @ [x])" using slub_alloc_inv [OF assms(1-3)] by blast
  obtain us p where U: "U = us @ [p]" using assms(4) by (cases U rule: rev_cases) auto
  have k: "?k \<in> kmem_orders" using assms(2) by (simp add: kmem_orders_iff)
  have "ob_order (sl_obj s x) = ?k" using slub_invD(5) [OF assms(1) k, of x] assms(3) by simp
  then have x: "ob_order (sl_obj s1 x) = ?k" "ob_addr (sl_obj s1 x) = ob_addr (sl_obj s x)"
    using s1(2) by (simp_all add: same_objs_def)
  obtain s2 where s2: "slub_free cpu (Some t) (ob_addr (sl_obj s1 x)) s1 = Inr (0, s2)" "same_objs s1 s2"
    "slub_inv cpu t s2 C ((F(?k := xs @ [y]))(?k := (F(?k := xs @ [y])) ?k @ [x])) (us @ p # [])"
    using slub_free_inv [OF s1(3), of us p x "[]"] U x by auto
  have "(F(?k := xs @ [y]))(?k := (F(?k := xs @ [y])) ?k @ [x]) = F" using assms(3) by (simp add: fun_eq_iff)
  with s1 s2 x U show ?thesis by (auto simp: same_objs_def)
qed

theorem slub_alloc_free_roundtrip_witness:
  "\<exists>s s1 s2 C F U a. slub_inv 0 0 s C F U \<and> slub_alloc 0 (Some 0) 1024 s = Inr (a, s1) \<and>
     slub_free 0 (Some 0) a s1 = Inr (0, s2) \<and> slub_inv 0 0 s2 C F U"
proof -
  obtain s C F a b c d where s: "slub_inv 0 0 s C F [d, c]" "F 10 = [] @ [a, b]"
    using slub_two_used by auto
  from slub_alloc_free_roundtrip [OF s(1), of 1024 "[]" a b] s show ?thesis by (fastforce simp: order_1024)
qed

text \<open>
  kmalloc by size: from a page on, whole pages that hold the request come from the
  page allocator, one page more at most; from 1025 bytes up to a page the array of caches
  is read beyond its end.
\<close>

theorem kmalloc_size_classes:
  assumes "slub_inv cpu t s C F U"
  shows "(4096 \<le> unat n \<longrightarrow> (\<exists>pages. kmalloc cpu (Some t) n s = slub_page_alloc pages s \<and>
      unat n \<le> unat pages * PAGE_SIZE \<and> unat pages * PAGE_SIZE < unat n + PAGE_SIZE)) \<and>
    (1024 < unat n \<and> unat n < 4096 \<longrightarrow> kmalloc cpu (Some t) n s = Inl OutOfBounds) \<and>
    (unat n \<le> 1024 \<longrightarrow> kmalloc cpu (Some t) n s = slub_alloc cpu (Some t) n s)"
proof (intro conjI impI)
  have d: "unat (n div word_of_nat PAGE_SIZE) = unat n div PAGE_SIZE" and r: "unat (n mod word_of_nat PAGE_SIZE) = unat n mod PAGE_SIZE"
    by (simp_all add: unat_div unat_mod)
  have d2: "unat (n div 4096) = unat n div PAGE_SIZE" using d by simp
  {
    assume n: "4096 \<le> unat n"
    let ?p = "n div word_of_nat PAGE_SIZE" and ?e = "if n mod word_of_nat PAGE_SIZE \<noteq> 0 then 1 else 0 :: u32"
    have "unat n < 2 ^ 32" using unsigned_less [of n] by simp
    then have "unat n div PAGE_SIZE < 2 ^ 20" by simp
    then have s: "unat (?p + ?e) = unat n div PAGE_SIZE + unat ?e"
      by (subst unat_plus_simple [THEN iffD1]) (auto simp: no_olen_add_nat d2)
    have e: "unat ?e = (if unat n mod PAGE_SIZE \<noteq> 0 then 1 else 0)" using r by (auto simp: unat_eq_0 [symmetric])
    obtain q r where q: "unat n div PAGE_SIZE = q" "unat n mod PAGE_SIZE = r" by blast
    then have "unat n = q * PAGE_SIZE + r" "r < PAGE_SIZE" by auto
    then have "unat n \<le> unat (?p + ?e) * PAGE_SIZE" "unat (?p + ?e) * PAGE_SIZE < unat n + PAGE_SIZE"
      unfolding s e q by auto
    moreover have "?p \<noteq> 0" using d n by (metis div_greater_zero_iff less_numeral_extra(3) unat_0 zero_less_numeral)
    then have "kmalloc cpu (Some t) n s = slub_page_alloc (?p + ?e) s"
      unfolding kmalloc_def Let_def by (simp only: if_True not_False_eq_True)
    ultimately show "\<exists>pages. kmalloc cpu (Some t) n s = slub_page_alloc pages s \<and>
      unat n \<le> unat pages * PAGE_SIZE \<and> unat pages * PAGE_SIZE < unat n + PAGE_SIZE"
      by blast
  next
    assume n: "1024 < unat n \<and> unat n < 4096"
    then have z: "n div word_of_nat PAGE_SIZE = 0" using d by (simp add: unat_eq_zero)
    have "\<not> kmem_get_obj_order n \<le> MAX_ORDER_KMEM" using n by (simp add: kmem_get_obj_order_max)
    then have "kmem_acquire_obj cpu n s = Inl OutOfBounds"
      using slub_invD(1) [OF assms]
      by (simp add: kmem_acquire_obj_def kmem_extract_obj_from_fl_def kmem_get_curr_cache_def
          kmem_get_curr_fl_def cache_index_def)
    then show "kmalloc cpu (Some t) n s = Inl OutOfBounds"
      using z slub_alloc_acquire [OF assms] by (simp add: kmalloc_def Let_def)
  next
    assume "unat n \<le> 1024"
    then have "n div word_of_nat PAGE_SIZE = 0" using d by (simp add: unat_eq_zero)
    then show "kmalloc cpu (Some t) n s = slub_alloc cpu (Some t) n s" by (simp add: kmalloc_def Let_def)
  }
qed

theorem kmalloc_size_classes_witness:
  "\<exists>s. kmalloc 0 (Some 0) 2048 s = Inl OutOfBounds"
proof -
  obtain s C F where "slub_inv 0 0 s C F []" using slub_boot_inv by blast
  from kmalloc_size_classes [OF this, of 2048] show ?thesis by auto
qed

section \<open>What does not hold\<close>

lemma last_of_lasso:
  "chain nxt (Some f) (us @ [x]) \<Longrightarrow> last_of (nxt(x := Some x)) f = None"
proof (induction us arbitrary: f)
  case Nil
  then show ?case by (auto intro: last_of_cycle)
next
  case (Cons u us)
  then have u: "f = u" "chain nxt (nxt u) (us @ [x])" by auto
  then obtain v where v: "nxt u = Some v" by (cases "nxt u") auto
  have "distinct ((u # us) @ [x])" using Cons.prems by (rule chain_distinct)
  then have "(nxt(x := Some x)) u = Some v" using v by auto
  then have "last_of (nxt(x := Some x)) u = last_of (nxt(x := Some x)) v" by (rule last_of_Some)
  moreover have "last_of (nxt(x := Some x)) v = None" by (rule Cons.IH) (use u(2) v in simp)
  ultimately show ?case by (simp only: u(1))
qed

text \<open>
  C33. The last object of a cache is never taken out: two allocations return the same
  address, and after that the next allocation of any other object never returns, because
  the list of the task has become a loop.
\<close>

theorem slub_last_object_twice:
  assumes "slub_inv cpu t s C F U" and "unat n \<le> 1024" and "F (kmem_get_obj_order n) = [x]"
  shows "\<exists>s1 s2. slub_alloc cpu (Some t) n s = Inr (ob_addr (sl_obj s x), s1) \<and>
    slub_alloc cpu (Some t) n s1 = Inr (ob_addr (sl_obj s x), s2) \<and>
    (\<forall>y. y \<notin> set U \<longrightarrow> y \<noteq> x \<longrightarrow> kmem_add_to_task t y s2 = Inl Diverges)"
proof -
  let ?k = "kmem_get_obj_order n"
  note I = slub_invD [OF assms(1)]
  have k: "?k \<in> kmem_orders" using assms(2) by (simp add: kmem_orders_iff)
  have first: "kc_first (sl_cache s (C ?k)) = Some x" and nx: "obj_nexts s x = None"
    using I(3) [OF k] assms(3) by auto
  have xU: "x \<notin> set U" using I(6) [OF k] assms(3) by simp
  let ?s0 = "set_obj_next x None s"
  have pair: "last_pair (obj_nexts s) x x = Some (x, x)" using nx by (simp add: last_pair.simps)
  have acq: "kmem_acquire_obj cpu n s = Inr (Some x, ?s0)"
    using get_curr_cache_inv [OF assms(1) k] first pair
    by (simp add: kmem_acquire_obj_def kmem_extract_obj_from_fl_def kmem_extract_obj_from_cache_def)
  have "chain (obj_nexts ?s0) (sl_used ?s0 t) U" using I(7) xU by (simp add: chain_upd_other)
  from add_to_task [OF this xU] obtain s1 where s1: "kmem_add_to_task t x ?s0 = Inr s1"
    "chain (obj_nexts s1) (sl_used s1 t) (U @ [x])" "same_objs ?s0 s1" "sl_cache s1 = sl_cache s" by auto
  have addr: "ob_addr (sl_obj s1 x) = ob_addr (sl_obj s x)" "sl_fls s1 = sl_fls s"
    using s1(3) by (simp_all add: same_objs_def)
  have a1: "slub_alloc cpu (Some t) n s = Inr (ob_addr (sl_obj s x), s1)"
    using slub_alloc_acquire [OF assms(1)] acq s1(1) addr by simp
  have nx1: "obj_nexts s1 x = None" using chain_last_next [OF s1(2)] .
  then have pair1: "last_pair (obj_nexts s1) x x = Some (x, x)" by (simp add: last_pair.simps)
  have cache1: "kmem_get_curr_cache cpu j s1 = kmem_get_curr_cache cpu j s" for j
    using addr(2) by (simp add: kmem_get_curr_cache_def kmem_get_curr_fl_def)
  let ?s1 = "set_obj_next x None s1"
  have acq1: "kmem_acquire_obj cpu n s1 = Inr (Some x, ?s1)"
    using get_curr_cache_inv [OF assms(1) k] first pair1 s1(4)
    by (simp add: kmem_acquire_obj_def kmem_extract_obj_from_fl_def kmem_extract_obj_from_cache_def cache1)
  obtain f where f: "sl_used s1 t = Some f" using s1(2) by (cases "sl_used s1 t") auto
  have same: "(obj_nexts s1)(x := None) = obj_nexts s1" using nx1 by auto
  have ch1: "chain (obj_nexts s1) (Some f) (U @ [x])" using s1(2) f by simp
  then have last: "last_of (obj_nexts s1) f = Some x" by (simp add: last_of_chain)
  let ?s2 = "set_obj_next x (Some x) (set_obj_next x None ?s1)"
  have add1: "kmem_add_to_task t x ?s1 = Inr ?s2" using f last same by (simp add: kmem_add_to_task_def Let_def)
  have "kf_cache (sl_fls s1 cpu) 0 = Some (C MIN_ORDER_KMEM)" "cpu \<le> MAX_REMOTE_CORE_ID"
    using I(1) I(2) [of MIN_ORDER_KMEM] addr(2) by (simp_all add: kmem_orders_def)
  then have a2: "slub_alloc cpu (Some t) n s1 = Inr (ob_addr (sl_obj s x), ?s2)"
    using acq1 add1 addr(1) by (simp add: slub_alloc_def kmem_get_curr_fl_def)
  have "kmem_add_to_task t y ?s2 = Inl Diverges" if "y \<notin> set U" "y \<noteq> x" for y
  proof -
    have "chain ((obj_nexts s1)(y := None)) (Some f) (U @ [x])" using ch1 that by (simp add: chain_upd_other)
    from last_of_lasso [OF this] have "last_of ((obj_nexts s1)(x := Some x, y := None)) f = None"
      using that by (simp add: fun_upd_twist)
    then show ?thesis using f by (simp add: kmem_add_to_task_def Let_def)
  qed
  with a1 a2 show ?thesis by blast
qed

lemma slub_one_left:
  "\<exists>s C F U x. slub_inv 0 0 s C F U \<and> F 10 = [x]"
proof -
  obtain s C F a b c d where s: "slub_inv 0 0 s C F [d, c]" "F 10 = [] @ [a, b]"
    using slub_two_used by auto
  from slub_alloc_inv [OF s(1), of 1024 "[]" a b] s(2) show ?thesis by (fastforce simp: order_1024)
qed

theorem slub_last_object_twice_witness:
  "\<exists>s s1 s2 a. slub_alloc 0 (Some 0) 1024 s = Inr (a, s1) \<and> slub_alloc 0 (Some 0) 1024 s1 = Inr (a, s2)"
proof -
  obtain s C F U x where s: "slub_inv 0 0 s C F U" "F 10 = [x]" using slub_one_left by blast
  from slub_last_object_twice [OF s(1), of 1024 x] s(2) show ?thesis by (auto simp: order_1024)
qed

text \<open>
  C34. kfree of the first object of a task's list takes the second object instead: memory
  that the task still uses goes back to the cache, and the object that was freed stays
  in the list.
\<close>

theorem slub_free_wrong_object:
  assumes "slub_inv cpu t s C F U" and "U = x # y # vs"
  shows "\<exists>s'. slub_free cpu (Some t) (ob_addr (sl_obj s x)) s = Inr (0, s') \<and>
    slub_inv cpu t s' C (F(ob_order (sl_obj s y) := F (ob_order (sl_obj s y)) @ [y])) (x # vs)"
  using slub_free_first [OF assms] by blast

theorem slub_free_wrong_object_witness:
  "\<exists>s s' C F a b c d. slub_inv 0 0 s C F [d, c] \<and> slub_free 0 (Some 0) (ob_addr (sl_obj s d)) s = Inr (0, s') \<and>
     slub_inv 0 0 s' C (F(10 := [a, b, c])) [d]"
proof -
  obtain s C F a b c d where s: "slub_inv 0 0 s C F [d, c]" "F 10 = [a, b]" "ob_order (sl_obj s c) = 10"
    using slub_two_used by blast
  from slub_free_wrong_object [OF s(1), of d c "[]"] s show ?thesis by fastforce
qed

end
