(* ===== verification/Page_Table.thy ===== *)
theory Page_Table
  imports Kernel_Prelude
begin

text \<open>
  Translation tables: pt.c, mmu.c, the mapping functions of mm.c and usr\_entry.c. The
  tables lie in a memory of 64 bit words that is addressed physically: a kernel address
  and the physical address below it are the same word, as the kernel maps its memory. The
  results of the allocations of tables are a list in the state, which is empty or starts
  with 0 when kmalloc fails.
\<close>

section \<open>Data\<close>

abbreviation PT_LVL_MAX :: nat where "PT_LVL_MAX \<equiv> 3"

text \<open>
  The fields of the attributes of a descriptor, as in pt\_lib.h; the flags of the four kinds of
  memory are kept as numbers, which are put together from these fields in pte\_flags.
\<close>

definition PT_PAGE :: u64 where "PT_PAGE = 3"
definition PT_UXN_POS :: nat where "PT_UXN_POS = 54"
definition PT_PXN_POS :: nat where "PT_PXN_POS = 53"
definition PT_AF_POS :: nat where "PT_AF_POS = 10"
definition PT_SH_POS :: nat where "PT_SH_POS = 8"
definition PT_AP_POS :: nat where "PT_AP_POS = 6"
definition PT_INDEX_POS :: nat where "PT_INDEX_POS = 2"
definition PT_USER :: u64 where "PT_USER = push_bit PT_AP_POS 1"
definition PT_AP_RW :: u64 where "PT_AP_RW = push_bit PT_AP_POS 0"
definition PT_AP_RO :: u64 where "PT_AP_RO = push_bit PT_AP_POS 2"
definition PT_AF_ACCESSED :: u64 where "PT_AF_ACCESSED = push_bit PT_AF_POS 1"
definition PT_UXN_NX :: u64 where "PT_UXN_NX = push_bit PT_UXN_POS 1"
definition PT_PXN_NX :: u64 where "PT_PXN_NX = push_bit PT_PXN_POS 1"
definition PT_SH_O :: u64 where "PT_SH_O = push_bit PT_SH_POS 2"
definition PT_SH_I :: u64 where "PT_SH_I = push_bit PT_SH_POS 3"
definition PT_INDEX_MEM :: u64 where "PT_INDEX_MEM = push_bit PT_INDEX_POS 1"
definition PT_INDEX_DEV :: u64 where "PT_INDEX_DEV = push_bit PT_INDEX_POS 2"
definition PT_INDEX_NC :: u64 where "PT_INDEX_NC = push_bit PT_INDEX_POS 0"

abbreviation PTE_FLAGS_KERNEL_GENERIC :: u64 where "PTE_FLAGS_KERNEL_GENERIC \<equiv> 0x0040000000000707"
abbreviation PTE_FLAGS_USER_GENERIC :: u64 where "PTE_FLAGS_USER_GENERIC \<equiv> 0x0020000000000707"
abbreviation PTE_FLAGS_IO :: u64 where "PTE_FLAGS_IO \<equiv> 0x004000000000060B"
abbreviation PTE_FLAGS_NC :: u64 where "PTE_FLAGS_NC \<equiv> 0x0040000000000603"

lemmas pt_fields = PT_PAGE_def PT_UXN_POS_def PT_PXN_POS_def PT_AF_POS_def PT_SH_POS_def PT_AP_POS_def PT_INDEX_POS_def
  PT_USER_def PT_AP_RW_def PT_AP_RO_def PT_AF_ACCESSED_def PT_UXN_NX_def PT_PXN_NX_def PT_SH_O_def PT_SH_I_def
  PT_INDEX_MEM_def PT_INDEX_DEV_def PT_INDEX_NC_def

lemma pte_flags:
  "PTE_FLAGS_KERNEL_GENERIC = PT_PAGE OR PT_AP_RW OR PT_AF_ACCESSED OR PT_UXN_NX OR PT_SH_I OR PT_INDEX_MEM"
  "PTE_FLAGS_USER_GENERIC = PT_PAGE OR PT_AP_RW OR PT_AF_ACCESSED OR PT_PXN_NX OR PT_SH_I OR PT_INDEX_MEM"
  "PTE_FLAGS_IO = PT_PAGE OR PT_AF_ACCESSED OR PT_UXN_NX OR PT_SH_O OR PT_INDEX_DEV"
  "PTE_FLAGS_NC = PT_PAGE OR PT_AF_ACCESSED OR PT_UXN_NX OR PT_SH_O OR PT_INDEX_NC"
  by (simp_all add: pt_fields)

lemma pte_flags_user_access:
  "PTE_FLAGS_USER_GENERIC AND PT_USER = 0" "PTE_FLAGS_USER_GENERIC AND PT_UXN_NX = 0" "PTE_FLAGS_USER_GENERIC AND PT_PXN_NX \<noteq> 0"
  by (simp_all add: pt_fields)

record page_table_desc =
  pd_level :: u8
  pd_len :: u16
  pd_pt :: u64
  pd_next :: "u64 option"
  pd_child :: "u64 option"

record va_metadata =
  vm_index :: "u64 list"
  vm_offset :: u64

record pt_state =
  ps_mem :: "u64 \<Rightarrow> u64"
  ps_desc :: "u64 \<Rightarrow> page_table_desc"
  ps_global :: "u64 option"
  ps_ctr :: u8
  ps_heap :: "u64 list"

text \<open>32 bytes for a descriptor, one page for all of them.\<close>

abbreviation DESC_SIZE :: u64 where "DESC_SIZE \<equiv> 32"
abbreviation MAX_DESCS :: nat where "MAX_DESCS \<equiv> 128"

definition va_to_pa :: "u64 \<Rightarrow> u64" where
  "va_to_pa a = a AND NOT KERNEL_START"

definition pa_to_va :: "u64 \<Rightarrow> u64" where
  "pa_to_va a = KERNEL_START OR a"

definition get_kernel_va :: "u64 \<Rightarrow> u64" where
  "get_kernel_va a = a OR KERNEL_START"

definition read_mem :: "u64 \<Rightarrow> pt_state \<Rightarrow> u64" where
  "read_mem p s = ps_mem s (va_to_pa p)"

definition write_mem :: "u64 \<Rightarrow> u64 \<Rightarrow> pt_state \<Rightarrow> pt_state" where
  "write_mem p v s = s\<lparr>ps_mem := (ps_mem s)(va_to_pa p := v)\<rparr>"

definition set_desc :: "u64 \<Rightarrow> page_table_desc \<Rightarrow> pt_state \<Rightarrow> pt_state" where
  "set_desc d b s = s\<lparr>ps_desc := (ps_desc s)(d := b)\<rparr>"

text \<open>The next result of \<^verbatim>\<open>kmalloc(0x1000)\<close>.\<close>

definition kmalloc_page :: "pt_state \<Rightarrow> u64 \<times> pt_state" where
  "kmalloc_page s = (case ps_heap s of [] \<Rightarrow> (0, s) | p # ps \<Rightarrow> (p, s\<lparr>ps_heap := ps\<rparr>))"

section \<open>Entries\<close>

definition pt_entry :: "u64 \<Rightarrow> u64 \<Rightarrow> u64" where
  "pt_entry paddr flags =
     (let san_paddr = (if KERNEL_START < paddr then paddr - KERNEL_START else paddr)
      in san_paddr OR flags)"

definition place_pt_entry :: "u64 \<Rightarrow> u64 \<Rightarrow> int \<Rightarrow> pt_state \<Rightarrow> pt_state" where
  "place_pt_entry d pte index s =
     (let pt = pd_pt (ps_desc s d) in
      if index = -1 then
        let len = pd_len (ps_desc s d);
            s = write_mem (pt + 8 * ucast len) pte s
        in set_desc d (ps_desc s d\<lparr>pd_len := len + 1\<rparr>) s
      else
        let s = write_mem (pt + 8 * word_of_int index) pte s
        in set_desc d (ps_desc s d\<lparr>pd_len := word_of_int index\<rparr>) s)"

text \<open>
  The loops over addresses are partial functions, no value when they do not end: near the
  end of the address space the address wraps around to 0.
\<close>

partial_function (option) pt_entries_loop :: "u64 \<Rightarrow> u64 \<Rightarrow> u64 \<Rightarrow> u64 \<Rightarrow> pt_state \<Rightarrow> pt_state option" where
  "pt_entries_loop d flags i end_paddr s =
     (if i \<le> end_paddr
      then pt_entries_loop d flags (i + 4096) end_paddr (place_pt_entry d (pt_entry i flags) (-1) s)
      else Some s)"

declare pt_entries_loop.simps [code]

definition create_pt_entries :: "u64 \<Rightarrow> u64 \<Rightarrow> u64 \<Rightarrow> u64 \<Rightarrow> pt_state \<Rightarrow> (u64 \<times> pt_state) result" where
  "create_pt_entries d start_paddr end_paddr flags s =
     (let start_pte = pd_pt (ps_desc s d) + 8 * ucast (pd_len (ps_desc s d));
          s = place_pt_entry d (pt_entry start_paddr flags) (-1) s
      in if end_paddr - start_paddr < 4096 \<or> start_paddr = end_paddr then Inr (start_pte, s)
         else bindR (loopR (pt_entries_loop d flags (start_paddr + 4096) end_paddr s)) (\<lambda>s.
              Inr (start_pte, s)))"

section \<open>Descriptors\<close>

definition zero_desc :: page_table_desc where
  "zero_desc = \<lparr>pd_level = 0, pd_len = 0, pd_pt = 0, pd_next = None, pd_child = None\<rparr>"

definition init_descs :: "pt_state \<Rightarrow> pt_state result" where
  "init_descs s =
     (case ps_global s of
        Some _ \<Rightarrow> Inr s
      | None \<Rightarrow>
          let (p, s) = kmalloc_page s in
          if p = 0 then Inl NullDeref
          else Inr (s\<lparr>ps_global := Some p,
                 ps_desc := (\<lambda>d. if unat p \<le> unat d \<and> unat d < unat p + 4096 then zero_desc else ps_desc s d)\<rparr>))"

definition create_pt_desc :: "u8 \<Rightarrow> pt_state \<Rightarrow> (u64 \<times> pt_state) result" where
  "create_pt_desc level s =
     bindR (init_descs s) (\<lambda>s.
     bindR (derefR (ps_global s)) (\<lambda>g.
     if MAX_DESCS \<le> unat (ps_ctr s) then Inl OutOfBounds
     else
       let d = g + DESC_SIZE * ucast (ps_ctr s);
           s = s\<lparr>ps_ctr := ps_ctr s + 1\<rparr>;
           s = set_desc d (ps_desc s d\<lparr>pd_level := level, pd_len := 0, pd_next := None, pd_child := None\<rparr>) s
       in Inr (d, s)))"

definition create_pt :: "u64 \<Rightarrow> u8 \<Rightarrow> pt_state \<Rightarrow> (u64 option \<times> pt_state) result" where
  "create_pt pt_baddr level s =
     (let (pt, s) = (if pt_baddr \<noteq> 0 then (pt_baddr, s) else kmalloc_page s) in
      if pt = 0 then Inr (None, s)
      else bindR (create_pt_desc level s) (\<lambda>(d, s). Inr (Some d, set_desc d (ps_desc s d\<lparr>pd_pt := pt\<rparr>) s)))"

definition extract_va_metadata :: "u64 \<Rightarrow> va_metadata" where
  "extract_va_metadata va =
     \<lparr>vm_index = [drop_bit 30 va AND 0x1FF, drop_bit 21 va AND 0x1FF, drop_bit 12 va AND 0x1FF],
      vm_offset = va AND 0xFFF\<rparr>"

definition pte_is_empty :: "u64 \<Rightarrow> bool" where
  "pte_is_empty pte \<longleftrightarrow> pte = 0"

definition extract_addr_from_pte :: "u64 \<Rightarrow> u64" where
  "extract_addr_from_pte pte =
     (let addr = pte AND NOT 0xF0000000000FFF in
      if addr < 0xFFFFFFFF then addr else KERNEL_START + (addr AND 0xFFFFFFFF))"

definition desc_nexts :: "pt_state \<Rightarrow> u64 \<Rightarrow> u64 option" where
  "desc_nexts s d = pd_next (ps_desc s d)"

definition pt_desc_add_child :: "u64 \<Rightarrow> u64 \<Rightarrow> pt_state \<Rightarrow> pt_state result" where
  "pt_desc_add_child parent child s =
     (case pd_child (ps_desc s parent) of
        Some d \<Rightarrow> bindR (loopR (last_of (desc_nexts s) d)) (\<lambda>l.
          Inr (set_desc l (ps_desc s l\<lparr>pd_next := Some child\<rparr>) s))
      | None \<Rightarrow> Inr (set_desc parent (ps_desc s parent\<lparr>pd_child := Some child\<rparr>) s))"

definition pt_desc_get_from_parent :: "u64 \<Rightarrow> u64 \<Rightarrow> pt_state \<Rightarrow> u64 option result" where
  "pt_desc_get_from_parent addr parent s =
     loopR (find_ptr (desc_nexts s) (\<lambda>d. addr = va_to_pa (pd_pt (ps_desc s d))) (pd_child (ps_desc s parent)))"

section \<open>Mapping\<close>

text \<open>The loop of map\_pa\_to\_va\_pg from level \<open>i\<close> on, at the descriptor \<open>d\<close>.\<close>

function map_loop ::
  "nat \<Rightarrow> u64 \<Rightarrow> va_metadata \<Rightarrow> u64 \<Rightarrow> u64 \<Rightarrow> bool \<Rightarrow> pt_state \<Rightarrow> (u64 option \<times> pt_state) result" where
  "map_loop i d meta va pte_flags walk_only s =
     (if PT_LVL_MAX < i then Inr (Some va, s)
      else
        let level = pd_level (ps_desc s d); pt = pd_pt (ps_desc s d) in
        if level = 0 \<or> length (vm_index meta) < unat level then Inl OutOfBounds
        else
          let pt_index = vm_index meta ! (unat level - 1) in
          if i = PT_LVL_MAX then
            if walk_only then Inr (Some (pt + 8 * pt_index), s)
            else Inr (Some va, write_mem (pt + 8 * pt_index) (pt_entry (vm_offset meta) pte_flags) s)
          else
            let pte = read_mem (pt + 8 * pt_index) s in
            if pte_is_empty pte then
              bindR (create_pt 0 (level + 1) s) (\<lambda>(new_d, s).
              case new_d of
                None \<Rightarrow> Inr (None, s)
              | Some n \<Rightarrow>
                  let s = place_pt_entry d (pt_entry (pd_pt (ps_desc s n)) pte_flags) (uint pt_index) s in
                  bindR (pt_desc_add_child d n s) (\<lambda>s.
                  map_loop (Suc i) n meta va pte_flags walk_only s))
            else
              bindR (pt_desc_get_from_parent (extract_addr_from_pte pte) d s) (\<lambda>c.
              case c of
                None \<Rightarrow> Inr (None, s)
              | Some n \<Rightarrow> map_loop (Suc i) n meta va pte_flags walk_only s))"
  by pat_completeness auto

termination by (relation "measure (\<lambda>(i, d, m, va, f, w, s). 4 - i)") auto

declare map_loop.simps [simp del]

definition map_pa_to_va_pg :: "u64 \<Rightarrow> u64 \<Rightarrow> u64 \<Rightarrow> u64 \<Rightarrow> bool \<Rightarrow> pt_state \<Rightarrow> (u64 option \<times> pt_state) result" where
  "map_pa_to_va_pg pa va pt_top flags walk_only s =
     (let meta = extract_va_metadata va;
          meta = meta\<lparr>vm_offset := vm_offset meta + pa\<rparr>;
          pte_flags = (if flags = 0 then PTE_FLAGS_KERNEL_GENERIC else flags)
      in map_loop (unat (pd_level (ps_desc s pt_top))) pt_top meta va pte_flags walk_only s)"

text \<open>
  The loop of create\_id\_mapping: the counter is an int, which is compared with a 64 bit
  number after sign extension. Its overflow is taken to wrap.
\<close>

partial_function (option) id_mapping_loop :: "u32 \<Rightarrow> u64 \<Rightarrow> u64 \<Rightarrow> u64 \<Rightarrow> pt_state \<Rightarrow> pt_state result option" where
  "id_mapping_loop i end_paddr d flags s =
     (if (scast i :: u64) < end_paddr then
        (case map_pa_to_va_pg (scast i) (scast i) d flags False s of
           Inl e \<Rightarrow> Some (Inl e)
         | Inr (_, s) \<Rightarrow> id_mapping_loop (i + 4096) end_paddr d flags s)
      else Some (Inr s))"

declare id_mapping_loop.simps [code]

definition create_id_mapping :: "u64 \<Rightarrow> u64 \<Rightarrow> u64 \<Rightarrow> pt_state \<Rightarrow> pt_state result" where
  "create_id_mapping start_paddr end_paddr flags s =
     bindR (create_pt 0 1 s) (\<lambda>(d, s).
     case d of
       None \<Rightarrow> Inr s
     | Some d \<Rightarrow> bindR (loopR (id_mapping_loop (ucast start_paddr) end_paddr d flags s)) id)"

definition va_set_attr :: "u64 \<Rightarrow> u64 \<Rightarrow> u64 \<Rightarrow> pt_state \<Rightarrow> pt_state result" where
  "va_set_attr va d pte_attr s =
     bindR (map_pa_to_va_pg 0 va d 0 True s) (\<lambda>(pte, s).
     bindR (derefR pte) (\<lambda>p. Inr (write_mem p (read_mem p s OR pte_attr) s)))"

definition va_clear_attr :: "u64 \<Rightarrow> u64 \<Rightarrow> u64 \<Rightarrow> pt_state \<Rightarrow> pt_state result" where
  "va_clear_attr va d pte_attr s =
     bindR (map_pa_to_va_pg 0 va d 0 True s) (\<lambda>(pte, s).
     bindR (derefR pte) (\<lambda>p. Inr (write_mem p (read_mem p s AND NOT pte_attr) s)))"

text \<open>ioremap; a failed mapping ends in kernel\_panic.\<close>

definition ioremap :: "u64 \<Rightarrow> pt_state \<Rightarrow> (u64 \<times> pt_state) result" where
  "ioremap addr s =
     (let paddr = va_to_pa addr in
      bindR (derefR (ps_global s)) (\<lambda>g.
      bindR (map_pa_to_va_pg paddr paddr g PTE_FLAGS_NC False s) (\<lambda>(vaddr, s).
      case vaddr of
        None \<Rightarrow> Inl Diverges
      | Some v \<Rightarrow> if v = 0 then Inl Diverges else Inr (pa_to_va v, s))))"

text \<open>id\_map\_to\_usr: it stops at the first page that cannot be mapped.\<close>

partial_function (option) id_map_to_usr :: "u64 \<Rightarrow> u64 \<Rightarrow> u64 \<Rightarrow> u64 \<Rightarrow> pt_state \<Rightarrow> pt_state result option" where
  "id_map_to_usr start va end d s =
     (if start < end then
        (case map_pa_to_va_pg start va d PTE_FLAGS_USER_GENERIC False s of
           Inl e \<Rightarrow> Some (Inl e)
         | Inr (ret, s) \<Rightarrow> if ret \<noteq> Some va then Some (Inr s) else id_map_to_usr (start + 0x1000) (va + 0x1000) end d s)
      else Some (Inr s))"

declare id_map_to_usr.simps [code]

text \<open>
  usr\_init, with the value of the linker symbol \<^verbatim>\<open>__usr_entry\<close> and the result of the
  allocation of the descriptor as arguments. The result is the base address that it writes
  to ttbr0\_el1, if it does.
\<close>

abbreviation USR_SZ :: u64 where "USR_SZ \<equiv> 0x1000 * 1000"

definition usr_init :: "u64 \<Rightarrow> u64 \<Rightarrow> pt_state \<Rightarrow> (u64 option \<times> pt_state) result" where
  "usr_init usr_entry d s =
     (if d = 0 then Inl NullDeref
      else
        let s = set_desc d (ps_desc s d\<lparr>pd_level := 1\<rparr>) s;
            (pt, s) = kmalloc_page s;
            s = set_desc d (ps_desc s d\<lparr>pd_pt := pt\<rparr>) s
        in bindR (loopR (id_map_to_usr usr_entry usr_entry (usr_entry + USR_SZ) d s)) (\<lambda>r.
           bindR r (\<lambda>s.
           Inr (if pt \<noteq> 0 then Some (va_to_pa pt) else None, s))))"

end
