(* ===== verification/Mmu.thy ===== *)
theory Mmu
  imports Page_Table
begin

text \<open>
  mmu.c: the take-over of the tables that the boot code has made, the switch to the kernel
  half of the address space, and the system registers. The tables that it takes over are those
  of Start\_Code.
\<close>

section \<open>Memory attributes\<close>

text \<open>Macros of mmu.h; \<^verbatim>\<open>(r < 1)\<close> is a comparison there.\<close>

definition MAIR_MEM_RW :: "u8 \<Rightarrow> u8 \<Rightarrow> u8 \<Rightarrow> u8" where
  "MAIR_MEM_RW msb_2 r w = (push_bit 2 msb_2 OR (if r < 1 then 1 else 0)) OR w"

definition MAIR_DEV :: "u8 \<Rightarrow> u8 \<Rightarrow> u8 \<Rightarrow> u8" where
  "MAIR_DEV g r e = push_bit 2 (g + r + e)"

text \<open>Two fields of four bits, the first one in the low half of the byte.\<close>

record mair_attr =
  ma_outer_cache :: u8
  ma_inner_cache :: u8

definition mair_byte :: "mair_attr \<Rightarrow> u8" where
  "mair_byte a = (ma_outer_cache a AND 0xF) OR push_bit 4 (ma_inner_cache a AND 0xF)"

definition mair_at :: "mair_attr list" where
  "mair_at =
     [\<lparr>ma_outer_cache = MAIR_MEM_RW 3 1 1, ma_inner_cache = MAIR_MEM_RW 3 1 1\<rparr>,
      \<lparr>ma_outer_cache = drop_bit 4 (MAIR_DEV 0 0 1), ma_inner_cache = MAIR_DEV 0 0 1\<rparr>,
      \<lparr>ma_outer_cache = drop_bit 4 (MAIR_DEV 0 0 0), ma_inner_cache = MAIR_DEV 0 0 0\<rparr>]"

definition mair_el1 :: u64 where
  "mair_el1 = (ucast (mair_byte (mair_at ! 0)) OR push_bit 8 (ucast (mair_byte (mair_at ! 1))))
     OR push_bit 16 (ucast (mair_byte (mair_at ! 2)))"

section \<open>System registers\<close>

record sys_regs =
  sr_ttbr0 :: u64
  sr_ttbr1 :: u64
  sr_tcr :: u64
  sr_mair :: u64
  sr_vbar :: u64
  sr_sp :: u64
  sr_lr :: u64

definition get_ttbr0_el1 :: "sys_regs \<Rightarrow> u64" where
  "get_ttbr0_el1 r = sr_ttbr0 r"

definition get_ttbr1_el1 :: "sys_regs \<Rightarrow> u64" where
  "get_ttbr1_el1 r = sr_ttbr1 r"

definition set_ttbr1_el1 :: "u64 \<Rightarrow> sys_regs \<Rightarrow> sys_regs" where
  "set_ttbr1_el1 x r = r\<lparr>sr_ttbr1 := (if KERNEL_START < x then x - KERNEL_START else x)\<rparr>"

definition set_ttbr0_el1 :: "u64 \<Rightarrow> sys_regs \<Rightarrow> sys_regs" where
  "set_ttbr0_el1 x r = r\<lparr>sr_ttbr0 := x\<rparr>"

definition switch_vmem :: "sys_regs \<Rightarrow> sys_regs" where
  "switch_vmem r =
     (let r = set_ttbr1_el1 (get_ttbr0_el1 r) r;
          tcr = sr_tcr r;
          tcr = tcr OR push_bit 30 2;
          tcr = tcr OR push_bit 16 25;
          tcr = tcr OR push_bit 23 0;
          r = r\<lparr>sr_tcr := tcr\<rparr>;
          r = r\<lparr>sr_sp := sr_sp r + KERNEL_START\<rparr>;
          r = r\<lparr>sr_lr := sr_lr r + KERNEL_START\<rparr>
      in r\<lparr>sr_vbar := sr_vbar r + KERNEL_START\<rparr>)"

section \<open>The tables of the boot code\<close>

text \<open>
  The first descriptor is read through its physical address, which is the same memory.
\<close>

definition get_kernel_translation_table :: "pt_state \<Rightarrow> u64" where
  "get_kernel_translation_table s =
     (case ps_global s of
        None \<Rightarrow> 0
      | Some g \<Rightarrow> if va_to_pa g = 0 then 0 else pd_pt (ps_desc s g))"

definition extract_pt_addr :: "nat \<Rightarrow> sys_regs \<Rightarrow> pt_state \<Rightarrow> u64 result" where
  "extract_pt_addr level r s =
     (if 1 < level then
        bindR (derefR (ps_global s)) (\<lambda>g.
        Inr (read_mem (pd_pt (ps_desc s (g + DESC_SIZE * word_of_nat (level - 2)))) s AND 0xFFFFF000))
      else Inr (get_ttbr1_el1 r))"

text \<open>
  One round of the loop of extract\_global\_pt\_info, with the variables pt\_desc and parent.
  In the first round parent is a null pointer, through which the code writes: the boot
  tables map address 0, so that the write goes to memory there.
\<close>

definition extract_round :: "nat \<Rightarrow> sys_regs \<Rightarrow> u64 option \<times> u64 \<times> pt_state \<Rightarrow> (u64 option \<times> u64 \<times> pt_state) result" where
  "extract_round i r = (\<lambda>(pt_desc, parent, s).
     let parent = (case pt_desc of Some d \<Rightarrow> d | None \<Rightarrow> parent) in
     bindR (create_pt_desc (word_of_nat i) s) (\<lambda>(d, s).
     bindR (extract_pt_addr i r s) (\<lambda>a.
     let s = set_desc d (ps_desc s d\<lparr>pd_pt := a\<rparr>) s;
         s = set_desc d (ps_desc s d\<lparr>pd_len := (if i = 3 then 512 else 1)\<rparr>) s;
         s = set_desc parent (ps_desc s parent\<lparr>pd_child := Some d\<rparr>) s
     in Inr (Some d, parent, s))))"

definition extract_global_pt_info :: "sys_regs \<Rightarrow> pt_state \<Rightarrow> pt_state result" where
  "extract_global_pt_info r s =
     bindR (extract_round 1 r (None, 0, s)) (\<lambda>v.
     bindR (extract_round 2 r v) (\<lambda>v.
     bindR (extract_round 3 r v) (\<lambda>(_, _, s). Inr s)))"

definition init_mmu :: "nat \<Rightarrow> sys_regs \<times> pt_state \<Rightarrow> (sys_regs \<times> pt_state) result" where
  "init_mmu core = (\<lambda>(r, s).
     bindR (if core = 0 then bindR (extract_global_pt_info r s) (\<lambda>s. Inr (r, s))
            else Inr (set_ttbr0_el1 (get_kernel_translation_table s) r, s)) (\<lambda>(r, s).
     if get_kernel_translation_table s = 0 then Inr (r, s)
     else Inr (r\<lparr>sr_mair := mair_el1\<rparr>, s)))"

end
