(* ===== verification/Mmio.thy ===== *)
theory Mmio
  imports Page_Table
begin

text \<open>
  Access to device registers: io.c, mmio.c and gpio.c. A device is a function that gives the
  value of a read from the accesses so far, the width and the address; the accesses are
  kept in a log in the order in which the processor makes them. The constants are those of
  mmio.h and gpio/bcm2835.h.
\<close>

section \<open>Accesses\<close>

datatype access = Rd nat u64 u64 | Wr nat u64 u64

record io =
  io_dev :: "access list \<Rightarrow> nat \<Rightarrow> u64 \<Rightarrow> u64"
  io_log :: "access list"
  io_version :: u8
  io_mmio_base :: u64
  io_pt :: pt_state

definition io_write :: "nat \<Rightarrow> u64 \<Rightarrow> u64 \<Rightarrow> io \<Rightarrow> io" where
  "io_write w addr v s = s\<lparr>io_log := io_log s @ [Wr w addr v]\<rparr>"

definition io_read :: "nat \<Rightarrow> u64 \<Rightarrow> io \<Rightarrow> u64 \<times> io" where
  "io_read w addr s =
     (let v = take_bit w (io_dev s (io_log s) w addr) in (v, s\<lparr>io_log := io_log s @ [Rd w addr v]\<rparr>))"

definition iowrite8 :: "u64 \<Rightarrow> u32 \<Rightarrow> io \<Rightarrow> io" where
  "iowrite8 addr val = io_write 8 addr (ucast (ucast val :: u8))"

definition iowrite16 :: "u64 \<Rightarrow> u32 \<Rightarrow> io \<Rightarrow> io" where
  "iowrite16 addr val = io_write 16 addr (ucast (ucast val :: u16))"

definition iowrite32 :: "u64 \<Rightarrow> u32 \<Rightarrow> io \<Rightarrow> io" where
  "iowrite32 addr val = io_write 32 addr (ucast val)"

definition iowrite64 :: "u64 \<Rightarrow> u32 \<Rightarrow> io \<Rightarrow> io" where
  "iowrite64 addr val = io_write 64 addr (ucast val)"

definition ioread8 :: "u64 \<Rightarrow> io \<Rightarrow> u8 \<times> io" where
  "ioread8 addr s = (let (v, s) = io_read 8 addr s in (ucast v, s))"

definition ioread16 :: "u64 \<Rightarrow> io \<Rightarrow> u16 \<times> io" where
  "ioread16 addr s = (let (v, s) = io_read 16 addr s in (ucast v, s))"

definition ioread32 :: "u64 \<Rightarrow> io \<Rightarrow> u32 \<times> io" where
  "ioread32 addr s = (let (v, s) = io_read 32 addr s in (ucast v, s))"

definition ioread64 :: "u64 \<Rightarrow> io \<Rightarrow> u64 \<times> io" where
  "ioread64 addr s = io_read 64 addr s"

text \<open>ioremap on the translation tables of this state.\<close>

definition io_remap :: "u64 \<Rightarrow> io \<Rightarrow> (u64 \<times> io) result" where
  "io_remap addr s = bindR (ioremap addr (io_pt s)) (\<lambda>(v, p). Inr (v, s\<lparr>io_pt := p\<rparr>))"

section \<open>The base of the devices\<close>

text \<open>The argument is the value of the system register midr\_el1, as an unsigned int.\<close>

definition get_rpi_version :: "u32 \<Rightarrow> io \<Rightarrow> io" where
  "get_rpi_version reg s =
     (let part = drop_bit 4 reg AND 0xFFF in
      if part = 0xB76 then s\<lparr>io_version := 1\<rparr>
      else if part = 0xC07 then s\<lparr>io_version := 2\<rparr>
      else if part = 0xD03 then s\<lparr>io_version := 3\<rparr>
      else if part = 0xD08 then s\<lparr>io_version := 4\<rparr>
      else
        let s = (if part = 0xD0B then s\<lparr>io_version := 5\<rparr> else s)
        in s\<lparr>io_version := 0\<rparr>)"

definition mmio_init :: "u32 \<Rightarrow> io \<Rightarrow> io" where
  "mmio_init reg s =
     (let s = get_rpi_version reg s in
      if io_version s = 3 then s\<lparr>io_mmio_base := 0x3F000000\<rparr>
      else if io_version s = 4 then s\<lparr>io_mmio_base := 0xFE000000\<rparr>
      else if io_version s = 5 then s\<lparr>io_mmio_base := 0x107CFD1000\<rparr>
      else s\<lparr>io_mmio_base := 0x20000000\<rparr>)"

definition mmio_write :: "u32 \<Rightarrow> u32 \<Rightarrow> io \<Rightarrow> io" where
  "mmio_write offset val s = iowrite32 (io_mmio_base s + ucast offset) val s"

definition mmio_read :: "u32 \<Rightarrow> io \<Rightarrow> u32 \<times> io" where
  "mmio_read offset s = ioread32 (io_mmio_base s + ucast offset) s"

section \<open>GPIO\<close>

abbreviation BCM2835_GPIO_BASE :: u64 where "BCM2835_GPIO_BASE \<equiv> 0x200000"
abbreviation GPFSEL0 :: u32 where "GPFSEL0 \<equiv> 0x00"
abbreviation GPFSEL1 :: u32 where "GPFSEL1 \<equiv> 0x04"
abbreviation GPSET0 :: u32 where "GPSET0 \<equiv> 0x1C"
abbreviation GPCLR0 :: u32 where "GPCLR0 \<equiv> 0x28"
abbreviation GPPUD :: u32 where "GPPUD \<equiv> 0x94"
abbreviation GPPUDCLK0 :: u32 where "GPPUDCLK0 \<equiv> 0x98"
abbreviation GPF_ALT0 :: u32 where "GPF_ALT0 \<equiv> 0x04"

definition BITP :: "nat \<Rightarrow> u64" where
  "BITP pos = push_bit pos 1"

definition GPCLR_BANK :: "u8 \<Rightarrow> u32" where
  "GPCLR_BANK pin = GPCLR0 + 4 * (ucast pin div 32)"

definition GPF_CFG :: "u8 \<Rightarrow> u32 \<Rightarrow> u32" where
  "GPF_CFG pin val = push_bit (unat pin mod 10 * 3) val"

definition GPFSEL_BANK :: "u8 \<Rightarrow> u32" where
  "GPFSEL_BANK pin = GPFSEL0 + 4 * (ucast pin div 10)"

text \<open>The structure with its base and, for each function pointer, if it is set.\<close>

record gpio_controller =
  gc_base :: u64
  gc_generic :: bool

definition gpio_reg :: "u64 \<Rightarrow> u32 \<Rightarrow> u64" where
  "gpio_reg base offset = base + ucast offset"

definition generic_clear_gpio :: "u8 \<Rightarrow> u64 \<Rightarrow> io \<Rightarrow> io" where
  "generic_clear_gpio pin_nr base = iowrite32 (gpio_reg base (GPCLR_BANK pin_nr)) (ucast (BITP (unat pin_nr)))"

definition generic_set_gpio_func :: "u8 \<Rightarrow> u32 \<Rightarrow> u64 \<Rightarrow> io \<Rightarrow> io" where
  "generic_set_gpio_func pin_nr val base = iowrite32 (gpio_reg base (GPFSEL_BANK pin_nr)) (GPF_CFG pin_nr val)"

definition generic_set_gpio_val :: "u8 \<Rightarrow> u64 \<Rightarrow> io \<Rightarrow> io" where
  "generic_set_gpio_val pin_nr base s =
     (let reg = gpio_reg base (GPSET0 + 4 * (ucast pin_nr div 32));
          (x, s) = ioread32 reg s;
          x = (ucast x :: u64) OR BITP (unat pin_nr)
      in iowrite32 reg (ucast x) s)"

text \<open>On other versions the function returns before it touches the structure.\<close>

definition init_gpio :: "gpio_controller \<Rightarrow> io \<Rightarrow> (gpio_controller \<times> io) result" where
  "init_gpio ctrl s =
     (if io_version s = 3 then
        bindR (io_remap (io_mmio_base s + BCM2835_GPIO_BASE) s) (\<lambda>(base, s).
        Inr (ctrl\<lparr>gc_base := base, gc_generic := True\<rparr>, s))
      else Inr (ctrl, s))"

definition gpio_set_fn :: "u8 \<Rightarrow> u32 \<Rightarrow> gpio_controller \<Rightarrow> io \<Rightarrow> io result" where
  "gpio_set_fn pin_nr val ctrl s =
     (if gc_generic ctrl then Inr (generic_set_gpio_func pin_nr val (gc_base ctrl) s) else Inl NullDeref)"

definition gpio_clear :: "u8 \<Rightarrow> gpio_controller \<Rightarrow> io \<Rightarrow> io result" where
  "gpio_clear pin_nr ctrl s =
     (if gc_generic ctrl then Inr (generic_clear_gpio pin_nr (gc_base ctrl) s) else Inl NullDeref)"

definition gpio_set :: "u8 \<Rightarrow> gpio_controller \<Rightarrow> io \<Rightarrow> io result" where
  "gpio_set pin_nr ctrl s =
     (if gc_generic ctrl then Inr (generic_set_gpio_val pin_nr (gc_base ctrl) s) else Inl NullDeref)"

section \<open>Accesses and the log\<close>

lemma io_simps [simp]:
  "io_log (io_write w a v s) = io_log s @ [Wr w a v]" "io_dev (io_write w a v s) = io_dev s"
  "io_version (io_write w a v s) = io_version s" "io_mmio_base (io_write w a v s) = io_mmio_base s"
  "io_pt (io_write w a v s) = io_pt s"
  by (simp_all add: io_write_def)

lemmas io_defs = iowrite8_def iowrite16_def iowrite32_def iowrite64_def ioread8_def ioread16_def ioread32_def
  ioread64_def io_read_def Let_def

end
