(* ===== verification/Uart.thy ===== *)
theory Uart
  imports Mmio
begin

text \<open>
  The serial drivers of uart.c: the mini UART, which all boards up to the fourth version
  use, and the PL011 of the fifth. uart\_dev.base is an argument of the functions. The
  waiting loops are partial functions, without a value when the device never gets ready.
\<close>

section \<open>Character devices\<close>

text \<open>
  include/hobos/chardev.h. The functions are those that uart\_init stores; a string is given
  by its bytes without the final zero.
\<close>

record 's char_device =
  cd_base :: u64
  cd_quirks :: "('s \<Rightarrow> 's result) option"
  cd_putc :: "u8 \<Rightarrow> 's \<Rightarrow> 's result"
  cd_puts :: "u8 list \<Rightarrow> 's \<Rightarrow> 's result"
  cd_getc :: "'s \<Rightarrow> (u8 \<times> 's) result"

abbreviation AUX_IO_BASE :: u64 where "AUX_IO_BASE \<equiv> 0x215000"
abbreviation RPI_5_UART0_BASE :: u64 where "RPI_5_UART0_BASE \<equiv> 0x30000"
abbreviation AUX_ENABLES :: u32 where "AUX_ENABLES \<equiv> 0x04"
abbreviation AUX_MU_IO :: u32 where "AUX_MU_IO \<equiv> 0x40"
abbreviation AUX_MU_IER :: u32 where "AUX_MU_IER \<equiv> 0x44"
abbreviation AUX_MU_LCR :: u32 where "AUX_MU_LCR \<equiv> 0x4C"
abbreviation AUX_MU_MCR :: u32 where "AUX_MU_MCR \<equiv> 0x50"
abbreviation AUX_MU_LSR :: u32 where "AUX_MU_LSR \<equiv> 0x54"
abbreviation AUX_MU_CNTL :: u32 where "AUX_MU_CNTL \<equiv> 0x60"
abbreviation AUX_MU_BAUD :: u32 where "AUX_MU_BAUD \<equiv> 0x68"
abbreviation MINI_UART_BAUD :: u32 where "MINI_UART_BAUD \<equiv> 270"
abbreviation UART_DR :: u32 where "UART_DR \<equiv> 0x00"
abbreviation UART_FR :: u32 where "UART_FR \<equiv> 0x18"

definition uart_reg :: "u64 \<Rightarrow> u32 \<Rightarrow> u64" where
  "uart_reg base offset = base + ucast offset"

section \<open>Mini UART\<close>

text \<open>\<^verbatim>\<open>delay\<close> makes no access.\<close>

definition mini_uart_init :: "u64 \<Rightarrow> gpio_controller \<Rightarrow> io \<Rightarrow> io result" where
  "mini_uart_init base ctrl s =
     (if gc_base ctrl = 0 then Inr s
      else
        let sel = gpio_reg (gc_base ctrl) GPFSEL1; clk = gpio_reg (gc_base ctrl) GPPUDCLK0;
            (r, s) = ioread32 sel s;
            s = iowrite32 sel (ucast ((ucast r :: u64) AND NOT (BITP 14 OR BITP 15))) s;
            (r, s) = ioread8 (uart_reg base AUX_ENABLES) s;
            s = iowrite8 (uart_reg base AUX_ENABLES) (ucast r OR 1) s;
            s = iowrite8 (uart_reg base AUX_MU_CNTL) 0 s;
            s = iowrite8 (uart_reg base AUX_MU_IER) 0 s;
            s = iowrite8 (uart_reg base AUX_MU_MCR) 0 s;
            s = iowrite8 (uart_reg base AUX_MU_LCR) 3 s;
            s = iowrite16 (uart_reg base AUX_MU_BAUD) MINI_UART_BAUD s
        in bindR (gpio_set_fn 14 GPF_ALT0 ctrl s) (\<lambda>s.
           bindR (gpio_set_fn 15 GPF_ALT0 ctrl s) (\<lambda>s.
           let s = iowrite32 (gpio_reg (gc_base ctrl) GPPUD) 0 s;
               (r, s) = ioread32 clk s;
               s = iowrite32 clk (ucast ((ucast r :: u64) OR (BITP 14 OR BITP 15))) s;
               s = iowrite32 clk 0 s
           in Inr (iowrite8 (uart_reg base AUX_MU_CNTL) 3 s))))"

partial_function (option) mini_uart_wait_for_idle :: "u64 \<Rightarrow> io \<Rightarrow> io option" where
  "mini_uart_wait_for_idle base s =
     (let (r, s) = ioread8 (uart_reg base AUX_MU_LSR) s
      in if (ucast r :: u64) AND BITP 6 = 0 then mini_uart_wait_for_idle base s else Some s)"

declare mini_uart_wait_for_idle.simps [code]

definition mini_uart_putc :: "u64 \<Rightarrow> u8 \<Rightarrow> io \<Rightarrow> io result" where
  "mini_uart_putc base c s =
     bindR (loopR (mini_uart_wait_for_idle base s)) (\<lambda>s. Inr (iowrite8 (uart_reg base AUX_MU_IO) (ucast c) s))"

primrec mini_uart_puts :: "u64 \<Rightarrow> u8 list \<Rightarrow> io \<Rightarrow> io result" where
  "mini_uart_puts base [] s = Inr s"
| "mini_uart_puts base (c # cs) s = bindR (mini_uart_putc base c s) (mini_uart_puts base cs)"

definition mini_uart_getc :: "io \<Rightarrow> (u8 \<times> io) result" where
  "mini_uart_getc s = Inr (0, s)"

section \<open>PL011\<close>

partial_function (option) uart_wait_for_idle :: "u64 \<Rightarrow> bool \<Rightarrow> io \<Rightarrow> io option" where
  "uart_wait_for_idle base tx_rx s =
     (let (r, s) = ioread8 (uart_reg base UART_FR) s
      in if (ucast r :: u64) AND BITP (if tx_rx then 5 else 4) \<noteq> 0 then uart_wait_for_idle base tx_rx s else Some s)"

declare uart_wait_for_idle.simps [code]

definition uart_putc :: "u64 \<Rightarrow> u8 \<Rightarrow> io \<Rightarrow> io result" where
  "uart_putc base c s =
     bindR (loopR (uart_wait_for_idle base True s)) (\<lambda>s. Inr (iowrite8 (uart_reg base UART_DR) (ucast c) s))"

primrec uart_puts :: "u64 \<Rightarrow> u8 list \<Rightarrow> io \<Rightarrow> io result" where
  "uart_puts base [] s = Inr s"
| "uart_puts base (c # cs) s = bindR (uart_putc base c s) (uart_puts base cs)"

definition uart_getc :: "u64 \<Rightarrow> io \<Rightarrow> (u8 \<times> io) result" where
  "uart_getc base s =
     bindR (loopR (uart_wait_for_idle base False s)) (\<lambda>s. Inr (ioread8 (uart_reg base UART_DR) s))"

section \<open>The device\<close>

definition uart_init :: "gpio_controller \<Rightarrow> io \<Rightarrow> (io char_device \<times> io) result" where
  "uart_init priv s =
     (let base = (if io_version s = 5 then RPI_5_UART0_BASE else AUX_IO_BASE) in
      bindR (io_remap (base + va_to_pa (io_mmio_base s)) s) (\<lambda>(b, s').
      Inr (if io_version s = 5
           then \<lparr>cd_base = b, cd_quirks = None, cd_putc = uart_putc b, cd_puts = uart_puts b, cd_getc = uart_getc b\<rparr>
           else \<lparr>cd_base = b, cd_quirks = Some (mini_uart_init b priv), cd_putc = mini_uart_putc b,
                  cd_puts = mini_uart_puts b, cd_getc = mini_uart_getc\<rparr>, s')))"

end
