(* ===== verification/Printf.thy ===== *)
theory Printf
  imports Uart "HOL-Library.Signed_Division"
begin

text \<open>
  Formatted output: printf.c, and the console functions of kstdio.c that it calls. Numbers
  are ints of 32 bits; a char is an unsigned byte, as in the ABI of the processor. The
  buffer is a list of bytes, and an access beyond it leaves defined behaviour.
\<close>

section \<open>Numbers\<close>

abbreviation D_BUF_SZ :: nat where "D_BUF_SZ \<equiv> 128"

definition store_char :: "int \<Rightarrow> int \<Rightarrow> u8 list \<Rightarrow> u8 list result" where
  "store_char index v c =
     (if 0 \<le> index \<and> index < int (length c) then Inr (c[nat index := word_of_int v]) else Inl OutOfBounds)"

fun d_to_s_loop :: "nat \<Rightarrow> int \<Rightarrow> u8 list \<Rightarrow> u8 list result" where
  "d_to_s_loop 0 d c = Inr c"
| "d_to_s_loop (Suc n) d c = bindR (store_char (int (Suc n)) (d smod 10 + 0x30) c) (d_to_s_loop n (d sdiv 10))"

text \<open>The result is the position in the buffer where the string starts, and the buffer.\<close>

definition d_to_s :: "u32 \<Rightarrow> u8 list \<Rightarrow> u8 \<Rightarrow> (nat \<times> u8 list) result" where
  "d_to_s i c sz =
     (let index = unat sz + 2 in
      bindR (store_char (int index) 0 c) (\<lambda>c.
      bindR (d_to_s_loop (index - 1) (sint i) c) (\<lambda>c.
      Inr (1, c))))"

function x_to_s_loop :: "int \<Rightarrow> u64 \<Rightarrow> u8 list \<Rightarrow> (int \<times> u8 list) result" where
  "x_to_s_loop index d c =
     (if 1 < index then
        let res = 0xF AND d in
        bindR (store_char index (if res < 0xA then uint res + 0x30 else uint (res - 0xA) + 0x41) c) (\<lambda>c.
        x_to_s_loop (index - 1) (drop_bit 4 d) c)
      else Inr (index, c))"
  by pat_completeness auto

termination by (relation "measure (\<lambda>(index, d, c). nat index)") auto

declare x_to_s_loop.simps [simp del]

definition x_to_s :: "u32 \<Rightarrow> u8 list \<Rightarrow> u8 \<Rightarrow> (nat \<times> u8 list) result" where
  "x_to_s i c sz =
     (let index = uint sz in
      bindR (store_char index 0 c) (\<lambda>c.
      bindR (x_to_s_loop (index - 1) (scast i) c) (\<lambda>(index, c).
      bindR (store_char index 0x78 c) (\<lambda>c.
      bindR (store_char (index - 1) 0x30 c) (\<lambda>c.
      Inr (nat (index - 1), c))))))"

function count_chars :: "int \<Rightarrow> int \<Rightarrow> int" where
  "count_chars i n = (if i \<noteq> 0 then count_chars (i sdiv 10) (n + 1) else n)"
  by pat_completeness auto

termination
proof (relation "measure (\<lambda>(i, n). nat \<bar>i\<bar>)")
  fix i n :: int
  assume "i \<noteq> 0"
  then have "\<bar>i sdiv 10\<bar> = \<bar>i\<bar> div 10" by (simp add: signed_divide_int_def abs_mult)
  then show "((i sdiv 10, n + 1), i, n) \<in> measure (\<lambda>(i, n). nat \<bar>i\<bar>)" using \<open>i \<noteq> 0\<close> by simp
qed simp

declare count_chars.simps [simp del]

text \<open>The product with 10 is taken to wrap around.\<close>

definition int_chars :: "u32 \<Rightarrow> int" where
  "int_chars d = count_chars (sint (d * 10)) 0 - 2"

section \<open>Output\<close>

text \<open>The console of kstdio.c: without a device nothing is printed.\<close>

definition putc :: "'s char_device option \<Rightarrow> u8 \<Rightarrow> 's \<Rightarrow> 's result" where
  "putc console c s = (case console of None \<Rightarrow> Inr s | Some d \<Rightarrow> cd_putc d c s)"

definition puts :: "'s char_device option \<Rightarrow> u8 list \<Rightarrow> 's \<Rightarrow> 's result" where
  "puts console cs s = (case console of None \<Rightarrow> Inr s | Some d \<Rightarrow> cd_puts d cs s)"

definition getc :: "'s char_device option \<Rightarrow> 's \<Rightarrow> (u8 \<times> 's) result" where
  "getc console s = bindR (derefR console) (\<lambda>d. cd_getc d s)"

text \<open>init\_console, with the call of the init function of the device as an argument.\<close>

definition init_console :: "('s \<Rightarrow> ('s char_device \<times> 's) result) \<Rightarrow> 's \<Rightarrow> ('s char_device option \<times> 's) result" where
  "init_console init s =
     bindR (init s) (\<lambda>(d, s).
     case cd_quirks d of
       None \<Rightarrow> Inr (Some d, s)
     | Some q \<Rightarrow> bindR (q s) (\<lambda>s. Inr (Some d, s)))"

text \<open>The string that starts at a position of the buffer, up to the zero byte.\<close>

definition buf_string :: "nat \<Rightarrow> u8 list \<Rightarrow> u8 list result" where
  "buf_string k c =
     (let cs = takeWhile (\<lambda>x. x \<noteq> 0) (drop k c)
      in if k + length cs < length c then Inr cs else Inl OutOfBounds)"

datatype va_arg = Arg_int u32 | Arg_str "u8 list"

text \<open>
  \<^verbatim>\<open>va_arg\<close> leaves defined behaviour when there is no argument left or when it does not
  have the type that is asked for.
\<close>

fun next_int :: "va_arg list \<Rightarrow> (u32 \<times> va_arg list) result" where
  "next_int (Arg_int i # args) = Inr (i, args)"
| "next_int args = Inl OutOfBounds"

fun next_str :: "va_arg list \<Rightarrow> (u8 list \<times> va_arg list) result" where
  "next_str (Arg_str cs # args) = Inr (cs, args)"
| "next_str args = Inl OutOfBounds"

definition puts_number :: "'s char_device option \<Rightarrow> (nat \<times> u8 list) result \<Rightarrow> 's \<Rightarrow> (u8 list \<times> 's) result" where
  "puts_number console r s =
     bindR r (\<lambda>(k, buf).
     bindR (buf_string k buf) (\<lambda>cs.
     bindR (puts console cs s) (\<lambda>s. Inr (buf, s))))"

definition chars :: "string \<Rightarrow> u8 list" where
  "chars = map of_char"

text \<open>One conversion: the arguments and the buffer that are left, and the output.\<close>

definition vprintf_option ::
  "'s char_device option \<Rightarrow> u8 \<Rightarrow> va_arg list \<Rightarrow> u8 list \<Rightarrow> 's \<Rightarrow> (va_arg list \<times> u8 list \<times> 's) result" where
  "vprintf_option console opt args buf s =
     (if opt = of_char (CHR ''s'') then
        bindR (next_str args) (\<lambda>(a, args).
        bindR (puts console a s) (\<lambda>s. Inr (args, buf, s)))
      else if opt = of_char (CHR ''c'') then
        bindR (next_int args) (\<lambda>(a, args).
        bindR (putc console (ucast a) s) (\<lambda>s. Inr (args, buf, s)))
      else if opt = of_char (CHR ''d'') then
        bindR (next_int args) (\<lambda>(a, args).
        bindR (puts_number console (d_to_s a buf (word_of_int (int_chars a))) s) (\<lambda>(buf, s). Inr (args, buf, s)))
      else if opt = of_char (CHR ''x'') then
        bindR (next_int args) (\<lambda>(a, args).
        bindR (puts_number console (x_to_s a buf (8 + 2)) s) (\<lambda>(buf, s). Inr (args, buf, s)))
      else if opt = of_char (CHR ''l'') then
        bindR (next_int args) (\<lambda>(a, args).
        bindR (puts_number console (x_to_s a buf (16 + 2)) s) (\<lambda>(buf, s). Inr (args, buf, s)))
      else
        bindR (puts console (chars ''Format option not supported'' @ [0x0A]) s) (\<lambda>s. Inr (args, buf, s)))"

text \<open>
  The loop. The format is the list of its bytes before the zero: a percent sign at the end
  makes the loop take the zero for an option and read on beyond the format.
\<close>

fun vprintf_loop ::
  "'s char_device option \<Rightarrow> u8 list \<Rightarrow> va_arg list \<Rightarrow> u8 list \<Rightarrow> 's \<Rightarrow> 's result" where
  "vprintf_loop console [] args buf s = Inr s"
| "vprintf_loop console [c] args buf s =
     (if c = of_char (CHR 0x25)
      then bindR (vprintf_option console 0 args buf s) (\<lambda>_. Inl OutOfBounds)
      else putc console c s)"
| "vprintf_loop console (c # opt # cs) args buf s =
     (if c = of_char (CHR 0x25)
      then bindR (vprintf_option console opt args buf s) (\<lambda>(args, buf, s). vprintf_loop console cs args buf s)
      else bindR (putc console c s) (\<lambda>s. vprintf_loop console (opt # cs) args buf s))"

definition vprintf :: "'s char_device option \<Rightarrow> u8 list \<Rightarrow> va_arg list \<Rightarrow> 's \<Rightarrow> (u32 \<times> 's) result" where
  "vprintf console format args s =
     bindR (vprintf_loop console format args (replicate D_BUF_SZ 0) s) (\<lambda>s. Inr (0, s))"

section \<open>kprintf\<close>

text \<open>
  The state around the console: the interrupt mask of the processor, the word of print\_mutex
  and the device. kprintf masks interrupts (bit 7 of the mask), takes the lock, prints, and
  undoes both. The lock functions are modelled instruction by instruction in Mutex; for a
  core on its own a lock that is held is never given up, and acquire\_mutex does not return.
\<close>

record 's kstdio =
  ks_daif :: u64
  ks_lock :: u32
  ks_dev :: 's

definition kprintf ::
  "'s char_device option \<Rightarrow> u8 list \<Rightarrow> va_arg list \<Rightarrow> ('s, 'z) kstdio_scheme \<Rightarrow> (u32 \<times> ('s, 'z) kstdio_scheme) result" where
  "kprintf console format args s =
     (let irq_flags = ks_daif s;
          s = s\<lparr>ks_daif := ks_daif s OR 0x80\<rparr>
      in if ks_lock s \<noteq> 0 then Inl Diverges
         else
           let s = s\<lparr>ks_lock := 1\<rparr> in
           bindR (vprintf console format args (ks_dev s)) (\<lambda>(printed, d).
           let s = s\<lparr>ks_dev := d\<rparr>;
               s = s\<lparr>ks_lock := 0\<rparr>;
               s = s\<lparr>ks_daif := irq_flags\<rparr>
           in Inr (printed, s)))"

text \<open>Between the mask and the lock kprintf is vprintf: both are as before.\<close>

lemma kprintf_free:
  "ks_lock s = 0 \<Longrightarrow> kprintf console format args s =
    bindR (vprintf console format args (ks_dev s)) (\<lambda>(printed, d). Inr (printed, s\<lparr>ks_dev := d\<rparr>))"
  by (cases s) (simp add: kprintf_def)

lemma kprintf_held: "ks_lock s \<noteq> 0 \<Longrightarrow> kprintf console format args s = Inl Diverges"
  by (simp add: kprintf_def)

text \<open>A message: kprintf, the result of which is not used.\<close>

definition kmsg ::
  "'s char_device option \<Rightarrow> u8 list \<Rightarrow> va_arg list \<Rightarrow> ('s, 'z) kstdio_scheme \<Rightarrow> ('s, 'z) kstdio_scheme result" where
  "kmsg console format args s = bindR (kprintf console format args s) (\<lambda>(_, s). Inr s)"

end
