(* ===== verification/Devices.thy ===== *)
theory Devices
  imports Printf
begin

text \<open>
  The timer (timer.c), the interrupt controller (irq\_bcm.c, irq\_controller.c) and the set-up
  of the devices in kernel.c, with the messages on the console. A set of function pointers
  that are always stored together is one bool.
\<close>

section \<open>Timer\<close>

abbreviation BCM2835_TIMER_BASE_OFF :: u32 where "BCM2835_TIMER_BASE_OFF \<equiv> 0x3000"
abbreviation BCM2835_TIMER_LSB :: u32 where "BCM2835_TIMER_LSB \<equiv> 0x3004"
abbreviation BCM2835_TIMER_MSB :: u32 where "BCM2835_TIMER_MSB \<equiv> 0x3008"
abbreviation BCM2835_TIMER_C1 :: u32 where "BCM2835_TIMER_C1 \<equiv> 0x3010"

record timer =
  tm_base :: u64
  tm_msb :: u32
  tm_lsb :: u32
  tm_read :: bool
  tm_set :: bool

definition read_timer32 :: "bool \<Rightarrow> timer \<Rightarrow> io \<Rightarrow> u32 \<times> io" where
  "read_timer32 msb t = (if msb then mmio_read (tm_msb t) else mmio_read (tm_lsb t))"

definition read_timer64 :: "timer \<Rightarrow> io \<Rightarrow> u64 \<times> io" where
  "read_timer64 t s =
     (let (lo, s) = mmio_read (tm_lsb t) s;
          (hi, s) = mmio_read (tm_msb t) s
      in (ucast lo OR push_bit 32 (ucast hi), s))"

definition set_timer :: "timer \<Rightarrow> u32 \<Rightarrow> io \<Rightarrow> io" where
  "set_timer t val s =
     (let (target_val, s) = read_timer32 False t s
      in mmio_write BCM2835_TIMER_C1 (target_val + val) s)"

definition reset_timer :: "io \<Rightarrow> io" where
  "reset_timer = mmio_write BCM2835_TIMER_BASE_OFF (ucast (BITP 1))"

definition init_timer :: "io char_device option \<Rightarrow> timer \<Rightarrow> io kstdio \<Rightarrow> (timer \<times> io kstdio) result" where
  "init_timer console t s =
     (if io_version (ks_dev s) = 3 then
        let t = t\<lparr>tm_base := ucast BCM2835_TIMER_BASE_OFF, tm_msb := BCM2835_TIMER_MSB, tm_lsb := BCM2835_TIMER_LSB\<rparr> in
        bindR (io_remap (ucast BCM2835_TIMER_BASE_OFF + io_mmio_base (ks_dev s)) (ks_dev s)) (\<lambda>(_, d).
        Inr (t\<lparr>tm_read := True, tm_set := True\<rparr>, s\<lparr>ks_dev := d\<rparr>))
      else bindR (kmsg console (chars ''RPI rev not supported'' @ [0x0A]) [] s) (\<lambda>s. Inr (t, s)))"

definition read_timer :: "bool \<Rightarrow> timer \<Rightarrow> io \<Rightarrow> (u32 \<times> io) result" where
  "read_timer msb t s = (if tm_read t then Inr (read_timer32 msb t s) else Inl NullDeref)"

text \<open>The two calls by which \_\_handle\_sched\_irq (sched.c) re-arms the timer.\<close>

definition rearm_timer :: "timer \<Rightarrow> io \<Rightarrow> io result" where
  "rearm_timer t s = (if tm_set t then Inr (set_timer t 0x100 (reset_timer s)) else Inl NullDeref)"

section \<open>Interrupt controller\<close>

abbreviation IRQ_BASE_OFFSET_BCM_2835 :: u64 where "IRQ_BASE_OFFSET_BCM_2835 \<equiv> 0xB000"
abbreviation ENABLE_IRQS_1 :: u64 where "ENABLE_IRQS_1 \<equiv> 0x210"
abbreviation DISABLE_BASIC_IRQS :: u64 where "DISABLE_BASIC_IRQS \<equiv> 0x224"
abbreviation IRQ_BCM_SOC :: u8 where "IRQ_BCM_SOC \<equiv> 0xA"
abbreviation IRQ_ARM_GENERIC :: u8 where "IRQ_ARM_GENERIC \<equiv> 0xB"
abbreviation BCM_DEFAULT_IRQ_TIMER :: nat where "BCM_DEFAULT_IRQ_TIMER \<equiv> 1"

record irq_controller =
  ic_base :: u64
  ic_set :: bool

definition bcm_irq_enable_interrupt :: "irq_controller \<Rightarrow> nat \<Rightarrow> io \<Rightarrow> io" where
  "bcm_irq_enable_interrupt ctrl int_nr = iowrite32 (ic_base ctrl + ENABLE_IRQS_1) (ucast (BITP int_nr))"

definition bcm_irq_disable_interrupt :: "irq_controller \<Rightarrow> nat \<Rightarrow> io \<Rightarrow> io" where
  "bcm_irq_disable_interrupt ctrl int_nr = iowrite32 (ic_base ctrl + DISABLE_BASIC_IRQS) (ucast (BITP int_nr))"

definition bcm_irq_controller_init :: "irq_controller \<Rightarrow> io \<Rightarrow> (irq_controller \<times> io) result" where
  "bcm_irq_controller_init irq s =
     (if io_version s = 3 then
        bindR (io_remap (io_mmio_base s + IRQ_BASE_OFFSET_BCM_2835) s) (\<lambda>(base, s).
        Inr (irq\<lparr>ic_base := base, ic_set := True\<rparr>, s))
      else Inr (irq, s))"

definition init_irq_controller ::
  "io char_device option \<Rightarrow> irq_controller \<Rightarrow> u8 \<Rightarrow> io kstdio \<Rightarrow> (irq_controller \<times> io kstdio) result" where
  "init_irq_controller console irq type s =
     (if type = IRQ_BCM_SOC then
        bindR (kmsg console (chars ''BCM IRQ Selected'' @ [0x0A]) [] s) (\<lambda>s.
        bindR (bcm_irq_controller_init irq (ks_dev s)) (\<lambda>(irq, d). Inr (irq, s\<lparr>ks_dev := d\<rparr>)))
      else if type = IRQ_ARM_GENERIC then
        bindR (kmsg console (chars ''ARM GENERIC IRQ Selected'' @ [0x0A]) [] s) (\<lambda>s. Inr (irq, s))
      else bindR (kmsg console (chars ''Unrecognized IRQ controller type'' @ [0x0A]) [] s) (\<lambda>s. Inr (irq, s)))"

section \<open>Set-up\<close>

text \<open>
  The functions of kernel.c work on the state around the console, which also has the
  interrupt mask. setup\_console takes the value that its variable on the stack has before;
  the structures soc\_irq and global\_timer are zero at the start. enable\_global\_interrupts
  clears bit 7 of the mask (\<^verbatim>\<open>msr daifclr, #2\<close>).
\<close>

definition kernel_init_msg :: "'s char_device option \<Rightarrow> 's kstdio \<Rightarrow> 's kstdio result" where
  "kernel_init_msg console s = bindR (kprintf console ([0x0A] @ chars ''Starting kernel...'' @ [0x0A]) [] s) (\<lambda>(_, s). Inr s)"

definition kernel_splash_msg :: "'s char_device option \<Rightarrow> 's kstdio \<Rightarrow> 's kstdio result" where
  "kernel_splash_msg console s =
     bindR (kprintf console ([0x0A] @ chars ''** Welcome to HobOS! **'' @ [0x0A]) [] s) (\<lambda>(_, s). Inr s)"

text \<open>kernel\_panic and fail print and then loop for ever, so that they have no result.\<close>

definition kernel_panic :: "'s char_device option \<Rightarrow> 's kstdio \<Rightarrow> 's kstdio result" where
  "kernel_panic console s = bindR (kprintf console (chars ''Kernel panicked!'' @ [0x0A]) [] s) (\<lambda>_. Inl Diverges)"

definition setup_console :: "gpio_controller \<Rightarrow> io kstdio \<Rightarrow> (io char_device option \<times> io kstdio) result" where
  "setup_console ctrl s =
     bindR (init_gpio ctrl (ks_dev s)) (\<lambda>(ctrl, d).
     bindR (init_console (uart_init ctrl) d) (\<lambda>(console, d).
     bindR (kernel_init_msg console (s\<lparr>ks_dev := d\<rparr>)) (\<lambda>s. Inr (console, s))))"

definition no_timer :: timer where
  "no_timer = \<lparr>tm_base = 0, tm_msb = 0, tm_lsb = 0, tm_read = False, tm_set = False\<rparr>"

definition no_irq :: irq_controller where
  "no_irq = \<lparr>ic_base = 0, ic_set = False\<rparr>"

definition init_device_drivers :: "io char_device option \<Rightarrow> io kstdio \<Rightarrow> (timer \<times> io kstdio) result" where
  "init_device_drivers console = init_timer console no_timer"

definition enable_global_interrupts :: "'s kstdio \<Rightarrow> 's kstdio" where
  "enable_global_interrupts s = s\<lparr>ks_daif := ks_daif s AND NOT 0x80\<rparr>"

definition enable_interrupts :: "io char_device option \<Rightarrow> timer \<Rightarrow> io kstdio \<Rightarrow> (irq_controller \<times> io kstdio) result" where
  "enable_interrupts console t s =
     (let s = enable_global_interrupts s in
      bindR (init_irq_controller console no_irq IRQ_BCM_SOC s) (\<lambda>(irq, s).
      if \<not> ic_set irq then Inl NullDeref
      else
        let s = s\<lparr>ks_dev := bcm_irq_enable_interrupt irq BCM_DEFAULT_IRQ_TIMER (ks_dev s)\<rparr> in
        if \<not> tm_set t then Inl NullDeref else Inr (irq, s\<lparr>ks_dev := set_timer t 0x100 (ks_dev s)\<rparr>)))"

text \<open>The calls of main that set up the devices.\<close>

definition main_devices :: "u32 \<Rightarrow> gpio_controller \<Rightarrow> io kstdio \<Rightarrow> (io char_device option \<times> timer \<times> irq_controller \<times> io kstdio) result" where
  "main_devices reg ctrl s =
     (let s = s\<lparr>ks_dev := mmio_init reg (ks_dev s)\<rparr> in
      bindR (setup_console ctrl s) (\<lambda>(console, s).
      bindR (init_device_drivers console s) (\<lambda>(t, s).
      bindR (enable_interrupts console t s) (\<lambda>(irq, s).
      Inr (console, t, irq, s)))))"

end
