(* ===== verification/Uart_Props.thy ===== *)
theory Uart_Props
  imports Uart
begin

text \<open>
  What the serial drivers do on the bus. The promise of a driver to the console is a locale,
  which both drivers of uart.c implement.
\<close>

section \<open>The protocol on the bus\<close>

text \<open>
  \<open>transmits st out ok l cs\<close>: the log \<open>l\<close> consists of the transmission of the bytes \<open>cs\<close> and
  nothing else: for each byte some reads of the status register that are not \<open>ok\<close>, one that
  is, and then the write of the byte.
\<close>

inductive transmits :: "u64 \<Rightarrow> u64 \<Rightarrow> (u64 \<Rightarrow> bool) \<Rightarrow> access list \<Rightarrow> u8 list \<Rightarrow> bool"
  for st out :: u64 and ok :: "u64 \<Rightarrow> bool" where
  transmits_none: "transmits st out ok [] []"
| transmits_byte: "\<forall>v\<in>set busy. \<not> ok v \<Longrightarrow> ok r \<Longrightarrow> transmits st out ok l cs \<Longrightarrow>
    transmits st out ok (map (Rd 8 st) busy @ Rd 8 st r # Wr 8 out (ucast c) # l) (c # cs)"

lemma transmits_append:
  "transmits st out ok l cs \<Longrightarrow> transmits st out ok l' cs' \<Longrightarrow> transmits st out ok (l @ l') (cs @ cs')"
proof (induction rule: transmits.induct)
  case (transmits_byte busy r l cs c)
  then show ?case using transmits.transmits_byte [of busy ok r st out "l @ l'" "cs @ cs'" c] by simp
qed simp

text \<open>The log after \<open>k\<close> more reads of the status register.\<close>

fun polled :: "(access list \<Rightarrow> nat \<Rightarrow> u64 \<Rightarrow> u64) \<Rightarrow> u64 \<Rightarrow> access list \<Rightarrow> nat \<Rightarrow> access list" where
  "polled dev st log 0 = log"
| "polled dev st log (Suc k) = polled dev st (log @ [Rd 8 st (take_bit 8 (dev log 8 st))]) k"

definition gets_ready :: "(access list \<Rightarrow> nat \<Rightarrow> u64 \<Rightarrow> u64) \<Rightarrow> u64 \<Rightarrow> (u64 \<Rightarrow> bool) \<Rightarrow> bool" where
  "gets_ready dev st ok \<longleftrightarrow> (\<forall>log. \<exists>k. ok (take_bit 8 (dev (polled dev st log k) 8 st)))"

definition lsr_idle :: "u64 \<Rightarrow> bool" where "lsr_idle r \<longleftrightarrow> bit r 6"

definition fr_not_full :: "u64 \<Rightarrow> bool" where "fr_not_full r \<longleftrightarrow> \<not> bit r 5"

lemma and_BITP: "x AND BITP n = 0 \<longleftrightarrow> \<not> bit x n"
proof -
  have "bit x n \<Longrightarrow> x AND BITP n \<noteq> 0"
  proof -
    assume x: "bit x n"
    then have "n < 64" using bit_imp_le_length by fastforce
    then have "bit (x AND BITP n) n" using x by (simp add: BITP_def bit_simps)
    then show ?thesis by (metis bit_0_eq bot_apply bot_bool_def)
  qed
  moreover have "\<not> bit x n \<Longrightarrow> x AND BITP n = 0"
    by (rule bit_eqI) (auto simp: BITP_def bit_simps)
  ultimately show ?thesis by blast
qed

lemma poll_loop:
  assumes step: "\<And>s. wait s = (let r = take_bit 8 (io_dev s (io_log s) 8 st); s' = s\<lparr>io_log := io_log s @ [Rd 8 st r]\<rparr>
      in if ok r then Some s' else wait s')"
  shows "ok (take_bit 8 (io_dev s (polled (io_dev s) st (io_log s) k) 8 st)) \<Longrightarrow>
    \<exists>busy r. wait s = Some (s\<lparr>io_log := io_log s @ map (Rd 8 st) busy @ [Rd 8 st r]\<rparr>) \<and> (\<forall>v\<in>set busy. \<not> ok v) \<and> ok r"
proof (induction k arbitrary: s)
  case 0
  then show ?case by (subst step) (auto simp: Let_def intro!: exI [of _ "[]"])
next
  case (Suc k)
  let ?r = "take_bit 8 (io_dev s (io_log s) 8 st)"
  let ?s = "s\<lparr>io_log := io_log s @ [Rd 8 st ?r]\<rparr>"
  show ?case
  proof (cases "ok ?r")
    case True
    then show ?thesis by (subst step) (auto simp: Let_def intro!: exI [of _ "[]"])
  next
    case False
    obtain busy r where "wait ?s = Some (?s\<lparr>io_log := io_log ?s @ map (Rd 8 st) busy @ [Rd 8 st r]\<rparr>)"
      "\<forall>v\<in>set busy. \<not> ok v" "ok r"
      using Suc.IH [of ?s] Suc.prems by auto
    then show ?thesis using False by (subst step) (auto simp: Let_def intro!: exI [of _ "?r # busy"])
  qed
qed

lemma ioread8_reg: "ioread8 a s = (let r = take_bit 8 (io_dev s (io_log s) 8 a) in (ucast r, s\<lparr>io_log := io_log s @ [Rd 8 a r]\<rparr>))"
  by (simp add: ioread8_def io_read_def Let_def)

lemma status_bits:
  "ucast (ucast (take_bit 8 (x :: u64)) :: u8) = (take_bit 8 x :: u64)"
  by (rule bit_word_eqI) (auto simp: bit_simps)

lemma mini_uart_wait_step:
  "mini_uart_wait_for_idle base s =
     (let r = take_bit 8 (io_dev s (io_log s) 8 (uart_reg base AUX_MU_LSR));
          s' = s\<lparr>io_log := io_log s @ [Rd 8 (uart_reg base AUX_MU_LSR) r]\<rparr>
      in if lsr_idle r then Some s' else mini_uart_wait_for_idle base s')"
  by (subst mini_uart_wait_for_idle.simps) (simp add: ioread8_reg Let_def status_bits and_BITP lsr_idle_def del: bit_take_bit_iff)

lemma uart_wait_step:
  "uart_wait_for_idle base True s =
     (let r = take_bit 8 (io_dev s (io_log s) 8 (uart_reg base UART_FR));
          s' = s\<lparr>io_log := io_log s @ [Rd 8 (uart_reg base UART_FR) r]\<rparr>
      in if fr_not_full r then Some s' else uart_wait_for_idle base True s')"
  by (subst uart_wait_for_idle.simps) (simp add: ioread8_reg Let_def status_bits and_BITP fr_not_full_def del: bit_take_bit_iff)

lemma write_byte: "iowrite8 a (ucast (c :: u8)) s = s\<lparr>io_log := io_log s @ [Wr 8 a (ucast c)]\<rparr>"
proof -
  have "(ucast (ucast (ucast c :: u32) :: u8) :: u64) = ucast c" by (rule bit_word_eqI) (auto simp: bit_simps dest: bit_imp_le_length)
  then show ?thesis by (simp only: iowrite8_def io_write_def)
qed

lemma transmit_one:
  assumes step: "\<And>s. wait s = (let r = take_bit 8 (io_dev s (io_log s) 8 st); s' = s\<lparr>io_log := io_log s @ [Rd 8 st r]\<rparr>
      in if ok r then Some s' else wait s')"
    and "gets_ready (io_dev s) st ok"
  obtains l where "bindR (loopR (wait s)) (\<lambda>s. Inr (iowrite8 out (ucast c) s)) = Inr (s\<lparr>io_log := io_log s @ l\<rparr>)"
    and "transmits st out ok l [c]"
proof -
  obtain k where "ok (take_bit 8 (io_dev s (polled (io_dev s) st (io_log s) k) 8 st))"
    using assms(2) by (auto simp: gets_ready_def)
  from poll_loop [of wait, OF step this] obtain busy r where
    w: "wait s = Some (s\<lparr>io_log := io_log s @ map (Rd 8 st) busy @ [Rd 8 st r]\<rparr>)" "\<forall>v\<in>set busy. \<not> ok v" "ok r" by blast
  show thesis
  proof (rule that)
    show "bindR (loopR (wait s)) (\<lambda>s. Inr (iowrite8 out (ucast c) s)) =
      Inr (s\<lparr>io_log := io_log s @ map (Rd 8 st) busy @ [Rd 8 st r, Wr 8 out (ucast c)]\<rparr>)"
      unfolding w by (simp add: write_byte)
    show "transmits st out ok (map (Rd 8 st) busy @ [Rd 8 st r, Wr 8 out (ucast c)]) [c]"
      by (rule transmits_byte [OF w(2,3) transmits_none])
  qed
qed

section \<open>The interface of a serial line\<close>

text \<open>
  What a driver promises to the console: while the line gets ready, putc transmits the byte
  and puts its bytes in order, and nothing else happens on the bus.
\<close>

locale serial_line =
  fixes putc :: "u8 \<Rightarrow> io \<Rightarrow> io result" and puts :: "u8 list \<Rightarrow> io \<Rightarrow> io result"
    and st out :: u64 and ok :: "u64 \<Rightarrow> bool"
  assumes putc_transmits: "gets_ready (io_dev s) st ok \<Longrightarrow>
      \<exists>l. putc c s = Inr (s\<lparr>io_log := io_log s @ l\<rparr>) \<and> transmits st out ok l [c]"
    and puts_Nil: "puts [] s = Inr s"
    and puts_Cons: "puts (c # cs) s = bindR (putc c s) (puts cs)"
begin

lemma puts_transmits:
  "gets_ready (io_dev s) st ok \<Longrightarrow> \<exists>l. puts cs s = Inr (s\<lparr>io_log := io_log s @ l\<rparr>) \<and> transmits st out ok l cs"
proof (induction cs arbitrary: s)
  case Nil
  then show ?case by (intro exI [of _ "[]"]) (simp add: puts_Nil transmits_none)
next
  case (Cons c cs)
  obtain l where l: "putc c s = Inr (s\<lparr>io_log := io_log s @ l\<rparr>)" "transmits st out ok l [c]"
    using putc_transmits [OF Cons.prems] by blast
  let ?s = "s\<lparr>io_log := io_log s @ l\<rparr>"
  obtain l' where "puts cs ?s = Inr (?s\<lparr>io_log := io_log ?s @ l'\<rparr>)" "transmits st out ok l' cs"
    using Cons.IH [of ?s] Cons.prems by auto
  then show ?case
    using l transmits_append [OF l(2), of l' cs] by (intro exI [of _ "l @ l'"]) (simp add: puts_Cons)
qed

end

interpretation mini_uart: serial_line "mini_uart_putc b" "mini_uart_puts b" "uart_reg b AUX_MU_LSR" "uart_reg b AUX_MU_IO" lsr_idle for b
proof unfold_locales
  show "\<exists>l. mini_uart_putc b c s = Inr (s\<lparr>io_log := io_log s @ l\<rparr>) \<and>
      transmits (uart_reg b AUX_MU_LSR) (uart_reg b AUX_MU_IO) lsr_idle l [c]"
    if "gets_ready (io_dev s) (uart_reg b AUX_MU_LSR) lsr_idle" for s c
    unfolding mini_uart_putc_def by (rule transmit_one [OF mini_uart_wait_step that]) blast
qed simp_all

interpretation pl011: serial_line "uart_putc b" "uart_puts b" "uart_reg b UART_FR" "uart_reg b UART_DR" fr_not_full for b
proof unfold_locales
  show "\<exists>l. uart_putc b c s = Inr (s\<lparr>io_log := io_log s @ l\<rparr>) \<and>
      transmits (uart_reg b UART_FR) (uart_reg b UART_DR) fr_not_full l [c]"
    if "gets_ready (io_dev s) (uart_reg b UART_FR) fr_not_full" for s c
    unfolding uart_putc_def by (rule transmit_one [OF uart_wait_step that]) blast
qed simp_all


section \<open>The pins of the mini UART\<close>

text \<open>The value that the last write has left in a register.\<close>

fun last_write :: "u64 \<Rightarrow> access list \<Rightarrow> u64 option" where
  "last_write a [] = None"
| "last_write a (Rd w b v # l) = last_write a l"
| "last_write a (Wr w b v # l) = (case last_write a l of Some u \<Rightarrow> Some u | None \<Rightarrow> if b = a then Some v else None)"

lemma last_write_append: "last_write a (l @ l') = (case last_write a l' of Some v \<Rightarrow> Some v | None \<Rightarrow> last_write a l)"
  by (induction l rule: last_write.induct) (auto split: option.splits)

lemma last_write_iowrite:
  "last_write a (io_log (iowrite8 b v s)) = (if b = a then Some (ucast (ucast v :: u8)) else last_write a (io_log s))"
  "last_write a (io_log (iowrite16 b v s)) = (if b = a then Some (ucast (ucast v :: u16)) else last_write a (io_log s))"
  "last_write a (io_log (iowrite32 b v s)) = (if b = a then Some (ucast v) else last_write a (io_log s))"
  by (simp_all add: iowrite8_def iowrite16_def iowrite32_def last_write_append)

lemma last_write_ioread:
  "last_write a (io_log (snd (ioread32 b s))) = last_write a (io_log s)"
  "last_write a (io_log (snd (ioread8 b s))) = last_write a (io_log s)"
  by (simp_all add: ioread8_def ioread32_def io_read_def Let_def last_write_append)

text \<open>
  mini_uart_init does not connect the transmitter: gpio_set_fn writes the whole function
  select register with the setting of one pin, so that after the settings of pins 14 and 15
  the field of pin 14 (bits 12 to 14) is 0, the code for an input.
\<close>

theorem mini_uart_init_disconnects_txd:
  assumes "gc_base ctrl = pa_to_va 0x3F200000" and "gc_generic ctrl" and "base = pa_to_va 0x3F215000"
  shows "\<exists>s'. mini_uart_init base ctrl s = Inr s' \<and>
    last_write (gpio_reg (gc_base ctrl) GPFSEL1) (io_log s') = Some (ucast (GPF_CFG 15 GPF_ALT0)) \<and>
    drop_bit 12 (GPF_CFG 15 GPF_ALT0) AND 7 = 0"
proof -
  show ?thesis
    using assms
    by (simp add: mini_uart_init_def Let_def case_prod_unfold gpio_set_fn_def generic_set_gpio_func_def last_write_iowrite
        last_write_ioread gpio_reg_def uart_reg_def pa_to_va_def GPFSEL_BANK_def GPF_CFG_def)
qed

definition quiet_io :: io where
  "quiet_io = \<lparr>io_dev = (\<lambda>_ _ _. 0x40), io_log = [], io_version = 3, io_mmio_base = 0x3F000000,
     io_pt = \<lparr>ps_mem = (\<lambda>_. 0), ps_desc = (\<lambda>_. zero_desc), ps_global = None, ps_ctr = 0, ps_heap = []\<rparr>\<rparr>"

theorem mini_uart_init_disconnects_txd_witness:
  "\<exists>s'. mini_uart_init (pa_to_va 0x3F215000) \<lparr>gc_base = pa_to_va 0x3F200000, gc_generic = True\<rparr> quiet_io = Inr s' \<and>
    last_write (pa_to_va 0x3F200000 + 4) (io_log s') = Some 0x20000"
  using mini_uart_init_disconnects_txd [of "\<lparr>gc_base = pa_to_va 0x3F200000, gc_generic = True\<rparr>" "pa_to_va 0x3F215000" quiet_io]
  by (auto simp: gpio_reg_def GPF_CFG_def)

end
