(* ===== verification/Printf_Props.thy ===== *)
theory Printf_Props
  imports Printf Uart_Props
begin

text \<open>
  Formatted output compared with a reference printer, down to the accesses to the registers
  of the serial line.
\<close>

section \<open>The reference\<close>

text \<open>The last \<open>k\<close> digits of a number, and the decimal digits of a number.\<close>

fun positional :: "(nat \<Rightarrow> u8) \<Rightarrow> nat \<Rightarrow> nat \<Rightarrow> nat \<Rightarrow> u8 list" where
  "positional digit b 0 n = []"
| "positional digit b (Suc k) n = positional digit b k (n div b) @ [digit (n mod b)]"

definition dec_sym :: "nat \<Rightarrow> u8" where "dec_sym x = word_of_nat (0x30 + x)"

definition hex_sym :: "nat \<Rightarrow> u8" where
  "hex_sym x = (if x < 10 then word_of_nat (0x30 + x) else word_of_nat (0x41 + (x - 10)))"

fun decimal :: "nat \<Rightarrow> u8 list" where
  "decimal n = (if n < 10 then [dec_sym n] else decimal (n div 10) @ [dec_sym (n mod 10)])"

declare decimal.simps [simp del]

datatype item = Lit u8 | Str "u8 list" | Chr u32 | Dec u32 | Hex u32 | Long u32

primrec item_format :: "item \<Rightarrow> u8 list" where
  "item_format (Lit c) = [c]"
| "item_format (Str cs) = chars ''%s''"
| "item_format (Chr i) = chars ''%c''"
| "item_format (Dec i) = chars ''%d''"
| "item_format (Hex i) = chars ''%x''"
| "item_format (Long i) = chars ''%l''"

primrec item_args :: "item \<Rightarrow> va_arg list" where
  "item_args (Lit c) = []"
| "item_args (Str cs) = [Arg_str cs]"
| "item_args (Chr i) = [Arg_int i]"
| "item_args (Dec i) = [Arg_int i]"
| "item_args (Hex i) = [Arg_int i]"
| "item_args (Long i) = [Arg_int i]"

primrec item_text :: "item \<Rightarrow> u8 list" where
  "item_text (Lit c) = [c]"
| "item_text (Str cs) = cs"
| "item_text (Chr i) = [ucast i]"
| "item_text (Dec i) = decimal (unat i)"
| "item_text (Hex i) = chars ''0x'' @ positional hex_sym 16 8 (unat i)"
| "item_text (Long i) = chars ''0x'' @ positional hex_sym 16 16 (unat (scast i :: u64))"

primrec item_ok :: "item \<Rightarrow> bool" where
  "item_ok (Lit c) \<longleftrightarrow> c \<noteq> of_char (CHR 0x25) \<and> c \<noteq> 0"
| "item_ok (Str cs) \<longleftrightarrow> 0 \<notin> set cs"
| "item_ok (Chr i) \<longleftrightarrow> True"
| "item_ok (Dec i) \<longleftrightarrow> 0 < unat i \<and> unat i \<le> 214748364"
| "item_ok (Hex i) \<longleftrightarrow> True"
| "item_ok (Long i) \<longleftrightarrow> True"

lemma lit_items [simp]:
  "concat (map item_format (map Lit cs)) = cs" "concat (map item_args (map Lit cs)) = []"
  "concat (map item_text (map Lit cs)) = cs"
  "concat (map (item_format \<circ> Lit) cs) = cs" "concat (map (item_args \<circ> Lit) cs) = []"
  "concat (map (item_text \<circ> Lit) cs) = cs"
  by (induction cs) auto

section \<open>Digits\<close>

lemma length_positional [simp]: "length (positional f b k n) = k"
  by (induction k arbitrary: n) auto

text \<open>The digits of a negative number come out negative; \<open>e\<close> is the sign.\<close>

lemma sdiv_sign:
  assumes "e = 1 \<or> e = - 1"
  shows "(e * int n) sdiv 10 = e * int (n div 10)" and "(e * int n) smod 10 = e * int (n mod 10)"
proof -
  have "\<bar>e * int n\<bar> = int n" "sgn (e * int n) = e \<or> n = 0" using assms by (auto simp: abs_mult sgn_mult)
  then show "(e * int n) sdiv 10 = e * int (n div 10)" "(e * int n) smod 10 = e * int (n mod 10)"
    using assms by (auto simp: signed_divide_int_def signed_modulo_int_def zdiv_int zmod_int)
qed

definition sign_sym :: "int \<Rightarrow> nat \<Rightarrow> u8" where
  "sign_sym e d = word_of_int (e * int d + 0x30)"

lemma sign_sym_1 [simp]: "sign_sym 1 = dec_sym"
  by (simp add: sign_sym_def dec_sym_def fun_eq_iff add.commute)

lemma store_char_nth: "i < length c \<Longrightarrow> store_char (int i) v c = Inr (c[i := word_of_int v])"
  by (simp add: store_char_def)

lemma d_to_s_loop_signed:
  assumes "e = 1 \<or> e = - 1"
  shows "k < length c \<Longrightarrow>
    d_to_s_loop k (e * int n) c = Inr (take 1 c @ positional (sign_sym e) 10 k n @ drop (Suc k) c)"
proof (induction k arbitrary: n c)
  case 0
  then show ?case by (cases c) auto
next
  case (Suc k)
  let ?v = "sign_sym e (n mod 10)"
  have "d_to_s_loop (Suc k) (e * int n) c = d_to_s_loop k (e * int (n div 10)) (c[Suc k := ?v])"
    unfolding d_to_s_loop.simps store_char_nth [OF Suc.prems] bindR.simps sdiv_sign [OF assms]
    by (simp add: sign_sym_def)
  also have "\<dots> = Inr (take 1 c @ positional (sign_sym e) 10 k (n div 10) @ ?v # drop (Suc (Suc k)) c)"
    using Suc.IH [of "c[Suc k := ?v]" "n div 10"] Suc.prems
    by (simp add: drop_update_swap Cons_nth_drop_Suc [symmetric])
  finally show ?case by simp
qed

lemma hex_digit: "word_of_int (if 0xF AND d < (0xA :: u64) then uint (0xF AND d) + 0x30 else uint ((0xF AND d) - 0xA) + 0x41) = hex_sym (unat d mod 16)"
proof -
  have "(0xF :: u64) = mask 4" by (simp add: mask_eq_exp_minus_1)
  then have r: "0xF AND d = take_bit 4 d" by (simp only: take_bit_eq_mask and.commute)
  have u: "unat (take_bit 4 d) = unat d mod 16" by (simp add: take_bit_eq_mod unat_mod)
  have "take_bit 4 d < 0xA \<longleftrightarrow> unat d mod 16 < 10" by (simp add: word_less_nat_alt u)
  moreover have "uint (take_bit 4 d - 0xA) = int (unat d mod 16 - 10)" if "\<not> take_bit 4 d < 0xA"
    using that by (simp add: uint_nat unat_sub not_less u)
  moreover have "uint (take_bit 4 d) = int (unat d mod 16)" by (simp add: uint_nat u)
  ultimately show ?thesis unfolding r by (auto simp: hex_sym_def add.commute)
qed

lemma x_to_s_loop_digits:
  "k + 2 \<le> length c \<Longrightarrow> x_to_s_loop (int k + 1) d c = Inr (1, take 2 c @ positional hex_sym 16 k (unat d) @ drop (k + 2) c)"
proof (induction k arbitrary: d c)
  case 0
  then show ?case by (simp add: x_to_s_loop.simps numeral_2_eq_2)
next
  case (Suc k)
  let ?v = "hex_sym (unat d mod 16)"
  have s: "store_char (int (k + 2)) v c = Inr (c[k + 2 := word_of_int v])" for v
    using Suc.prems by (intro store_char_nth) simp
  have i: "int (Suc k) + 1 = int (k + 2)" "int (k + 2) - 1 = int k + 1" by simp_all
  have "x_to_s_loop (int (k + 2)) d c =
    bindR (store_char (int (k + 2)) (if 0xF AND d < 0xA then uint (0xF AND d) + 0x30 else uint ((0xF AND d) - 0xA) + 0x41) c)
      (\<lambda>c. x_to_s_loop (int (k + 2) - 1) (drop_bit 4 d) c)"
    by (subst x_to_s_loop.simps) (simp add: Let_def)
  then have "x_to_s_loop (int (Suc k) + 1) d c = x_to_s_loop (int k + 1) (drop_bit 4 d) (c[k + 2 := ?v])"
    unfolding i s hex_digit bindR.simps .
  also have "\<dots> = Inr (1, take 2 c @ positional hex_sym 16 k (unat d div 16) @ ?v # drop (Suc (Suc (Suc k))) c)"
    using Suc.IH [of "c[k + 2 := ?v]" "drop_bit 4 d"] Suc.prems
    by (simp add: drop_update_swap Cons_nth_drop_Suc [symmetric] unsigned_drop_bit_eq drop_bit_eq_div numeral_3_eq_3 unat_div)
  finally show ?case by simp
qed


lemma count_chars_decimal:
  assumes "e = 1 \<or> e = - 1"
  shows "0 < n \<Longrightarrow> count_chars (e * int n) m = m + int (length (decimal n))"
proof (induction n arbitrary: m rule: decimal.induct)
  case (1 n)
  have e: "e * int n \<noteq> 0" using 1(2) assms by auto
  show ?case
  proof (cases "n < 10")
    case True
    then show ?thesis using e by (simp add: count_chars.simps sdiv_sign [OF assms] decimal.simps)
  next
    case False
    then have "0 < n div 10" by simp
    from 1(1) [OF False this] show ?thesis
      using e False by (subst count_chars.simps, subst decimal.simps) (simp add: sdiv_sign [OF assms])
  qed
qed

lemma length_decimal_10: "0 < n \<Longrightarrow> length (decimal (10 * n)) = Suc (length (decimal n))"
  by (subst decimal.simps) simp

lemma decimal_positional: "decimal n = positional dec_sym 10 (length (decimal n)) n"
proof (induction n rule: decimal.induct)
  case (1 n)
  show ?case
  proof (cases "n < 10")
    case True
    then show ?thesis by (simp add: decimal.simps)
  next
    case False
    then show ?thesis using 1 [OF False] by (subst (1 2) decimal.simps) simp
  qed
qed

lemma length_decimal: "0 < length (decimal n)" "n < 10 ^ k \<Longrightarrow> 0 < k \<Longrightarrow> length (decimal n) \<le> k"
proof -
  show "0 < length (decimal n)" by (subst decimal.simps) simp
  show "n < 10 ^ k \<Longrightarrow> 0 < k \<Longrightarrow> length (decimal n) \<le> k"
  proof (induction k arbitrary: n)
    case (Suc k)
    show ?case
    proof (cases "n < 10")
      case True
      then show ?thesis by (subst decimal.simps) simp
    next
      case False
      then have "k \<noteq> 0" using Suc.prems by (cases k) auto
      moreover have "n div 10 < 10 ^ k" using Suc.prems by (simp add: less_mult_imp_div_less)
      ultimately have "length (decimal (n div 10)) \<le> k" using Suc.IH by simp
      then show ?thesis using False by (subst decimal.simps) simp
    qed
  qed simp
qed

lemma sint_small: "unat (i :: u32) < 2 ^ 31 \<Longrightarrow> sint i = int (unat i)"
proof -
  assume "unat i < 2 ^ 31"
  then have "uint i < 2 ^ 31"
    using of_nat_less_iff [of "unat i" "2 ^ 31", where 'a = int] by (simp only: uint_nat of_nat_power of_nat_numeral)
  then have "signed_take_bit 31 (uint i) = uint i"
    by (intro signed_take_bit_int_eq_self order.trans [OF _ uint_ge_0]) simp_all
  then show ?thesis by (simp add: sint_uint)
qed

text \<open>
  The number of characters that d\_to\_s is asked to write: one less than the number has
  digits after the multiplication by 10, which wraps around at 32 bits.
\<close>

definition d_width :: "u32 \<Rightarrow> nat" where
  "d_width i = length (decimal (nat \<bar>sint (i * 10)\<bar>)) - 1"

lemma int_sign:
  fixes x :: int
  obtains e n where "e = 1 \<or> e = - 1" "x = e * int n" "n = nat \<bar>x\<bar>"
  by (cases "0 \<le> x") (force intro: that [of 1 "nat x"] that [of "- 1" "nat (- x)"])+

lemma int_chars_width:
  "int_chars i = (if sint (i * 10) = 0 then - 2 else int (d_width i) - 1)"
proof (cases "sint (i * 10) = 0")
  case True
  then show ?thesis by (simp add: int_chars_def count_chars.simps)
next
  case False
  obtain e n where e: "e = 1 \<or> e = - 1" "sint (i * 10) = e * int n" "n = nat \<bar>sint (i * 10)\<bar>"
    by (rule int_sign)
  have "0 < n" using False unfolding e(3) by simp
  then have "count_chars (sint (i * 10)) 0 = int (length (decimal n))"
    unfolding e(2) using count_chars_decimal [OF e(1), of n 0] by simp
  moreover have "0 < length (decimal n)" by (subst decimal.simps) simp
  ultimately show ?thesis using False by (simp add: int_chars_def d_width_def e(3) [symmetric] of_nat_diff Suc_le_eq)
qed

lemma sint_times_10: "\<bar>sint i\<bar> \<le> 214748364 \<Longrightarrow> sint (i * 10 :: u32) = 10 * sint i"
proof -
  assume i: "\<bar>sint i\<bar> \<le> 214748364"
  have "i * 10 = word_of_int (10 * sint i)" by (simp add: mult.commute)
  then have "sint (i * 10) = signed_take_bit 31 (10 * sint i)" by (simp only: signed_of_int) simp
  also have "\<dots> = 10 * sint i" using i by (intro signed_take_bit_int_eq_self) auto
  finally show ?thesis .
qed

lemma d_width_decimal:
  assumes "\<bar>sint i\<bar> \<le> 214748364" and "sint i \<noteq> 0"
  shows "d_width i = length (decimal (nat \<bar>sint i\<bar>))"
proof -
  have "nat \<bar>sint (i * 10)\<bar> = 10 * nat \<bar>sint i\<bar>" using sint_times_10 [OF assms(1)] by (simp add: abs_mult nat_mult_distrib)
  with assms(2) show ?thesis by (simp add: d_width_def length_decimal_10)
qed

lemma sint_bounds_u32: "- (2 ^ 31) \<le> sint (i :: u32)" "sint (i :: u32) < 2 ^ 31"
  using sint_greater_eq [of i] sint_less [of i] by simp_all

lemma d_width_le: "d_width i \<le> 9"
proof -
  have "nat \<bar>sint (i * 10)\<bar> < 10 ^ 10" using sint_bounds_u32 [of "i * 10"] by auto
  then show ?thesis using length_decimal(2) [of "nat \<bar>sint (i * 10)\<bar>" 10] by (simp add: d_width_def)
qed

lemma d_width_pos: "0 < d_width i \<longleftrightarrow> 10 \<le> \<bar>sint (i * 10)\<bar>"
proof (cases "nat \<bar>sint (i * 10)\<bar> < 10")
  case True
  then show ?thesis by (simp add: d_width_def decimal.simps [of "nat \<bar>sint (i * 10)\<bar>"])
next
  case False
  then show ?thesis using length_decimal(1) [of "nat \<bar>sint (i * 10)\<bar> div 10"]
    by (simp add: d_width_def decimal.simps [of "nat \<bar>sint (i * 10)\<bar>"])
qed

lemma zero_notin_signed:
  assumes "e = 1 \<or> e = - 1"
  shows "0 \<notin> set (positional (sign_sym e) 10 k n)"
proof -
  have "sign_sym e (n mod 10) \<noteq> 0" for n
  proof -
    have "n mod 10 < 10" by simp
    then have "uint (sign_sym e (n mod 10)) = e * int (n mod 10) + 0x30"
      unfolding sign_sym_def unsigned_of_int using assms by (auto simp: take_bit_int_eq_self)
    moreover have "e * int (n mod 10) + 0x30 \<noteq> 0" using \<open>n mod 10 < 10\<close> assms by auto
    ultimately show ?thesis by (metis unsigned_0)
  qed
  then show ?thesis by (induction k arbitrary: n) (auto simp: eq_commute [of 0])
qed

lemma zero_notin_hex: "0 \<notin> set (positional hex_sym 16 k n)"
proof -
  have "0 \<noteq> hex_sym (n mod 16)" for n
  proof -
    have "n mod 16 < 16" by simp
    then have "unat (hex_sym (n mod 16)) = (if n mod 16 < 10 then 0x30 + n mod 16 else 0x41 + (n mod 16 - 10))"
      by (simp only: hex_sym_def if_distrib [of unat] unat_of_nat) simp
    then have "0 < unat (hex_sym (n mod 16))" by simp
    then show ?thesis by (metis less_irrefl unat_0)
  qed
  then show "0 \<notin> set (positional hex_sym 16 k n)" by (induction k arbitrary: n) auto
qed

lemma buf_string_eq:
  assumes "c = take k c @ ds @ 0 # rest" and "length (take k c) = k" and "0 \<notin> set ds"
  shows "buf_string k c = Inr ds"
proof -
  have "drop k c = ds @ 0 # rest" using assms(1,2) by (metis append_eq_conv_conj)
  moreover have "takeWhile (\<lambda>x. x \<noteq> 0) (ds @ 0 # rest) = ds"
    using assms(3) by (subst takeWhile_append2) auto
  moreover have "length c = k + length ds + 1 + length rest" using assms(1,2) by (metis add.assoc length_Cons length_append plus_1_eq_Suc)
  ultimately show ?thesis by (simp add: buf_string_def)
qed

text \<open>The characters that come out, whatever the number.\<close>

definition d_chars :: "u32 \<Rightarrow> u8 list" where
  "d_chars i = positional (\<lambda>d. if 0 \<le> sint i then 0x30 + word_of_nat d else 0x30 - word_of_nat d) 10
     (d_width i) (nat \<bar>sint i\<bar>)"

lemma d_to_s_chars:
  assumes "0 < d_width i" and "length buf = D_BUF_SZ"
  obtains buf' where "d_to_s i buf (word_of_int (int_chars i)) = Inr (1, buf')" and "length buf' = D_BUF_SZ"
    and "buf_string 1 buf' = Inr (d_chars i)"
proof -
  define k where "k = d_width i"
  have k: "0 < k" "k \<le> 9" using assms(1) d_width_le by (simp_all add: k_def)
  obtain e n where e: "e = 1 \<or> e = - 1" "sint i = e * int n" "n = nat \<bar>sint i\<bar>" by (rule int_sign)
  have "sint (i * 10) \<noteq> 0" using assms(1) d_width_pos [of i] by auto
  then have "word_of_int (int_chars i) = (word_of_nat (k - 1) :: u8)"
    using k(1) by (simp add: int_chars_width k_def [symmetric] of_nat_diff)
  moreover have "unat (word_of_nat (k - 1) :: u8) = k - 1" using k by (simp only: unat_of_nat) simp
  ultimately have sz: "unat (word_of_int (int_chars i) :: u8) + 2 = Suc k" using k by simp
  let ?c = "buf[Suc k := 0]"
  let ?b = "take 1 ?c @ positional (sign_sym e) 10 k n @ drop (Suc k) ?c"
  have st: "store_char (int (Suc k)) 0 buf = Inr ?c" using store_char_nth [of "Suc k" buf 0] assms(2) k by simp
  have "d_to_s i buf (word_of_int (int_chars i)) = Inr (1, ?b)"
    unfolding d_to_s_def sz Let_def st bindR.simps e(2) using d_to_s_loop_signed [OF e(1), of k ?c n] assms(2) k by simp
  moreover have "length ?b = D_BUF_SZ" using assms(2) k by simp
  moreover have "drop (Suc k) ?c = 0 # drop (Suc (Suc k)) ?c" using assms(2) k by (simp add: Cons_nth_drop_Suc [symmetric])
  then have "buf_string 1 ?b = Inr (positional (sign_sym e) 10 k n)"
    using assms(2) k by (intro buf_string_eq [where rest = "drop (Suc (Suc k)) ?c"] zero_notin_signed [OF e(1)]) auto
  moreover have "sint i \<noteq> 0" using \<open>sint (i * 10) \<noteq> 0\<close> by (auto simp: signed_eq_0_iff)
  then have "sign_sym e = (\<lambda>d. if 0 \<le> sint i then 0x30 + word_of_nat d else 0x30 - word_of_nat d)"
    using e(1,2) by (auto simp: sign_sym_def fun_eq_iff zero_le_mult_iff add.commute)
  then have "positional (sign_sym e) 10 k n = d_chars i" by (simp add: d_chars_def k_def e(3))
  ultimately show thesis using that by simp
qed

lemma d_to_s_decimal:
  assumes "0 < unat i" and "unat i \<le> 214748364" and "length buf = D_BUF_SZ"
  obtains buf' where "d_to_s i buf (word_of_int (int_chars i)) = Inr (1, buf')" and "length buf' = D_BUF_SZ"
    and "buf_string 1 buf' = Inr (decimal (unat i))"
proof -
  have i: "sint i = int (unat i)" using assms(2) by (intro sint_small) simp
  then have a: "nat \<bar>sint i\<bar> = unat i" "\<bar>sint i\<bar> \<le> 214748364" "sint i \<noteq> 0" "0 \<le> sint i"
    unfolding i using assms(1,2) by (simp_all only: abs_of_nat nat_int of_nat_0_le_iff of_nat_eq_0_iff
      of_nat_le_numeral_iff neq0_conv)
  then have w: "d_width i = length (decimal (unat i))" using d_width_decimal [of i] by metis
  have "(\<lambda>d. 0x30 + word_of_nat d) = dec_sym" by (simp add: dec_sym_def fun_eq_iff)
  then have "d_chars i = decimal (unat i)"
    using decimal_positional [of "unat i"] a by (simp add: d_chars_def w)
  moreover have "0 < d_width i" using w length_decimal(1) by simp
  ultimately show thesis using d_to_s_chars [OF _ assms(3)] that by metis
qed

lemma x_to_s_hex:
  assumes "length buf = D_BUF_SZ" and "2 < unat sz" and "unat sz < 64"
  obtains buf' where "x_to_s i buf sz = Inr (0, buf')" and "length buf' = D_BUF_SZ"
    and "buf_string 0 buf' = Inr (chars ''0x'' @ positional hex_sym 16 (unat sz - 2) (unat (scast i :: u64)))"
proof -
  define k where "k = unat sz - 2"
  have "unat sz = k + 2" using assms(2) by (simp add: k_def)
  then have k: "uint sz = int (k + 2)" "k + 2 < 64" "0 < k" using assms(2,3) by (simp_all only: uint_nat)
  let ?n = "unat (scast i :: u64)" and ?c = "buf[k + 2 := 0]"
  let ?b = "0x30 # 0x78 # positional hex_sym 16 k ?n @ drop (k + 2) ?c"
  obtain x y where c: "take 2 ?c = [x, y]"
    using assms(1) by (simp add: numeral_2_eq_2 take_Suc_conv_app_nth)
  have st: "store_char (uint sz) 0 buf = Inr ?c" unfolding k(1) using store_char_nth [of "k + 2" buf 0] assms(1) k by simp
  have l: "x_to_s_loop (uint sz - 1) (scast i) ?c = Inr (1, x # y # positional hex_sym 16 k ?n @ drop (k + 2) ?c)"
    using x_to_s_loop_digits [of k ?c "scast i"] assms(1) k c by (simp add: algebra_simps)
  have "x_to_s i buf sz = Inr (0, ?b)"
    unfolding x_to_s_def Let_def st bindR.simps l by (simp add: store_char_def)
  moreover have "length ?b = D_BUF_SZ" using assms(1) k by simp
  moreover have "drop (k + 2) ?c = 0 # drop (k + 3) ?c"
    using assms(1) k by (simp add: Cons_nth_drop_Suc [symmetric] numeral_3_eq_3)
  then have "buf_string 0 ?b = Inr (0x30 # 0x78 # positional hex_sym 16 k ?n)"
    using zero_notin_hex [of k ?n] by (intro buf_string_eq [where rest = "drop (k + 3) ?c"]) auto
  moreover have "0x30 # 0x78 # ds = chars ''0x'' @ ds" for ds by (simp add: chars_def of_char_def)
  ultimately show thesis using that by (simp add: k_def)
qed


lemma positional_mod: "positional f b k (n mod b ^ k) = positional f b k n"
proof (induction k arbitrary: n)
  case (Suc k)
  have "n mod (b * b ^ k) div b = n div b mod b ^ k" by (cases "b = 0") (simp_all add: mod_mult2_eq)
  moreover have "n mod (b * b ^ k) mod b = n mod b" by (simp add: mod_mod_cancel)
  ultimately show ?case using Suc.IH [of "n div b"] by simp
qed simp

lemma positional_scast: "positional f 16 8 (unat (scast (i :: u32) :: u64)) = positional f 16 8 (unat i)"
proof -
  have m: "bit i n \<Longrightarrow> n < 32" "bit i n \<Longrightarrow> min 31 n = n" for n using bit_imp_le_length [of i n] by simp_all
  have "take_bit 32 (scast i :: u64) = ucast i" by (rule bit_word_eqI) (auto simp: bit_simps m)
  then have "unat (take_bit 32 (scast i :: u64)) = unat (ucast i :: u64)" by simp
  moreover have "unat i < 2 ^ 64" by (rule order.strict_trans [OF unsigned_less]) simp
  then have "unat (ucast i :: u64) = unat i" by (simp add: unsigned_ucast_eq take_bit_nat_eq_self)
  ultimately have "unat (scast i :: u64) mod 16 ^ 8 = unat i" by (simp add: unsigned_take_bit_eq take_bit_eq_mod unat_mod)
  then show ?thesis using positional_mod [of f 16 8 "unat (scast i :: u64)"] by simp
qed

section \<open>The printer\<close>

lemma vprintf_literal:
  "c \<noteq> of_char (CHR 0x25) \<Longrightarrow>
    vprintf_loop con (c # cs) args buf s = bindR (putc con c s) (vprintf_loop con cs args buf)"
proof (cases cs)
  case Nil
  have "bindR r Inr = r" for r :: "'x result" by (cases r) simp_all
  moreover assume "c \<noteq> of_char (CHR 0x25)"
  ultimately show ?thesis using Nil by (cases "putc con c s") simp_all
qed simp

lemma puts_number_eq:
  "r = Inr (k, buf') \<Longrightarrow> buf_string k buf' = Inr cs \<Longrightarrow>
    puts_number con r s = bindR (puts con cs s) (\<lambda>s. Inr (buf', s))"
  by (simp add: puts_number_def)

text \<open>One item other than a literal: what is printed and that the buffer keeps its length.\<close>

lemma vprintf_option_item:
  assumes "item_ok it" and "\<And>c. it \<noteq> Lit c" and "length buf = D_BUF_SZ" and "\<And>c. cd_puts d [c] = cd_putc d c"
  obtains opt buf' where "item_format it = [of_char (CHR 0x25), opt]" and "length buf' = D_BUF_SZ"
    and "vprintf_option (Some d) opt (item_args it @ args) buf s =
      bindR (cd_puts d (item_text it) s) (\<lambda>s. Inr (args, buf', s))"
proof (cases it)
  case (Dec i)
  obtain buf' where "d_to_s i buf (word_of_int (int_chars i)) = Inr (1, buf')" "length buf' = D_BUF_SZ"
    "buf_string 1 buf' = Inr (decimal (unat i))"
    using d_to_s_decimal [of i buf] assms(1,3) Dec by auto
  with puts_number_eq [OF this(1,3), of "Some d" s] Dec show thesis
    by (intro that [of "of_char (CHR ''d'')" buf']) (auto simp: chars_def vprintf_option_def puts_def bindR_assoc)
next
  case (Hex i)
  obtain buf' where b: "x_to_s i buf (8 + 2) = Inr (0, buf')" "length buf' = D_BUF_SZ"
    "buf_string 0 buf' = Inr (chars ''0x'' @ positional hex_sym 16 8 (unat i))"
    using x_to_s_hex [of buf "8 + 2" i] assms(3) by (auto simp: positional_scast)
  with puts_number_eq [OF b(1,3), of "Some d" s] Hex show thesis
    by (intro that [of "of_char (CHR ''x'')" buf']) (auto simp: chars_def vprintf_option_def puts_def bindR_assoc)
next
  case (Long i)
  obtain buf' where b: "x_to_s i buf (16 + 2) = Inr (0, buf')" "length buf' = D_BUF_SZ"
    "buf_string 0 buf' = Inr (chars ''0x'' @ positional hex_sym 16 16 (unat (scast i :: u64)))"
    using x_to_s_hex [of buf "16 + 2" i] assms(3) by auto
  with puts_number_eq [OF b(1,3), of "Some d" s] Long show thesis
    by (intro that [of "of_char (CHR ''l'')" buf']) (auto simp: chars_def vprintf_option_def puts_def bindR_assoc)
next
  case (Str cs)
  with assms(3) show thesis
    by (intro that [of "of_char (CHR ''s'')" buf]) (auto simp: chars_def vprintf_option_def puts_def)
next
  case (Chr i)
  with assms(3,4) show thesis
    by (intro that [of "of_char (CHR ''c'')" buf]) (auto simp: chars_def vprintf_option_def putc_def)
qed (use assms(2) in blast)


context serial_line
begin

lemma vprintf_items:
  assumes "cd_putc d = putc" and "cd_puts d = puts"
  shows "gets_ready (io_dev s) st ok \<Longrightarrow> list_all item_ok items \<Longrightarrow> length buf = D_BUF_SZ \<Longrightarrow>
    \<exists>l. vprintf_loop (Some d) (concat (map item_format items)) (concat (map item_args items)) buf s =
        Inr (s\<lparr>io_log := io_log s @ l\<rparr>) \<and> transmits st out ok l (concat (map item_text items))"
proof (induction items arbitrary: s buf)
  case Nil
  then show ?case by (intro exI [of _ "[]"]) (simp add: transmits_none)
next
  case (Cons it items)
  obtain l where l: "puts (item_text it) s = Inr (s\<lparr>io_log := io_log s @ l\<rparr>)" "transmits st out ok l (item_text it)"
    using puts_transmits [OF Cons.prems(1)] by blast
  let ?s = "s\<lparr>io_log := io_log s @ l\<rparr>"
  have one: "cd_puts d [c] = cd_putc d c" for c
  proof
    fix s
    show "cd_puts d [c] s = cd_putc d c s"
      by (cases "putc c s") (simp_all add: assms puts_Cons puts_Nil)
  qed
  obtain buf' where b: "length buf' = D_BUF_SZ"
    "vprintf_loop (Some d) (concat (map item_format (it # items))) (concat (map item_args (it # items))) buf s =
     vprintf_loop (Some d) (concat (map item_format items)) (concat (map item_args items)) buf' ?s"
  proof (cases "\<exists>c. it = Lit c")
    case True
    then show thesis
      using that Cons.prems(2,3) l(1) one assms
      by (auto simp: vprintf_literal Printf.putc_def)
  next
    case False
    obtain opt buf' where o: "item_format it = [of_char (CHR 0x25), opt]" "length buf' = D_BUF_SZ"
      "vprintf_option (Some d) opt (item_args it @ concat (map item_args items)) buf s =
        bindR (cd_puts d (item_text it) s) (\<lambda>s. Inr (concat (map item_args items), buf', s))"
      using vprintf_option_item [of it buf d "concat (map item_args items)" s] Cons.prems(2,3) False one by auto
    show thesis
      by (rule that [OF o(2)]) (simp add: o(1,3) assms l(1))
  qed
  obtain l' where l': "vprintf_loop (Some d) (concat (map item_format items)) (concat (map item_args items)) buf' ?s =
      Inr (?s\<lparr>io_log := io_log ?s @ l'\<rparr>)" "transmits st out ok l' (concat (map item_text items))"
    using Cons.IH [of ?s buf'] Cons.prems(1,2) b(1) by auto
  show ?case
    using b(2) l'(1) transmits_append [OF l(2) l'(2)] by (intro exI [of _ "l @ l'"]) simp
qed

lemma kprintf_items:
  assumes "cd_putc d = putc" and "cd_puts d = puts" and "gets_ready (io_dev (ks_dev s)) st ok" and "ks_lock s = 0"
    and "list_all item_ok items"
  shows "\<exists>l. kprintf (Some d) (concat (map item_format items)) (concat (map item_args items)) s =
      Inr (0, s\<lparr>ks_dev := ks_dev s\<lparr>io_log := io_log (ks_dev s) @ l\<rparr>\<rparr>) \<and>
    transmits st out ok l (concat (map item_text items))"
  using vprintf_items [OF assms(1-3,5), of "replicate D_BUF_SZ 0"]
  by (auto simp: kprintf_free [OF assms(4)] vprintf_def)

lemma kprintf_text:
  assumes "cd_putc d = putc" and "cd_puts d = puts" and "gets_ready (io_dev (ks_dev s)) st ok" and "ks_lock s = 0"
    and "0x25 \<notin> set msg" and "0 \<notin> set msg"
  shows "\<exists>l. kprintf (Some d) msg [] s = Inr (0, s\<lparr>ks_dev := ks_dev s\<lparr>io_log := io_log (ks_dev s) @ l\<rparr>\<rparr>) \<and>
    transmits st out ok l msg"
proof -
  have "list_all item_ok (map Lit msg)" using assms(5,6) by (auto simp: list_all_iff)
  then show ?thesis using kprintf_items [OF assms(1-4), of "map Lit msg"] by (simp only: lit_items)
qed

end

section \<open>Functions that print\<close>

text \<open>Nothing happens but that the text is transmitted.\<close>

definition prints :: "u64 \<Rightarrow> u64 \<Rightarrow> (u64 \<Rightarrow> bool) \<Rightarrow> (io kstdio \<Rightarrow> io kstdio result) \<Rightarrow> u8 list \<Rightarrow> bool" where
  "prints st out ok f txt \<longleftrightarrow> (\<forall>s. gets_ready (io_dev (ks_dev s)) st ok \<and> ks_lock s = 0 \<longrightarrow>
     (\<exists>l. f s = Inr (s\<lparr>ks_dev := ks_dev s\<lparr>io_log := io_log (ks_dev s) @ l\<rparr>\<rparr>) \<and> transmits st out ok l txt))"

lemma prints_none: "prints st out ok Inr []"
proof -
  have "s = s\<lparr>ks_dev := ks_dev s\<lparr>io_log := io_log (ks_dev s) @ []\<rparr>\<rparr>" for s :: "io kstdio" by simp
  then show ?thesis unfolding prints_def using transmits_none by metis
qed

lemma prints_bind:
  assumes "prints st out ok f t1" and "prints st out ok g t2"
  shows "prints st out ok (\<lambda>s. bindR (f s) g) (t1 @ t2)"
  unfolding prints_def
proof (intro allI impI)
  fix s :: "io kstdio" assume s: "gets_ready (io_dev (ks_dev s)) st ok \<and> ks_lock s = 0"
  then obtain l1 where l1: "f s = Inr (s\<lparr>ks_dev := ks_dev s\<lparr>io_log := io_log (ks_dev s) @ l1\<rparr>\<rparr>)" "transmits st out ok l1 t1"
    using assms(1) unfolding prints_def by blast
  let ?s = "s\<lparr>ks_dev := ks_dev s\<lparr>io_log := io_log (ks_dev s) @ l1\<rparr>\<rparr>"
  have "gets_ready (io_dev (ks_dev ?s)) st ok \<and> ks_lock ?s = 0" using s by simp
  then obtain l2 where l2: "g ?s = Inr (?s\<lparr>ks_dev := ks_dev ?s\<lparr>io_log := io_log (ks_dev ?s) @ l2\<rparr>\<rparr>)" "transmits st out ok l2 t2"
    using assms(2) unfolding prints_def by blast
  show "\<exists>l. bindR (f s) g = Inr (s\<lparr>ks_dev := ks_dev s\<lparr>io_log := io_log (ks_dev s) @ l\<rparr>\<rparr>) \<and> transmits st out ok l (t1 @ t2)"
    using l1 l2 transmits_append [OF l1(2) l2(2)] by (intro exI [of _ "l1 @ l2"]) simp
qed

text \<open>A message with parameters; its format and arguments are those of the items.\<close>

lemma kmsg_prints:
  assumes "cd_putc d = mini_uart_putc b" and "cd_puts d = mini_uart_puts b" and "list_all item_ok items"
    and "format = concat (map item_format items)" and "args = concat (map item_args items)"
  shows "prints (uart_reg b AUX_MU_LSR) (uart_reg b AUX_MU_IO) lsr_idle (kmsg (Some d) format args) (concat (map item_text items))"
  using mini_uart.kprintf_items [OF assms(1,2) _ _ assms(3)] assms(4,5) by (fastforce simp: prints_def kmsg_def)

text \<open>Without a console nothing is put on the bus, but the numbers are formatted all the same.\<close>

definition mute :: "'s char_device" where
  "mute = undefined\<lparr>cd_putc := (\<lambda>_. Inr), cd_puts := (\<lambda>_. Inr)\<rparr>"

lemma mute_option: "vprintf_option None opt args buf s = vprintf_option (Some mute) opt args buf s"
  by (simp add: vprintf_option_def puts_number_def puts_def putc_def mute_def)

lemma mute_items:
  "list_all item_ok items \<Longrightarrow> length buf = D_BUF_SZ \<Longrightarrow>
    vprintf_loop None (concat (map item_format items)) (concat (map item_args items)) buf s = Inr s"
proof (induction items arbitrary: buf)
  case (Cons it items)
  show ?case
  proof (cases "\<exists>c. it = Lit c")
    case True
    then show ?thesis using Cons by (auto simp: vprintf_literal putc_def)
  next
    case False
    have one: "cd_puts mute [c] = cd_putc mute c" for c by (simp add: mute_def)
    from vprintf_option_item [of it buf mute "concat (map item_args items)" s] Cons.prems False one
    obtain opt buf' where o: "item_format it = [of_char (CHR 0x25), opt]" "length buf' = D_BUF_SZ"
      "vprintf_option (Some mute) opt (item_args it @ concat (map item_args items)) buf s =
        bindR (cd_puts mute (item_text it) s) (\<lambda>s. Inr (concat (map item_args items), buf', s))"
      by auto
    then show ?thesis using Cons.IH [of buf'] Cons.prems by (simp add: mute_option) (simp add: mute_def)
  qed
qed simp

lemma kmsg_silent:
  assumes "list_all item_ok items" and "ks_lock s = 0"
  shows "kmsg None (concat (map item_format items)) (concat (map item_args items)) s = Inr s"
  using mute_items [OF assms(1), of "replicate D_BUF_SZ 0" "ks_dev s"] by (simp add: kmsg_def kprintf_free [OF assms(2)] vprintf_def)

lemma uart_init_mini:
  assumes "uart_init priv s0 = Inr (d, s1)" and "io_version s0 \<noteq> 5"
  shows "cd_putc d = mini_uart_putc (cd_base d)" and "cd_puts d = mini_uart_puts (cd_base d)"
  using assms by (auto simp: uart_init_def result_simps Let_def)

text \<open>
  C17. On the serial line that uart_init sets up (on every board that get_rpi_version knows),
  kprintf puts on the bus exactly the text that the format asks for, each byte once the
  transmitter is idle, and no other access; the interrupt mask and the lock are afterwards
  as before. The text is that of a reference printer: decimal digits without leading zeros
  for numbers from 1 to 214748364, eight or sixteen hexadecimal digits, characters and
  strings as they are. When the lock is held and nobody gives it up, kprintf never returns.
\<close>

theorem kprintf_transmits_text:
  assumes "uart_init priv s0 = Inr (d, s1)" and "io_version s0 \<noteq> 5"
    and "gets_ready (io_dev (ks_dev s)) (uart_reg (cd_base d) AUX_MU_LSR) lsr_idle" and "ks_lock s = 0"
    and "list_all item_ok items" and "held \<noteq> 0"
  shows "(\<exists>l. kprintf (Some d) (concat (map item_format items)) (concat (map item_args items)) s =
      Inr (0, s\<lparr>ks_dev := ks_dev s\<lparr>io_log := io_log (ks_dev s) @ l\<rparr>\<rparr>) \<and>
    transmits (uart_reg (cd_base d) AUX_MU_LSR) (uart_reg (cd_base d) AUX_MU_IO) lsr_idle l (concat (map item_text items))) \<and>
    kprintf (Some d) (concat (map item_format items)) (concat (map item_args items)) (s\<lparr>ks_lock := held\<rparr>) = Inl Diverges"
  using mini_uart.kprintf_items [OF uart_init_mini [OF assms(1,2)] assms(3-5)] assms(6) by (simp add: kprintf_held)

text \<open>vprintf on its own, as system calls and kprintf use it.\<close>

theorem vprintf_transmits_text:
  assumes "uart_init priv s0 = Inr (d, s1)" and "io_version s0 \<noteq> 5"
    and "gets_ready (io_dev s) (uart_reg (cd_base d) AUX_MU_LSR) lsr_idle" and "list_all item_ok items"
  shows "\<exists>l. vprintf (Some d) (concat (map item_format items)) (concat (map item_args items)) s =
      Inr (0, s\<lparr>io_log := io_log s @ l\<rparr>) \<and>
    transmits (uart_reg (cd_base d) AUX_MU_LSR) (uart_reg (cd_base d) AUX_MU_IO) lsr_idle l (concat (map item_text items))"
  using mini_uart.vprintf_items [OF uart_init_mini [OF assms(1,2)] assms(3,4), of "replicate D_BUF_SZ 0"]
  by (auto simp: vprintf_def)

definition ready_io :: io where
  "ready_io = quiet_io\<lparr>io_pt := \<lparr>ps_mem = (\<lambda>_. 0), ps_desc = (\<lambda>_. zero_desc\<lparr>pd_level := 1, pd_pt := 0x100000\<rparr>),
     ps_global = Some 0x200000, ps_ctr = 1, ps_heap = [0x101000, 0x102000]\<rparr>\<rparr>"

lemma quiet_io_ready: "gets_ready (io_dev quiet_io) a lsr_idle"
  by (simp add: gets_ready_def quiet_io_def lsr_idle_def bit_iff_odd take_bit_eq_mod)

lemma ready_io_init: "map_option (cd_base \<circ> fst) (case uart_init \<lparr>gc_base = 0, gc_generic = True\<rparr> ready_io of Inl _ \<Rightarrow> None | Inr r \<Rightarrow> Some r) =
    Some 0xFFFFFF803F215000"
  by code_simp

theorem kprintf_transmits_text_witness:
  "\<exists>d s1 l. uart_init \<lparr>gc_base = 0, gc_generic = True\<rparr> ready_io = Inr (d, s1) \<and>
    kprintf (Some d) (chars ''%d%x'') [Arg_int 42, Arg_int 0xAB] \<lparr>ks_daif = 0x40, ks_lock = 0, ks_dev = quiet_io\<rparr> =
      Inr (0, \<lparr>ks_daif = 0x40, ks_lock = 0, ks_dev = quiet_io\<lparr>io_log := l\<rparr>\<rparr>) \<and>
    transmits 0xFFFFFF803F215054 0xFFFFFF803F215040 lsr_idle l (chars ''420x000000AB'')"
proof -
  obtain d s1 where u: "uart_init \<lparr>gc_base = 0, gc_generic = True\<rparr> ready_io = Inr (d, s1)" "cd_base d = 0xFFFFFF803F215000"
    using ready_io_init by (auto split: sum.splits)
  have t: "concat (map item_text [Dec 42, Hex 0xAB]) = chars ''420x000000AB''" by code_simp
  let ?s = "\<lparr>ks_daif = 0x40, ks_lock = 0, ks_dev = quiet_io\<rparr>"
  have "io_version ready_io \<noteq> 5" by (simp add: ready_io_def quiet_io_def)
  from kprintf_transmits_text [OF u(1) this, of ?s "[Dec 42, Hex 0xAB]" 1, unfolded t] quiet_io_ready
  obtain l where "kprintf (Some d) (chars ''%d%x'') [Arg_int 42, Arg_int 0xAB] ?s =
      Inr (0, ?s\<lparr>ks_dev := ks_dev ?s\<lparr>io_log := io_log (ks_dev ?s) @ l\<rparr>\<rparr>)"
    "transmits (uart_reg (cd_base d) AUX_MU_LSR) (uart_reg (cd_base d) AUX_MU_IO) lsr_idle l (chars ''420x000000AB'')"
    by (auto simp: chars_def)
  then show ?thesis using u by (auto simp: uart_reg_def quiet_io_def)
qed

theorem vprintf_transmits_text_witness:
  "\<exists>d s1 l. uart_init \<lparr>gc_base = 0, gc_generic = True\<rparr> ready_io = Inr (d, s1) \<and>
    vprintf (Some d) (chars ''%d%x'') [Arg_int 42, Arg_int 0xAB] quiet_io = Inr (0, quiet_io\<lparr>io_log := l\<rparr>) \<and>
    transmits 0xFFFFFF803F215054 0xFFFFFF803F215040 lsr_idle l (chars ''420x000000AB'')"
proof -
  obtain d s1 where u: "uart_init \<lparr>gc_base = 0, gc_generic = True\<rparr> ready_io = Inr (d, s1)" "cd_base d = 0xFFFFFF803F215000"
    using ready_io_init by (auto split: sum.splits)
  have t: "concat (map item_text [Dec 42, Hex 0xAB]) = chars ''420x000000AB''" by code_simp
  have "\<exists>l. vprintf (Some d) (concat (map item_format [Dec 42, Hex 0xAB])) (concat (map item_args [Dec 42, Hex 0xAB])) quiet_io =
      Inr (0, quiet_io\<lparr>io_log := io_log quiet_io @ l\<rparr>) \<and>
    transmits (uart_reg (cd_base d) AUX_MU_LSR) (uart_reg (cd_base d) AUX_MU_IO) lsr_idle l (concat (map item_text [Dec 42, Hex 0xAB]))"
    by (rule vprintf_transmits_text [OF u(1) _ quiet_io_ready]) (simp_all add: ready_io_def quiet_io_def)
  then show ?thesis
    unfolding t using u by (auto simp: chars_def uart_reg_def quiet_io_def)
qed

section \<open>Any number\<close>

lemma vprintf_number:
  assumes "0 < d_width i"
  shows "vprintf con (chars ''%d'') [Arg_int i] s = bindR (puts con (d_chars i) s) (\<lambda>s. Inr (0, s))"
proof -
  obtain buf' where b: "d_to_s i (replicate D_BUF_SZ 0) (word_of_int (int_chars i)) = Inr (1, buf')"
    "buf_string 1 buf' = Inr (d_chars i)"
    using d_to_s_chars [OF assms, of "replicate D_BUF_SZ 0"] by (metis length_replicate)
  from puts_number_eq [OF b, of con s] show ?thesis
    by (cases "puts con (d_chars i) s") (simp_all add: vprintf_def chars_def vprintf_option_def)
qed

lemma vprintf_number_beyond:
  assumes "d_width i = 0"
  shows "vprintf con (chars ''%d'') [Arg_int i] s = Inl OutOfBounds"
proof -
  have "unat (- 1 :: u8) = 255" "unat (- 2 :: u8) = 254" by code_simp+
  then have "d_to_s i (replicate D_BUF_SZ 0) (word_of_int (int_chars i)) = Inl OutOfBounds"
    using assms by (simp add: d_to_s_def store_char_def int_chars_width)
  then show ?thesis by (simp add: vprintf_def chars_def vprintf_option_def puts_number_def)
qed

text \<open>
  C37. What vprintf makes of \<^verbatim>\<open>%d\<close>, for every int and on any console. With \<open>w\<close> the
  number times 10 (int arithmetic that wraps around where it overflows): if \<open>w\<close> has one
  digit, as for 0, the zero byte is written beyond the buffer. Otherwise one character is
  printed for each digit of \<open>w\<close> but one, namely the last digits of the number: digit
  characters if it is positive, but for a negative number no sign and for each digit
  \<open>d\<close> the character whose code is \<open>d\<close> below that of 0. If the number times 10 fits in
  an int, one character is printed for each of its digits.
\<close>

theorem vprintf_any_number:
  "vprintf con (chars ''%d'') [Arg_int i] s =
     (if \<bar>sint (i * 10)\<bar> < 10 then Inl OutOfBounds
      else bindR (puts con (positional
          (\<lambda>d. if 0 \<le> sint i then 0x30 + word_of_nat d else 0x30 - word_of_nat d) 10
          (length (decimal (nat \<bar>sint (i * 10)\<bar>)) - 1) (nat \<bar>sint i\<bar>)) s) (\<lambda>s. Inr (0, s))) \<and>
   (\<bar>sint i\<bar> \<le> 214748364 \<and> i \<noteq> 0 \<longrightarrow>
     length (decimal (nat \<bar>sint (i * 10)\<bar>)) - 1 = length (decimal (nat \<bar>sint i\<bar>)))"
proof (intro conjI impI)
  show "vprintf con (chars ''%d'') [Arg_int i] s =
     (if \<bar>sint (i * 10)\<bar> < 10 then Inl OutOfBounds
      else bindR (puts con (positional
          (\<lambda>d. if 0 \<le> sint i then 0x30 + word_of_nat d else 0x30 - word_of_nat d) 10
          (length (decimal (nat \<bar>sint (i * 10)\<bar>)) - 1) (nat \<bar>sint i\<bar>)) s) (\<lambda>s. Inr (0, s)))"
    using vprintf_number [of i con s] vprintf_number_beyond [of i con s] d_width_pos [of i]
    unfolding d_chars_def d_width_def [of i] by (cases "10 \<le> \<bar>sint (i * 10)\<bar>") auto
next
  assume "\<bar>sint i\<bar> \<le> 214748364 \<and> i \<noteq> 0"
  then show "length (decimal (nat \<bar>sint (i * 10)\<bar>)) - 1 = length (decimal (nat \<bar>sint i\<bar>))"
    using d_width_decimal [of i] by (simp add: d_width_def signed_eq_0_iff)
qed

theorem vprintf_any_number_witness:
  "\<forall>con s. vprintf con (chars ''%d'') [Arg_int 0] s = Inl OutOfBounds \<and>
   vprintf con (chars ''%d'') [Arg_int (- 42)] s = bindR (puts con (chars '',.'') s) (\<lambda>s. Inr (0, s)) \<and>
   length (decimal (nat \<bar>sint (- 42 * 10 :: u32)\<bar>)) - 1 = 2 \<and>
   vprintf con (chars ''%d'') [Arg_int 1000000000] s = bindR (puts con (chars ''000000000'') s) (\<lambda>s. Inr (0, s))"
proof -
  have sg: "\<not> 0 \<le> sint (- 42 :: u32)" "0 \<le> sint (1000000000 :: u32)" by code_simp+
  have f: "(\<lambda>d. 0x30 - word_of_nat d) = sign_sym (- 1)" "(\<lambda>d. 0x30 + word_of_nat d) = sign_sym 1"
    by (simp_all add: sign_sym_def dec_sym_def fun_eq_iff)
  have p: "positional (sign_sym (- 1)) 10
      (length (decimal (nat \<bar>sint (- 42 * 10 :: u32)\<bar>)) - 1) (nat \<bar>sint (- 42 :: u32)\<bar>) = chars '',.''"
    by code_simp
  have q: "positional (sign_sym 1) 10
      (length (decimal (nat \<bar>sint (1000000000 * 10 :: u32)\<bar>)) - 1) (nat \<bar>sint (1000000000 :: u32)\<bar>) = chars ''000000000''"
  proof -
    have "\<bar>sint (1000000000 * 10 :: u32)\<bar> = 1410065408" "\<bar>sint (1000000000 :: u32)\<bar> = 1000000000" by code_simp+
    moreover have "length (decimal 1410065408) = 10" by (simp add: decimal.simps)
    moreover have "positional f b k n = positional f b (k - 1) (n div b) @ [f (n mod b)]" if "0 < k" for f b k n
      using that by (cases k) simp_all
    ultimately show ?thesis by (simp add: dec_sym_def chars_def of_char_def)
  qed
  have c: "\<not> \<bar>sint (- 42 * 10 :: u32)\<bar> < 10" "\<not> \<bar>sint (1000000000 * 10 :: u32)\<bar> < 10" "\<bar>sint (0 * 10 :: u32)\<bar> < 10"
    by code_simp+
  have m: "\<bar>sint (- 42 :: u32)\<bar> \<le> 214748364 \<and> (- 42 :: u32) \<noteq> 0" "length (decimal (nat \<bar>sint (- 42 :: u32)\<bar>)) = 2"
    by code_simp+
  show ?thesis
  proof (intro allI conjI)
    fix con :: "'s char_device option" and s :: 's
    show "vprintf con (chars ''%d'') [Arg_int 0] s = Inl OutOfBounds"
      using vprintf_any_number [of con 0 s, THEN conjunct1] unfolding if_P [OF c(3)] .
    show "vprintf con (chars ''%d'') [Arg_int (- 42)] s = bindR (puts con (chars '',.'') s) (\<lambda>s. Inr (0, s))"
      using vprintf_any_number [of con "- 42" s, THEN conjunct1] unfolding if_not_P [OF c(1)] if_not_P [OF sg(1)] f p .
    show "length (decimal (nat \<bar>sint (- 42 * 10 :: u32)\<bar>)) - 1 = 2"
      using vprintf_any_number [of con "- 42" s, THEN conjunct2, THEN mp, OF m(1)] unfolding m(2) .
    show "vprintf con (chars ''%d'') [Arg_int 1000000000] s = bindR (puts con (chars ''000000000'') s) (\<lambda>s. Inr (0, s))"
      using vprintf_any_number [of con 1000000000 s, THEN conjunct1] unfolding if_not_P [OF c(2)] if_P [OF sg(2)] f q .
  qed
qed

end
