(* ===== verification/Page_Table_Tree.thy ===== *)
theory Page_Table_Tree
  imports Page_Table
begin

text \<open>
  The tree of translation tables: addresses as page and offset, the invariant of well
  formed tables, the walk of the hardware, and the loop of map\_pa\_to\_va\_pg on them. The
  tables that the loop adds are empty, so they change no translation.
\<close>

section \<open>Addresses as page and offset\<close>

definition page_addr :: "u64 \<Rightarrow> bool" where
  "page_addr q \<longleftrightarrow> q AND 0xFFFFF000 = q"

lemma low_mask: "y < 4096 \<Longrightarrow> y AND 0xFFF = (y :: u64)"
proof -
  assume "y < 4096"
  then have "unat y < 2 ^ 12" by (simp add: word_less_nat_alt)
  then have "unat (take_bit 12 y) = unat y" by (simp add: unsigned_take_bit_eq take_bit_nat_eq_self)
  then have "take_bit 12 y = y" by (simp add: word_unat_eq_iff)
  then show ?thesis by (simp add: take_bit_eq_mask mask_numeral)
qed

lemma and_mask_via: "x AND m = x \<Longrightarrow> x AND k = x AND (m AND k)" for x :: "'a :: len word"
  by (metis and.assoc)

lemma page_and: "page_addr q \<Longrightarrow> y < 4096 \<Longrightarrow> q AND y = 0"
proof -
  assume "page_addr q" "y < 4096"
  then have "q AND y = (q AND 0xFFFFF000) AND (y AND 0xFFF)" by (simp add: page_addr_def low_mask)
  also have "\<dots> = q AND y AND (0xFFFFF000 AND 0xFFF)" by (simp only: ac_simps)
  finally show ?thesis by simp
qed

lemma page_or: "page_addr q \<Longrightarrow> y < 4096 \<Longrightarrow> q + y = q OR y"
  by (simp add: page_and disjunctive_add_eq_or)

lemma page_part: "page_addr q \<Longrightarrow> y < 4096 \<Longrightarrow> (q + y) AND 0xFFFFF000 = q"
  using low_mask [of y] and_mask_via [of y "0xFFF" "0xFFFFF000"] by (simp add: page_or bit.conj_disj_distrib2 page_addr_def)

lemma offset_part: "page_addr q \<Longrightarrow> y < 4096 \<Longrightarrow> (q + y) AND 0xFFF = y"
  using low_mask [of y] and_mask_via [of q "0xFFFFF000" "0xFFF"] by (simp add: page_or bit.conj_disj_distrib2 page_addr_def)

lemma page_offset_eq:
  "page_addr q \<Longrightarrow> page_addr q' \<Longrightarrow> y < 4096 \<Longrightarrow> y' < 4096 \<Longrightarrow> q + y = q' + y' \<longleftrightarrow> q = q' \<and> y = y'"
  using page_part offset_part by metis

definition page_ok :: "u64 \<Rightarrow> bool" where
  "page_ok p \<longleftrightarrow> page_addr (va_to_pa p) \<and> va_to_pa p \<noteq> 0 \<and> (p = va_to_pa p \<or> p = KERNEL_START OR va_to_pa p)"

lemma page_ok_page: "page_ok p \<Longrightarrow> page_addr (va_to_pa p)"
  by (simp add: page_ok_def)

lemma page_low: "page_addr q \<Longrightarrow> va_to_pa q = q"
  using and_mask_via [of q "0xFFFFF000" "NOT KERNEL_START"] by (simp add: page_addr_def va_to_pa_def)

lemma kernel_plus: "page_addr q \<Longrightarrow> KERNEL_START OR q = KERNEL_START + q"
proof -
  assume "page_addr q"
  then have "KERNEL_START AND q = 0"
    using and_mask_via [of q "0xFFFFF000" KERNEL_START] by (simp add: page_addr_def and.commute)
  then show ?thesis by (simp add: disjunctive_add_eq_or)
qed

lemma low_offset: "y < 4096 \<Longrightarrow> va_to_pa y = y"
  using low_mask [of y] and_mask_via [of y "0xFFF" "NOT KERNEL_START"] by (simp add: va_to_pa_def)

lemma va_to_pa_or: "va_to_pa (a OR b) = va_to_pa a OR va_to_pa b"
  by (simp add: va_to_pa_def bit.conj_disj_distrib2)

lemma page_ok_offset:
  assumes "page_ok p" and "y < 4096"
  shows "va_to_pa (p + y) = va_to_pa p + y"
proof -
  let ?q = "va_to_pa p"
  have q: "page_addr ?q" using assms(1) by (rule page_ok_page)
  consider "p = ?q" | "p = KERNEL_START OR ?q" using assms(1) by (auto simp: page_ok_def)
  then show ?thesis
  proof cases
    case 1
    have "va_to_pa (?q + y) = ?q + y"
      using q assms(2) by (simp add: page_or va_to_pa_or low_offset page_low)
    with 1 show ?thesis by metis
  next
    case 2
    have "p AND y = 0"
    proof -
      have "?q AND y = 0" using q assms(2) by (rule page_and)
      moreover have "KERNEL_START AND y = 0"
        using low_mask [OF assms(2)] and_mask_via [of y "0xFFF" KERNEL_START] by (simp add: and.commute)
      ultimately show ?thesis by (subst 2) (simp only: bit.conj_disj_distrib2 or.right_neutral)
    qed
    then have "va_to_pa (p + y) = va_to_pa p OR y"
      using assms(2) by (simp add: disjunctive_add_eq_or va_to_pa_or low_offset)
    then show ?thesis using q assms(2) by (simp add: page_or)
  qed
qed

lemma index_slot: "i < 512 \<Longrightarrow> 8 * i < (4096 :: u64)"
proof -
  assume "i < 512"
  then have "unat i < 512" by (simp add: word_less_nat_alt)
  then have "unat (8 * i) = 8 * unat i" by (subst unat_mult_lem [THEN iffD1]) auto
  with \<open>unat i < 512\<close> show ?thesis by (simp add: word_less_nat_alt)
qed

lemma index_slot_eq: "i < 512 \<Longrightarrow> j < 512 \<Longrightarrow> 8 * i = 8 * j \<longleftrightarrow> i = (j :: u64)"
proof
  assume ij: "i < 512" "j < 512" and e: "8 * i = 8 * j"
  have "unat (8 * k) = 8 * unat k" if "k < 512" for k :: u64
    using that by (subst unat_mult_lem [THEN iffD1]) (auto simp: word_less_nat_alt)
  with ij e have "8 * unat i = 8 * unat j" by metis
  then show "i = j" by (simp add: word_unat_eq_iff)
qed simp

lemma index_bound: "x AND 0x1FF < (512 :: u64)"
proof -
  have "x AND 0x1FF \<le> 0x1FF" by (rule word_and_le1)
  then show ?thesis by (rule order.strict_trans1) simp
qed

section \<open>Entries of tables\<close>

abbreviation TABLE_MASK :: u64 where "TABLE_MASK \<equiv> 0xFFFFFFFFF000"

definition flags_ok :: "u64 \<Rightarrow> bool" where
  "flags_ok f \<longleftrightarrow> f AND 3 = 3 \<and> f AND NOT 0xF0000000000FFF = 0"

lemma flags_ok_code [simp]:
  "flags_ok PTE_FLAGS_KERNEL_GENERIC" "flags_ok PTE_FLAGS_USER_GENERIC" "flags_ok PTE_FLAGS_NC"
  by (simp_all add: flags_ok_def)

lemma flags_table_mask: "flags_ok f \<Longrightarrow> f AND TABLE_MASK = 0"
proof -
  assume "flags_ok f"
  then have "f AND NOT 0xF0000000000FFF = 0" by (simp add: flags_ok_def)
  then have "(f AND NOT 0xF0000000000FFF) AND TABLE_MASK = 0" by (simp only: and_zero_eq zero_and_eq)
  then have "f AND (NOT 0xF0000000000FFF AND TABLE_MASK) = 0" by (simp only: and.assoc)
  then show ?thesis by simp
qed

lemma page_below_kernel: "page_addr q \<Longrightarrow> \<not> KERNEL_START < q"
proof -
  assume "page_addr q"
  then have "q \<le> 0xFFFFF000" using word_and_le1 [of q "0xFFFFF000"] by (simp add: page_addr_def)
  then show ?thesis by (simp add: not_less) (erule order.trans, simp)
qed

lemma pt_entry_page:
  assumes "page_ok p"
  shows "pt_entry p f = va_to_pa p OR f"
proof -
  let ?q = "va_to_pa p"
  have q: "page_addr ?q" "?q \<noteq> 0" using assms by (auto simp: page_ok_def)
  consider "p = ?q" | "p = KERNEL_START + ?q" using assms kernel_plus [OF q(1)] by (auto simp: page_ok_def)
  then show ?thesis
  proof cases
    case 1
    then have "\<not> KERNEL_START < p" using page_below_kernel [OF q(1)] by simp
    with 1 show ?thesis by (simp add: pt_entry_def)
  next
    case 2
    have "?q \<le> 0xFFFFF000" using word_and_le1 [of ?q "0xFFFFF000"] q(1) by (simp add: page_addr_def)
    then have "unat ?q \<le> 0xFFFFF000" by (simp add: word_le_nat_alt)
    then have "unat (KERNEL_START + ?q) = unat KERNEL_START + unat ?q"
      by (subst unat_plus_simple [THEN iffD1]) (auto simp: no_olen_add_nat)
    moreover have "0 < unat ?q" using q(2) by (simp add: unat_gt_0)
    ultimately have "KERNEL_START < p" using 2 by (simp add: word_less_nat_alt)
    moreover have "p - KERNEL_START = ?q" by (subst 2) simp
    ultimately show ?thesis by (simp add: pt_entry_def)
  qed
qed

lemma page_masks: "page_addr q \<Longrightarrow> q AND 3 = 0" "page_addr q \<Longrightarrow> q AND TABLE_MASK = q"
  "page_addr q \<Longrightarrow> q AND NOT 0xF0000000000FFF = q" "page_addr q \<Longrightarrow> q < 0xFFFFFFFF"
  using and_mask_via [of q "0xFFFFF000" 3] and_mask_via [of q "0xFFFFF000" TABLE_MASK]
    and_mask_via [of q "0xFFFFF000" "NOT 0xF0000000000FFF"] word_and_le1 [of q "0xFFFFF000"]
  by (auto simp: page_addr_def intro: order.strict_trans1)

lemma table_entry:
  assumes "page_addr q" and "flags_ok f"
  shows "(q OR f) AND 3 = 3" "extract_addr_from_pte (q OR f) = q" "(q OR f) AND TABLE_MASK = q"
  using assms flags_table_mask [OF assms(2)] page_masks [OF assms(1)]
  by (simp_all add: bit.conj_disj_distrib2 flags_ok_def extract_addr_from_pte_def Let_def)

section \<open>The tree of tables\<close>

definition tbl :: "pt_state \<Rightarrow> u64 \<Rightarrow> u64" where
  "tbl s d = va_to_pa (pd_pt (ps_desc s d))"

definition ent :: "pt_state \<Rightarrow> u64 \<Rightarrow> u64 \<Rightarrow> u64" where
  "ent s d i = ps_mem s (tbl s d + 8 * i)"

definition lvl :: "pt_state \<Rightarrow> u64 \<Rightarrow> nat" where
  "lvl s d = unat (pd_level (ps_desc s d))"

text \<open>An entry that refers to the table of \<open>c\<close>, for the software and for the hardware.\<close>

definition link :: "pt_state \<Rightarrow> u64 \<Rightarrow> u64 \<Rightarrow> bool" where
  "link s e c \<longleftrightarrow> e AND 3 = 3 \<and> extract_addr_from_pte e = tbl s c \<and> e AND TABLE_MASK = tbl s c"

text \<open>
  The well formed tables: \<open>ds\<close> are the descriptors in use, \<open>kids d\<close> the list of children of
  \<open>d\<close>. Tables do not overlap, each has one parent, and each entry above the last level is
  empty or refers to a child, a different one for each index.
\<close>

definition descs_ok :: "pt_state \<Rightarrow> u64 list \<Rightarrow> bool" where
  "descs_ok s ds \<longleftrightarrow> (\<forall>d\<in>set ds. page_ok (pd_pt (ps_desc s d)) \<and> lvl s d \<in> {1, 2, 3}) \<and> inj_on (tbl s) (set ds)"

definition kids_ok :: "pt_state \<Rightarrow> u64 list \<Rightarrow> (u64 \<Rightarrow> u64 list) \<Rightarrow> bool" where
  "kids_ok s ds kids \<longleftrightarrow>
     (\<forall>d\<in>set ds. chain (desc_nexts s) (pd_child (ps_desc s d)) (kids d) \<and> set (kids d) \<subseteq> set ds \<and>
        (\<forall>c\<in>set (kids d). lvl s c = Suc (lvl s d))) \<and>
     (\<forall>d\<in>set ds. \<forall>d'\<in>set ds. d \<noteq> d' \<longrightarrow> set (kids d) \<inter> set (kids d') = {})"

definition entries_ok :: "pt_state \<Rightarrow> u64 list \<Rightarrow> (u64 \<Rightarrow> u64 list) \<Rightarrow> bool" where
  "entries_ok s ds kids \<longleftrightarrow>
     (\<forall>d\<in>set ds. lvl s d < 3 \<longrightarrow>
        (\<forall>i<512. ent s d i = 0 \<or> (\<exists>c\<in>set (kids d). link s (ent s d i) c)) \<and>
        (\<forall>i<512. \<forall>j<512. ent s d i \<noteq> 0 \<longrightarrow> ent s d j \<noteq> 0 \<longrightarrow>
           extract_addr_from_pte (ent s d i) = extract_addr_from_pte (ent s d j) \<longrightarrow> i = j))"

definition heap_ok :: "pt_state \<Rightarrow> u64 list \<Rightarrow> bool" where
  "heap_ok s ds \<longleftrightarrow> distinct (map va_to_pa (ps_heap s)) \<and>
     (\<forall>p\<in>set (ps_heap s). page_ok p \<and> va_to_pa p \<notin> tbl s ` set ds \<and> (\<forall>i<512. ps_mem s (va_to_pa p + 8 * i) = 0))"

definition alloc_ok :: "pt_state \<Rightarrow> u64 list \<Rightarrow> bool" where
  "alloc_ok s ds \<longleftrightarrow> (\<exists>g. ps_global s = Some g \<and>
     (\<forall>k. unat (ps_ctr s) \<le> k \<longrightarrow> k < MAX_DESCS \<longrightarrow> g + DESC_SIZE * word_of_nat k \<notin> set ds))"

definition pt_inv :: "pt_state \<Rightarrow> u64 list \<Rightarrow> (u64 \<Rightarrow> u64 list) \<Rightarrow> bool" where
  "pt_inv s ds kids \<longleftrightarrow> descs_ok s ds \<and> kids_ok s ds kids \<and> entries_ok s ds kids \<and> heap_ok s ds \<and> alloc_ok s ds"

lemma tbl_page: "descs_ok s ds \<Longrightarrow> d \<in> set ds \<Longrightarrow> page_addr (tbl s d)"
  by (auto simp: descs_ok_def tbl_def page_ok_page)

lemma slot_addr: "descs_ok s ds \<Longrightarrow> d \<in> set ds \<Longrightarrow> i < 512 \<Longrightarrow> va_to_pa (pd_pt (ps_desc s d) + 8 * i) = tbl s d + 8 * i"
  by (auto simp: descs_ok_def tbl_def page_ok_offset index_slot)

lemma slot_eq:
  "page_addr q \<Longrightarrow> page_addr q' \<Longrightarrow> i < 512 \<Longrightarrow> j < 512 \<Longrightarrow> q + 8 * i = q' + 8 * j \<longleftrightarrow> q = q' \<and> i = j"
  by (simp add: page_offset_eq index_slot index_slot_eq)

lemma desc_slot_eq:
  "descs_ok s ds \<Longrightarrow> d \<in> set ds \<Longrightarrow> d' \<in> set ds \<Longrightarrow> i < 512 \<Longrightarrow> j < 512 \<Longrightarrow>
     tbl s d + 8 * i = tbl s d' + 8 * j \<longleftrightarrow> d = d' \<and> i = j"
  by (simp add: slot_eq tbl_page) (auto simp: descs_ok_def inj_on_def)

section \<open>The walk of the hardware\<close>

text \<open>
  The translation of ARMv8 with 4 KB pages and 39 bit addresses: three tables, the entry of
  the last one has the page. Entries that do not end in 11 are no tables and no pages.
\<close>

primrec hw_entry :: "(u64 \<Rightarrow> u64) \<Rightarrow> u64 \<Rightarrow> u64 list \<Rightarrow> u64 option" where
  "hw_entry m t [] = None"
| "hw_entry m t (i # is) =
     (let e = m (t + 8 * i) in
      if e AND 3 \<noteq> 3 then None else if is = [] then Some e else hw_entry m (e AND TABLE_MASK) is)"

definition hw_walk :: "(u64 \<Rightarrow> u64) \<Rightarrow> u64 \<Rightarrow> u64 \<Rightarrow> u64 option" where
  "hw_walk m t va = map_option (\<lambda>e. (e AND TABLE_MASK) OR (va AND 0xFFF)) (hw_entry m t (vm_index (extract_va_metadata va)))"

text \<open>The path of the software to a table of the last level.\<close>

fun leads :: "pt_state \<Rightarrow> (u64 \<Rightarrow> u64 list) \<Rightarrow> u64 \<Rightarrow> u64 list \<Rightarrow> u64 \<Rightarrow> bool" where
  "leads s kids d [] c \<longleftrightarrow> False"
| "leads s kids d [i] c \<longleftrightarrow> d = c"
| "leads s kids d (i # j # is) c \<longleftrightarrow>
     (\<exists>y\<in>set (kids d). ent s d i \<noteq> 0 \<and> link s (ent s d i) y \<and> leads s kids y (j # is) c)"

definition idx_ok :: "pt_state \<Rightarrow> u64 \<Rightarrow> u64 list \<Rightarrow> bool" where
  "idx_ok s d is \<longleftrightarrow> lvl s d + length is = 4 \<and> (\<forall>i\<in>set is. i < 512)"

lemma link_unique:
  assumes "pt_inv s ds kids" and "d \<in> set ds" and "y \<in> set (kids d)" and "z \<in> set (kids d)"
    and "link s e y" and "link s e z"
  shows "y = z"
proof -
  have "y \<in> set ds" "z \<in> set ds" using assms(1-4) by (auto simp: pt_inv_def kids_ok_def)
  moreover have "tbl s y = tbl s z" using assms(5,6) by (simp add: link_def)
  moreover have "inj_on (tbl s) (set ds)" using assms(1) by (simp add: pt_inv_def descs_ok_def)
  ultimately show ?thesis by (meson inj_onD)
qed

lemma entry_kid:
  assumes "pt_inv s ds kids" and "d \<in> set ds" and "lvl s d < 3" and "i < 512" and "ent s d i \<noteq> 0"
  obtains y where "y \<in> set (kids d)" and "link s (ent s d i) y"
  using assms unfolding pt_inv_def entries_ok_def by blast

text \<open>Writing an entry of a table of the last level changes the translations that lead to it, and no other.\<close>

lemma hw_entry_write:
  assumes "pt_inv s ds kids" and "c \<in> set ds" and "lvl s c = 3" and "k < 512"
    and "d \<in> set ds" and "idx_ok s d is"
  shows "hw_entry ((ps_mem s)(tbl s c + 8 * k := v)) (tbl s d) is =
    (if leads s kids d is c \<and> last is = k then (if v AND 3 = 3 then Some v else None)
     else hw_entry (ps_mem s) (tbl s d) is)"
  using assms(5,6)
proof (induction "is" arbitrary: d)
  case Nil
  then show ?case by simp
next
  case (Cons i "is")
  note inv = assms(1) [unfolded pt_inv_def]
  have i: "i < 512" using Cons.prems(2) by (simp add: idx_ok_def)
  have slot: "((ps_mem s)(tbl s c + 8 * k := v)) (tbl s d + 8 * i) = (if d = c \<and> i = k then v else ent s d i)"
    using desc_slot_eq [of s ds d c i k] inv assms(2,4) Cons.prems(1) i by (auto simp: ent_def)
  show ?case
  proof (cases "is")
    case Nil
    then show ?thesis using slot by (auto simp add: Let_def ent_def simp del: fun_upd_apply)
  next
    case (Cons j js)
    then have l: "lvl s d < 3" "d \<noteq> c" using Cons.prems(2) assms(3) by (auto simp: idx_ok_def)
    with inv Cons.prems(1) i have "ent s d i = 0 \<or> (\<exists>y\<in>set (kids d). link s (ent s d i) y)"
      by (auto simp: entries_ok_def)
    then show ?thesis
    proof
      assume "ent s d i = 0"
      then show ?thesis using slot l(2) Cons by (simp add: Let_def ent_def)
    next
      assume "\<exists>y\<in>set (kids d). link s (ent s d i) y"
      then obtain y where y: "y \<in> set (kids d)" "link s (ent s d i) y" by blast
      have yds: "y \<in> set ds" "lvl s y = Suc (lvl s d)" using inv Cons.prems(1) y(1) by (auto simp: kids_ok_def)
      then have ix: "idx_ok s y (j # js)" using Cons.prems(2) Cons by (auto simp: idx_ok_def)
      have nz: "ent s d i \<noteq> 0" using y(2) by (auto simp: link_def)
      have "leads s kids d (i # j # js) c \<longleftrightarrow> leads s kids y (j # js) c"
        using y nz link_unique [OF assms(1) Cons.prems(1)] by (metis leads.simps(3))
      then show ?thesis using Cons.IH [OF yds(1)] ix slot l(2) Cons y(2) by (simp add: Let_def ent_def link_def)
    qed
  qed
qed

lemma leads_unique:
  assumes "pt_inv s ds kids"
  shows "x \<in> set ds \<Longrightarrow> x' \<in> set ds \<Longrightarrow> idx_ok s x is \<Longrightarrow> idx_ok s x' is' \<Longrightarrow> length is = length is' \<Longrightarrow>
    leads s kids x is c \<Longrightarrow> leads s kids x' is' c \<Longrightarrow> x = x' \<and> butlast is = butlast is'"
proof (induction "is" arbitrary: x x' is')
  case (Cons i "is")
  note inv = assms [unfolded pt_inv_def]
  obtain i' js' where is': "is' = i' # js'" using Cons.prems(5) by (cases is') auto
  show ?case
  proof (cases "is")
    case Nil
    then show ?thesis using Cons.prems is' by simp
  next
    case (Cons j js)
    then obtain j' ks' where js': "js' = j' # ks'" using Cons.prems(5) is' by (cases js') auto
    obtain y where y: "y \<in> set (kids x)" "ent s x i \<noteq> 0" "link s (ent s x i) y" "leads s kids y (j # js) c"
      using Cons.prems(6) Cons by auto
    obtain y' where y': "y' \<in> set (kids x')" "ent s x' i' \<noteq> 0" "link s (ent s x' i') y'" "leads s kids y' js' c"
      using Cons.prems(7) is' js' by auto
    have "y \<in> set ds" "lvl s y = Suc (lvl s x)" "y' \<in> set ds" "lvl s y' = Suc (lvl s x')"
      using inv Cons.prems(1,2) y(1) y'(1) by (auto simp: kids_ok_def)
    moreover have "idx_ok s y (j # js)" "idx_ok s y' js'"
      using calculation Cons.prems(3,4) Cons is' by (auto simp: idx_ok_def)
    ultimately have eq: "y = y'" "butlast (j # js) = butlast js'"
      using Cons.IH [of y y' js'] Cons y(4) y'(4) Cons.prems(5) is' by auto
    then have x: "x = x'" using inv Cons.prems(1,2) y(1) y'(1) by (fastforce simp: kids_ok_def)
    have "lvl s x < 3" "i < 512" "i' < 512" using Cons.prems(3,4) Cons is' by (auto simp: idx_ok_def)
    moreover have "extract_addr_from_pte (ent s x i) = extract_addr_from_pte (ent s x i')"
      using y(3) y'(3) eq(1) x by (simp add: link_def)
    ultimately have "i = i'" using inv Cons.prems(1) y(2) y'(2) x unfolding entries_ok_def by blast
    then show ?thesis using x eq(2) Cons is' js' by simp
  qed
qed simp

section \<open>Adding a table\<close>

text \<open>The array of descriptors; every other descriptor is left alone.\<close>

definition desc_slots :: "pt_state \<Rightarrow> u64 set" where
  "desc_slots s = {g + DESC_SIZE * word_of_nat k | g k. ps_global s = Some g \<and> k < MAX_DESCS}"

definition desc_framed :: "pt_state \<Rightarrow> u64 list \<Rightarrow> pt_state \<Rightarrow> u64 list \<Rightarrow> bool" where
  "desc_framed s ds s' ds' \<longleftrightarrow> set ds' \<subseteq> set ds \<union> desc_slots s \<and> (\<forall>x. x \<notin> set ds' \<longrightarrow> ps_desc s' x = ps_desc s x)"

text \<open>The state after the table \<open>p\<close> became the child \<open>n\<close> of \<open>d\<close>, at index \<open>i\<close>.\<close>

definition added :: "pt_state \<Rightarrow> u64 list \<Rightarrow> (u64 \<Rightarrow> u64 list) \<Rightarrow> u64 \<Rightarrow> u64 \<Rightarrow> u64 \<Rightarrow> u64 \<Rightarrow> u64 \<Rightarrow> u64 list \<Rightarrow> pt_state \<Rightarrow> bool" where
  "added s ds kids d i f p n hs s' \<longleftrightarrow>
     ps_heap s = p # hs \<and> ps_heap s' = hs \<and> n \<notin> set ds \<and>
     ps_mem s' = (ps_mem s)(tbl s d + 8 * i := va_to_pa p OR f) \<and>
     (\<forall>x\<in>set ds. pd_pt (ps_desc s' x) = pd_pt (ps_desc s x) \<and> pd_level (ps_desc s' x) = pd_level (ps_desc s x)) \<and>
     pd_pt (ps_desc s' n) = p \<and> lvl s' n = Suc (lvl s d) \<and>
     chain (desc_nexts s') (pd_child (ps_desc s' n)) [] \<and>
     chain (desc_nexts s') (pd_child (ps_desc s' d)) (kids d @ [n]) \<and>
     (\<forall>x\<in>set ds. x \<noteq> d \<longrightarrow> chain (desc_nexts s') (pd_child (ps_desc s' x)) (kids x)) \<and>
     alloc_ok s' (n # ds) \<and> ps_ctr s' = ps_ctr s + 1 \<and> ps_global s' = ps_global s \<and>
     desc_framed s ds s' (n # ds)"

lemma added_simps:
  assumes "added s ds kids d i f p n hs s'"
  shows "x \<in> set ds \<Longrightarrow> tbl s' x = tbl s x" "x \<in> set ds \<Longrightarrow> lvl s' x = lvl s x" "tbl s' n = va_to_pa p"
  using assms by (auto simp: added_def tbl_def lvl_def)

lemma added_descs:
  assumes "pt_inv s ds kids" and "added s ds kids d i f p n hs s'" and "d \<in> set ds" and "lvl s d < 3"
  shows "descs_ok s' (n # ds)"
proof -
  have p: "page_ok p" "va_to_pa p \<notin> tbl s ` set ds" "n \<notin> set ds"
    using assms(1,2) by (auto simp: pt_inv_def heap_ok_def added_def)
  have "inj_on (tbl s') (set ds)"
    using assms(1) added_simps(1) [OF assms(2)] by (auto simp: pt_inv_def descs_ok_def inj_on_def)
  moreover have "tbl s' n \<notin> tbl s' ` set ds"
    using p(2) added_simps(1,3) [OF assms(2)] by auto
  moreover have "page_ok (pd_pt (ps_desc s' x)) \<and> lvl s' x \<in> {1, 2, 3}" if "x \<in> set (n # ds)" for x
    using that assms p(1) added_simps(2) [OF assms(2), of x] by (auto simp: pt_inv_def descs_ok_def added_def)
  ultimately show ?thesis using p(3) unfolding descs_ok_def by simp
qed

lemma added_ent:
  assumes "pt_inv s ds kids" and "added s ds kids d i f p n hs s'" and "d \<in> set ds" and "i < 512" and "j < 512"
  shows "x \<in> set ds \<Longrightarrow> ent s' x j = (if x = d \<and> j = i then va_to_pa p OR f else ent s x j)" "ent s' n j = 0"
proof -
  have m: "ps_mem s' = (ps_mem s)(tbl s d + 8 * i := va_to_pa p OR f)" using assms(2) by (simp add: added_def)
  have ds: "descs_ok s ds" using assms(1) by (simp add: pt_inv_def)
  show "x \<in> set ds \<Longrightarrow> ent s' x j = (if x = d \<and> j = i then va_to_pa p OR f else ent s x j)"
    using desc_slot_eq [OF ds _ assms(3) assms(5,4), of x] added_simps(1) [OF assms(2), of x] by (auto simp: ent_def m)
  have p: "page_ok p" "va_to_pa p \<noteq> tbl s d" "ps_mem s (va_to_pa p + 8 * j) = 0"
    using assms(1-3,5) by (auto simp: pt_inv_def heap_ok_def added_def)
  then have "va_to_pa p + 8 * j \<noteq> tbl s d + 8 * i"
    using slot_eq [OF page_ok_page [OF p(1)] tbl_page [OF ds assms(3)] assms(5,4)] by simp
  then show "ent s' n j = 0" using p(3) added_simps(3) [OF assms(2)] by (simp add: ent_def m)
qed

lemma added_link:
  assumes "pt_inv s ds kids" and "added s ds kids d i f p n hs s'" and "d \<in> set ds" and "i < 512" and "flags_ok f"
  shows "link s' (ent s' d i) n" "x \<in> set ds \<Longrightarrow> link s' e x = link s e x"
proof -
  have "page_addr (va_to_pa p)" using assms(1,2) by (auto simp: pt_inv_def heap_ok_def added_def page_ok_page)
  then show "link s' (ent s' d i) n"
    using added_ent(1) [OF assms(1-4,4,3)] table_entry [OF _ assms(5)] added_simps(3) [OF assms(2)] by (simp add: link_def)
  show "x \<in> set ds \<Longrightarrow> link s' e x = link s e x" using added_simps(1) [OF assms(2)] by (simp add: link_def)
qed

lemma added_entries_ok:
  assumes "pt_inv s ds kids" and "added s ds kids d i f p n hs s'" and "d \<in> set ds" and "i < 512" and "lvl s d < 3"
    and "flags_ok f" and "ent s d i = 0"
  shows "entries_ok s' (n # ds) (kids(d := kids d @ [n], n := []))"
proof -
  let ?kids = "kids(d := kids d @ [n], n := [])"
  note inv = assms(1) [unfolded pt_inv_def]
  note ent = added_ent [OF assms(1-4)] and lk = added_link [OF assms(1-4,6)]
  have nd: "n \<notin> set ds" "n \<noteq> d" using assms(2,3) by (auto simp: added_def)
  have "va_to_pa p \<notin> tbl s ` set ds" using inv assms(2) by (auto simp: heap_ok_def added_def)
  have old: "ent s x j = 0 \<or> (\<exists>c\<in>set (kids x). c \<in> set ds \<and> link s (ent s x j) c)" if "x \<in> set ds" "lvl s x < 3" "j < 512" for x j
  proof -
    have "set (kids x) \<subseteq> set ds" using inv that(1) by (auto simp: kids_ok_def)
    moreover have "ent s x j = 0 \<or> (\<exists>c\<in>set (kids x). link s (ent s x j) c)"
      using inv that by (simp add: entries_ok_def)
    ultimately show ?thesis by blast
  qed
  have A: "ent s' x j = 0 \<or> (\<exists>c\<in>set (?kids x). link s' (ent s' x j) c)"
    if x: "x \<in> set (n # ds)" "lvl s' x < 3" "j < 512" for x j
  proof (cases "x = n")
    case True
    then show ?thesis using ent(2) [OF x(3)] by simp
  next
    case False
    then have xd: "x \<in> set ds" using x(1) by simp
    show ?thesis
    proof (cases "x = d \<and> j = i")
      case True
      then show ?thesis using lk(1) nd by auto
    next
      case f: False
      then have "ent s' x j = ent s x j" using ent(1) [OF x(3) xd] by auto
      moreover have "lvl s x < 3" using x(2) added_simps(2) [OF assms(2) xd] by simp
      ultimately show ?thesis using old [OF xd _ x(3)] lk(2) False by auto
    qed
  qed
  have fresh: "extract_addr_from_pte (ent s' d i) \<noteq> extract_addr_from_pte (ent s' d j)"
    if jn: "j < 512" "j \<noteq> i" "ent s' d j \<noteq> 0" for j
  proof -
    have e: "ent s' d j = ent s d j" using ent(1) [OF jn(1) assms(3)] jn(2) by simp
    then obtain c where "c \<in> set ds" "extract_addr_from_pte (ent s d j) = tbl s c"
      using old [OF assms(3,5) jn(1)] jn(3) by (auto simp: link_def)
    moreover have "extract_addr_from_pte (ent s' d i) = va_to_pa p"
      using lk(1) added_simps(3) [OF assms(2)] by (simp add: link_def)
    ultimately show ?thesis using \<open>va_to_pa p \<notin> tbl s ` set ds\<close> e by auto
  qed
  have B: "j = k" if x: "x \<in> set (n # ds)" "lvl s' x < 3" and jk: "j < 512" "k < 512"
    and nz: "ent s' x j \<noteq> 0" "ent s' x k \<noteq> 0"
    and eq: "extract_addr_from_pte (ent s' x j) = extract_addr_from_pte (ent s' x k)" for x j k
  proof (cases "x = n")
    case True
    then show ?thesis using ent(2) [OF jk(1)] nz by simp
  next
    case False
    then have xd: "x \<in> set ds" using x(1) by simp
    show ?thesis
    proof (cases "x = d \<and> (j = i \<or> k = i)")
      case True
      then show ?thesis using fresh jk nz eq by metis
    next
      case f: False
      then have "ent s' x j = ent s x j" "ent s' x k = ent s x k" using ent(1) [OF _ xd] jk by auto
      moreover have "lvl s x < 3" using x(2) added_simps(2) [OF assms(2) xd] by simp
      ultimately show ?thesis using inv xd jk nz eq unfolding entries_ok_def by metis
    qed
  qed
  from A B show ?thesis unfolding entries_ok_def by blast
qed

lemma added_heap_ok:
  assumes "pt_inv s ds kids" and "added s ds kids d i f p n hs s'" and "d \<in> set ds" and "i < 512"
  shows "heap_ok s' (n # ds)"
proof -
  note inv = assms(1) [unfolded pt_inv_def] and a = assms(2) [unfolded added_def]
  note simps = added_simps [OF assms(2)]
  have ds: "descs_ok s ds" using inv by simp
  have h: "distinct (map va_to_pa (p # hs))" using inv a by (simp add: heap_ok_def)
  have "page_ok q \<and> va_to_pa q \<notin> tbl s' ` set (n # ds) \<and> (\<forall>j<512. ps_mem s' (va_to_pa q + 8 * j) = 0)"
    if q: "q \<in> set hs" for q
  proof -
    have q1: "page_ok q" "va_to_pa q \<notin> tbl s ` set ds" "\<forall>j<512. ps_mem s (va_to_pa q + 8 * j) = 0"
      using inv a q by (auto simp: heap_ok_def)
    moreover have "va_to_pa q \<noteq> va_to_pa p" using imageI [OF q, of va_to_pa] h by auto
    then have "va_to_pa q \<notin> tbl s' ` set (n # ds)" using q1(2) simps by auto
    moreover have "va_to_pa q + 8 * j \<noteq> tbl s d + 8 * i" if "j < 512" for j
      using slot_eq [OF page_ok_page [OF q1(1)] tbl_page [OF ds assms(3)] that assms(4)] q1(2) assms(3) by auto
    ultimately show ?thesis using a by simp
  qed
  then show ?thesis unfolding heap_ok_def using h a by simp
qed

lemma added_inv:
  assumes "pt_inv s ds kids" and "added s ds kids d i f p n hs s'" and "d \<in> set ds" and "i < 512" and "lvl s d < 3"
    and "flags_ok f" and "ent s d i = 0"
  shows "pt_inv s' (n # ds) (kids(d := kids d @ [n], n := []))" and "link s' (ent s' d i) n"
proof -
  let ?kids = "kids(d := kids d @ [n], n := [])"
  note inv = assms(1) [unfolded pt_inv_def]
  note a = assms(2) [unfolded added_def]
  note simps = added_simps [OF assms(2)]
  have nd: "n \<notin> set ds" "n \<noteq> d" using a assms(3) by auto
  have descs: "descs_ok s' (n # ds)" by (rule added_descs [OF assms(1,2,3,5)])
  show "link s' (ent s' d i) n" by (rule added_link(1) [OF assms(1-4,6)])
  have kids: "kids_ok s' (n # ds) ?kids"
  proof -
    have sub: "set (kids x) \<subseteq> set ds" "\<And>c. c \<in> set (kids x) \<Longrightarrow> lvl s c = Suc (lvl s x)" if "x \<in> set ds" for x
      using inv that by (auto simp: kids_ok_def)
    have "chain (desc_nexts s') (pd_child (ps_desc s' x)) (?kids x) \<and> set (?kids x) \<subseteq> set (n # ds) \<and>
        (\<forall>c\<in>set (?kids x). lvl s' c = Suc (lvl s' x))" if "x \<in> set (n # ds)" for x
    proof (cases "x = n")
      case True
      then show ?thesis using a by simp
    next
      case False
      then have x: "x \<in> set ds" using that by simp
      have "lvl s' c = Suc (lvl s' x)" if "c \<in> set (kids x)" for c
        using sub(1) [OF x] sub(2) [OF x that] that simps(2) [of c] simps(2) [OF x] by auto
      moreover have "lvl s' n = Suc (lvl s' d)" using a simps(2) [OF assms(3)] by simp
      ultimately show ?thesis using a False x sub(1) [OF x] by (cases "x = d") auto
    qed
    moreover have "set (?kids x) \<inter> set (?kids y) = {}" if "x \<in> set (n # ds)" "y \<in> set (n # ds)" "x \<noteq> y" for x y
    proof -
      have "set (kids x) \<inter> set (kids y) = {}" if "x \<in> set ds" "y \<in> set ds" "x \<noteq> y" for x y
        using inv that by (auto simp: kids_ok_def)
      moreover have "n \<notin> set (kids x)" if "x \<in> set ds" for x using sub(1) [OF that] nd by auto
      ultimately show ?thesis using that by auto
    qed
    ultimately show ?thesis unfolding kids_ok_def by blast
  qed
  have ents: "entries_ok s' (n # ds) ?kids"
    using added_entries_ok [OF assms] .
  have heap: "heap_ok s' (n # ds)" by (rule added_heap_ok [OF assms(1-4)])
  show "pt_inv s' (n # ds) ?kids" unfolding pt_inv_def using descs kids ents heap a by simp
qed

lemma desc_addr_eq:
  assumes "k < MAX_DESCS" and "j < MAX_DESCS"
  shows "g + DESC_SIZE * word_of_nat k = g + DESC_SIZE * word_of_nat j \<longleftrightarrow> k = j"
proof -
  have "unat (DESC_SIZE * word_of_nat k) = 32 * k" if "k < MAX_DESCS" for k
    using that by (subst unat_mult_lem [THEN iffD1]) (auto simp: unsigned_of_nat take_bit_nat_eq_self)
  with assms have "DESC_SIZE * word_of_nat k = DESC_SIZE * word_of_nat j \<longleftrightarrow> 32 * k = 32 * j"
    by (metis word_unat_eq_iff)
  then show ?thesis by simp
qed

lemma alloc_next:
  assumes "alloc_ok s ds" and "unat (ps_ctr s) < MAX_DESCS"
  obtains g where "ps_global s = Some g" and "g + DESC_SIZE * ucast (ps_ctr s) \<notin> set ds"
    and "\<And>s'. ps_global s' = Some g \<Longrightarrow> ps_ctr s' = ps_ctr s + 1 \<Longrightarrow>
      alloc_ok s' ((g + DESC_SIZE * ucast (ps_ctr s)) # ds)"
proof -
  obtain g where g: "ps_global s = Some g"
    "\<And>k. unat (ps_ctr s) \<le> k \<Longrightarrow> k < MAX_DESCS \<Longrightarrow> g + DESC_SIZE * word_of_nat k \<notin> set ds"
    using assms(1) by (auto simp: alloc_ok_def)
  have n: "(word_of_nat (unat (ps_ctr s)) :: u64) = ucast (ps_ctr s)" by simp
  have c: "unat (ps_ctr s + 1) = Suc (unat (ps_ctr s))"
    using assms(2) by (subst unat_plus_simple [THEN iffD1]) (auto simp: no_olen_add_nat)
  have "g + DESC_SIZE * word_of_nat k \<notin> set ((g + DESC_SIZE * word_of_nat (unat (ps_ctr s))) # ds)"
    if "unat (ps_ctr s + 1) \<le> k" "k < MAX_DESCS" for k
    using that g(2) [of k] desc_addr_eq [OF that(2) assms(2), of g] c by auto
  then have "alloc_ok s' ((g + DESC_SIZE * ucast (ps_ctr s)) # ds)" if "ps_global s' = Some g" "ps_ctr s' = ps_ctr s + 1" for s'
    using that by (auto simp: alloc_ok_def)
  moreover have "g + DESC_SIZE * ucast (ps_ctr s) \<notin> set ds" using g(2) [of "unat (ps_ctr s)"] assms(2) n by simp
  ultimately show thesis using that g(1) by blast
qed

lemma pt_state_simps [simp]:
  "ps_mem (set_desc d b s) = ps_mem s" "ps_desc (set_desc d b s) = (ps_desc s)(d := b)"
  "ps_global (set_desc d b s) = ps_global s" "ps_ctr (set_desc d b s) = ps_ctr s" "ps_heap (set_desc d b s) = ps_heap s"
  "ps_mem (write_mem p v s) = (ps_mem s)(va_to_pa p := v)" "ps_desc (write_mem p v s) = ps_desc s"
  "ps_global (write_mem p v s) = ps_global s" "ps_ctr (write_mem p v s) = ps_ctr s" "ps_heap (write_mem p v s) = ps_heap s"
  by (simp_all add: set_desc_def write_mem_def)

lemma desc_nexts_simps [simp]:
  "desc_nexts (set_desc d b s) = (desc_nexts s)(d := pd_next b)" "desc_nexts (write_mem p v s) = desc_nexts s"
  by (auto simp: desc_nexts_def)

lemma add_child_chain:
  assumes "chain (desc_nexts s) (pd_child (ps_desc s d)) ks" and "n \<notin> set ks" and "n \<noteq> d" and "pd_next (ps_desc s n) = None"
  obtains s' where "pt_desc_add_child d n s = Inr s'" and "chain (desc_nexts s') (pd_child (ps_desc s' d)) (ks @ [n])"
    and "\<And>x ys. x \<noteq> d \<Longrightarrow> set ks \<inter> set ys = {} \<Longrightarrow> chain (desc_nexts s) (pd_child (ps_desc s x)) ys \<Longrightarrow>
      chain (desc_nexts s') (pd_child (ps_desc s' x)) ys"
    and "\<And>x. pd_pt (ps_desc s' x) = pd_pt (ps_desc s x) \<and> pd_level (ps_desc s' x) = pd_level (ps_desc s x)"
    and "ps_mem s' = ps_mem s" and "ps_heap s' = ps_heap s" and "ps_ctr s' = ps_ctr s" and "ps_global s' = ps_global s"
    and "\<And>x. x \<noteq> d \<Longrightarrow> x \<notin> set ks \<Longrightarrow> ps_desc s' x = ps_desc s x"
proof (cases ks rule: rev_cases)
  case Nil
  let ?s = "set_desc d (ps_desc s d\<lparr>pd_child := Some n\<rparr>) s"
  have c: "pd_child (ps_desc s d) = None" using assms(1) Nil by simp
  have nx: "desc_nexts ?s = desc_nexts s" by (auto simp: desc_nexts_def)
  show thesis
  proof (rule that [of ?s])
    show "pt_desc_add_child d n s = Inr ?s" using c by (simp add: pt_desc_add_child_def)
    show "chain (desc_nexts ?s) (pd_child (ps_desc ?s d)) (ks @ [n])"
      unfolding nx using assms(4) Nil by (simp add: desc_nexts_def)
    show "chain (desc_nexts ?s) (pd_child (ps_desc ?s x)) ys"
      if "x \<noteq> d" "chain (desc_nexts s) (pd_child (ps_desc s x)) ys" for x ys
      unfolding nx using that by simp
  qed auto
next
  case (snoc us l)
  let ?s = "set_desc l (ps_desc s l\<lparr>pd_next := Some n\<rparr>) s"
  obtain c where c: "pd_child (ps_desc s d) = Some c" using assms(1) snoc by (cases "pd_child (ps_desc s d)") auto
  have ch: "chain (desc_nexts s) (Some c) (us @ [l])" using assms(1) c snoc by simp
  have kid: "pd_child (ps_desc ?s x) = pd_child (ps_desc s x)" for x by simp
  have nx: "desc_nexts ?s = (desc_nexts s)(l := Some n)" by (auto simp: desc_nexts_def)
  show thesis
  proof (rule that [of ?s])
    show "pt_desc_add_child d n s = Inr ?s" using c last_of_chain [OF ch] by (simp add: pt_desc_add_child_def)
    show "chain (desc_nexts ?s) (pd_child (ps_desc ?s d)) (ks @ [n])"
      unfolding nx kid c using chain_snoc [OF ch, of n] assms(2,4) snoc by (simp add: desc_nexts_def)
    show "chain (desc_nexts ?s) (pd_child (ps_desc ?s x)) ys"
      if "set ks \<inter> set ys = {}" "chain (desc_nexts s) (pd_child (ps_desc s x)) ys" for x ys
    proof -
      have "l \<notin> set ys" using that(1) snoc by auto
      then show ?thesis unfolding nx kid using that(2) by (simp add: chain_upd_other)
    qed
  qed (use snoc in auto)
qed

lemma create_added:
  assumes "pt_inv s ds kids" and "d \<in> set ds" and "i < 512" and "lvl s d < 3" and "ps_heap s = p # hs"
    and "unat (ps_ctr s) < MAX_DESCS"
  obtains n s1 s' where "create_pt 0 (pd_level (ps_desc s d) + 1) s = Inr (Some n, s1)"
    and "pt_desc_add_child d n (place_pt_entry d (pt_entry (pd_pt (ps_desc s1 n)) f) (uint i) s1) = Inr s'"
    and "added s ds kids d i f p n hs s'"
proof -
  note inv = assms(1) [unfolded pt_inv_def]
  have al: "alloc_ok s ds" using inv by simp
  from alloc_next [OF al assms(6)] obtain g where g: "ps_global s = Some g" "g + DESC_SIZE * ucast (ps_ctr s) \<notin> set ds"
    and al': "\<And>s'. ps_global s' = Some g \<Longrightarrow> ps_ctr s' = ps_ctr s + 1 \<Longrightarrow>
      alloc_ok s' ((g + DESC_SIZE * ucast (ps_ctr s)) # ds)" by blast
  define n where "n = g + DESC_SIZE * ucast (ps_ctr s)"
  have nd: "n \<notin> set ds" "n \<noteq> d" using g(2) assms(2) by (auto simp: n_def)
  have p: "page_ok p" "p \<noteq> 0" using inv assms(5) by (auto simp: heap_ok_def page_ok_def va_to_pa_def)
  define b where "b = (ps_desc s n)\<lparr>pd_level := pd_level (ps_desc s d) + 1, pd_len := 0, pd_next := None, pd_child := None, pd_pt := p\<rparr>"
  define s1 where "s1 = set_desc n b (s\<lparr>ps_heap := hs, ps_ctr := ps_ctr s + 1\<rparr>)"
  have c: "create_pt 0 (pd_level (ps_desc s d) + 1) s = Inr (Some n, s1)"
    using assms(5,6) p(2) g(1)
    by (simp add: create_pt_def kmalloc_page_def create_pt_desc_def init_descs_def Let_def s1_def b_def n_def set_desc_def)
  have s1: "ps_mem s1 = ps_mem s" "ps_heap s1 = hs" "ps_ctr s1 = ps_ctr s + 1" "ps_global s1 = Some g" "ps_desc s1 = (ps_desc s)(n := b)"
    using g(1) by (simp_all add: s1_def)
  define e where "e = va_to_pa p OR f"
  define s2 where "s2 = place_pt_entry d (pt_entry (pd_pt (ps_desc s1 n)) f) (uint i) s1"
  have "pt_entry (pd_pt (ps_desc s1 n)) f = e" using pt_entry_page [OF p(1)] by (simp add: s1(5) b_def e_def)
  moreover have "uint i \<noteq> -1" using uint_ge_0 [of i] by linarith
  ultimately have s2: "s2 = set_desc d (ps_desc s d\<lparr>pd_len := ucast i\<rparr>) (write_mem (pd_pt (ps_desc s d) + 8 * i) e s1)"
    using nd by (simp add: s2_def place_pt_entry_def Let_def s1(5))
  have slot: "va_to_pa (pd_pt (ps_desc s d) + 8 * i) = tbl s d + 8 * i"
    using inv assms(2,3) slot_addr by blast
  have m2: "ps_mem s2 = (ps_mem s)(tbl s d + 8 * i := e)" "ps_heap s2 = hs" "ps_ctr s2 = ps_ctr s + 1" "ps_global s2 = Some g"
    by (simp_all add: s2 slot s1)
  have d2: "pd_pt (ps_desc s2 x) = pd_pt (ps_desc s x) \<and> pd_level (ps_desc s2 x) = pd_level (ps_desc s x) \<and>
      pd_child (ps_desc s2 x) = pd_child (ps_desc s x) \<and> pd_next (ps_desc s2 x) = pd_next (ps_desc s x)" if "x \<in> set ds" for x
    using that nd by (auto simp: s2 s1(5))
  have n2: "ps_desc s2 n = b" using nd by (simp add: s2 s1(5))
  have ch2: "chain (desc_nexts s2) (pd_child (ps_desc s2 x)) (kids x)" "n \<notin> set (kids x)" if "x \<in> set ds" for x
  proof -
    have k: "set (kids x) \<subseteq> set ds" "chain (desc_nexts s) (pd_child (ps_desc s x)) (kids x)"
      using inv that by (auto simp: kids_ok_def)
    have "desc_nexts s y = desc_nexts s2 y" if "y \<in> set (kids x)" for y
      using d2 [of y] k(1) that by (auto simp: desc_nexts_def)
    from chain_cong [of "kids x" "desc_nexts s" "desc_nexts s2", OF this] k(2) d2 [OF that]
    show "chain (desc_nexts s2) (pd_child (ps_desc s2 x)) (kids x)" by simp
    show "n \<notin> set (kids x)" using k(1) nd by auto
  qed
  have "pd_next (ps_desc s2 n) = None" by (simp add: n2 b_def)
  from add_child_chain [OF ch2(1) [OF assms(2)] ch2(2) [OF assms(2)] nd(2) this] obtain s' where
    s': "pt_desc_add_child d n s2 = Inr s'" "chain (desc_nexts s') (pd_child (ps_desc s' d)) (kids d @ [n])"
    "\<And>x ys. x \<noteq> d \<Longrightarrow> set (kids d) \<inter> set ys = {} \<Longrightarrow> chain (desc_nexts s2) (pd_child (ps_desc s2 x)) ys \<Longrightarrow>
      chain (desc_nexts s') (pd_child (ps_desc s' x)) ys"
    "\<And>x. pd_pt (ps_desc s' x) = pd_pt (ps_desc s2 x) \<and> pd_level (ps_desc s' x) = pd_level (ps_desc s2 x)"
    "ps_mem s' = ps_mem s2" "ps_heap s' = ps_heap s2" "ps_ctr s' = ps_ctr s2" "ps_global s' = ps_global s2"
    "\<And>x. x \<noteq> d \<Longrightarrow> x \<notin> set (kids d) \<Longrightarrow> ps_desc s' x = ps_desc s2 x" by blast
  have "set (kids d) \<subseteq> set ds" using inv assms(2) by (auto simp: kids_ok_def)
  then have "ps_desc s' x = ps_desc s x" if "x \<notin> set ds" "x \<noteq> n" for x
    using s'(9) [of x] that assms(2) by (auto simp: s2 s1(5))
  moreover have "n \<in> desc_slots s"
    unfolding desc_slots_def n_def using g(1) assms(6) by (auto intro!: exI [of _ "unat (ps_ctr s)"])
  ultimately have fr: "desc_framed s ds s' (n # ds)" by (auto simp: desc_framed_def)
  have "chain (desc_nexts s') (pd_child (ps_desc s' x)) (kids x)" if "x \<in> set ds" "x \<noteq> d" for x
    using inv assms(2) that s'(3) [OF that(2) _ ch2(1) [OF that(1)]] by (auto simp: kids_ok_def)
  moreover have "chain (desc_nexts s') (pd_child (ps_desc s' n)) []"
    using s'(3) [of n "[]"] nd n2 by (simp add: b_def)
  moreover have "unat (pd_level (ps_desc s d) + 1) = Suc (lvl s d)"
    using assms(4) by (subst unat_plus_simple [THEN iffD1]) (auto simp: no_olen_add_nat lvl_def)
  then have "pd_pt (ps_desc s' n) = p" "lvl s' n = Suc (lvl s d)" using s'(4) [of n] n2 by (simp_all add: b_def lvl_def)
  moreover have "alloc_ok s' (n # ds)" using al' [of s'] s'(7,8) m2 by (simp add: n_def)
  ultimately have "added s ds kids d i f p n hs s'"
    unfolding added_def using assms(5) nd s'(1-8) m2 d2 g(1) fr by (simp add: e_def)
  with c s'(1) show thesis unfolding s2_def by (rule that)
qed

lemma added_hw:
  assumes "pt_inv s ds kids" and "added s ds kids d i f p n hs s'" and "d \<in> set ds" and "i < 512" and "lvl s d < 3"
    and "flags_ok f" and "ent s d i = 0"
  shows "x \<in> set ds \<Longrightarrow> idx_ok s x is \<Longrightarrow> hw_entry (ps_mem s') (tbl s x) is = hw_entry (ps_mem s) (tbl s x) is"
proof (induction "is" arbitrary: x)
  case (Cons k "is")
  note inv = assms(1) [unfolded pt_inv_def]
  note ent = added_ent [OF assms(1-4)] and tbl = added_simps(1,3) [OF assms(2)]
  have k: "k < 512" using Cons.prems(2) by (simp add: idx_ok_def)
  have e: "ps_mem s' (tbl s x + 8 * k) = ent s' x k" "ps_mem s (tbl s x + 8 * k) = ent s x k"
    using tbl(1) [OF Cons.prems(1)] by (simp_all add: ent_def)
  show ?case
  proof (cases "x = d \<and> k = i")
    case True
    then obtain j js where js: "is = j # js" "j < 512" using Cons.prems(2) assms(5) by (cases "is") (auto simp: idx_ok_def)
    have "link s' (ent s' d i) n" using added_link(1) [OF assms(1-4,6)] .
    moreover have "ps_mem s' (tbl s' n + 8 * j) = 0" using ent(2) [OF js(2)] by (simp add: ent_def)
    ultimately show ?thesis using e True assms(7) js(1) by (simp add: Let_def link_def)
  next
    case False
    then have same: "ent s' x k = ent s x k" using ent(1) [OF k Cons.prems(1)] by auto
    show ?thesis
    proof (cases "is = [] \<or> ent s x k = 0")
      case True
      then show ?thesis using e same by (auto simp: Let_def)
    next
      case f: False
      then have "lvl s x < 3" using Cons.prems(2) by (cases "is") (auto simp: idx_ok_def)
      then obtain y where y: "y \<in> set (kids x)" "link s (ent s x k) y"
        using entry_kid [OF assms(1) Cons.prems(1) _ k] f by blast
      then have "y \<in> set ds" "lvl s y = Suc (lvl s x)" using inv Cons.prems(1) by (auto simp: kids_ok_def)
      moreover have "idx_ok s y is" using calculation(2) Cons.prems(2) by (auto simp: idx_ok_def)
      ultimately have "hw_entry (ps_mem s') (tbl s y) is = hw_entry (ps_mem s) (tbl s y) is" using Cons.IH by blast
      then show ?thesis using e same y(2) by (simp add: Let_def link_def)
    qed
  qed
qed simp

section \<open>Growing tables\<close>

text \<open>
  \<open>grown\<close> relates two states of the tables: descriptors, children and filled entries stay,
  and the hardware translates all addresses as before.
\<close>

text \<open>
  The pages that a tree of tables owns: its tables and the pages it can get. Nothing else
  is written.
\<close>

definition own :: "pt_state \<Rightarrow> u64 list \<Rightarrow> u64 set" where
  "own s ds = tbl s ` set ds \<union> va_to_pa ` set (ps_heap s)"

definition framed :: "u64 set \<Rightarrow> pt_state \<Rightarrow> pt_state \<Rightarrow> bool" where
  "framed P s s' \<longleftrightarrow> (\<forall>a. (\<forall>q\<in>P. \<forall>i<512. a \<noteq> q + 8 * i) \<longrightarrow> ps_mem s' a = ps_mem s a)"

lemma framed_trans: "framed P s s1 \<Longrightarrow> framed Q s1 s2 \<Longrightarrow> Q \<subseteq> P \<Longrightarrow> framed P s s2"
  unfolding framed_def by (metis subsetD)

lemma framed_write:
  "q \<in> P \<Longrightarrow> k < 512 \<Longrightarrow> ps_mem s' = (ps_mem s)(q + 8 * k := v) \<Longrightarrow> framed P s s'"
  unfolding framed_def by auto

definition grown :: "pt_state \<Rightarrow> u64 list \<Rightarrow> (u64 \<Rightarrow> u64 list) \<Rightarrow> pt_state \<Rightarrow> u64 list \<Rightarrow> (u64 \<Rightarrow> u64 list) \<Rightarrow> bool" where
  "grown s ds kids s' ds' kids' \<longleftrightarrow> set ds \<subseteq> set ds' \<and> ps_global s' = ps_global s \<and>
     (\<forall>x\<in>set ds. pd_pt (ps_desc s' x) = pd_pt (ps_desc s x) \<and> pd_level (ps_desc s' x) = pd_level (ps_desc s x) \<and>
        set (kids x) \<subseteq> set (kids' x) \<and>
        (\<forall>i<512. ent s x i \<noteq> 0 \<longrightarrow> ent s' x i = ent s x i) \<and>
        (\<forall>is. idx_ok s x is \<longrightarrow> hw_entry (ps_mem s') (tbl s x) is = hw_entry (ps_mem s) (tbl s x) is)) \<and>
     framed (own s ds) s s' \<and> own s' ds' \<subseteq> own s ds \<and> desc_framed s ds s' ds'"

lemma desc_framed_refl: "desc_framed s ds s ds"
  by (simp add: desc_framed_def)

lemma desc_framed_trans:
  assumes "desc_framed s ds s1 ds1" and "desc_framed s1 ds1 s2 ds2" and "ps_global s1 = ps_global s" and "set ds1 \<subseteq> set ds2"
  shows "desc_framed s ds s2 ds2"
proof -
  have "desc_slots s1 = desc_slots s" using assms(3) by (simp add: desc_slots_def)
  then show ?thesis using assms unfolding desc_framed_def by auto
qed

lemma grown_refl: "grown s ds kids s ds kids"
  by (simp add: grown_def framed_def desc_framed_refl)

lemma grown_simps:
  assumes "grown s ds kids s' ds' kids'" and "x \<in> set ds"
  shows "tbl s' x = tbl s x" "lvl s' x = lvl s x" "idx_ok s' x is = idx_ok s x is" "link s' e x = link s e x" "x \<in> set ds'"
  using assms by (auto simp: grown_def tbl_def lvl_def idx_ok_def link_def)

lemma grown_trans:
  assumes "grown s ds kids s1 ds1 kids1" and "grown s1 ds1 kids1 s2 ds2 kids2"
  shows "grown s ds kids s2 ds2 kids2"
proof -
  have "ent s2 x i = ent s x i" if "x \<in> set ds" "i < 512" "ent s x i \<noteq> 0" for x i
    using assms that grown_simps(5) [OF assms(1) that(1)] unfolding grown_def by metis
  moreover have "hw_entry (ps_mem s2) (tbl s x) is = hw_entry (ps_mem s) (tbl s x) is" if x: "x \<in> set ds" "idx_ok s x is" for x "is"
  proof -
    have "idx_ok s1 x is" "x \<in> set ds1" "tbl s1 x = tbl s x" using grown_simps [OF assms(1) x(1)] x(2) by simp_all
    then show ?thesis using assms x unfolding grown_def by metis
  qed
  moreover have "pd_pt (ps_desc s2 x) = pd_pt (ps_desc s x) \<and> pd_level (ps_desc s2 x) = pd_level (ps_desc s x) \<and>
    set (kids x) \<subseteq> set (kids2 x)" if "x \<in> set ds" for x
    using assms that by (fastforce simp: grown_def)
  moreover have "set ds \<subseteq> set ds2" "ps_global s2 = ps_global s" "own s2 ds2 \<subseteq> own s ds" using assms by (auto simp: grown_def)
  moreover have "framed (own s ds) s s2" using assms framed_trans unfolding grown_def by metis
  moreover have "desc_framed s ds s2 ds2" using assms desc_framed_trans unfolding grown_def by metis
  ultimately show ?thesis unfolding grown_def by blast
qed

lemma added_grown:
  assumes "pt_inv s ds kids" and "added s ds kids d i f p n hs s'" and "d \<in> set ds" and "i < 512" and "lvl s d < 3"
    and "flags_ok f" and "ent s d i = 0"
  shows "grown s ds kids s' (n # ds) (kids(d := kids d @ [n], n := []))"
proof -
  have nd: "n \<notin> set ds" using assms(2) by (simp add: added_def)
  have "ent s' x j = ent s x j" if "x \<in> set ds" "j < 512" "ent s x j \<noteq> 0" for x j
    using added_ent(1) [OF assms(1-4) that(2,1)] that(3) assms(7) by auto
  moreover have "own s' (n # ds) = own s ds"
    using assms(2) added_simps(1,3) [OF assms(2)] by (auto simp: own_def added_def)
  moreover have "framed (own s ds) s s'"
    by (rule framed_write [of "tbl s d" _ i]) (use assms(2-4) in \<open>auto simp: own_def added_def\<close>)
  ultimately show ?thesis using assms(2) nd added_hw [OF assms(1-7)] unfolding grown_def by (auto simp: added_def)
qed

lemma leads_grown:
  assumes "pt_inv s ds kids" and "grown s ds kids s' ds' kids'" and "x \<in> set ds" and "y \<in> set (kids x)"
    and "i < 512" and "link s (ent s x i) y" and "leads s' kids' y (j # is) c"
  shows "leads s' kids' x (i # j # is) c"
proof -
  have y: "y \<in> set ds" using assms(1,3,4) by (auto simp: pt_inv_def kids_ok_def)
  have nz: "ent s x i \<noteq> 0" using assms(6) by (auto simp: link_def)
  then have "ent s' x i = ent s x i" using assms(2,3,5) by (auto simp: grown_def)
  moreover have "link s' (ent s x i) y" using grown_simps(4) [OF assms(2) y] assms(6) by simp
  moreover have "y \<in> set (kids' x)" using assms(2-4) by (auto simp: grown_def)
  ultimately show ?thesis using assms(7) nz by auto
qed

section \<open>The loop of map_pa_to_va_pg\<close>

lemma get_from_parent:
  assumes "pt_inv s ds kids" and "d \<in> set ds" and "y \<in> set (kids d)" and "link s e y"
  shows "pt_desc_get_from_parent (extract_addr_from_pte e) d s = Inr (Some y)"
proof -
  have c: "chain (desc_nexts s) (pd_child (ps_desc s d)) (kids d)" "set (kids d) \<subseteq> set ds"
    using assms(1,2) by (auto simp: pt_inv_def kids_ok_def)
  let ?P = "\<lambda>x. extract_addr_from_pte e = va_to_pa (pd_pt (ps_desc s x))"
  have P: "?P x \<longleftrightarrow> tbl s y = tbl s x" for x using assms(4) by (simp add: link_def tbl_def)
  have "List.find ?P (kids d) = Some y"
  proof -
    have inj: "inj_on (tbl s) (set (kids d))" using assms(1) c(2) by (auto simp: pt_inv_def descs_ok_def intro: inj_on_subset)
    have "List.find (\<lambda>x. x \<in> set (kids d) \<and> ?P x) (kids d) = Some y"
      using assms(3) by (rule find_unique) (use assms(3) P inj in \<open>auto dest: inj_onD\<close>)
    moreover have "List.find (\<lambda>x. x \<in> set (kids d) \<and> ?P x) (kids d) = List.find ?P (kids d)"
      by (rule find_cong) auto
    ultimately show ?thesis by simp
  qed
  then show ?thesis using find_ptr_chain [OF c(1), of ?P] by (simp add: pt_desc_get_from_parent_def)
qed

lemma map_loop_index:
  assumes "pt_inv s ds kids" and "d \<in> set ds" and "idx_ok s d is" and "vm_index meta = pre @ is" and "length (vm_index meta) = 3"
  shows "pd_level (ps_desc s d) \<noteq> 0" and "unat (pd_level (ps_desc s d)) \<le> length (vm_index meta)"
    and "vm_index meta ! (unat (pd_level (ps_desc s d)) - 1) = hd is" and "is \<noteq> []" and "hd is < 512" and "lvl s d \<le> 3"
proof -
  have l: "lvl s d \<in> {1, 2, 3}" using assms(1,2) by (auto simp: pt_inv_def descs_ok_def)
  show ne: "is \<noteq> []" using assms(3) l by (auto simp: idx_ok_def)
  show "pd_level (ps_desc s d) \<noteq> 0" using l by (auto simp: lvl_def)
  show "unat (pd_level (ps_desc s d)) \<le> length (vm_index meta)" using l assms(5) by (auto simp: lvl_def)
  show "lvl s d \<le> 3" using l by auto
  have "lvl s d - 1 = length pre" using assms(3-5) by (auto simp: idx_ok_def)
  then show "vm_index meta ! (unat (pd_level (ps_desc s d)) - 1) = hd is"
    using ne assms(4) by (simp add: lvl_def nth_append hd_conv_nth)
  show "hd is < 512" using assms(3) ne by (simp add: idx_ok_def)
qed

lemma map_loop_down:
  assumes "pt_inv s ds kids" and "d \<in> set ds" and "idx_ok s d (i # j # js)" and "vm_index meta = pre @ i # j # js"
    and "length (vm_index meta) = 3" and "y \<in> set (kids d)" and "link s (ent s d i) y"
  shows "map_loop (lvl s d) d meta va f w s = map_loop (lvl s y) y meta va f w s"
    and "y \<in> set ds" and "idx_ok s y (j # js)" and "lvl s y = Suc (lvl s d)"
proof -
  show y: "y \<in> set ds" "lvl s y = Suc (lvl s d)" using assms(1,2,6) by (auto simp: pt_inv_def kids_ok_def)
  then show "idx_ok s y (j # js)" using assms(3) by (simp add: idx_ok_def)
  have i: "i < 512" "lvl s d < 3" using assms(3) by (auto simp: idx_ok_def)
  have "read_mem (pd_pt (ps_desc s d) + 8 * i) s = ent s d i"
    using assms(1,2) i(1) slot_addr by (auto simp: read_mem_def ent_def pt_inv_def)
  moreover have "ent s d i \<noteq> 0" using assms(7) by (auto simp: link_def)
  ultimately show "map_loop (lvl s d) d meta va f w s = map_loop (lvl s y) y meta va f w s"
    using map_loop_index [OF assms(1-5)] get_from_parent [OF assms(1,2,6,7)] i(2) y(2)
    by (subst map_loop.simps) (simp add: Let_def pte_is_empty_def)
qed

lemma map_loop_new:
  assumes "pt_inv s ds kids" and "d \<in> set ds" and "idx_ok s d (i # j # js)" and "vm_index meta = pre @ i # j # js"
    and "length (vm_index meta) = 3" and "ent s d i = 0" and "ps_heap s = p # hs" and "unat (ps_ctr s) < MAX_DESCS"
    and "flags_ok f"
  obtains n s' where "added s ds kids d i f p n hs s'"
    and "\<And>va w. map_loop (lvl s d) d meta va f w s = map_loop (lvl s' n) n meta va f w s'"
proof -
  have i: "i < 512" "lvl s d < 3" using assms(3) by (auto simp: idx_ok_def)
  from create_added [OF assms(1,2) i assms(7,8), of f] obtain n s1 s' where
    c: "create_pt 0 (pd_level (ps_desc s d) + 1) s = Inr (Some n, s1)"
    "pt_desc_add_child d n (place_pt_entry d (pt_entry (pd_pt (ps_desc s1 n)) f) (uint i) s1) = Inr s'"
    and a: "added s ds kids d i f p n hs s'" by blast
  have "read_mem (pd_pt (ps_desc s d) + 8 * i) s = 0"
    using assms(1,2,6) i(1) slot_addr by (auto simp: read_mem_def ent_def pt_inv_def)
  then have "map_loop (lvl s d) d meta va f w s = map_loop (lvl s' n) n meta va f w s'" for va w
    using map_loop_index [OF assms(1-5)] c i(2) a
    by (subst map_loop.simps) (simp add: Let_def pte_is_empty_def added_def)
  with a show thesis by (rule that)
qed

definition last_level :: "va_metadata \<Rightarrow> u64 \<Rightarrow> u64 \<Rightarrow> bool \<Rightarrow> u64 \<Rightarrow> u64 \<Rightarrow> pt_state \<Rightarrow> (u64 option \<times> pt_state) result" where
  "last_level meta va f w c k s =
     (if w then Inr (Some (pd_pt (ps_desc s c) + 8 * k), s)
      else Inr (Some va, write_mem (pd_pt (ps_desc s c) + 8 * k) (pt_entry (vm_offset meta) f) s))"

text \<open>A path that is there is followed, and nothing is allocated.\<close>

lemma map_loop_path:
  assumes "pt_inv s ds kids" and "length (vm_index meta) = 3"
  shows "d \<in> set ds \<Longrightarrow> idx_ok s d is \<Longrightarrow> vm_index meta = pre @ is \<Longrightarrow> leads s kids d is c \<Longrightarrow>
    map_loop (lvl s d) d meta va f w s = last_level meta va f w c (last is) s"
proof (induction "is" arbitrary: d pre)
  case (Cons i "is")
  note ix = map_loop_index [OF assms(1) Cons.prems(1-3) assms(2)]
  show ?case
  proof (cases "is")
    case Nil
    then have "lvl s d = 3" using Cons.prems(2) by (simp add: idx_ok_def)
    then show ?thesis using ix Cons.prems(4) Nil by (subst map_loop.simps) (simp add: Let_def last_level_def)
  next
    case (Cons j js)
    then obtain y where y: "y \<in> set (kids d)" "link s (ent s d i) y" "leads s kids y is c"
      using Cons.prems(4) by auto
    have ix': "idx_ok s d (i # j # js)" "vm_index meta = pre @ i # j # js" using Cons.prems(2,3) Cons by simp_all
    note dn = map_loop_down [OF assms(1) Cons.prems(1) ix' assms(2) y(1,2)]
    from dn(1) [of va f w] dn(2-4) Cons.IH [of y "pre @ [i]"] y(3) Cons.prems(3) Cons show ?thesis by simp
  qed
qed simp

definition spent :: "nat \<Rightarrow> pt_state \<Rightarrow> pt_state \<Rightarrow> bool" where
  "spent m s s' \<longleftrightarrow> (\<exists>n<m. ps_heap s' = drop n (ps_heap s) \<and> unat (ps_ctr s') = unat (ps_ctr s) + n)"

lemma spent_Suc: "spent m s s' \<Longrightarrow> spent (Suc m) s s'"
  unfolding spent_def by (metis less_SucI)

lemma spent_refl: "spent (Suc m) s s"
  unfolding spent_def by (rule exI [of _ 0]) simp

text \<open>In general at most one table per remaining level is added.\<close>

lemma map_loop_grow:
  assumes "length (vm_index meta) = 3" and "flags_ok f"
  shows "pt_inv s ds kids \<Longrightarrow> d \<in> set ds \<Longrightarrow> idx_ok s d is \<Longrightarrow> vm_index meta = pre @ is \<Longrightarrow>
    length is \<le> Suc (length (ps_heap s)) \<Longrightarrow> unat (ps_ctr s) + length is \<le> Suc MAX_DESCS \<Longrightarrow>
    \<exists>s' ds' kids' c. pt_inv s' ds' kids' \<and> grown s ds kids s' ds' kids' \<and> c \<in> set ds' \<and> lvl s' c = 3 \<and>
      leads s' kids' d is c \<and>
      spent (length is) s s' \<and>
      (\<forall>va w. map_loop (lvl s d) d meta va f w s = last_level meta va f w c (last is) s')"
proof (induction "is" arbitrary: s ds kids d pre)
  case (Cons i "is")
  note p = Cons.prems
  show ?case
  proof (cases "is")
    case Nil
    then have "lvl s d = 3" using p(3) by (simp add: idx_ok_def)
    then show ?thesis
      using p(1,2) Nil grown_refl spent_refl map_loop_path [OF p(1) assms(1) p(2-4), of d] by (intro exI conjI) auto
  next
    case (Cons j js)
    have ix: "idx_ok s d (i # j # js)" "vm_index meta = pre @ i # j # js" using p(3,4) Cons by simp_all
    have i: "i < 512" "lvl s d < 3" using ix by (auto simp: idx_ok_def)
    show ?thesis
    proof (cases "ent s d i = 0")
      case False
      then obtain y where y: "y \<in> set (kids d)" "link s (ent s d i) y"
        using entry_kid [OF p(1,2) i(2,1)] by blast
      note dn = map_loop_down [OF p(1,2) ix assms(1) y]
      obtain s' ds' kids' c where IH: "pt_inv s' ds' kids'" "grown s ds kids s' ds' kids'" "c \<in> set ds'" "lvl s' c = 3"
        "leads s' kids' y (j # js) c"
        "spent (length is) s s'"
        "\<forall>va w. map_loop (lvl s y) y meta va f w s = last_level meta va f w c (last is) s'"
        using Cons.IH [OF p(1) dn(2), of "pre @ [i]"] dn(3) p(4-6) Cons by auto
      have "leads s' kids' d (i # is) c" using leads_grown [OF p(1) IH(2) p(2) y(1) i(1) y(2) IH(5)] Cons by simp
      moreover have "spent (length (i # is)) s s'"
        using IH(6) by (simp add: spent_Suc)
      ultimately show ?thesis using IH(1-4,7) dn(1) Cons by (intro exI conjI) auto
    next
      case True
      obtain q hs where h: "ps_heap s = q # hs" using p(5) Cons by (cases "ps_heap s") auto
      have ctr: "unat (ps_ctr s) < MAX_DESCS" using p(6) Cons by simp
      obtain n s1 where n: "added s ds kids d i f q n hs s1"
        "\<And>va w. map_loop (lvl s d) d meta va f w s = map_loop (lvl s1 n) n meta va f w s1"
        using map_loop_new [OF p(1,2) ix assms(1) True h ctr assms(2)] by blast
      let ?kids = "kids(d := kids d @ [n], n := [])"
      have inv1: "pt_inv s1 (n # ds) ?kids" and link: "link s1 (ent s1 d i) n"
        using added_inv [OF p(1) n(1) p(2) i assms(2) True] by blast+
      have gr: "grown s ds kids s1 (n # ds) ?kids" by (rule added_grown [OF p(1) n(1) p(2) i assms(2) True])
      have idx1: "idx_ok s1 n is" using p(3) n(1) by (auto simp: idx_ok_def added_def)
      have c1: "unat (ps_ctr s + 1) = Suc (unat (ps_ctr s))"
        using ctr by (subst unat_plus_simple [THEN iffD1]) (auto simp: no_olen_add_nat)
      obtain s' ds' kids' c where IH: "pt_inv s' ds' kids'" "grown s1 (n # ds) ?kids s' ds' kids'" "c \<in> set ds'" "lvl s' c = 3"
        "leads s' kids' n (j # js) c"
        "spent (length is) s1 s'"
        "\<forall>va w. map_loop (lvl s1 n) n meta va f w s1 = last_level meta va f w c (last is) s'"
      proof -
        have "ps_heap s1 = hs" "ps_ctr s1 = ps_ctr s + 1" using n(1) h by (auto simp: added_def)
        then have "vm_index meta = (pre @ [i]) @ is" "length is \<le> Suc (length (ps_heap s1))"
          "unat (ps_ctr s1) + length is \<le> Suc MAX_DESCS" using p(4-6) h c1 by simp_all
        from Cons.IH [OF inv1 _ idx1 this] that show ?thesis unfolding Cons by fastforce
      qed
      have nd: "n \<noteq> d" using n(1) p(2) by (auto simp: added_def)
      have "leads s' kids' d (i # is) c"
        using leads_grown [OF inv1 IH(2) _ _ i(1) link IH(5)] p(2) nd Cons by simp
      moreover have "spent (length (i # is)) s s'"
      proof -
        obtain m where m: "m < length is" "ps_heap s' = drop m (ps_heap s1)" "unat (ps_ctr s') = unat (ps_ctr s1) + m"
          using IH(6) by (auto simp: spent_def)
        have "ps_heap s1 = hs" "ps_ctr s1 = ps_ctr s + 1" using n(1) h by (auto simp: added_def)
        then show ?thesis unfolding spent_def using m h c1 by (intro exI [of _ "Suc m"]) simp
      qed
      ultimately show ?thesis using IH(1,3,4,7) n(2) grown_trans [OF gr IH(2)] Cons by (intro exI conjI) auto
    qed
  qed
next
  case Nil
  then show ?case by (auto simp: idx_ok_def pt_inv_def descs_ok_def)
qed

end
