(* ===== verification/Page_Table_Props.thy ===== *)
theory Page_Table_Props
  imports Page_Table_Tree
begin

text \<open>
  What the mapping functions of pt.c, mm.c and usr\_entry.c do to the translation of the
  hardware. The walk of the tables is stated on the memory alone (hw\_walk); the theorems
  say how it changes. The invariant of the tables and the lemmas on the path of an
  address are those of Page\_Table\_Tree.
\<close>

section \<open>Writing a leaf\<close>

lemma write_inv:
  assumes "pt_inv s ds kids" and "c \<in> set ds" and "lvl s c = 3" and "k < 512"
  shows "pt_inv (write_mem (pd_pt (ps_desc s c) + 8 * k) v s) ds kids"
    and "ps_mem (write_mem (pd_pt (ps_desc s c) + 8 * k) v s) = (ps_mem s)(tbl s c + 8 * k := v)"
proof -
  let ?s = "write_mem (pd_pt (ps_desc s c) + 8 * k) v s"
  note inv = assms(1) [unfolded pt_inv_def]
  have ds: "descs_ok s ds" using inv by simp
  have sl: "va_to_pa (pd_pt (ps_desc s c) + 8 * k) = tbl s c + 8 * k" by (rule slot_addr [OF ds assms(2,4)])
  show m: "ps_mem ?s = (ps_mem s)(tbl s c + 8 * k := v)" by (simp add: sl)
  have t: "tbl ?s x = tbl s x" "lvl ?s x = lvl s x" "link ?s e x = link s e x" for x e by (simp_all add: tbl_def lvl_def link_def)
  have e: "ent ?s x i = ent s x i" if "x \<in> set ds" "lvl s x < 3" "i < 512" for x i
    using desc_slot_eq [OF ds that(1) assms(2) that(3) assms(4)] that(2) assms(3) by (auto simp: ent_def t(1) sl)
  have "descs_ok ?s ds" using ds by (simp add: descs_ok_def t inj_on_def)
  moreover have "kids_ok ?s ds kids" using inv by (simp add: kids_ok_def t)
  moreover have "entries_ok ?s ds kids" using inv e by (simp add: entries_ok_def t)
  moreover have "heap_ok ?s ds"
  proof -
    have "va_to_pa p + 8 * i \<noteq> tbl s c + 8 * k" if "p \<in> set (ps_heap s)" "i < 512" for p i
    proof -
      have "page_ok p" "va_to_pa p \<noteq> tbl s c" using inv that(1) assms(2) by (auto simp: heap_ok_def)
      then show ?thesis using slot_eq [OF page_ok_page tbl_page [OF ds assms(2)] that(2) assms(4)] by blast
    qed
    then show ?thesis using inv by (auto simp: heap_ok_def t sl)
  qed
  moreover have "alloc_ok ?s ds" using inv by (simp add: alloc_ok_def)
  ultimately show "pt_inv ?s ds kids" by (simp add: pt_inv_def)
qed

section \<open>Pages of virtual addresses\<close>

abbreviation VA_PAGE :: u64 where "VA_PAGE \<equiv> 0x7FFFFFF000"

lemma bit_9: "bit (0x1FF :: u64) n \<longleftrightarrow> n < 9"
proof -
  have e: "(0x1FF :: u64) = mask 9" by (simp add: mask_eq_exp_minus_1)
  show ?thesis unfolding e bit_mask_iff by auto
qed

lemma bit_va_page: "bit VA_PAGE n \<longleftrightarrow> 12 \<le> n \<and> n < 39"
proof -
  have e: "VA_PAGE = push_bit 12 (mask 27)" by (simp add: mask_eq_exp_minus_1)
  show ?thesis unfolding e bit_push_bit_iff bit_mask_iff by auto
qed

lemma va_index_eq:
  "vm_index (extract_va_metadata a) = vm_index (extract_va_metadata b) \<longleftrightarrow> a AND VA_PAGE = b AND VA_PAGE"
proof
  assume "a AND VA_PAGE = b AND VA_PAGE"
  then have "drop_bit n (a AND VA_PAGE) AND 0x1FF = drop_bit n (b AND VA_PAGE) AND 0x1FF" for n by simp
  then have *: "drop_bit n a AND (drop_bit n VA_PAGE AND 0x1FF) = drop_bit n b AND (drop_bit n VA_PAGE AND 0x1FF)" for n
    by (simp only: drop_bit_and and.assoc)
  show "vm_index (extract_va_metadata a) = vm_index (extract_va_metadata b)"
    using * [of 12] * [of 21] * [of 30] by (simp add: extract_va_metadata_def)
next
  assume "vm_index (extract_va_metadata a) = vm_index (extract_va_metadata b)"
  then have "drop_bit k a AND 0x1FF = drop_bit k b AND 0x1FF" if "k \<in> {12, 21, 30}" for k
    using that by (auto simp: extract_va_metadata_def)
  then have "bit (drop_bit k a AND 0x1FF) m = bit (drop_bit k b AND 0x1FF) m" if "k \<in> {12, 21, 30}" for k m
    using that by simp
  then have *: "bit a (k + m) = bit b (k + m)" if "k \<in> {12, 21, 30}" "m < 9" for k m
    using that by (simp only: bit_and_iff bit_drop_bit_eq o_def bit_9) blast
  have "bit a n = bit b n" if "12 \<le> n" "n < 39" for n
  proof -
    consider "n < 21" | "21 \<le> n" "n < 30" | "30 \<le> n" by linarith
    then show ?thesis
    proof cases
      case 1
      with that * [of 12 "n - 12"] show ?thesis by simp
    next
      case 2
      with * [of 21 "n - 21"] show ?thesis by simp
    next
      case 3
      with that * [of 30 "n - 30"] show ?thesis by simp
    qed
  qed
  then show "a AND VA_PAGE = b AND VA_PAGE" by (intro bit_eqI) (simp only: bit_and_iff bit_va_page, blast)
qed

definition phys_page :: "u64 \<Rightarrow> u64" where
  "phys_page pa = (if KERNEL_START < pa then pa - KERNEL_START else pa)"

lemma pt_entry_leaf:
  assumes "phys_page pa AND TABLE_MASK = phys_page pa" and "flags_ok f"
  shows "pt_entry pa f AND 3 = 3" and "pt_entry pa f AND TABLE_MASK = phys_page pa"
proof -
  have "pt_entry pa f = phys_page pa OR f" by (simp add: pt_entry_def phys_page_def Let_def)
  moreover have "phys_page pa AND 3 = 0" using and_mask_via [OF assms(1), of 3] by simp
  ultimately show "pt_entry pa f AND 3 = 3" "pt_entry pa f AND TABLE_MASK = phys_page pa"
    using assms flags_table_mask [OF assms(2)] by (simp_all add: bit.conj_disj_distrib2 flags_ok_def)
qed

section \<open>What a mapping does\<close>

definition pt_ok :: "pt_state \<Rightarrow> u64 \<Rightarrow> bool" where
  "pt_ok s pt_top \<longleftrightarrow> (\<exists>ds kids. pt_inv s ds kids \<and> pt_top \<in> set ds \<and> lvl s pt_top = 1)"

lemma va_indices: "length (vm_index (extract_va_metadata a)) = 3" "\<forall>i\<in>set (vm_index (extract_va_metadata a)). i < 512"
  by (auto simp: extract_va_metadata_def index_bound)

lemma top_idx: "lvl s pt_top = 1 \<Longrightarrow> idx_ok s pt_top (vm_index (extract_va_metadata a))"
  using va_indices [of a] by (simp add: idx_ok_def)

text \<open>The entry of the last level that the hardware finds, from which it takes page and attributes.\<close>

definition hw_leaf :: "(u64 \<Rightarrow> u64) \<Rightarrow> u64 \<Rightarrow> u64 \<Rightarrow> u64 option" where
  "hw_leaf m t a = hw_entry m t (vm_index (extract_va_metadata a))"

lemma hw_walk_leaf: "hw_walk m t a = map_option (\<lambda>e. (e AND TABLE_MASK) OR (a AND 0xFFF)) (hw_leaf m t a)"
  by (simp add: hw_walk_def hw_leaf_def)

definition hw_attr :: "(u64 \<Rightarrow> u64) \<Rightarrow> u64 \<Rightarrow> u64 \<Rightarrow> u64 option" where
  "hw_attr m t a = map_option (\<lambda>e. e AND NOT TABLE_MASK) (hw_leaf m t a)"

text \<open>A walk reads the tables of its tree and nothing else.\<close>

lemma hw_entry_frame:
  assumes "pt_inv s ds kids" and "\<And>x i. x \<in> set ds \<Longrightarrow> i < 512 \<Longrightarrow> m (tbl s x + 8 * i) = ps_mem s (tbl s x + 8 * i)"
  shows "d \<in> set ds \<Longrightarrow> idx_ok s d is \<Longrightarrow> hw_entry m (tbl s d) is = hw_entry (ps_mem s) (tbl s d) is"
proof (induction "is" arbitrary: d)
  case (Cons i "is")
  have i: "i < 512" using Cons.prems(2) by (simp add: idx_ok_def)
  show ?case
  proof (cases "is = [] \<or> ent s d i = 0")
    case True
    then show ?thesis using assms(2) [OF Cons.prems(1) i] by (auto simp: ent_def Let_def)
  next
    case False
    then have l: "lvl s d < 3" using Cons.prems(2) by (cases "is") (auto simp: idx_ok_def)
    obtain y where y: "y \<in> set (kids d)" "link s (ent s d i) y"
      using entry_kid [OF assms(1) Cons.prems(1) l i] False by blast
    have "y \<in> set ds" "lvl s y = Suc (lvl s d)" using assms(1) Cons.prems(1) y(1) by (auto simp: pt_inv_def kids_ok_def)
    moreover from this have "idx_ok s y is" using Cons.prems(2) by (auto simp: idx_ok_def)
    ultimately have "hw_entry m (tbl s y) is = hw_entry (ps_mem s) (tbl s y) is" by (intro Cons.IH)
    then show ?thesis using assms(2) [OF Cons.prems(1) i] y(2) by (simp add: ent_def link_def Let_def)
  qed
qed simp

text \<open>Writing the leaf entry of one page.\<close>

lemma leaf_write:
  assumes "pt_inv s ds kids" and "pt_top \<in> set ds" and "lvl s pt_top = 1" and "c \<in> set ds" and "lvl s c = 3"
    and "leads s kids pt_top (vm_index (extract_va_metadata va)) c" and "k = last (vm_index (extract_va_metadata va))"
    and "v AND 3 = 3"
  shows "hw_leaf ((ps_mem s)(tbl s c + 8 * k := v)) (tbl s pt_top) a =
    (if a AND VA_PAGE = va AND VA_PAGE then Some v else hw_leaf (ps_mem s) (tbl s pt_top) a)"
proof -
  let ?ix = "\<lambda>a. vm_index (extract_va_metadata a)"
  have ne: "?ix a \<noteq> []" for a using va_indices(1) [of a] by auto
  have k: "k < 512" using assms(7) va_indices(2) [of va] ne by auto
  have same: "leads s kids pt_top (?ix a) c \<and> last (?ix a) = k \<longleftrightarrow> a AND VA_PAGE = va AND VA_PAGE"
  proof
    assume l: "leads s kids pt_top (?ix a) c \<and> last (?ix a) = k"
    have "butlast (?ix a) = butlast (?ix va)"
      using leads_unique [OF assms(1,2,2) top_idx top_idx _ conjunct1 [OF l] assms(6)] assms(3) va_indices(1) by simp
    then have "?ix a = ?ix va" using l assms(7) append_butlast_last_id [OF ne] by metis
    then show "a AND VA_PAGE = va AND VA_PAGE" by (simp add: va_index_eq)
  next
    assume "a AND VA_PAGE = va AND VA_PAGE"
    then have "?ix a = ?ix va" by (simp add: va_index_eq)
    then show "leads s kids pt_top (?ix a) c \<and> last (?ix a) = k" using assms(6,7) by simp
  qed
  show ?thesis
    using hw_entry_write [OF assms(1,4,5) k assms(2) top_idx [OF assms(3), of a], of v] assms(8)
    unfolding hw_leaf_def same by simp
qed

lemma leads_write:
  assumes "pt_inv s ds kids" and "c \<in> set ds" and "lvl s c = 3" and "k < 512"
  shows "x \<in> set ds \<Longrightarrow> idx_ok s x is \<Longrightarrow> leads s kids x is e \<Longrightarrow>
    leads (write_mem (pd_pt (ps_desc s c) + 8 * k) v s) kids x is e"
proof (induction "is" arbitrary: x)
  case (Cons i "is")
  let ?s = "write_mem (pd_pt (ps_desc s c) + 8 * k) v s"
  show ?case
  proof (cases "is")
    case Nil
    then show ?thesis using Cons.prems by simp
  next
    case (Cons j js)
    obtain y where y: "y \<in> set (kids x)" "ent s x i \<noteq> 0" "link s (ent s x i) y" "leads s kids y (j # js) e"
      using Cons.prems(3) Cons by auto
    have "lvl s x < 3" "i < 512" using Cons.prems(2) Cons by (auto simp: idx_ok_def)
    moreover have "descs_ok s ds" using assms(1) by (simp add: pt_inv_def)
    ultimately have "ent ?s x i = ent s x i"
      using desc_slot_eq [of s ds x c i k] Cons.prems(1) assms(2-4) write_inv(2) [OF assms, of v]
      by (auto simp: ent_def tbl_def simp del: pt_state_simps(6))
    moreover have "link ?s (ent s x i) y" using y(3) by (simp add: link_def tbl_def)
    moreover have "y \<in> set ds" "lvl s y = Suc (lvl s x)" using assms(1) Cons.prems(1) y(1) by (auto simp: pt_inv_def kids_ok_def)
    then have "leads ?s kids y (j # js) e"
      using Cons.IH [of y] Cons.prems(2) y(4) Cons by (auto simp: idx_ok_def)
    ultimately show ?thesis using y(1,2) Cons by auto
  qed
qed simp

lemma leads_butlast: "leads s kids d is c \<Longrightarrow> butlast is = butlast is' \<Longrightarrow> length is = length is' \<Longrightarrow> leads s kids d is' c"
proof (induction "is" arbitrary: d is')
  case (Cons i "is")
  show ?case
  proof (cases "is")
    case Nil
    then show ?thesis using Cons.prems by (cases is') auto
  next
    case (Cons j js)
    then obtain is2 where is2: "is' = i # is2" "butlast is = butlast is2" "length is = length is2"
      using Cons.prems(2,3) by (cases is') (auto split: if_splits)
    then obtain k ks where k: "is2 = k # ks" using Cons by (cases is2) auto
    obtain y where y: "y \<in> set (kids d)" "ent s d i \<noteq> 0" "link s (ent s d i) y" "leads s kids y is c"
      using Cons.prems(1) Cons by auto
    from Cons.IH [OF y(4) is2(2,3)] y(1-3) show ?thesis unfolding is2(1) k by auto
  qed
qed simp

text \<open>One call of map_pa_to_va_pg: with the path at hand it takes no page, else at most two.\<close>

definition path_to :: "pt_state \<Rightarrow> u64 list \<Rightarrow> (u64 \<Rightarrow> u64 list) \<Rightarrow> u64 \<Rightarrow> u64 \<Rightarrow> bool" where
  "path_to s ds kids pt_top a \<longleftrightarrow> (\<exists>c\<in>set ds. lvl s c = 3 \<and> leads s kids pt_top (vm_index (extract_va_metadata a)) c)"

lemma map_page:
  assumes t: "pt_inv s ds kids" "pt_top \<in> set ds" "lvl s pt_top = 1"
    and room: "path_to s ds kids pt_top va \<and> m = 1 \<or> 2 \<le> length (ps_heap s) \<and> unat (ps_ctr s) \<le> 126 \<and> m = 3"
    and va: "va AND 0xFFF = 0" and pa: "phys_page pa AND TABLE_MASK = phys_page pa" and fl: "flags = 0 \<or> flags_ok flags"
  obtains s' ds' kids' where "map_pa_to_va_pg pa va pt_top flags False s = Inr (Some va, s')"
    and "pt_inv s' ds' kids'" and "pt_top \<in> set ds'" and "lvl s' pt_top = 1" and "tbl s' pt_top = tbl s pt_top"
    and "\<And>a. hw_walk (ps_mem s') (tbl s pt_top) a =
       (if a AND VA_PAGE = va AND VA_PAGE then Some (phys_page pa OR (a AND 0xFFF)) else hw_walk (ps_mem s) (tbl s pt_top) a)"
    and "path_to s' ds' kids' pt_top va" and "spent m s s'" and "ps_global s' = ps_global s"
    and "\<And>a. hw_leaf (ps_mem s') (tbl s pt_top) a =
       (if a AND VA_PAGE = va AND VA_PAGE then Some (pt_entry pa (if flags = 0 then PTE_FLAGS_KERNEL_GENERIC else flags))
        else hw_leaf (ps_mem s) (tbl s pt_top) a)"
    and "framed (own s ds) s s'" and "own s' ds' \<subseteq> own s ds" and "desc_framed s ds s' ds'"
proof -
  let ?meta = "(extract_va_metadata va)\<lparr>vm_offset := vm_offset (extract_va_metadata va) + pa\<rparr>"
  let ?is = "vm_index (extract_va_metadata va)"
  define f where "f = (if flags = 0 then PTE_FLAGS_KERNEL_GENERIC else flags)"
  have f: "flags_ok f" using fl by (auto simp: f_def)
  have off: "vm_offset ?meta = pa" using va by (simp add: extract_va_metadata_def)
  then have mp: "map_pa_to_va_pg pa va pt_top flags w s = map_loop (lvl s pt_top) pt_top ?meta va f w s" for w
    by (simp add: map_pa_to_va_pg_def f_def lvl_def)
  have ix: "length (vm_index ?meta) = 3" "vm_index ?meta = [] @ ?is" using va_indices(1) [of va] by simp_all
  have ne: "?is \<noteq> []" using va_indices(1) [of va] by auto
  have k: "last ?is < 512" using va_indices(2) [of va] ne by auto
  obtain s1 ds1 kids1 c where
    s1: "pt_inv s1 ds1 kids1" "grown s ds kids s1 ds1 kids1" "c \<in> set ds1" "lvl s1 c = 3" "leads s1 kids1 pt_top ?is c"
    and r: "map_loop (lvl s pt_top) pt_top ?meta va f False s = last_level ?meta va f False c (last ?is) s1"
    and sp: "spent m s s1"
  proof (cases "path_to s ds kids pt_top va \<and> m = 1")
    case True
    then obtain c where "c \<in> set ds" "lvl s c = 3" "leads s kids pt_top ?is c" by (auto simp: path_to_def)
    then show thesis
      using that t(1) grown_refl map_loop_path [OF t(1) ix(1) t(2) top_idx [OF t(3)] ix(2)] True spent_refl [of 0 s] by auto
  next
    case False
    then show thesis
      using that map_loop_grow [OF ix(1) f t(1,2) top_idx [OF t(3)] ix(2)] room va_indices(1) [of va] by auto
  qed
  have pt: "tbl s1 pt_top = tbl s pt_top" "lvl s1 pt_top = 1" "pt_top \<in> set ds1" using grown_simps [OF s1(2) t(2)] t(3) by simp_all
  have old: "hw_leaf (ps_mem s1) (tbl s pt_top) a = hw_leaf (ps_mem s) (tbl s pt_top) a" for a
    using s1(2) t(2) top_idx [OF t(3), of a] by (simp add: grown_def hw_leaf_def)
  let ?s' = "write_mem (pd_pt (ps_desc s1 c) + 8 * last ?is) (pt_entry pa f) s1"
  note w = write_inv [OF s1(1,3,4) k, of "pt_entry pa f"]
  have leaf: "hw_leaf (ps_mem ?s') (tbl s pt_top) a =
       (if a AND VA_PAGE = va AND VA_PAGE then Some (pt_entry pa f) else hw_leaf (ps_mem s) (tbl s pt_top) a)" for a
    using leaf_write [OF s1(1) pt(3,2) s1(3-5) refl pt_entry_leaf(1) [OF pa f], of a]
    unfolding w(2) by (simp add: pt(1) old)
  have own1: "own s1 ds1 \<subseteq> own s ds" "framed (own s ds) s s1" using s1(2) by (simp_all add: grown_def)
  have "framed (own s1 ds1) s1 ?s'"
    by (rule framed_write [OF _ k w(2)]) (use s1(3) in \<open>simp add: own_def\<close>)
  then have fr: "framed (own s ds) s ?s'" using framed_trans [OF own1(2) _ own1(1)] by blast
  show thesis
  proof (rule that [of ?s' ds1 kids1])
    show "map_pa_to_va_pg pa va pt_top flags False s = Inr (Some va, ?s')"
      using r mp off by (simp add: last_level_def)
    show "hw_walk (ps_mem ?s') (tbl s pt_top) a =
       (if a AND VA_PAGE = va AND VA_PAGE then Some (phys_page pa OR (a AND 0xFFF)) else hw_walk (ps_mem s) (tbl s pt_top) a)" for a
      unfolding hw_walk_leaf leaf using pt_entry_leaf(2) [OF pa f] by simp
    show "hw_leaf (ps_mem ?s') (tbl s pt_top) a =
       (if a AND VA_PAGE = va AND VA_PAGE then Some (pt_entry pa (if flags = 0 then PTE_FLAGS_KERNEL_GENERIC else flags))
        else hw_leaf (ps_mem s) (tbl s pt_top) a)" for a
      using leaf [of a] by (simp only: f_def)
    show "framed (own s ds) s ?s'" by (rule fr)
    show "desc_framed s ds ?s' ds1" using s1(2) by (simp add: grown_def desc_framed_def)
    show "own ?s' ds1 \<subseteq> own s ds" using own1(1) by (simp add: own_def tbl_def)
    show "path_to ?s' ds1 kids1 pt_top va"
      using s1(3,4) leads_write [OF s1(1,3,4) k pt(3) top_idx [OF pt(2)] s1(5)] by (auto simp: path_to_def lvl_def)
    show "spent m s ?s'" using sp by (simp add: spent_def)
    show "ps_global ?s' = ps_global s" using s1(2) by (simp add: grown_def)
  qed (use w(1) pt in \<open>auto simp: lvl_def tbl_def\<close>)
qed

text \<open>
  C16. map_pa_to_va_pg, on well formed tables and with two empty pages at hand, returns the
  virtual address, keeps the tables well formed, and changes the translation of the
  hardware exactly as asked: every address in the page of va is translated to the same
  offset in the page of pa, and all other addresses as before.
\<close>

theorem map_pa_to_va_pg_translates:
  assumes "pt_ok s pt_top" and "2 \<le> length (ps_heap s)" and "unat (ps_ctr s) \<le> 126"
    and "va AND 0xFFF = 0" and "phys_page pa AND TABLE_MASK = phys_page pa" and "flags = 0 \<or> flags_ok flags"
  shows "\<exists>s'. map_pa_to_va_pg pa va pt_top flags False s = Inr (Some va, s') \<and> pt_ok s' pt_top \<and> tbl s' pt_top = tbl s pt_top \<and>
    (\<forall>a. hw_walk (ps_mem s') (tbl s pt_top) a =
       (if a AND VA_PAGE = va AND VA_PAGE then Some (phys_page pa OR (a AND 0xFFF)) else hw_walk (ps_mem s) (tbl s pt_top) a))"
proof -
  obtain ds kids where t: "pt_inv s ds kids" "pt_top \<in> set ds" "lvl s pt_top = 1" using assms(1) by (auto simp: pt_ok_def)
  show ?thesis
    by (rule map_page [OF t _ assms(4-6), of 3]) (use assms(2,3) in \<open>auto simp: pt_ok_def\<close>)
qed

definition demo_tables :: pt_state where
  "demo_tables = \<lparr>ps_mem = (\<lambda>_. 0), ps_desc = (\<lambda>_. zero_desc\<lparr>pd_level := 1, pd_pt := 0x100000\<rparr>),
     ps_global = Some 0x200000, ps_ctr = 1, ps_heap = [0x101000, KERNEL_START + 0x102000, 0x103000]\<rparr>"

lemma demo_tables_inv: "pt_inv demo_tables [0x200000] (\<lambda>_. [])"
proof -
  have "page_ok 0x100000" "page_ok 0x101000" "page_ok (KERNEL_START + 0x102000)" "page_ok 0x103000" "va_to_pa 0x100000 = 0x100000"
    "va_to_pa 0x101000 = 0x101000" "va_to_pa (KERNEL_START + 0x102000) = 0x102000" "va_to_pa 0x103000 = 0x103000"
    by (simp_all add: page_ok_def page_addr_def va_to_pa_def)
  moreover have "0x200000 + DESC_SIZE * word_of_nat k \<noteq> 0x200000" if "1 \<le> k" "k < MAX_DESCS" for k
    using desc_addr_eq [OF that(2), of 0 "0x200000"] that(1) by simp
  ultimately show ?thesis
    by (simp add: pt_inv_def descs_ok_def kids_ok_def entries_ok_def heap_ok_def alloc_ok_def demo_tables_def tbl_def lvl_def
        ent_def zero_desc_def)
qed

lemma demo_tables_ok: "pt_ok demo_tables 0x200000"
  unfolding pt_ok_def using demo_tables_inv
  by (intro exI [of _ "[0x200000]"] exI [of _ "\<lambda>_. []"]) (simp add: demo_tables_def lvl_def)

theorem map_pa_to_va_pg_translates_witness:
  "\<exists>s'. map_pa_to_va_pg 0x3F000000 0x3F000000 0x200000 PTE_FLAGS_NC False demo_tables = Inr (Some 0x3F000000, s') \<and>
     hw_walk (ps_mem s') 0x100000 0x3F000123 = Some 0x3F000123 \<and> hw_walk (ps_mem s') 0x100000 0x3F001000 = None"
proof -
  have h: "2 \<le> length (ps_heap demo_tables)" "unat (ps_ctr demo_tables) \<le> 126" "tbl demo_tables 0x200000 = 0x100000"
    by (simp_all add: demo_tables_def tbl_def va_to_pa_def)
  obtain s' where s': "map_pa_to_va_pg 0x3F000000 0x3F000000 0x200000 PTE_FLAGS_NC False demo_tables = Inr (Some 0x3F000000, s')"
    "\<forall>a. hw_walk (ps_mem s') 0x100000 a = (if a AND VA_PAGE = 0x3F000000 AND VA_PAGE then Some (phys_page 0x3F000000 OR (a AND 0xFFF))
       else hw_walk (ps_mem demo_tables) 0x100000 a)"
    using map_pa_to_va_pg_translates [OF demo_tables_ok h(1,2), of "0x3F000000" "0x3F000000" PTE_FLAGS_NC] h(3)
    by (auto simp: phys_page_def)
  moreover have "hw_walk (ps_mem demo_tables) 0x100000 0x3F001000 = None"
    by (simp add: hw_walk_def demo_tables_def extract_va_metadata_def)
  ultimately show ?thesis by (intro exI [of _ s']) (simp add: phys_page_def)
qed

end
