(* ===== verification/User_Map.thy ===== *)
theory User_Map
  imports Page_Table_Props
begin

text \<open>
  The address space of user mode that usr\_init (usr\_entry.c) builds with the functions of
  pt.c. Physical addresses below 2^32 are compared as numbers here; two table pages are
  needed for a 2 MB block that has no table of the last level yet.
\<close>

section \<open>Pages as numbers\<close>

lemma unat_low_part: "unat (b AND 0xFFF) = unat (b :: u64) mod 4096"
proof -
  have "(0xFFF :: u64) = mask 12" by (simp add: mask_eq_exp_minus_1)
  then have "b AND 0xFFF = take_bit 12 b" by (simp only: take_bit_eq_mask)
  then have "unat (b AND 0xFFF) = take_bit 12 (unat b)" by (simp only: unsigned_take_bit_eq)
  then show ?thesis by (simp add: take_bit_eq_mod)
qed

lemma unat_page_part: "unat (b AND NOT 0xFFF) = unat (b :: u64) div 4096 * 4096"
proof -
  have "(b AND NOT 0xFFF) AND (b AND 0xFFF) = b AND (NOT 0xFFF AND 0xFFF)" by (simp only: ac_simps and.left_idem)
  then have "(b AND NOT 0xFFF) AND (b AND 0xFFF) = 0" by simp
  then have "(b AND NOT 0xFFF) + (b AND 0xFFF) = (b AND NOT 0xFFF) OR (b AND 0xFFF)" by (rule disjunctive_add_eq_or)
  also have "\<dots> = b" by (simp only: bit.conj_disj_distrib [symmetric]) simp
  finally have s: "(b AND NOT 0xFFF) = b - (b AND 0xFFF)" by (simp only: eq_diff_eq)
  have "b AND 0xFFF \<le> b" by (subst and.commute) (rule word_and_le1)
  then have "unat (b AND NOT 0xFFF) = unat b - unat b mod 4096" unfolding s by (simp only: unat_sub unat_low_part)
  then show ?thesis by (simp only: minus_mod_eq_div_mult)
qed

lemma page_addr_iff: "page_addr q \<longleftrightarrow> unat q < 2 ^ 32 \<and> 4096 dvd unat q"
proof
  assume q: "page_addr q"
  then have "q \<le> 0xFFFFF000" using word_and_le1 [of q "0xFFFFF000"] by (simp add: page_addr_def)
  then have "unat q < 2 ^ 32" by (simp add: word_le_nat_alt)
  moreover have "q AND NOT 0xFFF = q"
    using q and_mask_via [of q "0xFFFFF000" "NOT 0xFFF"] by (simp add: page_addr_def)
  then have "unat q = unat q div 4096 * 4096" using unat_page_part [of q] by simp
  then have "4096 dvd unat q" by (metis dvd_triv_right)
  ultimately show "unat q < 2 ^ 32 \<and> 4096 dvd unat q" by simp
next
  assume q: "unat q < 2 ^ 32 \<and> 4096 dvd unat q"
  have "unat (take_bit 32 q) = unat q" using q by (simp add: unsigned_take_bit_eq take_bit_nat_eq_self)
  then have "take_bit 32 q = q" by (simp only: word_unat_eq_iff)
  moreover have "(0xFFFFFFFF :: u64) = mask 32" by (simp add: mask_eq_exp_minus_1)
  ultimately have a: "q AND 0xFFFFFFFF = q" by (simp only: take_bit_eq_mask)
  have n: "q AND NOT 0xFFF = q" using q unat_page_part [of q] by (simp add: word_unat_eq_iff)
  have "(q AND 0xFFFFFFFF) AND NOT 0xFFF = q" by (simp only: a n)
  then have "q AND (0xFFFFFFFF AND NOT 0xFFF) = q" by (simp only: and.assoc)
  moreover have "0xFFFFFFFF AND NOT 0xFFF = (0xFFFFF000 :: u64)" by simp
  ultimately show "page_addr q" by (simp only: page_addr_def)
qed

lemma page_ok_cases:
  assumes "page_ok p"
  obtains "page_addr (va_to_pa p)" "0 < unat (va_to_pa p)" "p = va_to_pa p"
  | "page_addr (va_to_pa p)" "0 < unat (va_to_pa p)" "p = KERNEL_START + va_to_pa p"
proof -
  have q: "page_addr (va_to_pa p)" "0 < unat (va_to_pa p)" using assms by (auto simp: page_ok_def unat_gt_0)
  from assms have "p = va_to_pa p \<or> p = KERNEL_START OR va_to_pa p" by (simp add: page_ok_def)
  then show thesis using that q kernel_plus [OF q(1)] by metis
qed

lemma va_to_pa_kernel: "page_addr q \<Longrightarrow> va_to_pa (KERNEL_START + q) = q"
proof -
  assume q: "page_addr q"
  have "va_to_pa KERNEL_START = 0" by (simp add: va_to_pa_def)
  then have "va_to_pa (KERNEL_START OR q) = q" using page_low [OF q] by (simp add: va_to_pa_or)
  then show ?thesis using kernel_plus [OF q] by simp
qed

lemma page_next:
  assumes "page_ok p" and "unat (va_to_pa p) + 4096 < 2 ^ 32"
  shows "page_ok (p + 0x1000)" and "va_to_pa (p + 0x1000) = va_to_pa p + 0x1000"
    and "unat (va_to_pa p + 0x1000) = unat (va_to_pa p) + 4096"
proof -
  let ?q = "va_to_pa p"
  show u: "unat (?q + 0x1000) = unat ?q + 4096"
    using assms(2) by (subst unat_plus_simple [THEN iffD1]) (auto simp: no_olen_add_nat)
  have "page_addr ?q" using assms(1) by (simp add: page_ok_def)
  then have q: "page_addr (?q + 0x1000)" using assms(2) u by (simp add: page_addr_iff)
  have ne: "?q + 0x1000 \<noteq> 0" using u by (metis add_is_0 unat_0 zero_neq_numeral)
  show v: "va_to_pa (p + 0x1000) = ?q + 0x1000"
    using assms(1)
  proof (cases rule: page_ok_cases)
    case 1
    have e: "p + 0x1000 = ?q + 0x1000" by (rule arg_cong [OF 1(3)])
    show ?thesis unfolding e by (rule page_low [OF q])
  next
    case 2
    have e: "p + 0x1000 = KERNEL_START + (?q + 0x1000)"
      unfolding add.assoc [symmetric] by (rule arg_cong [OF 2(3)])
    show ?thesis unfolding e by (rule va_to_pa_kernel [OF q])
  qed
  show "page_ok (p + 0x1000)"
    using assms(1)
  proof (cases rule: page_ok_cases)
    case 1
    have e: "p + 0x1000 = ?q + 0x1000" by (rule arg_cong [OF 1(3)])
    show ?thesis unfolding page_ok_def v by (intro conjI disjI1 q ne e)
  next
    case 2
    have e: "p + 0x1000 = KERNEL_START OR (?q + 0x1000)"
      unfolding kernel_plus [OF q] add.assoc [symmetric] by (rule arg_cong [OF 2(3)])
    show ?thesis unfolding page_ok_def v by (intro conjI disjI2 q ne e)
  qed
qed

lemma page_phys: "page_ok p \<Longrightarrow> phys_page p = va_to_pa p" "page_ok p \<Longrightarrow> p AND 0xFFF = 0"
proof -
  assume p: "page_ok p"
  have "phys_page p OR 0 = va_to_pa p OR 0"
    using pt_entry_page [OF p, of 0] by (simp only: pt_entry_def phys_page_def Let_def)
  then show "phys_page p = va_to_pa p" by simp
  show "p AND 0xFFF = 0"
    using p
  proof (cases rule: page_ok_cases)
    case 1
    have "va_to_pa p AND 0xFFF = 0" using offset_part [OF 1(1), of 0] by simp
    with arg_cong [OF 1(3), of "\<lambda>x. x AND 0xFFF"] show ?thesis by (rule trans)
  next
    case 2
    have k: "(KERNEL_START OR va_to_pa p) AND 0xFFF = 0"
      using offset_part [OF 2(1), of 0] by (simp add: bit.conj_disj_distrib2)
    have "p = KERNEL_START OR va_to_pa p" unfolding kernel_plus [OF 2(1)] by (rule 2(3))
    from arg_cong [OF this, of "\<lambda>x. x AND 0xFFF"] k show ?thesis by (rule trans)
  qed
qed

lemma in_page_iff:
  assumes "page_ok p"
  shows "a AND VA_PAGE = p AND VA_PAGE \<longleftrightarrow>
      unat (va_to_pa p) \<le> unat (va_to_pa a) \<and> unat (va_to_pa a) < unat (va_to_pa p) + 4096"
    and "a AND VA_PAGE = p AND VA_PAGE \<Longrightarrow> va_to_pa p OR (a AND 0xFFF) = va_to_pa a"
proof -
  have pg: "b AND VA_PAGE = va_to_pa b AND NOT 0xFFF" for b
  proof -
    have "va_to_pa b AND NOT 0xFFF = b AND (NOT KERNEL_START AND NOT 0xFFF)" by (simp only: va_to_pa_def and.assoc)
    moreover have "NOT KERNEL_START AND NOT 0xFFF = VA_PAGE" by simp
    ultimately show ?thesis by (simp only:)
  qed
  have q: "4096 dvd unat (va_to_pa p)" using page_ok_page [OF assms] by (simp add: page_addr_iff)
  have "a AND VA_PAGE = p AND VA_PAGE \<longleftrightarrow> unat (va_to_pa a AND NOT 0xFFF) = unat (va_to_pa p AND NOT 0xFFF)"
    unfolding pg by (simp only: word_unat_eq_iff)
  also have "\<dots> \<longleftrightarrow> unat (va_to_pa a) div 4096 = unat (va_to_pa p) div 4096"
    unfolding unat_page_part by simp
  also have "\<dots> \<longleftrightarrow> unat (va_to_pa p) \<le> unat (va_to_pa a) \<and> unat (va_to_pa a) < unat (va_to_pa p) + 4096"
    using q by (auto elim!: dvdE simp: div_nat_eqI)
  finally show "a AND VA_PAGE = p AND VA_PAGE \<longleftrightarrow>
      unat (va_to_pa p) \<le> unat (va_to_pa a) \<and> unat (va_to_pa a) < unat (va_to_pa p) + 4096" .
  assume e: "a AND VA_PAGE = p AND VA_PAGE"
  have "va_to_pa p AND NOT 0xFFF = va_to_pa p" using q unat_page_part [of "va_to_pa p"] by (simp add: word_unat_eq_iff)
  then have "va_to_pa p = va_to_pa a AND NOT 0xFFF" using e unfolding pg by simp
  moreover have "a AND 0xFFF = va_to_pa a AND 0xFFF"
  proof -
    have "va_to_pa a AND 0xFFF = a AND (NOT KERNEL_START AND 0xFFF)" by (simp only: va_to_pa_def and.assoc)
    moreover have "NOT KERNEL_START AND 0xFFF = (0xFFF :: u64)" by simp
    ultimately show ?thesis by (simp only:)
  qed
  ultimately have "va_to_pa p OR (a AND 0xFFF) = (va_to_pa a AND NOT 0xFFF) OR (va_to_pa a AND 0xFFF)" by simp
  also have "\<dots> = va_to_pa a" by (simp only: bit.conj_disj_distrib [symmetric]) simp
  finally show "va_to_pa p OR (a AND 0xFFF) = va_to_pa a" .
qed

section \<open>The loop of id\_map\_to\_usr\<close>

definition blocks_2mb :: "nat \<Rightarrow> nat \<Rightarrow> nat" where
  "blocks_2mb x n = (if n = 0 then 0 else (x + 4096 * n - 1) div 2 ^ 21 - x div 2 ^ 21 + 1)"

lemma blocks_2mb_next:
  "blocks_2mb x (Suc n) \<le> Suc k \<Longrightarrow>
     blocks_2mb (x + 4096) n \<le> k \<or> (x + 4096) div 2 ^ 21 = x div 2 ^ 21 \<and> blocks_2mb (x + 4096) n \<le> Suc k"
  by (auto simp: blocks_2mb_def)

lemma page_less_end:
  assumes "page_ok p" and "unat (va_to_pa p) + 4096 * n < 2 ^ 32" and "0 < n"
  shows "p < p + word_of_nat (4096 * n)"
proof -
  let ?w = "word_of_nat (4096 * n) :: u64"
  have w: "unat ?w = 4096 * n" using assms(2) by (simp only: unat_of_nat) simp
  have "unat p + unat ?w < 2 ^ 64"
    using assms(1)
  proof (cases rule: page_ok_cases)
    case 1
    have "unat p = unat (va_to_pa p)" by (rule arg_cong [OF 1(3)])
    then show ?thesis using assms(2) w by simp
  next
    case 2
    have "unat p = unat (KERNEL_START + va_to_pa p)" by (rule arg_cong [OF 2(3)])
    also have "\<dots> \<le> unat KERNEL_START + unat (va_to_pa p)" by (simp only: unat_word_ariths) simp
    finally show ?thesis using assms(2) w by simp
  qed
  then have "unat (p + ?w) = unat p + unat ?w" by (simp add: unat_word_ariths)
  then show ?thesis using w assms(3) by (simp add: word_less_nat_alt)
qed

lemma path_next:
  assumes "path_to s ds kids pt_top p" and "unat (va_to_pa p) div 2 ^ 21 = unat (va_to_pa q) div 2 ^ 21"
  shows "path_to s ds kids pt_top q"
proof -
  have k: "drop_bit 21 a AND 0x1FF = drop_bit 21 (va_to_pa a) AND 0x1FF"
    "drop_bit 30 a AND 0x1FF = drop_bit 9 (drop_bit 21 (va_to_pa a)) AND 0x1FF" for a
    by (simp_all add: va_to_pa_def and.assoc)
  have "unat (drop_bit 21 (va_to_pa p)) = unat (drop_bit 21 (va_to_pa q))"
    using assms(2) by (simp add: drop_bit_eq_div unat_div)
  then have "drop_bit 21 (va_to_pa p) = drop_bit 21 (va_to_pa q)" by (simp only: word_unat_eq_iff)
  then have "butlast (vm_index (extract_va_metadata p)) = butlast (vm_index (extract_va_metadata q))"
    using k [of p] k [of q] by (simp add: extract_va_metadata_def)
  then show ?thesis
    using assms(1) leads_butlast va_indices(1) unfolding path_to_def by metis
qed


lemma id_map_page:
  assumes "pt_inv s ds kids" "pt_top \<in> set ds" "lvl s pt_top = 1" and "page_ok p"
    and "path_to s ds kids pt_top p \<and> m = 1 \<or> 2 \<le> length (ps_heap s) \<and> unat (ps_ctr s) \<le> 126 \<and> m = 3"
  obtains s' ds' kids' where "map_pa_to_va_pg p p pt_top PTE_FLAGS_USER_GENERIC False s = Inr (Some p, s')"
    and "pt_inv s' ds' kids'" and "pt_top \<in> set ds'" and "lvl s' pt_top = 1" and "tbl s' pt_top = tbl s pt_top"
    and "\<And>a. hw_walk (ps_mem s') (tbl s pt_top) a =
       (if unat (va_to_pa p) \<le> unat (va_to_pa a) \<and> unat (va_to_pa a) < unat (va_to_pa p) + 4096
        then Some (va_to_pa a) else hw_walk (ps_mem s) (tbl s pt_top) a)"
    and "path_to s' ds' kids' pt_top p" and "spent m s s'"
    and "\<And>a. hw_attr (ps_mem s') (tbl s pt_top) a =
       (if unat (va_to_pa p) \<le> unat (va_to_pa a) \<and> unat (va_to_pa a) < unat (va_to_pa p) + 4096
        then Some PTE_FLAGS_USER_GENERIC else hw_attr (ps_mem s) (tbl s pt_top) a)"
    and "framed (own s ds) s s'" and "own s' ds' \<subseteq> own s ds"
proof -
  have pm: "phys_page p AND TABLE_MASK = phys_page p"
    using page_masks(2) [OF page_ok_page [OF assms(4)]] page_phys(1) [OF assms(4)] by simp
  obtain s' ds' kids' where s': "map_pa_to_va_pg p p pt_top PTE_FLAGS_USER_GENERIC False s = Inr (Some p, s')"
    "pt_inv s' ds' kids'" "pt_top \<in> set ds'" "lvl s' pt_top = 1" "tbl s' pt_top = tbl s pt_top"
    "\<And>a. hw_walk (ps_mem s') (tbl s pt_top) a =
       (if a AND VA_PAGE = p AND VA_PAGE then Some (phys_page p OR (a AND 0xFFF)) else hw_walk (ps_mem s) (tbl s pt_top) a)"
    "path_to s' ds' kids' pt_top p" "spent m s s'"
    "\<And>a. hw_leaf (ps_mem s') (tbl s pt_top) a =
       (if a AND VA_PAGE = p AND VA_PAGE then Some (pt_entry p (if PTE_FLAGS_USER_GENERIC = 0 then PTE_FLAGS_KERNEL_GENERIC else PTE_FLAGS_USER_GENERIC))
        else hw_leaf (ps_mem s) (tbl s pt_top) a)"
    "framed (own s ds) s s'" "own s' ds' \<subseteq> own s ds" 
    by (rule map_page [OF assms(1-3,5) page_phys(2) [OF assms(4)] pm disjI2 [OF flags_ok_code(2)]]) (rule that)
  have ne: "(PTE_FLAGS_USER_GENERIC :: u64) \<noteq> 0" by simp
  have "(va_to_pa p AND NOT TABLE_MASK) = 0"
    using page_masks(2) [OF page_ok_page [OF assms(4)]] and_mask_via [of "va_to_pa p" TABLE_MASK "NOT TABLE_MASK"] by simp
  then have "(va_to_pa p OR PTE_FLAGS_USER_GENERIC) AND NOT TABLE_MASK = PTE_FLAGS_USER_GENERIC"
    by (simp add: bit.conj_disj_distrib2)
  then have attr: "map_option (\<lambda>e. e AND NOT TABLE_MASK) (Some (va_to_pa p OR PTE_FLAGS_USER_GENERIC)) = Some PTE_FLAGS_USER_GENERIC"
    by (simp only: option.map)
  have "hw_attr (ps_mem s') (tbl s pt_top) a =
       (if unat (va_to_pa p) \<le> unat (va_to_pa a) \<and> unat (va_to_pa a) < unat (va_to_pa p) + 4096
        then Some PTE_FLAGS_USER_GENERIC else hw_attr (ps_mem s) (tbl s pt_top) a)" for a
    unfolding hw_attr_def s'(9) in_page_iff(1) [OF assms(4), symmetric] if_distrib [of "map_option (\<lambda>e. e AND NOT TABLE_MASK)"]
    using ne attr by (simp only: pt_entry_page [OF assms(4)] if_False)
  moreover have "hw_walk (ps_mem s') (tbl s pt_top) a =
       (if unat (va_to_pa p) \<le> unat (va_to_pa a) \<and> unat (va_to_pa a) < unat (va_to_pa p) + 4096
        then Some (va_to_pa a) else hw_walk (ps_mem s) (tbl s pt_top) a)" for a
    unfolding s'(6) page_phys(1) [OF assms(4)] in_page_iff(1) [OF assms(4), symmetric]
    by (rule if_cong [OF refl _ refl]) (simp only: in_page_iff(2) [OF assms(4)])
  ultimately show thesis using s' that by blast
qed

lemma id_map_loop:
  assumes "page_ok p" and "unat (va_to_pa p) + 4096 * n < 2 ^ 32"
    and "pt_inv s ds kids" "pt_top \<in> set ds" "lvl s pt_top = 1"
    and "unat (ps_ctr s) + 2 * k \<le> 128" "2 * k \<le> length (ps_heap s)"
    and "blocks_2mb (unat (va_to_pa p)) n \<le> k \<or> path_to s ds kids pt_top p \<and> blocks_2mb (unat (va_to_pa p)) n \<le> Suc k"
  shows "\<exists>s'. id_map_to_usr p p (p + word_of_nat (4096 * n)) pt_top s = Some (Inr s') \<and> pt_ok s' pt_top \<and>
    tbl s' pt_top = tbl s pt_top \<and>
    (\<forall>a. hw_walk (ps_mem s') (tbl s pt_top) a =
      (if unat (va_to_pa p) \<le> unat (va_to_pa a) \<and> unat (va_to_pa a) < unat (va_to_pa p) + 4096 * n
       then Some (va_to_pa a) else hw_walk (ps_mem s) (tbl s pt_top) a)) \<and>
    (\<forall>a. hw_attr (ps_mem s') (tbl s pt_top) a =
      (if unat (va_to_pa p) \<le> unat (va_to_pa a) \<and> unat (va_to_pa a) < unat (va_to_pa p) + 4096 * n
       then Some PTE_FLAGS_USER_GENERIC else hw_attr (ps_mem s) (tbl s pt_top) a)) \<and>
    framed (own s ds) s s'"
  using assms
proof (induction n arbitrary: p s ds kids k)
  case 0
  then show ?case by (auto simp: id_map_to_usr.simps pt_ok_def framed_def)
next
  case (Suc n)
  note P = Suc.prems
  define m where "m = (if path_to s ds kids pt_top p \<and> blocks_2mb (unat (va_to_pa p)) (Suc n) \<le> Suc k then 1 else 3 :: nat)"
  have k: "1 \<le> k" if "m = 3" using that P(8) by (auto simp: m_def blocks_2mb_def split: if_splits)
  have m: "path_to s ds kids pt_top p \<and> m = 1 \<or> 2 \<le> length (ps_heap s) \<and> unat (ps_ctr s) \<le> 126 \<and> m = 3"
    using k P(6,7) by (cases "m = 3") (auto simp: m_def split: if_splits)
  obtain s1 ds1 kids1 where s1: "map_pa_to_va_pg p p pt_top PTE_FLAGS_USER_GENERIC False s = Inr (Some p, s1)"
    "pt_inv s1 ds1 kids1" "pt_top \<in> set ds1" "lvl s1 pt_top = 1" "tbl s1 pt_top = tbl s pt_top"
    "\<And>a. hw_walk (ps_mem s1) (tbl s pt_top) a =
       (if unat (va_to_pa p) \<le> unat (va_to_pa a) \<and> unat (va_to_pa a) < unat (va_to_pa p) + 4096
        then Some (va_to_pa a) else hw_walk (ps_mem s) (tbl s pt_top) a)"
    "path_to s1 ds1 kids1 pt_top p" "spent m s s1"
    "\<And>a. hw_attr (ps_mem s1) (tbl s pt_top) a =
       (if unat (va_to_pa p) \<le> unat (va_to_pa a) \<and> unat (va_to_pa a) < unat (va_to_pa p) + 4096
        then Some PTE_FLAGS_USER_GENERIC else hw_attr (ps_mem s) (tbl s pt_top) a)"
    "framed (own s ds) s s1" "own s1 ds1 \<subseteq> own s ds"
    by (rule id_map_page [OF P(3-5,1) m]) (rule that)
  define k1 where "k1 = (if m = 1 then k else k - 1)"
  have k1: "unat (ps_ctr s1) + 2 * k1 \<le> 128" "2 * k1 \<le> length (ps_heap s1)"
    using s1(8) P(6,7) m k by (auto simp: spent_def k1_def)
  have b: "blocks_2mb (unat (va_to_pa p)) (Suc n) \<le> Suc k1" using P(8) k by (auto simp: m_def k1_def split: if_splits)
  have lt: "p < p + word_of_nat (4096 * Suc n)" by (rule page_less_end [OF P(1,2)]) simp
  show ?case
  proof (cases "n = 0")
    case True
    have "p + word_of_nat (4096 * Suc n) = p + 0x1000" using True by simp
    then have "id_map_to_usr p p (p + word_of_nat (4096 * Suc n)) pt_top s = Some (Inr s1)"
      using lt s1(1) by (simp add: id_map_to_usr.simps)
    then show ?thesis using s1 True by (auto simp: pt_ok_def)
  next
    case False
    then have "unat (va_to_pa p) + 4096 < 2 ^ 32" using P(2) by simp
    note nx = page_next [OF P(1) this]
    have e: "p + word_of_nat (4096 * Suc n) = p + 0x1000 + word_of_nat (4096 * n)" by simp
    have "blocks_2mb (unat (va_to_pa (p + 0x1000))) n \<le> k1 \<or>
      path_to s1 ds1 kids1 pt_top (p + 0x1000) \<and> blocks_2mb (unat (va_to_pa (p + 0x1000))) n \<le> Suc k1"
      using blocks_2mb_next [OF b] path_next [OF s1(7), of "p + 0x1000"] unfolding nx by auto
    then obtain s' where s': "id_map_to_usr (p + 0x1000) (p + 0x1000) (p + 0x1000 + word_of_nat (4096 * n)) pt_top s1 = Some (Inr s')"
      "pt_ok s' pt_top" "tbl s' pt_top = tbl s1 pt_top"
      "\<forall>a. hw_walk (ps_mem s') (tbl s1 pt_top) a =
      (if unat (va_to_pa p) + 4096 \<le> unat (va_to_pa a) \<and> unat (va_to_pa a) < unat (va_to_pa p) + 4096 + 4096 * n
       then Some (va_to_pa a) else hw_walk (ps_mem s1) (tbl s1 pt_top) a)"
      "\<forall>a. hw_attr (ps_mem s') (tbl s1 pt_top) a =
      (if unat (va_to_pa p) + 4096 \<le> unat (va_to_pa a) \<and> unat (va_to_pa a) < unat (va_to_pa p) + 4096 + 4096 * n
       then Some PTE_FLAGS_USER_GENERIC else hw_attr (ps_mem s1) (tbl s1 pt_top) a)" "framed (own s1 ds1) s1 s'"
      using Suc.IH [OF nx(1) _ s1(2-4) k1] P(2) unfolding nx(2,3) by (auto simp: algebra_simps)
    have "id_map_to_usr p p (p + word_of_nat (4096 * Suc n)) pt_top s = Some (Inr s')"
      using lt s1(1) s'(1) unfolding e by (subst id_map_to_usr.simps) simp
    moreover have "framed (own s ds) s s'" by (rule framed_trans [OF s1(10) s'(6) s1(11)])
    ultimately show ?thesis using s'(2-5) s1(5,6,9) by (intro exI [of _ s']) auto
  qed
qed

section \<open>usr\_init\<close>

text \<open>A fresh top table.\<close>

lemma fresh_top:
  assumes "heap_ok s []" and "ps_heap s = pt # hs" and "alloc_ok s [d]" and "pd_child (ps_desc s d) = None"
  defines "s1 \<equiv> set_desc d (ps_desc s d\<lparr>pd_level := 1, pd_pt := pt\<rparr>) (s\<lparr>ps_heap := hs\<rparr>)"
  shows "pt_inv s1 [d] (\<lambda>_. [])" and "lvl s1 d = 1" and "tbl s1 d = va_to_pa pt"
    and "hw_walk (ps_mem s1) (va_to_pa pt) a = None"
proof -
  have z: "page_ok pt" "\<forall>i<512. ps_mem s (va_to_pa pt + 8 * i) = 0" using assms(1,2) by (auto simp: heap_ok_def)
  show l: "lvl s1 d = 1" "tbl s1 d = va_to_pa pt" by (simp_all add: s1_def lvl_def tbl_def)
  have "descs_ok s1 [d]" using z(1) l(1) by (simp add: descs_ok_def s1_def)
  moreover have "kids_ok s1 [d] (\<lambda>_. [])" using assms(4) by (simp add: kids_ok_def s1_def)
  moreover have "entries_ok s1 [d] (\<lambda>_. [])" using z(2) l(2) by (auto simp: entries_ok_def ent_def) (simp_all add: s1_def)
  moreover have "va_to_pa pt \<notin> va_to_pa ` set hs" using assms(1,2) by (simp add: heap_ok_def)
  then have "va_to_pa p \<noteq> va_to_pa pt" if "p \<in> set hs" for p using that by (metis image_eqI)
  then have "heap_ok s1 [d]" using assms(1,2) unfolding heap_ok_def by (simp add: l(2)) (simp add: s1_def)
  moreover have "alloc_ok s1 [d]" using assms(3) by (simp add: alloc_ok_def s1_def)
  ultimately show "pt_inv s1 [d] (\<lambda>_. [])" by (simp add: pt_inv_def)
  have "hd (vm_index (extract_va_metadata a)) < 512" by (simp add: extract_va_metadata_def index_bound)
  then show "hw_walk (ps_mem s1) (va_to_pa pt) a = None"
    using z(2) by (simp add: hw_walk_def extract_va_metadata_def s1_def)
qed

lemma usr_init_table:
  assumes "page_ok usr_entry" and "unat (va_to_pa usr_entry) + 4096 * 1000 < 2 ^ 32"
    and "heap_ok s []" and "ps_heap s = pt # hs" and "6 \<le> length hs" and "unat (ps_ctr s) \<le> 122"
    and "d \<noteq> 0" and "pd_child (ps_desc s d) = None" and "alloc_ok s [d]"
  shows "\<exists>s'. usr_init usr_entry d s = Inr (Some (va_to_pa pt), s') \<and>
    (\<forall>a. hw_walk (ps_mem s') (va_to_pa pt) a =
      (if unat (va_to_pa usr_entry) \<le> unat (va_to_pa a) \<and> unat (va_to_pa a) < unat (va_to_pa usr_entry) + 4096 * 1000
       then Some (va_to_pa a) else None)) \<and>
    (\<forall>a. unat (va_to_pa usr_entry) \<le> unat (va_to_pa a) \<and> unat (va_to_pa a) < unat (va_to_pa usr_entry) + 4096 * 1000 \<longrightarrow>
       hw_attr (ps_mem s') (va_to_pa pt) a = Some PTE_FLAGS_USER_GENERIC) \<and>
    framed (va_to_pa ` set (ps_heap s)) s s'"
proof -
  let ?s1 = "set_desc d (ps_desc s d\<lparr>pd_level := 1, pd_pt := pt\<rparr>) (s\<lparr>ps_heap := hs\<rparr>)"
  note f = fresh_top [OF assms(3,4,9,8)]
  have "pt \<noteq> 0" using assms(3,4) by (auto simp: heap_ok_def page_ok_def va_to_pa_def)
  then have u: "usr_init usr_entry d s =
    bindR (loopR (id_map_to_usr usr_entry usr_entry (usr_entry + word_of_nat (4096 * 1000)) d ?s1)) (\<lambda>r.
      bindR r (\<lambda>s. Inr (Some (va_to_pa pt), s)))"
    using assms(4,7) by (simp add: usr_init_def kmalloc_page_def set_desc_def Let_def)
  have c: "unat (ps_ctr ?s1) + 2 * 3 \<le> 128" "2 * 3 \<le> length (ps_heap ?s1)" using assms(5,6) by simp_all
  have "(x + 4096 * 1000 - 1) div 2 ^ 21 \<le> x div 2 ^ 21 + (2 :: nat)" for x by simp
  then have "blocks_2mb (unat (va_to_pa usr_entry)) 1000 \<le> 3" by (simp add: blocks_2mb_def)
  from id_map_loop [OF assms(1,2) f(1) _ f(2) c disjI1 [OF this]]
  obtain s' where "id_map_to_usr usr_entry usr_entry (usr_entry + word_of_nat (4096 * 1000)) d ?s1 = Some (Inr s')"
    "\<forall>a. hw_walk (ps_mem s') (va_to_pa pt) a =
      (if unat (va_to_pa usr_entry) \<le> unat (va_to_pa a) \<and> unat (va_to_pa a) < unat (va_to_pa usr_entry) + 4096 * 1000
       then Some (va_to_pa a) else None)"
    "\<forall>a. unat (va_to_pa usr_entry) \<le> unat (va_to_pa a) \<and> unat (va_to_pa a) < unat (va_to_pa usr_entry) + 4096 * 1000 \<longrightarrow>
       hw_attr (ps_mem s') (va_to_pa pt) a = Some PTE_FLAGS_USER_GENERIC"
    "framed (own ?s1 [d]) ?s1 s'"
    unfolding f(3,4) by auto
  moreover have "own ?s1 [d] = va_to_pa ` set (ps_heap s)" using f(3) assms(4) by (simp add: own_def)
  moreover have "framed P ?s1 s' \<longleftrightarrow> framed P s s'" for P by (simp add: framed_def)
  ultimately show ?thesis unfolding u by auto
qed

text \<open>
  usr_init, with clean memory for the tables, builds an address space for user mode that
  is an identity mapping: the table that it gives to the processor translates exactly the
  1000 pages of user memory, each address to its physical address, and nothing else.
\<close>

theorem usr_init_identity_map:
  assumes "page_ok usr_entry" and "unat (va_to_pa usr_entry) + 4096 * 1000 < 2 ^ 32"
    and "heap_ok s []" and "ps_heap s = pt # hs" and "6 \<le> length hs" and "unat (ps_ctr s) \<le> 122"
    and "d \<noteq> 0" and "pd_child (ps_desc s d) = None" and "alloc_ok s [d]"
  shows "\<exists>s'. usr_init usr_entry d s = Inr (Some (va_to_pa pt), s') \<and>
    (\<forall>a. hw_walk (ps_mem s') (va_to_pa pt) a =
      (if unat (va_to_pa usr_entry) \<le> unat (va_to_pa a) \<and> unat (va_to_pa a) < unat (va_to_pa usr_entry) + 4096 * 1000
       then Some (va_to_pa a) else None))"
  using usr_init_table [OF assms] by blast

definition demo_user :: pt_state where
  "demo_user = \<lparr>ps_mem = (\<lambda>_. 0), ps_desc = (\<lambda>_. zero_desc), ps_global = Some 0x200000, ps_ctr = 3,
     ps_heap = [0x101000, 0x102000, 0x103000, 0x104000, 0x105000, 0x106000, 0x107000]\<rparr>"

lemma demo_user_ok: "heap_ok demo_user []" "alloc_ok demo_user [0x10C0]"
proof -
  show "heap_ok demo_user []" by (simp add: heap_ok_def demo_user_def page_ok_def page_addr_def va_to_pa_def)
  have "0x200000 + DESC_SIZE * word_of_nat k \<noteq> 0x10C0" if "k < 128" for k
  proof -
    have "unat (0x200000 + DESC_SIZE * word_of_nat k) = 0x200000 + 32 * k"
      using that by (simp add: unat_word_ariths unat_of_nat)
    then show ?thesis using that by (auto simp: word_unat_eq_iff)
  qed
  then show "alloc_ok demo_user [0x10C0]" by (simp add: alloc_ok_def demo_user_def)
qed

theorem usr_init_identity_map_witness:
  "\<exists>s'. usr_init (KERNEL_START + 0x400000) 0x10C0 demo_user = Inr (Some 0x101000, s') \<and>
     hw_walk (ps_mem s') 0x101000 0x400123 = Some 0x400123 \<and> hw_walk (ps_mem s') 0x101000 0x300000 = None"
proof -
  have p: "page_ok (KERNEL_START + 0x400000)" "va_to_pa (KERNEL_START + 0x400000) = 0x400000"
    by (simp_all add: page_ok_def page_addr_def va_to_pa_def)
  have "ps_heap demo_user = 0x101000 # [0x102000, 0x103000, 0x104000, 0x105000, 0x106000, 0x107000]"
    "unat (ps_ctr demo_user) \<le> 122" "pd_child (ps_desc demo_user 0x10C0) = None"
    by (simp_all add: demo_user_def zero_desc_def)
  from usr_init_identity_map [OF p(1) _ demo_user_ok(1) this(1) _ this(2) _ this(3) demo_user_ok(2)]
  obtain s' where s': "usr_init (KERNEL_START + 0x400000) 0x10C0 demo_user = Inr (Some (va_to_pa 0x101000), s')"
    "\<forall>a. hw_walk (ps_mem s') (va_to_pa 0x101000) a =
      (if 0x400000 \<le> unat (va_to_pa a) \<and> unat (va_to_pa a) < 0x400000 + 4096 * 1000 then Some (va_to_pa a) else None)"
    unfolding p(2) by auto
  have "va_to_pa 0x101000 = 0x101000" "va_to_pa 0x400123 = 0x400123" "va_to_pa 0x300000 = 0x300000"
    by (simp_all add: va_to_pa_def)
  with s' show ?thesis by (intro exI [of _ s']) simp
qed

text \<open>
  usr_init does not clear the memory it gets: when the page of the top table still holds
  a value in the entry for the first user address, no page of user memory is mapped, and
  the table is given to the processor all the same.
\<close>

theorem usr_init_stale_page:
  assumes "ps_heap s = pt # hs" and "pt \<noteq> 0" and "d \<noteq> 0" and "pd_child (ps_desc s d) = None"
    and "usr_entry < usr_entry + USR_SZ"
    and "read_mem (pt + 8 * (drop_bit 30 usr_entry AND 0x1FF)) s \<noteq> 0"
  shows "\<exists>s'. usr_init usr_entry d s = Inr (Some (va_to_pa pt), s') \<and> ps_mem s' = ps_mem s"
proof -
  let ?s1 = "set_desc d (ps_desc s d\<lparr>pd_level := 1, pd_pt := pt\<rparr>) (s\<lparr>ps_heap := hs\<rparr>)"
  have "map_pa_to_va_pg usr_entry usr_entry d PTE_FLAGS_USER_GENERIC False ?s1 = Inr (None, ?s1)"
    using assms(4,6)
    by (simp add: map_pa_to_va_pg_def map_loop.simps extract_va_metadata_def read_mem_def pte_is_empty_def
        pt_desc_get_from_parent_def find_ptr.simps Let_def)
  then have "id_map_to_usr usr_entry usr_entry (usr_entry + USR_SZ) d ?s1 = Some (Inr ?s1)"
    using assms(5) by (subst id_map_to_usr.simps) simp
  then show ?thesis
    using assms(1-3) by (intro exI [of _ ?s1]) (simp add: usr_init_def kmalloc_page_def set_desc_def Let_def)
qed

theorem usr_init_stale_page_witness:
  "\<exists>s'. usr_init 0x400000 0x10C0 (demo_user\<lparr>ps_mem := (\<lambda>_. 0x1234)\<rparr>) = Inr (Some (va_to_pa 0x101000), s') \<and>
     ps_mem s' = (\<lambda>_. 0x1234)"
  using usr_init_stale_page [of "demo_user\<lparr>ps_mem := (\<lambda>_. 0x1234)\<rparr>" "0x101000" _ "0x10C0" "0x400000"]
  by (simp add: demo_user_def zero_desc_def read_mem_def)

end
