(* ===== verification/Devices_Props.thy ===== *)
theory Devices_Props
  imports Devices Printf_Props User_Map
begin

text \<open>
  The set-up of the devices on the translation tables, and the timer. A state of the tables
  with room for \<open>n\<close> more mappings is described by dev\_tables.
\<close>

section \<open>Device pages\<close>

definition dev_tables :: "nat \<Rightarrow> u64 \<Rightarrow> u64 \<Rightarrow> pt_state \<Rightarrow> bool" where
  "dev_tables n g t p \<longleftrightarrow> ps_global p = Some g \<and> tbl p g = t \<and> 2 * n \<le> length (ps_heap p) \<and> unat (ps_ctr p) + 2 * n \<le> 128 \<and>
     (\<exists>ds kids. pt_inv p ds kids \<and> g \<in> set ds \<and> lvl p g = 1 \<and> set ds \<subseteq> desc_slots p)"

text \<open>Descriptors outside of the array are left alone.\<close>

definition desc_kept :: "pt_state \<Rightarrow> pt_state \<Rightarrow> bool" where
  "desc_kept p p' \<longleftrightarrow> desc_slots p' = desc_slots p \<and> (\<forall>x. x \<notin> desc_slots p \<longrightarrow> ps_desc p' x = ps_desc p x)"

lemma desc_kept_trans: "desc_kept p p1 \<Longrightarrow> desc_kept p1 p2 \<Longrightarrow> desc_kept p p2"
  by (simp add: desc_kept_def)

definition dev_page :: "u64 \<Rightarrow> bool" where
  "dev_page a \<longleftrightarrow> page_addr a \<and> a \<noteq> 0"

lemma dev_page_ok: "dev_page a \<Longrightarrow> page_ok a" "dev_page a \<Longrightarrow> va_to_pa a = a"
  using page_low [of a] by (auto simp: dev_page_def page_ok_def)

lemma io_remap_page:
  assumes "dev_tables (Suc n) g t (io_pt s)" and "dev_page a" and "va_to_pa addr = a"
  obtains p where "io_remap addr s = Inr (pa_to_va a, s\<lparr>io_pt := p\<rparr>)" and "dev_tables n g t p"
    and "\<And>b. hw_walk (ps_mem p) t b = (if b AND VA_PAGE = a AND VA_PAGE then Some (a OR (b AND 0xFFF)) else hw_walk (ps_mem (io_pt s)) t b)"
    and "desc_kept (io_pt s) p"
proof -
  obtain ds kids where t: "pt_inv (io_pt s) ds kids" "g \<in> set ds" "lvl (io_pt s) g = 1" and sl: "set ds \<subseteq> desc_slots (io_pt s)"
    using assms(1) by (auto simp: dev_tables_def)
  note ok = dev_page_ok [OF assms(2)]
  have ph: "phys_page a = a" using page_phys(1) [OF ok(1)] ok(2) by simp
  have pm: "a AND TABLE_MASK = a" using assms(2) page_masks(2) by (simp add: dev_page_def)
  have r: "path_to (io_pt s) ds kids g a \<and> (3 :: nat) = 1 \<or> 2 \<le> length (ps_heap (io_pt s)) \<and> unat (ps_ctr (io_pt s)) \<le> 126 \<and> (3 :: nat) = 3"
    using assms(1) by (simp add: dev_tables_def)
  have pp: "phys_page a AND TABLE_MASK = phys_page a" by (simp only: ph pm)
  obtain p ds' kids' where p0: "map_pa_to_va_pg a a g PTE_FLAGS_NC False (io_pt s) = Inr (Some a, p)"
    "pt_inv p ds' kids'" "g \<in> set ds'" "lvl p g = 1" "tbl p g = tbl (io_pt s) g"
    "\<And>b. hw_walk (ps_mem p) (tbl (io_pt s) g) b =
       (if b AND VA_PAGE = a AND VA_PAGE then Some (phys_page a OR (b AND 0xFFF)) else hw_walk (ps_mem (io_pt s)) (tbl (io_pt s) g) b)"
    "spent 3 (io_pt s) p" "ps_global p = ps_global (io_pt s)" "desc_framed (io_pt s) ds p ds'"
    by (rule map_page [OF t r page_phys(2) [OF ok(1)] pp disjI2 [OF flags_ok_code(3)]]) (rule that)
  note p = p0(1-5) p0(6) [unfolded ph] p0(7,8)
  have "desc_slots p = desc_slots (io_pt s)" using p(8) by (simp add: desc_slots_def)
  then have fr: "desc_kept (io_pt s) p" "set ds' \<subseteq> desc_slots p"
    using p0(9) sl unfolding desc_kept_def desc_framed_def by blast+
  show thesis
  proof (rule that)
    show "io_remap addr s = Inr (pa_to_va a, s\<lparr>io_pt := p\<rparr>)"
      using p(1) assms(1-3) by (simp add: io_remap_def ioremap_def dev_tables_def dev_page_def)
    show "dev_tables n g t p"
      using p(2-5,7,8) fr(2) assms(1) unfolding dev_tables_def spent_def by fastforce
    show "hw_walk (ps_mem p) t b = (if b AND VA_PAGE = a AND VA_PAGE then Some (a OR (b AND 0xFFF)) else hw_walk (ps_mem (io_pt s)) t b)" for b
      using p(6) assms(1) by (simp add: dev_tables_def)
    show "desc_kept (io_pt s) p" by (rule fr(1))
  qed
qed

lemma dev_pages:
  "dev_page 0x3F200000" "dev_page 0x3F215000" "dev_page 0x3F003000" "dev_page 0x3F00B000"
  by (simp_all add: dev_page_def page_addr_def)

section \<open>Boot\<close>

lemma mini_uart_init_io:
  "gc_generic ctrl \<Longrightarrow> \<exists>s'. mini_uart_init b ctrl s = Inr s' \<and> io_pt s' = io_pt s \<and> io_version s' = io_version s \<and>
     io_mmio_base s' = io_mmio_base s \<and> io_dev s' = io_dev s"
  by (simp add: mini_uart_init_def gpio_set_fn_def generic_set_gpio_func_def io_defs io_write_def case_prod_unfold)


definition device_pages :: "u64 list" where
  "device_pages = [0x3F200000, 0x3F215000, 0x3F003000, 0x3F00B000]"

lemma device_page_walk:
  assumes "\<And>b. w b = (if b AND VA_PAGE = a AND VA_PAGE then Some (a OR (b AND 0xFFF)) else w' b)" and "dev_page a"
  shows "w b = (if b AND VA_PAGE = a AND VA_PAGE then Some (va_to_pa b) else w' b)"
  using assms(1) in_page_iff(2) [OF dev_page_ok(1) [OF assms(2)], of b] dev_page_ok(2) [OF assms(2)] by simp

definition start_message :: "u8 list" where
  "start_message = [0x0A] @ chars ''Starting kernel...'' @ [0x0A]"

definition irq_message :: "u8 list" where
  "irq_message = chars ''BCM IRQ Selected'' @ [0x0A]"

definition boot_message :: "u8 list" where
  "boot_message = start_message @ irq_message"

definition serial_status :: u64 where "serial_status = uart_reg (pa_to_va 0x3F215000) AUX_MU_LSR"

definition serial_data :: u64 where "serial_data = uart_reg (pa_to_va 0x3F215000) AUX_MU_IO"

text \<open>The console is the mini UART, which can transmit.\<close>

lemma setup_console_run:
  assumes "init_gpio ctrl (ks_dev s) = Inr (ctrl', d1)" and "init_console (uart_init ctrl') d1 = Inr (Some con, d2)"
    and "cd_putc con = mini_uart_putc (pa_to_va 0x3F215000)" and "cd_puts con = mini_uart_puts (pa_to_va 0x3F215000)"
    and "gets_ready (io_dev d2) serial_status lsr_idle" and "ks_lock s = 0"
  obtains l where "setup_console ctrl s = Inr (Some con, s\<lparr>ks_dev := d2\<lparr>io_log := io_log d2 @ l\<rparr>\<rparr>)"
    and "transmits serial_status serial_data lsr_idle l start_message"
proof -
  have m: "0x25 \<notin> set start_message" "0 \<notin> set start_message" by (simp_all add: start_message_def chars_def)
  have k: "gets_ready (io_dev (ks_dev (s\<lparr>ks_dev := d2\<rparr>))) (uart_reg (pa_to_va 0x3F215000) AUX_MU_LSR) lsr_idle"
    "ks_lock (s\<lparr>ks_dev := d2\<rparr>) = 0"
    using assms(5,6) by (simp_all add: serial_status_def)
  show thesis
    using mini_uart.kprintf_text [OF assms(3,4) k m] assms(1,2) that
    by (auto simp: setup_console_def kernel_init_msg_def serial_status_def serial_data_def start_message_def)
qed

lemma irq_controller_run:
  assumes "cd_putc con = mini_uart_putc (pa_to_va 0x3F215000)" and "cd_puts con = mini_uart_puts (pa_to_va 0x3F215000)"
    and "gets_ready (io_dev (ks_dev s)) serial_status lsr_idle" and "ks_lock s = 0"
  obtains l where "transmits serial_status serial_data lsr_idle l irq_message"
    and "init_irq_controller (Some con) irq IRQ_BCM_SOC s =
      bindR (bcm_irq_controller_init irq (ks_dev s\<lparr>io_log := io_log (ks_dev s) @ l\<rparr>)) (\<lambda>(irq, d). Inr (irq, s\<lparr>ks_dev := d\<rparr>))"
proof -
  have m: "0x25 \<notin> set irq_message" "0 \<notin> set irq_message" by (simp_all add: irq_message_def chars_def)
  have k: "gets_ready (io_dev (ks_dev s)) (uart_reg (pa_to_va 0x3F215000) AUX_MU_LSR) lsr_idle"
    using assms(3) by (simp add: serial_status_def)
  from mini_uart.kprintf_text [OF assms(1,2) k assms(4) m] that show thesis
    by (auto simp: init_irq_controller_def kmsg_def serial_status_def serial_data_def irq_message_def)
qed

lemma main_devices_run:
  assumes "drop_bit 4 reg AND 0xFFF = 0xD03" and "dev_tables (n + 4) g t (io_pt (ks_dev k))"
    and "gets_ready (io_dev (ks_dev k)) serial_status lsr_idle" and "ks_lock k = 0"
  obtains console tmr irq k' v l m where "main_devices reg ctrl k = Inr (Some console, tmr, irq, k')"
    and "\<And>b. hw_walk (ps_mem (io_pt (ks_dev k'))) t b =
      (if \<exists>a\<in>set device_pages. b AND VA_PAGE = a AND VA_PAGE then Some (va_to_pa b) else hw_walk (ps_mem (io_pt (ks_dev k))) t b)"
    and "transmits serial_status serial_data lsr_idle m boot_message"
    and "io_log (ks_dev k') = l @ m @ [Wr 32 (pa_to_va 0x3F00B210) 2, Rd 32 0x3F003004 (ucast v), Wr 32 0x3F003010 (ucast (v + 0x100 :: u32))]"
    and "ks_daif k' = ks_daif k AND NOT 0x80" and "ks_lock k' = 0" and "dev_tables n g t (io_pt (ks_dev k'))"
    and "io_dev (ks_dev k') = io_dev (ks_dev k)" and "desc_kept (io_pt (ks_dev k)) (io_pt (ks_dev k'))"
    and "cd_putc console = mini_uart_putc (pa_to_va 0x3F215000)" and "cd_puts console = mini_uart_puts (pa_to_va 0x3F215000)"
proof -
  define s where "s = ks_dev k"
  let ?s0 = "s\<lparr>io_version := 3, io_mmio_base := 0x3F000000\<rparr>"
  have i: "mmio_init reg s = ?s0" using assms(1) by (simp add: mmio_init_def get_rpi_version_def)
  note pg = dev_page_ok(2) [OF dev_pages(1)] dev_page_ok(2) [OF dev_pages(2)] dev_page_ok(2) [OF dev_pages(3)]
    dev_page_ok(2) [OF dev_pages(4)]
  have "dev_tables (Suc (n + 3)) g t (io_pt ?s0)" using assms(2) by (simp add: s_def eval_nat_numeral)
  from io_remap_page [OF this dev_pages(1) pg(1)] obtain p1 where p1:
    "io_remap 0x3F200000 ?s0 = Inr (pa_to_va 0x3F200000, ?s0\<lparr>io_pt := p1\<rparr>)" "dev_tables (n + 3) g t p1"
    "\<And>b. hw_walk (ps_mem p1) t b = (if b AND VA_PAGE = 0x3F200000 AND VA_PAGE then Some (0x3F200000 OR (b AND 0xFFF)) else hw_walk (ps_mem (io_pt ?s0)) t b)" "desc_kept (io_pt ?s0) p1"
    by blast
  let ?s1 = "?s0\<lparr>io_pt := p1\<rparr>"
  have "dev_tables (Suc (n + 2)) g t (io_pt ?s1)" using p1(2) by (simp add: eval_nat_numeral)
  from io_remap_page [OF this dev_pages(2) pg(2)] obtain p2 where p2:
    "io_remap 0x3F215000 ?s1 = Inr (pa_to_va 0x3F215000, ?s1\<lparr>io_pt := p2\<rparr>)" "dev_tables (n + 2) g t p2"
    "\<And>b. hw_walk (ps_mem p2) t b = (if b AND VA_PAGE = 0x3F215000 AND VA_PAGE then Some (0x3F215000 OR (b AND 0xFFF)) else hw_walk (ps_mem (io_pt ?s1)) t b)" "desc_kept (io_pt ?s1) p2"
    by blast
  let ?s2 = "?s1\<lparr>io_pt := p2\<rparr>"
  let ?ctrl = "ctrl\<lparr>gc_base := pa_to_va 0x3F200000, gc_generic := True\<rparr>"
  obtain s2 where s2: "mini_uart_init (pa_to_va 0x3F215000) ?ctrl ?s2 = Inr s2" "io_pt s2 = p2" "io_version s2 = 3"
    "io_mmio_base s2 = 0x3F000000" "io_dev s2 = io_dev s"
    using mini_uart_init_io [of ?ctrl "pa_to_va 0x3F215000" ?s2] by auto
  obtain console where con: "init_console (uart_init ?ctrl) ?s1 = Inr (Some console, s2)"
    "cd_putc console = mini_uart_putc (pa_to_va 0x3F215000)" "cd_puts console = mini_uart_puts (pa_to_va 0x3F215000)"
    using p2(1) s2(1) by (simp add: init_console_def uart_init_def va_to_pa_def)
  have g: "init_gpio ctrl (ks_dev (k\<lparr>ks_dev := ?s0\<rparr>)) = Inr (?ctrl, ?s1)"
    using p1(1) by (simp add: init_gpio_def va_to_pa_def)
  have r: "gets_ready (io_dev s2) serial_status lsr_idle" "ks_lock (k\<lparr>ks_dev := ?s0\<rparr>) = 0"
    using assms(3,4) s2(5) by (simp_all add: s_def)
  from setup_console_run [OF g con r] obtain m where c:
    "setup_console ctrl (k\<lparr>ks_dev := ?s0\<rparr>) = Inr (Some console, k\<lparr>ks_dev := s2\<lparr>io_log := io_log s2 @ m\<rparr>\<rparr>)"
    "transmits serial_status serial_data lsr_idle m start_message"
    by auto
  let ?s2m = "s2\<lparr>io_log := io_log s2 @ m\<rparr>"
  have "dev_tables (Suc (n + 1)) g t (io_pt ?s2m)" using p2(2) s2(2) by (simp add: eval_nat_numeral)
  from io_remap_page [OF this dev_pages(3) pg(3)] obtain p3 where p3:
    "io_remap 0x3F003000 ?s2m = Inr (pa_to_va 0x3F003000, ?s2m\<lparr>io_pt := p3\<rparr>)" "dev_tables (n + 1) g t p3"
    "\<And>b. hw_walk (ps_mem p3) t b = (if b AND VA_PAGE = 0x3F003000 AND VA_PAGE then Some (0x3F003000 OR (b AND 0xFFF)) else hw_walk (ps_mem (io_pt ?s2m)) t b)" "desc_kept (io_pt ?s2m) p3"
    by blast
  let ?s3 = "?s2m\<lparr>io_pt := p3\<rparr>"
  let ?t = "\<lparr>tm_base = 0x3000, tm_msb = BCM2835_TIMER_MSB, tm_lsb = BCM2835_TIMER_LSB, tm_read = True, tm_set = True\<rparr>"
  have d: "init_device_drivers (Some console) (k\<lparr>ks_dev := ?s2m\<rparr>) = Inr (?t, k\<lparr>ks_dev := ?s3\<rparr>)"
    using p3(1) s2(3,4) by (simp add: init_device_drivers_def init_timer_def no_timer_def)
  let ?k3 = "enable_global_interrupts (k\<lparr>ks_dev := ?s3\<rparr>)"
  have "gets_ready (io_dev (ks_dev ?k3)) serial_status lsr_idle" "ks_lock ?k3 = 0"
    using r(1) assms(4) by (simp_all add: enable_global_interrupts_def)
  from irq_controller_run [OF con(2,3) this, of no_irq] obtain m2 where m2: "transmits serial_status serial_data lsr_idle m2 irq_message"
    "init_irq_controller (Some console) no_irq IRQ_BCM_SOC ?k3 =
      bindR (bcm_irq_controller_init no_irq (ks_dev ?k3\<lparr>io_log := io_log (ks_dev ?k3) @ m2\<rparr>)) (\<lambda>(irq, d). Inr (irq, ?k3\<lparr>ks_dev := d\<rparr>))"
    by blast
  let ?s3m = "?s3\<lparr>io_log := io_log ?s3 @ m2\<rparr>"
  have "dev_tables (Suc n) g t (io_pt ?s3m)" using p3(2) by simp
  from io_remap_page [OF this dev_pages(4) pg(4)] obtain p4 where p4:
    "io_remap 0x3F00B000 ?s3m = Inr (pa_to_va 0x3F00B000, ?s3m\<lparr>io_pt := p4\<rparr>)" "dev_tables n g t p4"
    "\<And>b. hw_walk (ps_mem p4) t b = (if b AND VA_PAGE = 0x3F00B000 AND VA_PAGE then Some (0x3F00B000 OR (b AND 0xFFF)) else hw_walk (ps_mem (io_pt ?s3m)) t b)" "desc_kept (io_pt ?s3m) p4"
    by blast
  let ?s4 = "?s3m\<lparr>io_pt := p4\<rparr>"
  let ?irq = "\<lparr>ic_base = pa_to_va 0x3F00B000, ic_set = True\<rparr>"
  let ?s5 = "set_timer ?t 0x100 (bcm_irq_enable_interrupt ?irq BCM_DEFAULT_IRQ_TIMER ?s4)"
  let ?k5 = "k\<lparr>ks_daif := ks_daif k AND NOT 0x80, ks_dev := ?s5\<rparr>"
  have "bcm_irq_controller_init no_irq ?s3m = Inr (?irq, ?s4)"
    using p4(1) s2(3,4) by (simp add: bcm_irq_controller_init_def no_irq_def)
  then have e: "enable_interrupts (Some console) ?t (k\<lparr>ks_dev := ?s3\<rparr>) = Inr (?irq, ?k5)"
    using m2(2) by (simp add: enable_interrupts_def enable_global_interrupts_def)
  let ?l = "io_log ?s3m @ [Wr 32 (pa_to_va 0x3F00B210) 2]"
  let ?v = "ucast (take_bit 32 (io_dev s2 ?l 32 0x3F003004)) :: u32"
  show thesis
  proof (rule that)
    show "main_devices reg ctrl k = Inr (Some console, ?t, ?irq, ?k5)"
      unfolding main_devices_def Let_def s_def [symmetric] i c(1) bindR.simps by (simp add: d e)
    have s5: "io_pt ?s5 = p4" "io_dev ?s5 = io_dev s"
      using s2(5) by (simp_all add: set_timer_def read_timer32_def mmio_read_def mmio_write_def bcm_irq_enable_interrupt_def io_defs io_write_def)
    then show "hw_walk (ps_mem (io_pt (ks_dev ?k5))) t b =
      (if \<exists>a\<in>set device_pages. b AND VA_PAGE = a AND VA_PAGE then Some (va_to_pa b) else hw_walk (ps_mem (io_pt (ks_dev k))) t b)" for b
      using device_page_walk [OF p1(3) dev_pages(1), of b] device_page_walk [OF p2(3) dev_pages(2), of b]
        device_page_walk [OF p3(3) dev_pages(3), of b] device_page_walk [OF p4(3) dev_pages(4), of b] s2(2)
      by (simp add: device_pages_def s_def)
    have u: "(ucast (ucast (take_bit 32 x :: u64) :: u32) :: u64) = take_bit 32 x" for x
      by (rule bit_word_eqI) (auto simp: bit_simps)
    have a: "pa_to_va 0x3F00B000 + ENABLE_IRQS_1 = pa_to_va 0x3F00B210" by (simp add: pa_to_va_def)
    show "io_log (ks_dev ?k5) = io_log s2 @ (m @ m2) @
        [Wr 32 (pa_to_va 0x3F00B210) 2, Rd 32 0x3F003004 (ucast ?v), Wr 32 0x3F003010 (ucast (?v + 0x100))]"
      unfolding u by (simp add: set_timer_def read_timer32_def mmio_read_def mmio_write_def bcm_irq_enable_interrupt_def io_defs
          io_write_def a BITP_def s2(4))
    show "transmits serial_status serial_data lsr_idle (m @ m2) boot_message"
      unfolding boot_message_def by (rule transmits_append [OF c(2) m2(1)])
    show "ks_daif ?k5 = ks_daif k AND NOT 0x80" "ks_lock ?k5 = 0" using assms(4) by simp_all
    show "dev_tables n g t (io_pt (ks_dev ?k5))" "io_dev (ks_dev ?k5) = io_dev (ks_dev k)" using s5 p4(2) by (simp_all add: s_def)
    have "desc_kept (io_pt ?s0) p4"
      using desc_kept_trans [OF desc_kept_trans [OF p1(4)] desc_kept_trans [OF _ p4(4)]] p2(4) p3(4) s2(2) by simp
    then show "desc_kept (io_pt (ks_dev k)) (io_pt (ks_dev ?k5))" using s5 by (simp add: s_def)
    show "cd_putc console = mini_uart_putc (pa_to_va 0x3F215000)" "cd_puts console = mini_uart_puts (pa_to_va 0x3F215000)"
      by (rule con(2), rule con(3))
  qed
qed

text \<open>
  The set-up of the devices on a board of version 3, with room for the tables and a
  serial line that gets ready: it returns; the four device pages are mapped to themselves
  and every other address is translated as before; the start messages are transmitted,
  interrupts are unmasked and the lock of the printer is free; the last accesses enable the
  interrupt of the timer and set the timer to its current value plus 0x100.
\<close>

theorem main_devices_maps_and_arms:
  assumes "drop_bit 4 reg AND 0xFFF = 0xD03" and "dev_tables 4 g t (io_pt (ks_dev k))"
    and "gets_ready (io_dev (ks_dev k)) serial_status lsr_idle" and "ks_lock k = 0"
  shows "\<exists>console tmr irq k' v l m. main_devices reg ctrl k = Inr (Some console, tmr, irq, k') \<and>
    (\<forall>b. hw_walk (ps_mem (io_pt (ks_dev k'))) t b =
      (if \<exists>a\<in>set device_pages. b AND VA_PAGE = a AND VA_PAGE then Some (va_to_pa b) else hw_walk (ps_mem (io_pt (ks_dev k))) t b)) \<and>
    transmits serial_status serial_data lsr_idle m boot_message \<and>
    io_log (ks_dev k') = l @ m @ [Wr 32 (pa_to_va 0x3F00B210) 2, Rd 32 0x3F003004 (ucast v), Wr 32 0x3F003010 (ucast (v + 0x100 :: u32))] \<and>
    ks_daif k' = ks_daif k AND NOT 0x80 \<and> ks_lock k' = 0"
proof -
  have "dev_tables (0 + 4) g t (io_pt (ks_dev k))" using assms(2) by simp
  from main_devices_run [OF assms(1) this assms(3,4)] show ?thesis by metis
qed

definition demo_boot_pt :: pt_state where
  "demo_boot_pt = \<lparr>ps_mem = (\<lambda>_. 0), ps_desc = (\<lambda>_. zero_desc\<lparr>pd_level := 1, pd_pt := 0x100000\<rparr>),
     ps_global = Some 0x200000, ps_ctr = 1,
     ps_heap = [0x101000, 0x102000, 0x103000, 0x104000, 0x105000, 0x106000, 0x107000, 0x108000]\<rparr>"

lemma demo_boot_tables: "dev_tables 4 0x200000 0x100000 demo_boot_pt"
proof -
  have p: "page_ok a \<and> va_to_pa a = a" if "a \<in> {0x100000, 0x101000, 0x102000, 0x103000, 0x104000, 0x105000, 0x106000, 0x107000, 0x108000}" for a
    using that by (auto simp: page_ok_def page_addr_def va_to_pa_def)
  moreover have "0x200000 + DESC_SIZE * word_of_nat k \<noteq> 0x200000" if "1 \<le> k" "k < MAX_DESCS" for k
    using desc_addr_eq [OF that(2), of 0 "0x200000"] that(1) by simp
  ultimately have "pt_inv demo_boot_pt [0x200000] (\<lambda>_. [])"
    by (simp add: pt_inv_def descs_ok_def kids_ok_def entries_ok_def heap_ok_def alloc_ok_def demo_boot_pt_def tbl_def lvl_def
        ent_def zero_desc_def)
  then show ?thesis
    unfolding dev_tables_def
    by (intro conjI exI [of _ "[0x200000]"] exI [of _ "\<lambda>_. []"])
      (auto simp: demo_boot_pt_def tbl_def lvl_def va_to_pa_def desc_slots_def intro: exI [of _ 0])
qed

definition demo_kstdio :: "io \<Rightarrow> io kstdio" where
  "demo_kstdio s = \<lparr>ks_daif = 0x3C0, ks_lock = 0, ks_dev = s\<rparr>"

theorem main_devices_maps_and_arms_witness:
  "\<exists>console tmr irq k'. main_devices 0x410FD034 \<lparr>gc_base = 0, gc_generic = False\<rparr> (demo_kstdio (quiet_io\<lparr>io_pt := demo_boot_pt\<rparr>)) =
      Inr (Some console, tmr, irq, k') \<and> hw_walk (ps_mem (io_pt (ks_dev k'))) 0x100000 0x3F003004 = Some 0x3F003004 \<and>
      ks_daif k' = 0x340"
proof -
  let ?k = "demo_kstdio (quiet_io\<lparr>io_pt := demo_boot_pt\<rparr>)"
  have "drop_bit 4 0x410FD034 AND 0xFFF = (0xD03 :: u32)" by simp
  moreover have "dev_tables 4 0x200000 0x100000 (io_pt (ks_dev ?k))" using demo_boot_tables by (simp add: demo_kstdio_def)
  moreover have "gets_ready (io_dev (ks_dev ?k)) serial_status lsr_idle"
    using quiet_io_ready by (simp add: demo_kstdio_def)
  moreover have "ks_lock ?k = 0" by (simp add: demo_kstdio_def)
  ultimately obtain console tmr irq k' where k':
    "main_devices 0x410FD034 \<lparr>gc_base = 0, gc_generic = False\<rparr> ?k = Inr (Some console, tmr, irq, k')"
    "\<forall>b. hw_walk (ps_mem (io_pt (ks_dev k'))) 0x100000 b = (if \<exists>a\<in>set device_pages. b AND VA_PAGE = a AND VA_PAGE then Some (va_to_pa b)
       else hw_walk (ps_mem (io_pt (ks_dev ?k))) 0x100000 b)" "ks_daif k' = ks_daif ?k AND NOT 0x80"
    using main_devices_maps_and_arms [of "0x410FD034" "0x200000" "0x100000" ?k "\<lparr>gc_base = 0, gc_generic = False\<rparr>"] by auto
  have "va_to_pa 0x3F003004 = 0x3F003004" by (simp add: va_to_pa_def)
  with k' show ?thesis by (simp add: device_pages_def demo_kstdio_def)
qed

section \<open>The timer after the switch to user mode\<close>

text \<open>
  The table that usr_init installs for the low addresses does not translate the registers
  of the timer, which mmio_write reaches by their physical addresses: the first timer
  interrupt in user mode cannot re-arm the timer.
\<close>

theorem user_map_hides_timer:
  assumes "page_ok usr_entry" and "unat (va_to_pa usr_entry) + 4096 * 1000 \<le> 0x3F000000"
    and "heap_ok s []" and "ps_heap s = pt # hs" and "6 \<le> length hs" and "unat (ps_ctr s) \<le> 122"
    and "d \<noteq> 0" and "pd_child (ps_desc s d) = None" and "alloc_ok s [d]"
    and "drop_bit 4 reg AND 0xFFF = 0xD03"
  shows "\<exists>s'. usr_init usr_entry d s = Inr (Some (va_to_pa pt), s') \<and>
    io_log (mmio_write BCM2835_TIMER_C1 v (mmio_init reg io)) = io_log io @ [Wr 32 0x3F003010 (ucast v)] \<and>
    hw_walk (ps_mem s') (va_to_pa pt) 0x3F003010 = None"
proof -
  have b: "unat (va_to_pa usr_entry) + 4096 * 1000 < 2 ^ 32" using assms(2) by simp
  obtain s' where s': "usr_init usr_entry d s = Inr (Some (va_to_pa pt), s')"
    "\<forall>a. hw_walk (ps_mem s') (va_to_pa pt) a =
      (if unat (va_to_pa usr_entry) \<le> unat (va_to_pa a) \<and> unat (va_to_pa a) < unat (va_to_pa usr_entry) + 4096 * 1000
       then Some (va_to_pa a) else None)"
    using usr_init_table [OF assms(1) b assms(3-9)] by blast
  have "va_to_pa 0x3F003010 = 0x3F003010" by (simp add: va_to_pa_def)
  then have "hw_walk (ps_mem s') (va_to_pa pt) 0x3F003010 = None" using s'(2) assms(2) by simp
  moreover have "io_log (mmio_write BCM2835_TIMER_C1 v (mmio_init reg io)) = io_log io @ [Wr 32 0x3F003010 (ucast v)]"
    using assms(10) by (simp add: mmio_write_def mmio_init_def get_rpi_version_def io_defs)
  ultimately show ?thesis using s'(1) by blast
qed

theorem user_map_hides_timer_witness:
  "\<exists>s'. usr_init (KERNEL_START + 0x400000) 0x10C0 demo_user = Inr (Some (va_to_pa 0x101000), s') \<and>
     hw_walk (ps_mem s') (va_to_pa 0x101000) 0x3F003010 = None"
proof -
  have p: "page_ok (KERNEL_START + 0x400000)" "va_to_pa (KERNEL_START + 0x400000) = 0x400000"
    by (simp_all add: page_ok_def page_addr_def va_to_pa_def)
  have "ps_heap demo_user = 0x101000 # [0x102000, 0x103000, 0x104000, 0x105000, 0x106000, 0x107000]"
    "unat (ps_ctr demo_user) \<le> 122" "pd_child (ps_desc demo_user 0x10C0) = None"
    by (simp_all add: demo_user_def zero_desc_def)
  from user_map_hides_timer [OF p(1) _ demo_user_ok(1) this(1) _ this(2) _ this(3) demo_user_ok(2), of "0x410FD034"]
  show ?thesis unfolding p(2) by auto
qed

section \<open>Reading a 64 bit counter\<close>

text \<open>A device with the two halves of a counter, which changes with every access.\<close>

definition counter_device :: "timer \<Rightarrow> u64 \<Rightarrow> (nat \<Rightarrow> u64) \<Rightarrow> (access list \<Rightarrow> nat \<Rightarrow> u64 \<Rightarrow> u64) \<Rightarrow> bool" where
  "counter_device t base cnt dev \<longleftrightarrow>
     (\<forall>log. dev log 32 (base + ucast (tm_lsb t)) = take_bit 32 (cnt (length log)) \<and>
        dev log 32 (base + ucast (tm_msb t)) = drop_bit 32 (cnt (length log)))"

lemma read_timer64_halves:
  assumes "counter_device t (io_mmio_base s) cnt (io_dev s)"
  shows "fst (read_timer64 t s) = take_bit 32 (cnt (length (io_log s))) OR push_bit 32 (drop_bit 32 (cnt (Suc (length (io_log s)))))"
proof -
  have c: "io_dev s log 32 (io_mmio_base s + ucast (tm_lsb t)) = take_bit 32 (cnt (length log))"
    "io_dev s log 32 (io_mmio_base s + ucast (tm_msb t)) = drop_bit 32 (cnt (length log))" for log
    using assms by (simp_all add: counter_device_def)
  have u: "(ucast (ucast (take_bit 32 x :: u64) :: u32) :: u64) = take_bit 32 x" for x
    by (rule bit_word_eqI) (auto simp: bit_simps)
  have d: "take_bit 32 (drop_bit 32 x) = drop_bit 32 (x :: u64)" for x
    by (rule bit_word_eqI) (auto simp: bit_simps dest: bit_imp_le_length)
  show ?thesis
    by (simp add: read_timer64_def mmio_read_def ioread32_def io_read_def Let_def c u d)
qed

text \<open>
  read_timer64 reads the low half of the counter before the high half: the value is the
  counter at the time of the first read exactly when the high half does not change in
  between.
\<close>

theorem read_timer64_consistent:
  assumes "counter_device t (io_mmio_base s) cnt (io_dev s)" and "n = length (io_log s)"
  shows "fst (read_timer64 t s) = cnt n \<longleftrightarrow> drop_bit 32 (cnt n) = drop_bit 32 (cnt (Suc n))"
proof -
  let ?v = "take_bit 32 (cnt n) OR push_bit 32 (drop_bit 32 (cnt (Suc n)))"
  have v: "fst (read_timer64 t s) = ?v" using read_timer64_halves [OF assms(1)] assms(2) by simp
  have "drop_bit 32 ?v = drop_bit 32 (cnt (Suc n))"
    by (rule bit_word_eqI) (auto simp: bit_simps dest: bit_imp_le_length)
  moreover have "?v = cnt n" if "drop_bit 32 (cnt n) = drop_bit 32 (cnt (Suc n))"
    unfolding that [symmetric] by (rule bit_word_eqI, auto simp: bit_simps) (metis le_add_diff_inverse not_less)
  ultimately show ?thesis unfolding v by metis
qed

theorem read_timer64_consistent_witness:
  "fst (read_timer64 \<lparr>tm_base = 0, tm_msb = 8, tm_lsb = 4, tm_read = True, tm_set = True\<rparr>
     (quiet_io\<lparr>io_dev := (\<lambda>log w a. if a = 0x3F000004 then take_bit 32 (0xFFFFFFFF + word_of_nat (length log))
        else drop_bit 32 (0xFFFFFFFF + word_of_nat (length log)))\<rparr>)) \<noteq> 0xFFFFFFFF"
  using read_timer64_consistent [of "\<lparr>tm_base = 0, tm_msb = 8, tm_lsb = 4, tm_read = True, tm_set = True\<rparr>"
    "quiet_io\<lparr>io_dev := (\<lambda>log w a. if a = 0x3F000004 then take_bit 32 (0xFFFFFFFF + word_of_nat (length log))
        else drop_bit 32 (0xFFFFFFFF + word_of_nat (length log)))\<rparr>" "\<lambda>k. 0xFFFFFFFF + word_of_nat k" 0]
  by (simp add: counter_device_def quiet_io_def)

end
