(* ===== verification/Mmu_Props.thy ===== *)
theory Mmu_Props
  imports Mmu Devices_Props
begin

text \<open>
  The tables of the boot code as well formed tables: what init\_mmu hands to the functions of
  pt.c, and the set-up of the devices on it.
\<close>

text \<open>
  The processor uses the table of TTBR0 for addresses with 25 zero bits at the top, and the
  table of TTBR1 for those with 25 ones.
\<close>

definition va_translate :: "sys_regs \<Rightarrow> (u64 \<Rightarrow> u64) \<Rightarrow> u64 \<Rightarrow> u64 option" where
  "va_translate r m a =
     (if drop_bit 39 a = 0 then hw_walk m (sr_ttbr0 r) a
      else if drop_bit 39 a = 0x1FFFFFF then hw_walk m (sr_ttbr1 r) a
      else None)"

text \<open>
  The tables that boot.S builds: one entry in the tables of the first two levels, with the
  flags \<^verbatim>\<open>INIT_PT_FLAGS\<close>, and memory that was zero before.
\<close>

abbreviation INIT_PT_FLAGS :: u64 where "INIT_PT_FLAGS \<equiv> 0x0040000000000703"

definition boot_tables :: "(u64 \<Rightarrow> u64) \<Rightarrow> u64 \<Rightarrow> u64 \<Rightarrow> u64 \<Rightarrow> bool" where
  "boot_tables m t t2 t3 \<longleftrightarrow> (\<forall>a\<in>{t, t2, t3}. page_addr a \<and> a \<noteq> 0) \<and> distinct [t, t2, t3] \<and>
     m t = t2 OR INIT_PT_FLAGS \<and> m t2 = t3 OR INIT_PT_FLAGS \<and>
     (\<forall>i<512. i \<noteq> 0 \<longrightarrow> m (t + 8 * i) = 0 \<and> m (t2 + 8 * i) = 0)"

lemma boot_flags: "flags_ok INIT_PT_FLAGS" "INIT_PT_FLAGS AND 0xFFFFF000 = 0"
  by (simp_all add: flags_ok_def)

lemma boot_entry: "page_addr q \<Longrightarrow> (q OR INIT_PT_FLAGS) AND 0xFFFFF000 = q"
  by (simp only: bit.conj_disj_distrib2 boot_flags(2)) (simp add: page_addr_def)

lemma extract_first:
  assumes "ps_global s = None" and "ps_heap s = g # hs" and "ps_ctr s = 0" and "boot_tables (ps_mem s) (sr_ttbr1 r) t2 t3"
    and "g \<noteq> 0" and "g + 32 \<noteq> 0" and "g + 64 \<noteq> 0"
  obtains s' where "extract_global_pt_info r s = Inr s'"
    and "ps_mem s' = ps_mem s" and "ps_global s' = Some g" and "ps_ctr s' = 3" and "ps_heap s' = hs"
    and "ps_desc s' g = \<lparr>pd_level = 1, pd_len = 1, pd_pt = sr_ttbr1 r, pd_next = None, pd_child = Some (g + 32)\<rparr>"
    and "ps_desc s' (g + 32) = \<lparr>pd_level = 2, pd_len = 1, pd_pt = t2, pd_next = None, pd_child = Some (g + 64)\<rparr>"
    and "ps_desc s' (g + 64) = \<lparr>pd_level = 3, pd_len = 512, pd_pt = t3, pd_next = None, pd_child = None\<rparr>"
    and "\<And>x. x \<notin> {0, g, g + 32, g + 64} \<Longrightarrow> unat x < unat g \<or> unat g + PAGE_SIZE \<le> unat x \<Longrightarrow> ps_desc s' x = ps_desc s x"
proof -
  have m: "va_to_pa (sr_ttbr1 r) = sr_ttbr1 r" "va_to_pa t2 = t2"
    "ps_mem s (sr_ttbr1 r) AND 0xFFFFF000 = t2" "ps_mem s t2 AND 0xFFFFF000 = t3"
    using assms(4) page_low boot_entry by (auto simp: boot_tables_def)
  note defs = extract_round_def create_pt_desc_def extract_pt_addr_def Let_def get_ttbr1_el1_def read_mem_def set_desc_def
  obtain s1 where s1: "extract_round 1 r (None, 0, s) = Inr (Some g, 0, s1)" "ps_mem s1 = ps_mem s" "ps_global s1 = Some g"
    "ps_ctr s1 = 1" "ps_heap s1 = hs"
    "ps_desc s1 g = \<lparr>pd_level = 1, pd_len = 1, pd_pt = sr_ttbr1 r, pd_next = None, pd_child = None\<rparr>"
    "\<forall>x. x \<notin> {0, g} \<and> (unat x < unat g \<or> unat g + PAGE_SIZE \<le> unat x) \<longrightarrow> ps_desc s1 x = ps_desc s x"
    using assms(1-3,5) by (simp add: defs init_descs_def kmalloc_page_def)
  obtain s2 where s2: "extract_round 2 r (Some g, 0, s1) = Inr (Some (g + 32), g, s2)" "ps_mem s2 = ps_mem s" "ps_global s2 = Some g"
    "ps_ctr s2 = 2" "ps_heap s2 = hs"
    "ps_desc s2 g = \<lparr>pd_level = 1, pd_len = 1, pd_pt = sr_ttbr1 r, pd_next = None, pd_child = Some (g + 32)\<rparr>"
    "ps_desc s2 (g + 32) = \<lparr>pd_level = 2, pd_len = 1, pd_pt = t2, pd_next = None, pd_child = None\<rparr>"
    "\<forall>x. x \<notin> {0, g, g + 32} \<and> (unat x < unat g \<or> unat g + PAGE_SIZE \<le> unat x) \<longrightarrow> ps_desc s2 x = ps_desc s x"
    using s1(2-7) m by (simp add: defs init_descs_def)
  obtain s3 where s3: "extract_round 3 r (Some (g + 32), g, s2) = Inr (Some (g + 64), g + 32, s3)" "ps_mem s3 = ps_mem s" "ps_global s3 = Some g"
    "ps_ctr s3 = 3" "ps_heap s3 = hs"
    "ps_desc s3 g = \<lparr>pd_level = 1, pd_len = 1, pd_pt = sr_ttbr1 r, pd_next = None, pd_child = Some (g + 32)\<rparr>"
    "ps_desc s3 (g + 32) = \<lparr>pd_level = 2, pd_len = 1, pd_pt = t2, pd_next = None, pd_child = Some (g + 64)\<rparr>"
    "ps_desc s3 (g + 64) = \<lparr>pd_level = 3, pd_len = 512, pd_pt = t3, pd_next = None, pd_child = None\<rparr>"
    "\<forall>x. x \<notin> {0, g, g + 32, g + 64} \<and> (unat x < unat g \<or> unat g + PAGE_SIZE \<le> unat x) \<longrightarrow> ps_desc s3 x = ps_desc s x"
    using s2(2-8) m by (simp add: defs init_descs_def)
  show thesis
    by (rule that [of s3]) (use s3 s1(1) s2(1) in \<open>simp_all add: extract_global_pt_info_def\<close>)
qed


lemma boot_link:
  assumes "boot_tables m t t2 t3" and "q \<in> {t2, t3}" and "tbl s d = q"
  shows "link s (q OR INIT_PT_FLAGS) d" and "q OR INIT_PT_FLAGS \<noteq> 0"
proof -
  have q: "page_addr q" using assms(1,2) by (auto simp: boot_tables_def)
  show "link s (q OR INIT_PT_FLAGS) d" using table_entry [OF q boot_flags(1)] assms(3) by (simp add: link_def)
  have "(q OR INIT_PT_FLAGS) AND 3 = 3" using table_entry [OF q boot_flags(1)] by simp
  then show "q OR INIT_PT_FLAGS \<noteq> 0" by auto
qed

lemma adopted_inv:
  assumes b: "boot_tables (ps_mem s) t t2 t3"
    and d: "ps_desc s g = \<lparr>pd_level = 1, pd_len = 1, pd_pt = t, pd_next = None, pd_child = Some (g + 32)\<rparr>"
      "ps_desc s (g + 32) = \<lparr>pd_level = 2, pd_len = 1, pd_pt = t2, pd_next = None, pd_child = Some (g + 64)\<rparr>"
      "ps_desc s (g + 64) = \<lparr>pd_level = 3, pd_len = 512, pd_pt = t3, pd_next = None, pd_child = None\<rparr>"
    and h: "heap_ok s []" "\<forall>p\<in>set (ps_heap s). va_to_pa p \<notin> {t, t2, t3}"
    and a: "ps_global s = Some g" "ps_ctr s = 3"
  shows "pt_inv s [g, g + 32, g + 64] ((\<lambda>_. [])(g := [g + 32], g + 32 := [g + 64]))"
    and "lvl s g = 1" and "tbl s g = t"
proof -
  let ?kids = "(\<lambda>_. [])(g := [g + 32], g + 32 := [g + 64])"
  have p: "page_ok q" "va_to_pa q = q" if "q \<in> {t, t2, t3}" for q
    using b that page_low by (auto simp: boot_tables_def page_ok_def)
  have l: "lvl s g = 1" "lvl s (g + 32) = 2" "lvl s (g + 64) = 3" by (simp_all add: lvl_def d)
  have tb: "tbl s g = t" "tbl s (g + 32) = t2" "tbl s (g + 64) = t3" using p(2) by (simp_all add: tbl_def d)
  show "lvl s g = 1" "tbl s g = t" by (rule l(1), rule tb(1))
  have "descs_ok s [g, g + 32, g + 64]" using b p(1) l tb by (auto simp: descs_ok_def d boot_tables_def)
  moreover have "kids_ok s [g, g + 32, g + 64] ?kids"
    using l by (auto simp: kids_ok_def d chain_simps chain.simps desc_nexts_def)
  moreover have "entries_ok s [g, g + 32, g + 64] ?kids"
  proof -
    have e: "ent s g i = (if i = 0 then t2 OR INIT_PT_FLAGS else 0)" "ent s (g + 32) i = (if i = 0 then t3 OR INIT_PT_FLAGS else 0)"
      if "i < 512" for i
      using b that by (auto simp: ent_def tb boot_tables_def)
    show ?thesis
      using boot_link [OF b, of t2 s "g + 32"] boot_link [OF b, of t3 s "g + 64"] tb l
      by (simp add: entries_ok_def e)
  qed
  moreover have "heap_ok s [g, g + 32, g + 64]" using h tb by (auto simp: heap_ok_def)
  moreover have "alloc_ok s [g, g + 32, g + 64]"
  proof -
    have "g + DESC_SIZE * word_of_nat k \<notin> {g, g + 32, g + 64}" if "3 \<le> k" "k < MAX_DESCS" for k
      using desc_addr_eq [OF that(2), of 0 g] desc_addr_eq [OF that(2), of 1 g] desc_addr_eq [OF that(2), of 2 g] that(1) by simp
    then show ?thesis using a by (simp add: alloc_ok_def)
  qed
  ultimately show "pt_inv s [g, g + 32, g + 64] ?kids" by (simp add: pt_inv_def)
qed

lemma boot_run:
  assumes "boot_tables (ps_mem (io_pt (ks_dev k))) (sr_ttbr1 r) t2 t3"
    and "ps_global (io_pt (ks_dev k)) = None" and "ps_ctr (io_pt (ks_dev k)) = 0" and "ps_heap (io_pt (ks_dev k)) = g # hs"
    and "2 * (n + 4) \<le> length hs" and "n < 50" and "page_ok g"
    and "heap_ok (io_pt (ks_dev k)\<lparr>ps_heap := hs\<rparr>) []" and "\<forall>p\<in>set hs. va_to_pa p \<notin> {sr_ttbr1 r, t2, t3}"
    and "drop_bit 4 reg AND 0xFFF = 0xD03"
    and "gets_ready (io_dev (ks_dev k)) serial_status lsr_idle" and "ks_lock k = 0"
  obtains p console tmr irq k' where "init_mmu 0 (r, io_pt (ks_dev k)) = Inr (r\<lparr>sr_mair := mair_el1\<rparr>, p)"
    and "main_devices reg ctrl (k\<lparr>ks_dev := ks_dev k\<lparr>io_pt := p\<rparr>\<rparr>) = Inr (Some console, tmr, irq, k')"
    and "\<And>b. hw_walk (ps_mem (io_pt (ks_dev k'))) (sr_ttbr1 r) b =
      (if \<exists>a\<in>set device_pages. b AND VA_PAGE = a AND VA_PAGE then Some (va_to_pa b)
       else hw_walk (ps_mem (io_pt (ks_dev k))) (sr_ttbr1 r) b)"
    and "dev_tables n g (sr_ttbr1 r) (io_pt (ks_dev k'))" and "ks_lock k' = 0" and "io_dev (ks_dev k') = io_dev (ks_dev k)"
    and "\<And>x. x \<noteq> 0 \<Longrightarrow> unat x < unat g \<or> unat g + PAGE_SIZE \<le> unat x \<Longrightarrow> x \<notin> desc_slots (io_pt (ks_dev k')) \<Longrightarrow> ps_desc (io_pt (ks_dev k')) x = ps_desc (io_pt (ks_dev k)) x"
    and "cd_putc console = mini_uart_putc (pa_to_va 0x3F215000)" and "cd_puts console = mini_uart_puts (pa_to_va 0x3F215000)"
proof -
  have off: "g AND 0xFFF = 0" "va_to_pa g \<noteq> 0" using page_phys(2) [OF assms(7)] assms(7) by (simp_all add: page_ok_def)
  have nz: "g + 32 \<noteq> 0" "g + 64 \<noteq> 0" "g \<noteq> 0"
    using off by (auto simp: eq_neg_iff_add_eq_0 [symmetric] va_to_pa_def)
  obtain p where p: "extract_global_pt_info r (io_pt (ks_dev k)) = Inr p"
    "ps_mem p = ps_mem (io_pt (ks_dev k))" "ps_global p = Some g" "ps_ctr p = 3" "ps_heap p = hs"
    "ps_desc p g = \<lparr>pd_level = 1, pd_len = 1, pd_pt = sr_ttbr1 r, pd_next = None, pd_child = Some (g + 32)\<rparr>"
    "ps_desc p (g + 32) = \<lparr>pd_level = 2, pd_len = 1, pd_pt = t2, pd_next = None, pd_child = Some (g + 64)\<rparr>"
    "ps_desc p (g + 64) = \<lparr>pd_level = 3, pd_len = 512, pd_pt = t3, pd_next = None, pd_child = None\<rparr>"
    "\<And>x. x \<notin> {0, g, g + 32, g + 64} \<Longrightarrow> unat x < unat g \<or> unat g + PAGE_SIZE \<le> unat x \<Longrightarrow>
      ps_desc p x = ps_desc (io_pt (ks_dev k)) x"
    by (rule extract_first [OF assms(2,4,3,1) nz(3,1,2)]) (rule that)
  have "heap_ok p []" using assms(8) p(2,5) by (simp add: heap_ok_def)
  moreover have "\<forall>x\<in>set (ps_heap p). va_to_pa x \<notin> {sr_ttbr1 r, t2, t3}" using assms(9) p(5) by simp
  moreover have "boot_tables (ps_mem p) (sr_ttbr1 r) t2 t3" using assms(1) p(2) by simp
  ultimately have inv: "pt_inv p [g, g + 32, g + 64] ((\<lambda>_. [])(g := [g + 32], g + 32 := [g + 64]))" "lvl p g = 1" "tbl p g = sr_ttbr1 r"
    using adopted_inv [OF _ p(6-8) _ _ p(3,4)] by blast+
  have slots: "g \<in> desc_slots p" "g + 32 \<in> desc_slots p" "g + 64 \<in> desc_slots p"
    using p(3) by (auto simp: desc_slots_def intro: exI [of _ 0] exI [of _ 1] exI [of _ 2])
  have dt: "dev_tables (n + 4) g (sr_ttbr1 r) (io_pt (ks_dev (k\<lparr>ks_dev := ks_dev k\<lparr>io_pt := p\<rparr>\<rparr>)))"
    unfolding dev_tables_def using inv assms(5,6) p(3-5)
    by (intro conjI exI [of _ "[g, g + 32, g + 64]"] exI [of _ "(\<lambda>_. [])(g := [g + 32], g + 32 := [g + 64])"])
      (use slots in simp_all)
  have rd: "gets_ready (io_dev (ks_dev (k\<lparr>ks_dev := ks_dev k\<lparr>io_pt := p\<rparr>\<rparr>))) serial_status lsr_idle"
    "ks_lock (k\<lparr>ks_dev := ks_dev k\<lparr>io_pt := p\<rparr>\<rparr>) = 0" using assms(11,12) by simp_all
  have "sr_ttbr1 r \<noteq> 0" using assms(1) by (auto simp: boot_tables_def)
  then have "get_kernel_translation_table p \<noteq> 0" using off(2) p(3,6) by (simp add: get_kernel_translation_table_def)
  then have im: "init_mmu 0 (r, io_pt (ks_dev k)) = Inr (r\<lparr>sr_mair := mair_el1\<rparr>, p)"
    using p(1) by (simp add: init_mmu_def)
  obtain console tmr irq k' where m: "main_devices reg ctrl (k\<lparr>ks_dev := ks_dev k\<lparr>io_pt := p\<rparr>\<rparr>) = Inr (Some console, tmr, irq, k')"
    "\<And>b. hw_walk (ps_mem (io_pt (ks_dev k'))) (sr_ttbr1 r) b =
      (if \<exists>a\<in>set device_pages. b AND VA_PAGE = a AND VA_PAGE then Some (va_to_pa b)
       else hw_walk (ps_mem (io_pt (ks_dev (k\<lparr>ks_dev := ks_dev k\<lparr>io_pt := p\<rparr>\<rparr>)))) (sr_ttbr1 r) b)"
    "ks_lock k' = 0" "dev_tables n g (sr_ttbr1 r) (io_pt (ks_dev k'))"
    "io_dev (ks_dev k') = io_dev (ks_dev (k\<lparr>ks_dev := ks_dev k\<lparr>io_pt := p\<rparr>\<rparr>))"
    "desc_kept (io_pt (ks_dev (k\<lparr>ks_dev := ks_dev k\<lparr>io_pt := p\<rparr>\<rparr>))) (io_pt (ks_dev k'))"
    "cd_putc console = mini_uart_putc (pa_to_va 0x3F215000)" "cd_puts console = mini_uart_puts (pa_to_va 0x3F215000)"
    by (rule main_devices_run [OF assms(10) dt rd, of ctrl]) (rule that)
  show thesis
  proof (rule that [OF im m(1) _ m(4,3)])
    fix x assume x: "x \<noteq> 0" "unat x < unat g \<or> unat g + PAGE_SIZE \<le> unat x" "x \<notin> desc_slots (io_pt (ks_dev k'))"
    then have "x \<notin> desc_slots p" "ps_desc (io_pt (ks_dev k')) x = ps_desc p x" using m(6) by (simp_all add: desc_kept_def)
    then show "ps_desc (io_pt (ks_dev k')) x = ps_desc (io_pt (ks_dev k)) x" using p(9) [of x] x(1,2) slots by auto
  qed (use m(2,5,7,8) p(2) in simp_all)
qed

text \<open>
  On the first core init_mmu makes descriptors for the tables of the boot code that
  satisfy the invariant of pt.c, without changing the tables, so that the devices can be
  set up on them: init_mmu followed by the set-up of the devices returns, and the
  translation is that of the boot code plus the four device pages.
\<close>

theorem boot_translation:
  assumes "boot_tables (ps_mem (io_pt (ks_dev k))) (sr_ttbr1 r) t2 t3"
    and "ps_global (io_pt (ks_dev k)) = None" and "ps_ctr (io_pt (ks_dev k)) = 0" and "ps_heap (io_pt (ks_dev k)) = g # hs" and "8 \<le> length hs"
    and "page_ok g"
    and "heap_ok (io_pt (ks_dev k)\<lparr>ps_heap := hs\<rparr>) []" and "\<forall>p\<in>set hs. va_to_pa p \<notin> {sr_ttbr1 r, t2, t3}"
    and "drop_bit 4 reg AND 0xFFF = 0xD03"
    and "gets_ready (io_dev (ks_dev k)) serial_status lsr_idle" and "ks_lock k = 0"
  shows "\<exists>p console tmr irq k'. init_mmu 0 (r, io_pt (ks_dev k)) = Inr (r\<lparr>sr_mair := mair_el1\<rparr>, p) \<and>
    main_devices reg ctrl (k\<lparr>ks_dev := ks_dev k\<lparr>io_pt := p\<rparr>\<rparr>) = Inr (Some console, tmr, irq, k') \<and>
    (\<forall>b. hw_walk (ps_mem (io_pt (ks_dev k'))) (sr_ttbr1 r) b =
      (if \<exists>a\<in>set device_pages. b AND VA_PAGE = a AND VA_PAGE then Some (va_to_pa b)
       else hw_walk (ps_mem (io_pt (ks_dev k))) (sr_ttbr1 r) b))"
proof -
  have "2 * (0 + 4) \<le> length hs" using assms(5) by simp
  from boot_run [OF assms(1-4) this _ assms(6-11), of ctrl] show ?thesis by (metis zero_less_numeral)
qed

definition demo_boot :: io where
  "demo_boot = quiet_io\<lparr>io_pt := \<lparr>ps_mem = (\<lambda>_. 0)(0x180000 := 0x181000 OR INIT_PT_FLAGS, 0x181000 := 0x182000 OR INIT_PT_FLAGS),
     ps_desc = (\<lambda>_. zero_desc), ps_global = None, ps_ctr = 0,
     ps_heap = [0x100000, 0x101000, 0x102000, 0x103000, 0x104000, 0x105000, 0x106000, 0x107000, 0x108000]\<rparr>\<rparr>"

definition demo_regs :: sys_regs where
  "demo_regs = \<lparr>sr_ttbr0 = 0x180000, sr_ttbr1 = 0x180000, sr_tcr = 0x80190019, sr_mair = 0, sr_vbar = 0, sr_sp = 0, sr_lr = 0\<rparr>"

lemma demo_boot_tables_ok: "boot_tables (ps_mem (io_pt demo_boot)) (sr_ttbr1 demo_regs) 0x181000 0x182000"
proof -
  have p: "page_addr 0x180000" "page_addr 0x181000" "page_addr 0x182000" by (simp_all add: page_addr_def)
  have "q + 8 * i \<noteq> 0x180000 \<and> q + 8 * i \<noteq> 0x181000" if "q \<in> {0x180000, 0x181000}" "i < 512" "i \<noteq> 0" for q i :: u64
    using slot_eq [of q "0x180000" i 0] slot_eq [of q "0x181000" i 0] that p by auto
  moreover have "8 * i \<noteq> 0" if "i < 512" "i \<noteq> 0" for i :: u64 using slot_eq [OF p(1) p(1) that(1), of 0] that(2) by simp
  ultimately show ?thesis using p by (auto simp: boot_tables_def demo_boot_def demo_regs_def)
qed

end
