(* ===== verification/Syscall.thy ===== *)
theory Syscall
  imports Printf
begin

text \<open>
  System calls: syscall.c, syscall\_def.c and usr\_ops.c, with the memory functions of mm.c.
  The memory is a function from addresses to bytes. The linker symbol \<^verbatim>\<open>__usr_entry\<close> and
  the address of the buffer on the kernel stack are arguments.
\<close>

section \<open>Memory functions\<close>

type_synonym memory = "u64 \<Rightarrow> u8"

text \<open>strcpy does not end when it overwrites the end of its source.\<close>

partial_function (option) strcpy :: "u64 \<Rightarrow> u64 \<Rightarrow> memory \<Rightarrow> memory option" where
  "strcpy d s m = (if m s \<noteq> 0 then strcpy (d + 1) (s + 1) (m(d := m s)) else Some m)"

declare strcpy.simps [code]

text \<open>The counter is an int, which is compared with the size as an unsigned number.\<close>

lemma unat_inc: "i < n \<Longrightarrow> unat (i + 1 :: u32) = Suc (unat i)"
proof -
  assume "i < n"
  moreover have "unat n < 2 ^ 32" by (rule order.strict_trans2 [OF unsigned_less]) simp
  ultimately have "unat i + 1 < 2 ^ 32" by (simp add: word_less_nat_alt)
  then show ?thesis by (simp add: unat_word_ariths)
qed

function memcpy_loop :: "u32 \<Rightarrow> u64 \<Rightarrow> u64 \<Rightarrow> u32 \<Rightarrow> memory \<Rightarrow> memory" where
  "memcpy_loop i d s n m =
     (if i < n then memcpy_loop (i + 1) d s n (m(d + scast i := m (s + scast i))) else m)"
  by pat_completeness auto

termination by (relation "measure (\<lambda>(i, d, s, n, m). unat n - unat i)") (auto simp: unat_inc word_less_nat_alt)

definition memcpy :: "u64 \<Rightarrow> u64 \<Rightarrow> u32 \<Rightarrow> memory \<Rightarrow> memory" where
  "memcpy d s n m = memcpy_loop 0 d s n m"

function memset_loop :: "u32 \<Rightarrow> u64 \<Rightarrow> u8 \<Rightarrow> u32 \<Rightarrow> memory \<Rightarrow> memory" where
  "memset_loop i buf c n m = (if i < n then memset_loop (i + 1) buf c n (m(buf + scast i := c)) else m)"
  by pat_completeness auto

termination by (relation "measure (\<lambda>(i, buf, c, n, m). unat n - unat i)") (auto simp: unat_inc word_less_nat_alt)

definition memset :: "u64 \<Rightarrow> u8 \<Rightarrow> u32 \<Rightarrow> memory \<Rightarrow> memory" where
  "memset buf c n m = memset_loop 0 buf c n m"

declare memcpy_loop.simps [simp del] memset_loop.simps [simp del]

text \<open>The string at an address, up to the zero byte; no value when there is none.\<close>

partial_function (option) string_at :: "memory \<Rightarrow> u64 \<Rightarrow> u8 list option" where
  "string_at m p = (if m p = 0 then Some [] else Option.bind (string_at m (p + 1)) (\<lambda>cs. Some (m p # cs)))"

declare string_at.simps [code]

section \<open>Reading user memory\<close>

text \<open>The state of a system call: that of the console, and the memory.\<close>

record 's sys_state = "'s kstdio" +
  ss_mem :: memory

definition on_console :: "('s \<Rightarrow> 's result) \<Rightarrow> 's sys_state \<Rightarrow> 's sys_state result" where
  "on_console f s = bindR (f (ks_dev s)) (\<lambda>d. Inr (s\<lparr>ks_dev := d\<rparr>))"

definition user_addr_is_valid :: "u64 \<Rightarrow> u64 \<Rightarrow> u32" where
  "user_addr_is_valid usr_entry addr =
     (if addr < va_to_pa usr_entry then - 1
      else if va_to_pa (usr_entry + USR_SZ) < addr then - 1
      else 0)"

text \<open>
  The pointers that are printed are passed as ints: vprintf reads their low halves.
\<close>

definition copy_from_user ::
  "'s char_device option \<Rightarrow> u64 \<Rightarrow> u64 \<Rightarrow> u64 \<Rightarrow> u32 \<Rightarrow> 's sys_state \<Rightarrow> (u32 \<times> 's sys_state) result" where
  "copy_from_user console usr_entry u_buf k_buf len s =
     (let effective_len = ucast (usr_entry + USR_SZ - u_buf) :: u32 in
      if user_addr_is_valid usr_entry u_buf \<noteq> 0 then
        bindR (kprintf console (chars ''Invalid address!: %x [%x:%x]'' @ [0x0A])
                 [Arg_int (ucast u_buf), Arg_int (ucast usr_entry), Arg_int (ucast (usr_entry + USR_SZ))] s) (\<lambda>(_, s).
        Inr (- 1, s))
      else
        let effective_len = (if len < effective_len then len else effective_len)
        in bindR (loopR (strcpy k_buf u_buf (ss_mem s))) (\<lambda>m. Inr (effective_len, s\<lparr>ss_mem := m\<rparr>)))"

section \<open>System calls\<close>

record syscall_meta =
  sys_args :: "u64 list"
  sys_nr :: u64

text \<open>A system call comes back, or stays in the kernel for ever (in the loop of syscall\_panic).\<close>

datatype outcome = Returned | Halted

definition puts_at :: "'s char_device option \<Rightarrow> u64 \<Rightarrow> 's sys_state \<Rightarrow> 's sys_state result" where
  "puts_at console p s = bindR (loopR (string_at (ss_mem s) p)) (\<lambda>cs. on_console (puts console cs) s)"

definition syscall_ni :: "'s char_device option \<Rightarrow> syscall_meta \<Rightarrow> 's sys_state \<Rightarrow> (outcome \<times> 's sys_state) result" where
  "syscall_ni console sys_m s =
     bindR (kprintf console (chars ''Syscall not implemented!'' @ [0x0A]) [] s) (\<lambda>(_, s). Inr (Returned, s))"

definition syscall_putc :: "'s char_device option \<Rightarrow> syscall_meta \<Rightarrow> 's sys_state \<Rightarrow> (outcome \<times> 's sys_state) result" where
  "syscall_putc console sys_m s =
     (let c = ucast (sys_args sys_m ! 1) :: u8
      in bindR (on_console (putc console c) s) (\<lambda>s. Inr (Returned, s)))"

text \<open>The result of copy\_from\_user is unsigned, so that it is never less than 0.\<close>

definition syscall_puts ::
  "'s char_device option \<Rightarrow> u64 \<Rightarrow> u64 \<Rightarrow> syscall_meta \<Rightarrow> 's sys_state \<Rightarrow> (outcome \<times> 's sys_state) result" where
  "syscall_puts console usr_entry buf sys_m s =
     bindR (copy_from_user console usr_entry (sys_args sys_m ! 1) buf 10 s) (\<lambda>(ret, s).
     if ret < 0 then Inr (Returned, s)
     else bindR (puts_at console buf s) (\<lambda>s. Inr (Returned, s)))"

definition syscall_panic :: "'s char_device option \<Rightarrow> syscall_meta \<Rightarrow> 's sys_state \<Rightarrow> (outcome \<times> 's sys_state) result" where
  "syscall_panic console sys_m s =
     bindR (on_console (puts console (chars ''Panic!:'')) s) (\<lambda>s.
     bindR (puts_at console (sys_args sys_m ! 1) s) (\<lambda>s. Inr (Halted, s)))"

abbreviation SUPP_SYSCALL_NR :: u64 where "SUPP_SYSCALL_NR \<equiv> 4"

text \<open>The registers x0 to x8 at the entry.\<close>

definition get_syscall_meta :: "(nat \<Rightarrow> u64) \<Rightarrow> syscall_meta" where
  "get_syscall_meta x = \<lparr>sys_args = map x [0..<8], sys_nr = x 8\<rparr>"

definition syscall_el0_common ::
  "'s char_device option \<Rightarrow> u64 \<Rightarrow> u64 \<Rightarrow> (nat \<Rightarrow> u64) \<Rightarrow> 's sys_state \<Rightarrow> (outcome \<times> 's sys_state) result" where
  "syscall_el0_common console usr_entry buf x s =
     (let sys_m = get_syscall_meta x;
          nr = (if SUPP_SYSCALL_NR \<le> sys_nr sys_m then 0 else sys_nr sys_m)
      in ([syscall_ni console, syscall_putc console, syscall_puts console usr_entry buf, syscall_panic console]
           ! unat nr) sys_m s)"

end
