(* ===== verification/Syscall_Props.thy ===== *)
theory Syscall_Props
  imports Syscall Printf_Props
begin

text \<open>
  What a system call copies and prints. Strings in memory are described by string\_at, the
  bytes that strcpy writes by write\_bytes.
\<close>

section \<open>Copying strings\<close>

primrec write_bytes :: "u64 \<Rightarrow> u8 list \<Rightarrow> memory \<Rightarrow> memory" where
  "write_bytes d [] m = m"
| "write_bytes d (c # cs) m = write_bytes (d + 1) cs (m(d := c))"

lemma string_at_Cons:
  "string_at m p = Some (c # cs) \<longleftrightarrow> m p = c \<and> c \<noteq> 0 \<and> string_at m (p + 1) = Some cs"
  by (subst string_at.simps) (auto split: Option.bind_splits)

lemma string_at_Nil: "string_at m p = Some [] \<longleftrightarrow> m p = 0"
  by (subst string_at.simps) (auto split: Option.bind_splits)

lemma string_at_other:
  "string_at m p = Some cs \<Longrightarrow> \<forall>j\<le>length cs. x \<noteq> p + word_of_nat j \<Longrightarrow> string_at (m(x := v)) p = Some cs"
proof (induction cs arbitrary: p)
  case Nil
  then show ?case by (auto simp: string_at_Nil)
next
  case (Cons c cs)
  have "x \<noteq> p + 1 + word_of_nat j" if "j \<le> length cs" for j
    using Cons.prems(2) [rule_format, of "Suc j"] that by (simp add: add.assoc)
  moreover have "x \<noteq> p" using Cons.prems(2) [rule_format, of 0] by simp
  ultimately show ?case using Cons.IH [of "p + 1"] Cons.prems(1) by (auto simp: string_at_Cons)
qed

lemma strcpy_bytes:
  "string_at m s = Some cs \<Longrightarrow> \<forall>i<length cs. \<forall>j\<le>length cs. d + word_of_nat i \<noteq> s + word_of_nat j \<Longrightarrow>
    strcpy d s m = Some (write_bytes d cs m)"
proof (induction cs arbitrary: d s m)
  case Nil
  then show ?case by (simp add: string_at_Nil strcpy.simps)
next
  case (Cons c cs)
  have c: "m s = c" "c \<noteq> 0" "string_at m (s + 1) = Some cs" using Cons.prems(1) by (auto simp: string_at_Cons)
  have "d \<noteq> s + 1 + word_of_nat j" if "j \<le> length cs" for j
    using Cons.prems(2) [rule_format, of 0 "Suc j"] that by (simp add: add.assoc)
  then have "string_at (m(d := c)) (s + 1) = Some cs" using string_at_other [OF c(3)] by blast
  moreover have "d + 1 + word_of_nat i \<noteq> s + 1 + word_of_nat j" if "i < length cs" "j \<le> length cs" for i j
    using Cons.prems(2) [rule_format, of "Suc i" "Suc j"] that by (simp add: add.assoc)
  ultimately have "strcpy (d + 1) (s + 1) (m(d := c)) = Some (write_bytes (d + 1) cs (m(d := c)))"
    using Cons.IH by blast
  then show ?case using c by (subst strcpy.simps) simp
qed

lemma word_of_nat_inj: "i < 2 ^ 32 \<Longrightarrow> j < 2 ^ 32 \<Longrightarrow> (word_of_nat i :: u64) = word_of_nat j \<longleftrightarrow> i = j"
proof -
  assume "i < 2 ^ 32" "j < 2 ^ 32"
  then have "unat (word_of_nat i :: u64) = i" "unat (word_of_nat j :: u64) = j" by (simp_all add: unat_of_nat)
  then show ?thesis by metis
qed

lemma write_bytes_other: "(\<forall>i<length cs. x \<noteq> d + word_of_nat i) \<Longrightarrow> write_bytes d cs m x = m x"
proof (induction cs arbitrary: d m)
  case (Cons c cs)
  have "x \<noteq> d + 1 + word_of_nat i" if "i < length cs" for i
    using Cons.prems [rule_format, of "Suc i"] that by (simp add: add.assoc)
  moreover have "x \<noteq> d" using Cons.prems [rule_format, of 0] by simp
  ultimately show ?case using Cons.IH by simp
qed simp

lemma write_bytes_at:
  "length cs < 2 ^ 32 \<Longrightarrow> i < length cs \<Longrightarrow> write_bytes d cs m (d + word_of_nat i) = cs ! i"
proof (induction cs arbitrary: d i m)
  case (Cons c cs)
  show ?case
  proof (cases i)
    case 0
    have "d \<noteq> d + 1 + word_of_nat k" if "k < length cs" for k
      using word_of_nat_inj [of 0 "Suc k"] that Cons.prems(1) by (simp add: add.assoc)
    then have "write_bytes (d + 1) cs (m(d := c)) d = (m(d := c)) d" by (intro write_bytes_other) blast
    then show ?thesis using 0 by simp
  next
    case (Suc k)
    then show ?thesis using Cons.IH [of k "d + 1"] Cons.prems by (simp add: add.assoc)
  qed
qed simp

lemma copy_from_user_valid:
  assumes "user_addr_is_valid usr_entry u_buf = 0" and "string_at (ss_mem s) u_buf = Some cs"
    and "\<forall>i<length cs. \<forall>j\<le>length cs. k_buf + word_of_nat i \<noteq> u_buf + word_of_nat j"
  shows "copy_from_user console usr_entry u_buf k_buf len s =
    Inr (min len (ucast (usr_entry + USR_SZ - u_buf)), s\<lparr>ss_mem := write_bytes k_buf cs (ss_mem s)\<rparr>)"
  using assms(1) strcpy_bytes [OF assms(2,3)] by (auto simp: copy_from_user_def Let_def min_def)

text \<open>
  copy_from_user, for a valid address, copies the whole string at the address whatever
  length it is given, and does not copy the final zero; the length only shows in the
  result. A string that is longer than the buffer of the caller overwrites what follows.
\<close>

theorem copy_from_user_copies_all:
  assumes "user_addr_is_valid usr_entry u_buf = 0" and "string_at (ss_mem s) u_buf = Some cs" and "length cs < 2 ^ 32"
    and "\<forall>i<length cs. \<forall>j\<le>length cs. k_buf + word_of_nat i \<noteq> u_buf + word_of_nat j"
  shows "\<exists>m'. copy_from_user console usr_entry u_buf k_buf len s =
      Inr (min len (ucast (usr_entry + USR_SZ - u_buf)), s\<lparr>ss_mem := m'\<rparr>) \<and>
    (\<forall>i<length cs. m' (k_buf + word_of_nat i) = cs ! i) \<and>
    (\<forall>x. (\<forall>i<length cs. x \<noteq> k_buf + word_of_nat i) \<longrightarrow> m' x = ss_mem s x)"
  using copy_from_user_valid [OF assms(1,2,4)] write_bytes_at [OF assms(3)] write_bytes_other by blast

definition demo_memory :: memory where
  "demo_memory x = (if 0x400000 \<le> x \<and> x < 0x400004 then 0x41 else 0)"

definition demo_sys :: "memory \<Rightarrow> unit sys_state" where
  "demo_sys m = \<lparr>ks_daif = 0, ks_lock = 0, ks_dev = (), ss_mem = m\<rparr>"

theorem copy_from_user_copies_all_witness:
  "\<exists>m'. copy_from_user None (KERNEL_START + 0x400000) 0x400000 0x9000 2 (demo_sys demo_memory) =
     Inr (2, demo_sys m') \<and> m' 0x9003 = 0x41"
proof -
  have v: "user_addr_is_valid (KERNEL_START + 0x400000) 0x400000 = 0" by (simp add: user_addr_is_valid_def va_to_pa_def)
  have s: "string_at (ss_mem (demo_sys demo_memory)) 0x400000 = Some [0x41, 0x41, 0x41, 0x41]"
    by (simp add: demo_sys_def string_at_Cons string_at_Nil demo_memory_def)
  have d: "0x9000 + word_of_nat i \<noteq> (0x400000 :: u64) + word_of_nat j" if "i < 4" "j \<le> 4" for i j
  proof -
    have "i \<in> {0, 1, 2, 3}" "j \<in> {0, 1, 2, 3, 4}" using that by auto
    then show ?thesis by auto
  qed
  obtain m' where m': "copy_from_user None (KERNEL_START + 0x400000) 0x400000 0x9000 2 (demo_sys demo_memory) =
      Inr (min 2 (ucast (KERNEL_START + 0x400000 + USR_SZ - 0x400000)), demo_sys demo_memory\<lparr>ss_mem := m'\<rparr>)"
    "\<forall>i<4. m' (0x9000 + word_of_nat i) = [0x41, 0x41, 0x41, 0x41] ! i"
    using copy_from_user_copies_all [OF v s, of "0x9000" None 2] d by auto
  then show ?thesis using m'(2) [rule_format, of 3] by (intro exI [of _ m']) (simp add: demo_sys_def)
qed

section \<open>What a process can print\<close>

lemma sys_meta: "sys_nr (get_syscall_meta x) = x 8" "sys_args (get_syscall_meta x) ! Suc 0 = x (Suc 0)"
  "\<not> SUPP_SYSCALL_NR \<le> 1"
  by (simp_all add: get_syscall_meta_def word_le_nat_alt)

text \<open>
  C36. User mode can read kernel memory: system call 2 with an address outside of the user
  memory prints the bytes that happen to be in the buffer on the kernel stack, as the error
  of copy_from_user is not recognised, and system call 3 prints the string at any address.
\<close>

theorem syscall_prints_kernel_memory:
  assumes "user_addr_is_valid usr_entry (x 1) \<noteq> 0" and "string_at (ss_mem s) buf = Some stack"
    and "string_at (ss_mem s) (x 1) = Some secret"
    and "kprintf console (chars ''Invalid address!: %x [%x:%x]'' @ [0x0A])
      [Arg_int (ucast (x 1)), Arg_int (ucast usr_entry), Arg_int (ucast (usr_entry + USR_SZ))] s = Inr (n, s\<lparr>ks_dev := d\<rparr>)"
  shows "syscall_el0_common console usr_entry buf (x(8 := 2)) s =
      bindR (on_console (puts console stack) (s\<lparr>ks_dev := d\<rparr>)) (\<lambda>s. Inr (Returned, s)) \<and>
    syscall_el0_common console usr_entry buf (x(8 := 3)) s =
      bindR (on_console (puts console (chars ''Panic!:'')) s) (\<lambda>s.
      bindR (on_console (puts console secret) s) (\<lambda>s. Inr (Halted, s)))"
proof
  have "copy_from_user console usr_entry (x 1) buf 10 s = Inr (- 1, s\<lparr>ks_dev := d\<rparr>)"
    using assms(1,4) by (simp add: copy_from_user_def Let_def)
  then show "syscall_el0_common console usr_entry buf (x(8 := 2)) s =
      bindR (on_console (puts console stack) (s\<lparr>ks_dev := d\<rparr>)) (\<lambda>s. Inr (Returned, s))"
    using assms(2) by (simp add: syscall_el0_common_def Let_def sys_meta syscall_puts_def puts_at_def)
  have "ss_mem s' = ss_mem s" if "on_console f s = Inr s'" for f s'
    using that by (auto simp: on_console_def result_simps)
  then show "syscall_el0_common console usr_entry buf (x(8 := 3)) s =
      bindR (on_console (puts console (chars ''Panic!:'')) s) (\<lambda>s.
      bindR (on_console (puts console secret) s) (\<lambda>s. Inr (Halted, s)))"
    using assms(3)
    by (cases "on_console (puts console (chars ''Panic!:'')) s")
      (simp_all add: syscall_el0_common_def Let_def sys_meta syscall_panic_def puts_at_def)
qed

text \<open>A console that keeps what is printed, and a memory with strings of the kernel.\<close>

definition tape :: "u8 list char_device" where
  "tape = \<lparr>cd_base = 0, cd_quirks = None, cd_putc = (\<lambda>c t. Inr (t @ [c])), cd_puts = (\<lambda>cs t. Inr (t @ cs)),
     cd_getc = (\<lambda>t. Inr (0, t))\<rparr>"

definition secret_sys :: "u8 list \<Rightarrow> u8 list sys_state" where
  "secret_sys t = \<lparr>ks_daif = 0, ks_lock = 0, ks_dev = t,
     ss_mem = (\<lambda>_. 0)(0x9000 := 0x41, 0x90000 := 0x6B, 0x90001 := 0x65, 0x90002 := 0x79)\<rparr>"

theorem syscall_prints_kernel_memory_witness:
  "syscall_el0_common (Some tape) (KERNEL_START + 0x400000) 0x9000 ((\<lambda>_. 0)(1 := 0x90000, 8 := 2)) (secret_sys []) =
     Inr (Returned, secret_sys (chars ''Invalid address!: 0x00090000 [0x00400000:0x007E8000]'' @ [0x0A] @ chars ''A'')) \<and>
   syscall_el0_common (Some tape) (KERNEL_START + 0x400000) 0x9000 ((\<lambda>_. 0)(1 := 0x90000, 8 := 3)) (secret_sys []) =
     Inr (Halted, secret_sys (chars ''Panic!:'' @ chars ''key''))"
proof -
  let ?x = "(\<lambda>_. 0)(1 := 0x90000) :: nat \<Rightarrow> u64" and ?msg = "chars ''Invalid address!: 0x00090000 [0x00400000:0x007E8000]'' @ [0x0A]"
  have "vprintf (Some tape) (chars ''Invalid address!: %x [%x:%x]'' @ [0x0A])
      [Arg_int (ucast (?x 1)), Arg_int (ucast (KERNEL_START + 0x400000)),
       Arg_int (ucast (KERNEL_START + 0x400000 + USR_SZ))] [] = Inr (0, ?msg)"
    by code_simp
  then have k: "kprintf (Some tape) (chars ''Invalid address!: %x [%x:%x]'' @ [0x0A])
      [Arg_int (ucast (?x 1)), Arg_int (ucast (KERNEL_START + 0x400000)),
       Arg_int (ucast (KERNEL_START + 0x400000 + USR_SZ))]
      (secret_sys []) = Inr (0, secret_sys []\<lparr>ks_dev := ?msg\<rparr>)"
    by (simp only: kprintf_free secret_sys_def kstdio.simps sys_state.simps bindR.simps prod.case)
  have v: "user_addr_is_valid (KERNEL_START + 0x400000) (?x 1) \<noteq> 0" by (simp add: user_addr_is_valid_def va_to_pa_def)
  have s: "string_at (ss_mem (secret_sys [])) 0x9000 = Some (chars ''A'')"
    "string_at (ss_mem (secret_sys [])) (?x 1) = Some (chars ''key'')"
    by (simp_all add: secret_sys_def chars_def of_char_def string_at_Cons string_at_Nil)
  show ?thesis
    using syscall_prints_kernel_memory [where x = ?x, OF v s k]
    by (simp add: on_console_def puts_def tape_def secret_sys_def)
qed

text \<open>
  C18. The other system calls on the serial line: call 1 transmits the low byte of x1, and the
  number 0 and all numbers from 4 on transmit the message for an unknown call. They return,
  and change nothing else.
\<close>

theorem syscall_transmits:
  assumes "uart_init priv s0 = Inr (d, s1)" and "io_version s0 \<noteq> 5"
    and "gets_ready (io_dev (ks_dev s)) (uart_reg (cd_base d) AUX_MU_LSR) lsr_idle" and "x 8 \<notin> {2, 3}" and "ks_lock s = 0"
  shows "\<exists>l. syscall_el0_common (Some d) usr_entry buf x s =
      Inr (Returned, s\<lparr>ks_dev := ks_dev s\<lparr>io_log := io_log (ks_dev s) @ l\<rparr>\<rparr>) \<and>
    transmits (uart_reg (cd_base d) AUX_MU_LSR) (uart_reg (cd_base d) AUX_MU_IO) lsr_idle l
      (if x 8 = 1 then [ucast (x 1)] else chars ''Syscall not implemented!'' @ [0x0A])"
proof (cases "x 8 = 1")
  case True
  then show ?thesis
    using mini_uart.putc_transmits [OF assms(3), of "ucast (x 1)"] uart_init_mini [OF assms(1,2)]
    by (auto simp: syscall_el0_common_def Let_def sys_meta syscall_putc_def on_console_def Printf.putc_def)
next
  case False
  let ?msg = "chars ''Syscall not implemented!'' @ [0x0A]"
  have "0x25 \<notin> set ?msg" "0 \<notin> set ?msg" by (simp_all add: chars_def)
  from mini_uart.kprintf_text [OF uart_init_mini [OF assms(1,2)] assms(3,5) this]
  obtain l where "kprintf (Some d) ?msg [] s = Inr (0, s\<lparr>ks_dev := ks_dev s\<lparr>io_log := io_log (ks_dev s) @ l\<rparr>\<rparr>)"
    "transmits (uart_reg (cd_base d) AUX_MU_LSR) (uart_reg (cd_base d) AUX_MU_IO) lsr_idle l ?msg"
    by blast
  moreover have nr: "(if SUPP_SYSCALL_NR \<le> x 8 then 0 else x 8) = 0"
  proof -
    have "x 8 = 0 \<or> x 8 = 1 \<or> x 8 = 2 \<or> x 8 = 3 \<or> 4 \<le> x 8" by unat_arith
    then show ?thesis using False assms(4) by auto
  qed
  have "syscall_el0_common (Some d) usr_entry buf x s = syscall_ni (Some d) (get_syscall_meta x) s"
    unfolding syscall_el0_common_def Let_def sys_meta nr by simp
  ultimately show ?thesis using False by (auto simp: syscall_ni_def)
qed

theorem syscall_transmits_witness:
  "\<exists>d s1 l. uart_init \<lparr>gc_base = 0, gc_generic = True\<rparr> ready_io = Inr (d, s1) \<and>
    syscall_el0_common (Some d) 0x400000 0x9000 ((\<lambda>_. 0)(1 := 0x41, 8 := 1))
      \<lparr>ks_daif = 0, ks_lock = 0, ks_dev = quiet_io, ss_mem = (\<lambda>_. 0)\<rparr> =
      Inr (Returned, \<lparr>ks_daif = 0, ks_lock = 0, ks_dev = quiet_io\<lparr>io_log := l\<rparr>, ss_mem = (\<lambda>_. 0)\<rparr>) \<and>
    transmits 0xFFFFFF803F215054 0xFFFFFF803F215040 lsr_idle l [0x41]"
proof -
  obtain d s1 where u: "uart_init \<lparr>gc_base = 0, gc_generic = True\<rparr> ready_io = Inr (d, s1)" "cd_base d = 0xFFFFFF803F215000"
    using ready_io_init by (auto split: sum.splits)
  have "gets_ready (io_dev quiet_io) a lsr_idle" for a by (rule quiet_io_ready)
  then show ?thesis
    using syscall_transmits [OF u(1), of "\<lparr>ks_daif = 0, ks_lock = 0, ks_dev = quiet_io, ss_mem = (\<lambda>_. 0)\<rparr>"
      "(\<lambda>_. 0)(1 := 0x41, 8 := 1)" "0x400000" "0x9000"] u
    by (auto simp: ready_io_def quiet_io_def uart_reg_def)
qed

end
