(* ===== verification/User_Start.thy ===== *)
theory User_Start
  imports Mmu_Props Syscall_Props
begin

text \<open>
  The way into user mode and the first user code: kthread\_start\_userspace (kernel.c),
  jump\_to\_usr (entry.S), the functions of usr\_entry.c, and the entry of a system call
  (handle\_el0\_svc of boot.S). Addresses that the linker fixes are arguments.
\<close>

section \<open>Into user mode\<close>

text \<open>What the processor continues with after the \<^verbatim>\<open>eret\<close> of jump\_to\_usr.\<close>

record user_entry =
  ue_pc :: u64
  ue_sp :: u64
  ue_spsr :: u64

definition get_usr_entry_pt :: "u64 \<Rightarrow> u64" where
  "get_usr_entry_pt usr_entry_pt = usr_entry_pt"

definition get_usr_end :: "u64 \<Rightarrow> u64" where
  "get_usr_end usr_entry = usr_entry + USR_SZ"

text \<open>The message that usr\_init prints first.\<close>

definition usr_init_msg :: "'s char_device option \<Rightarrow> u64 \<Rightarrow> 's kstdio \<Rightarrow> 's kstdio result" where
  "usr_init_msg console usr_entry s =
     bindR (kprintf console ([0x0A] @ chars ''User memory range: [%x, %x] (%d KiB)'' @ [0x0A])
       [Arg_int (ucast usr_entry), Arg_int (ucast (usr_entry + USR_SZ)), Arg_int (ucast (USR_SZ div 1024))] s) (\<lambda>(_, s). Inr s)"

definition jump_to_usr ::
  "io char_device option \<Rightarrow> u64 \<Rightarrow> u64 \<Rightarrow> u64 \<Rightarrow> sys_regs \<times> io kstdio \<Rightarrow> (user_entry \<times> sys_regs \<times> io kstdio) result" where
  "jump_to_usr console usr_entry usr_entry_pt d = (\<lambda>(r, s).
     bindR (kernel_splash_msg console s) (\<lambda>s.
     bindR (usr_init_msg console usr_entry s) (\<lambda>s.
     bindR (usr_init usr_entry d (io_pt (ks_dev s))) (\<lambda>(ttbr0, p).
     let s = s\<lparr>ks_dev := ks_dev s\<lparr>io_pt := p\<rparr>\<rparr>;
         r = (case ttbr0 of None \<Rightarrow> r | Some t \<Rightarrow> r\<lparr>sr_ttbr0 := t\<rparr>)
     in Inr (\<lparr>ue_pc = get_usr_entry_pt usr_entry_pt AND 0xFFFFFFFF, ue_sp = get_usr_end usr_entry, ue_spsr = 0\<rparr>, r, s)))))"

definition kthread_start_userspace ::
  "io char_device option \<Rightarrow> u64 \<Rightarrow> u64 \<Rightarrow> u64 \<Rightarrow> sys_regs \<times> io kstdio \<Rightarrow> (user_entry \<times> sys_regs \<times> io kstdio) result" where
  "kthread_start_userspace console usr_entry usr_entry_pt d = (\<lambda>(r, s).
     bindR (kprintf console (chars ''Starting userspace...'' @ [0x0A]) [] s) (\<lambda>(_, s).
     jump_to_usr console usr_entry usr_entry_pt d (r, s)))"

section \<open>The first user code\<close>

definition mount_initrd :: u32 where "mount_initrd = 1"

text \<open>user\_panic and initrd\_exec\_init are endless loops.\<close>

definition user_panic :: "'s sys_state \<Rightarrow> outcome \<times> 's sys_state" where
  "user_panic s = (Halted, s)"

definition initrd_exec_init :: "'s sys_state \<Rightarrow> outcome \<times> 's sys_state" where
  "initrd_exec_init s = (Halted, s)"

definition el0_def_msg :: "u8 list" where
  "el0_def_msg = chars ''No init execution target address provided!'' @ [0x0A]"

text \<open>
  A system call from user mode: handle\_el0\_svc masks interrupts, calls
  syscall\_el0\_common, and unmasks them.
\<close>

definition handle_el0_svc ::
  "'s char_device option \<Rightarrow> u64 \<Rightarrow> u64 \<Rightarrow> (nat \<Rightarrow> u64) \<Rightarrow> 's sys_state \<Rightarrow> (outcome \<times> 's sys_state) result" where
  "handle_el0_svc console usr_entry buf x s =
     (let s = s\<lparr>ks_daif := ks_daif s OR 0x80\<rparr> in
      bindR (syscall_el0_common console usr_entry buf x s) (\<lambda>(out, s).
      case out of
        Halted \<Rightarrow> Inr (Halted, s)
      | Returned \<Rightarrow> Inr (Returned, s\<lparr>ks_daif := ks_daif s AND NOT 0x80\<rparr>)))"

text \<open>el0\_default\_init puts 2 into x8 and the address of its message into x1.\<close>

definition el0_default_init ::
  "'s char_device option \<Rightarrow> u64 \<Rightarrow> u64 \<Rightarrow> u64 \<Rightarrow> (nat \<Rightarrow> u64) \<Rightarrow> 's sys_state \<Rightarrow> (outcome \<times> 's sys_state) result" where
  "el0_default_init console usr_entry buf msg x s =
     (let x = x(8 := 2);
          x = x(1 := msg)
      in bindR (handle_el0_svc console usr_entry buf x s) (\<lambda>(out, s).
         case out of Halted \<Rightarrow> Inr (Halted, s) | Returned \<Rightarrow> Inr (user_panic s)))"

text \<open>No address of an application is configured (USR\_INIT\_APP is commented out).\<close>

definition usr_entry_pt ::
  "'s char_device option \<Rightarrow> u64 \<Rightarrow> u64 \<Rightarrow> u64 \<Rightarrow> (nat \<Rightarrow> u64) \<Rightarrow> 's sys_state \<Rightarrow> (outcome \<times> 's sys_state) result" where
  "usr_entry_pt console usr_entry buf msg x s =
     (let ret = mount_initrd in
      if ret = 0 then Inr (initrd_exec_init s)
      else bindR (el0_default_init console usr_entry buf msg x s) (\<lambda>(out, s).
           case out of Halted \<Rightarrow> Inr (Halted, s) | Returned \<Rightarrow> Inr (user_panic s)))"

section \<open>What the first user code prints\<close>

lemma string_at_append:
  "(\<And>i. i < length cs \<Longrightarrow> m (p + word_of_nat i) = cs ! i) \<Longrightarrow> 0 \<notin> set cs \<Longrightarrow>
    string_at m (p + word_of_nat (length cs)) = Some r \<Longrightarrow> string_at m p = Some (cs @ r)"
proof (induction cs arbitrary: p)
  case (Cons c cs)
  have "m (p + 1 + word_of_nat i) = cs ! i" if "i < length cs" for i
    using Cons.prems(1) [of "Suc i"] that by (simp add: add.assoc)
  moreover have "m p = c" using Cons.prems(1) [of 0] by simp
  ultimately show ?case using Cons.IH [of "p + 1"] Cons.prems(2,3) by (simp add: string_at_Cons add.assoc)
qed simp

lemma string_at_cong:
  "string_at m p = Some r \<Longrightarrow> (\<And>j. j \<le> length r \<Longrightarrow> m' (p + word_of_nat j) = m (p + word_of_nat j)) \<Longrightarrow> string_at m' p = Some r"
proof (induction r arbitrary: p)
  case Nil
  then show ?case using Nil.prems(2) [of 0] by (simp add: string_at_Nil)
next
  case (Cons c r)
  have "m' (p + 1 + word_of_nat j) = m (p + 1 + word_of_nat j)" if "j \<le> length r" for j
    using Cons.prems(2) [of "Suc j"] that by (simp add: add.assoc)
  then show ?case using Cons.IH [of "p + 1"] Cons.prems(1) Cons.prems(2) [of 0] by (simp add: string_at_Cons)
qed

lemma string_at_nonzero: "string_at m p = Some cs \<Longrightarrow> 0 \<notin> set cs"
  by (induction cs arbitrary: p) (auto simp: string_at_Cons)

lemma string_at_copied:
  assumes "0 \<notin> set cs" and "string_at m (d + word_of_nat (length cs)) = Some r" and "length cs + length r < 2 ^ 32"
  shows "string_at (write_bytes d cs m) d = Some (cs @ r)"
proof (rule string_at_append [OF _ assms(1)])
  show "write_bytes d cs m (d + word_of_nat i) = cs ! i" if "i < length cs" for i
    using write_bytes_at [of cs i d m] that assms(3) by simp
  show "string_at (write_bytes d cs m) (d + word_of_nat (length cs)) = Some r"
  proof (rule string_at_cong [OF assms(2)])
    fix j assume j: "j \<le> length r"
    have "d + word_of_nat (length cs) + word_of_nat j \<noteq> d + word_of_nat i" if "i < length cs" for i
      using word_of_nat_inj [of "length cs + j" i] that j assms(3) by (simp add: add.assoc)
    then show "write_bytes d cs m (d + word_of_nat (length cs) + word_of_nat j) = m (d + word_of_nat (length cs) + word_of_nat j)"
      by (intro write_bytes_other) blast
  qed
qed

text \<open>
  C27. The default user program prints its message, but not only that: as copy_from_user leaves
  out the final zero, the kernel transmits the message and after it the bytes that lie on
  the kernel stack behind the copy, up to the first zero. Then the program loops for ever,
  with interrupts unmasked.
\<close>

theorem user_message_leaks_stack:
  assumes "uart_init priv s0 = Inr (con, s1)" and "io_version s0 \<noteq> 5"
    and "gets_ready (io_dev (ks_dev s)) (uart_reg (cd_base con) AUX_MU_LSR) lsr_idle"
    and "user_addr_is_valid usr_entry msg = 0" and "string_at (ss_mem s) msg = Some cs"
    and "\<forall>i<length cs. \<forall>j\<le>length cs. buf + word_of_nat i \<noteq> msg + word_of_nat j"
    and "string_at (ss_mem s) (buf + word_of_nat (length cs)) = Some stale" and "length cs + length stale < 2 ^ 32"
  shows "\<exists>l s'. usr_entry_pt (Some con) usr_entry buf msg x s = Inr (Halted, s') \<and>
    ks_dev s' = ks_dev s\<lparr>io_log := io_log (ks_dev s) @ l\<rparr> \<and> ks_daif s' = (ks_daif s OR 0x80) AND NOT 0x80 \<and>
    transmits (uart_reg (cd_base con) AUX_MU_LSR) (uart_reg (cd_base con) AUX_MU_IO) lsr_idle l (cs @ stale)"
proof -
  let ?s = "s\<lparr>ks_daif := ks_daif s OR 0x80\<rparr>" and ?m = "write_bytes buf cs (ss_mem s)"
  let ?x = "x(8 := 2, 1 := msg)"
  have m: "string_at (ss_mem ?s) msg = Some cs" using assms(5) by simp
  have all: "string_at ?m buf = Some (cs @ stale)"
    by (rule string_at_copied [OF string_at_nonzero [OF assms(5)] assms(7,8)])
  obtain l where l: "cd_puts con (cs @ stale) (ks_dev s) = Inr (ks_dev s\<lparr>io_log := io_log (ks_dev s) @ l\<rparr>)"
    "transmits (uart_reg (cd_base con) AUX_MU_LSR) (uart_reg (cd_base con) AUX_MU_IO) lsr_idle l (cs @ stale)"
    using mini_uart.puts_transmits [OF assms(3), of "cs @ stale"] uart_init_mini [OF assms(1,2)] by auto
  have "syscall_puts (Some con) usr_entry buf (get_syscall_meta ?x) ?s =
      Inr (Returned, ?s\<lparr>ss_mem := ?m, ks_dev := ks_dev s\<lparr>io_log := io_log (ks_dev s) @ l\<rparr>\<rparr>)"
    using copy_from_user_valid [OF assms(4) m assms(6), of "Some con" 10] all l(1)
    by (simp add: syscall_puts_def sys_meta puts_at_def on_console_def puts_def)
  then have "syscall_el0_common (Some con) usr_entry buf ?x ?s =
      Inr (Returned, ?s\<lparr>ss_mem := ?m, ks_dev := ks_dev s\<lparr>io_log := io_log (ks_dev s) @ l\<rparr>\<rparr>)"
    by (simp add: syscall_el0_common_def Let_def sys_meta)
  then show ?thesis
    using l(2) by (intro exI [of _ l])
      (simp add: usr_entry_pt_def mount_initrd_def el0_default_init_def handle_el0_svc_def user_panic_def Let_def)
qed

definition demo_user_memory :: memory where
  "demo_user_memory = (write_bytes 0x400100 el0_def_msg (\<lambda>_. 0))(0x902B := 0x21)"

lemma small_plus: "i < 2 ^ 16 \<Longrightarrow> b < 2 ^ 32 \<Longrightarrow> unat (b + word_of_nat i :: u64) = unat b + i"
  by (simp add: unat_word_ariths unat_of_nat word_less_nat_alt)

theorem user_message_leaks_stack_witness:
  "\<exists>con s1 l s'. uart_init \<lparr>gc_base = 0, gc_generic = True\<rparr> ready_io = Inr (con, s1) \<and>
     usr_entry_pt (Some con) (KERNEL_START + 0x400000) 0x9000 0x400100 (\<lambda>_. 0)
       \<lparr>ks_daif = 0, ks_lock = 0, ks_dev = quiet_io, ss_mem = demo_user_memory\<rparr> = Inr (Halted, s') \<and>
     transmits 0xFFFFFF803F215054 0xFFFFFF803F215040 lsr_idle l (el0_def_msg @ [0x21])"
proof -
  let ?s = "\<lparr>ks_daif = 0, ks_lock = 0, ks_dev = quiet_io, ss_mem = demo_user_memory\<rparr>"
  obtain con s1 where u: "uart_init \<lparr>gc_base = 0, gc_generic = True\<rparr> ready_io = Inr (con, s1)" "cd_base con = 0xFFFFFF803F215000"
    using ready_io_init by (auto split: sum.splits)
  have n: "length el0_def_msg = 43" "0 \<notin> set el0_def_msg" by (simp_all add: el0_def_msg_def chars_def)
  have v: "user_addr_is_valid (KERNEL_START + 0x400000) 0x400100 = 0" by (simp add: user_addr_is_valid_def va_to_pa_def)
  have "string_at (\<lambda>_. 0) (0x400100 + word_of_nat (length el0_def_msg)) = Some []" by (simp add: string_at_Nil)
  from string_at_copied [OF n(2) this]
  have "string_at (write_bytes 0x400100 el0_def_msg (\<lambda>_. 0)) 0x400100 = Some el0_def_msg" by (simp add: n(1))
  moreover have "0x902B \<noteq> (0x400100 :: u64) + word_of_nat j" if "j \<le> 43" for j
    using small_plus [of j "0x400100"] that by (auto simp: word_unat_eq_iff)
  ultimately have msg: "string_at (ss_mem ?s) 0x400100 = Some el0_def_msg"
    using string_at_other [of "write_bytes 0x400100 el0_def_msg (\<lambda>_. 0)" "0x400100" el0_def_msg "0x902B" "0x21"]
    by (simp add: demo_user_memory_def n(1))
  have d: "\<forall>i<length el0_def_msg. \<forall>j\<le>length el0_def_msg. 0x9000 + word_of_nat i \<noteq> (0x400100 :: u64) + word_of_nat j"
  proof (intro allI impI)
    fix i j assume "i < length el0_def_msg" "j \<le> length el0_def_msg"
    then show "0x9000 + word_of_nat i \<noteq> (0x400100 :: u64) + word_of_nat j"
      using small_plus [of i "0x9000"] small_plus [of j "0x400100"] by (simp add: word_unat_eq_iff n(1))
  qed
  have "0x902C \<noteq> (0x400100 :: u64) + word_of_nat j" if "j < 43" for j
    using small_plus [of j "0x400100"] that by (auto simp: word_unat_eq_iff)
  then have "write_bytes 0x400100 el0_def_msg (\<lambda>_. 0) 0x902C = 0" using n(1) write_bytes_other [of el0_def_msg "0x902C"] by simp
  then have st: "string_at (ss_mem ?s) (0x9000 + word_of_nat (length el0_def_msg)) = Some [0x21]"
    by (simp add: n(1) demo_user_memory_def string_at_Cons string_at_Nil)
  have g: "gets_ready (io_dev (ks_dev ?s)) a lsr_idle" for a using quiet_io_ready by simp
  from user_message_leaks_stack [OF u(1) _ g v msg d st] u n(1)
  show ?thesis by (auto simp: ready_io_def quiet_io_def uart_reg_def)
qed

end
