(* ===== verification/User_Mode.thy ===== *)
theory User_Mode
  imports User_Start
begin

text \<open>
  What kthread\_start\_userspace leaves to the processor: the translation of addresses, the
  permissions of user memory, and the state in which user code starts, from the tables of
  the boot code on.
\<close>

section \<open>The address space of user mode\<close>

text \<open>
  The permissions in an entry of the last level: user mode may read and write where bit 6 is
  set (and bit 7, read only, is not), and may execute where bit 54 is not set.
\<close>

definition el0_may_write :: "u64 \<Rightarrow> bool" where "el0_may_write e \<longleftrightarrow> bit e 6 \<and> \<not> bit e 7"
definition el0_may_read :: "u64 \<Rightarrow> bool" where "el0_may_read e \<longleftrightarrow> bit e 6"
definition el0_may_execute :: "u64 \<Rightarrow> bool" where "el0_may_execute e \<longleftrightarrow> \<not> bit e 54"

lemma walk_framed:
  assumes "pt_inv s ds kids" and "g \<in> set ds" and "lvl s g = 1" and "framed (va_to_pa ` set (ps_heap s)) s s'"
  shows "hw_walk (ps_mem s') (tbl s g) a = hw_walk (ps_mem s) (tbl s g) a"
proof -
  have ok: "descs_ok s ds" "heap_ok s ds" using assms(1) by (auto simp: pt_inv_def)
  have "ps_mem s' (tbl s x + 8 * i) = ps_mem s (tbl s x + 8 * i)" if "x \<in> set ds" "i < 512" for x i
  proof -
    have "tbl s x + 8 * i \<noteq> q + 8 * j" if q: "q \<in> va_to_pa ` set (ps_heap s)" "j < 512" for q j
    proof -
      obtain p where p: "p \<in> set (ps_heap s)" "q = va_to_pa p" using q(1) by blast
      then have "page_addr q" "q \<noteq> tbl s x" using ok(2) \<open>x \<in> set ds\<close> by (auto simp: heap_ok_def page_ok_page)
      then show ?thesis using slot_eq [OF tbl_page [OF ok(1) \<open>x \<in> set ds\<close>] _ \<open>i < 512\<close> q(2)] by metis
    qed
    then show ?thesis using assms(4) by (simp add: framed_def)
  qed
  from hw_entry_frame [OF assms(1) this assms(2) top_idx [OF assms(3)]] show ?thesis by (simp add: hw_walk_def)
qed

section \<open>Entry to user mode\<close>

definition range_items :: "u64 \<Rightarrow> item list" where
  "range_items usr_entry = map Lit ([0x0A] @ chars ''User memory range: ['') @ [Hex (ucast usr_entry)] @ map Lit (chars '', '') @
     [Hex (ucast (usr_entry + USR_SZ))] @ map Lit (chars ''] ('') @ [Dec 4000] @ map Lit (chars '' KiB)'' @ [0x0A])"

definition entry_text :: "u64 \<Rightarrow> u8 list" where
  "entry_text usr_entry = (chars ''Starting userspace...'' @ [0x0A]) @
     ([0x0A] @ chars ''** Welcome to HobOS! **'' @ [0x0A]) @ concat (map item_text (range_items usr_entry))"

lemma entry_messages:
  assumes "cd_putc con = mini_uart_putc b" and "cd_puts con = mini_uart_puts b"
    and "gets_ready (io_dev (ks_dev s)) (uart_reg b AUX_MU_LSR) lsr_idle" and "ks_lock s = 0"
  shows "\<exists>l. kthread_start_userspace (Some con) usr_entry entry d (r, s) =
      bindR (usr_init usr_entry d (io_pt (ks_dev s))) (\<lambda>(ttbr0, p).
        Inr (\<lparr>ue_pc = entry AND 0xFFFFFFFF, ue_sp = usr_entry + USR_SZ, ue_spsr = 0\<rparr>,
          (case ttbr0 of None \<Rightarrow> r | Some t \<Rightarrow> r\<lparr>sr_ttbr0 := t\<rparr>),
          s\<lparr>ks_dev := ks_dev s\<lparr>io_log := io_log (ks_dev s) @ l, io_pt := p\<rparr>\<rparr>)) \<and>
    transmits (uart_reg b AUX_MU_LSR) (uart_reg b AUX_MU_IO) lsr_idle l (entry_text usr_entry)"
proof -
  let ?m1 = "chars ''Starting userspace...'' @ [0x0A]" and ?m2 = "[0x0A] @ chars ''** Welcome to HobOS! **'' @ [0x0A]"
  let ?tx = "transmits (uart_reg b AUX_MU_LSR) (uart_reg b AUX_MU_IO) lsr_idle"
  have t: "0x25 \<notin> set ?m1" "0 \<notin> set ?m1" "0x25 \<notin> set ?m2" "0 \<notin> set ?m2" by (simp_all add: chars_def)
  obtain l1 where l1: "kprintf (Some con) ?m1 [] s = Inr (0, s\<lparr>ks_dev := ks_dev s\<lparr>io_log := io_log (ks_dev s) @ l1\<rparr>\<rparr>)" "?tx l1 ?m1"
    using mini_uart.kprintf_text [OF assms t(1,2)] by blast
  define s1 where "s1 = s\<lparr>ks_dev := ks_dev s\<lparr>io_log := io_log (ks_dev s) @ l1\<rparr>\<rparr>"
  have s1: "gets_ready (io_dev (ks_dev s1)) (uart_reg b AUX_MU_LSR) lsr_idle" "ks_lock s1 = 0"
    using assms(3,4) by (simp_all add: s1_def)
  obtain l2 where l2: "kprintf (Some con) ?m2 [] s1 = Inr (0, s1\<lparr>ks_dev := ks_dev s1\<lparr>io_log := io_log (ks_dev s1) @ l2\<rparr>\<rparr>)" "?tx l2 ?m2"
    using mini_uart.kprintf_text [OF assms(1,2) s1 t(3,4)] by blast
  define s2 where "s2 = s1\<lparr>ks_dev := ks_dev s1\<lparr>io_log := io_log (ks_dev s1) @ l2\<rparr>\<rparr>"
  have s2: "gets_ready (io_dev (ks_dev s2)) (uart_reg b AUX_MU_LSR) lsr_idle" "ks_lock s2 = 0"
    using s1 by (simp_all add: s2_def)
  have "list_all item_ok (range_items usr_entry)" by (simp add: range_items_def chars_def)
  from mini_uart.kprintf_items [OF assms(1,2) s2 this]
  obtain l3 where l3: "kprintf (Some con) (concat (map item_format (range_items usr_entry))) (concat (map item_args (range_items usr_entry))) s2 =
      Inr (0, s2\<lparr>ks_dev := ks_dev s2\<lparr>io_log := io_log (ks_dev s2) @ l3\<rparr>\<rparr>)"
    "?tx l3 (concat (map item_text (range_items usr_entry)))" by blast
  have f: "concat (map item_format (range_items usr_entry)) = [0x0A] @ chars ''User memory range: [%x, %x] (%d KiB)'' @ [0x0A]"
    "concat (map item_args (range_items usr_entry)) =
      [Arg_int (ucast usr_entry), Arg_int (ucast (usr_entry + USR_SZ)), Arg_int (ucast (USR_SZ div 1024))]"
    by (simp_all add: range_items_def chars_def)
  have "?tx (l1 @ l2 @ l3) (entry_text usr_entry)"
    unfolding entry_text_def by (rule transmits_append [OF l1(2) transmits_append [OF l2(2) l3(2)]])
  moreover have "kthread_start_userspace (Some con) usr_entry entry d (r, s) =
      bindR (usr_init usr_entry d (io_pt (ks_dev s))) (\<lambda>(ttbr0, p).
        Inr (\<lparr>ue_pc = entry AND 0xFFFFFFFF, ue_sp = usr_entry + USR_SZ, ue_spsr = 0\<rparr>,
          (case ttbr0 of None \<Rightarrow> r | Some t \<Rightarrow> r\<lparr>sr_ttbr0 := t\<rparr>),
          s\<lparr>ks_dev := ks_dev s\<lparr>io_log := io_log (ks_dev s) @ (l1 @ l2 @ l3), io_pt := p\<rparr>\<rparr>))"
    using l1(1) l2(1) l3(1) unfolding f s1_def [symmetric] s2_def [symmetric]
    by (simp add: kthread_start_userspace_def jump_to_usr_def kernel_splash_msg_def usr_init_msg_def
        get_usr_entry_pt_def get_usr_end_def Let_def) (simp add: s1_def s2_def)
  ultimately show ?thesis by blast
qed

section \<open>User mode\<close>

definition user_page :: "u64 \<Rightarrow> u64 \<Rightarrow> bool" where
  "user_page usr_entry a \<longleftrightarrow> unat (va_to_pa usr_entry) \<le> unat a \<and> unat a < unat (va_to_pa usr_entry) + 4096 * 1000"

lemma low_bits: "va_to_pa a = take_bit 39 a"
proof -
  have "NOT KERNEL_START = mask 39" by (simp add: mask_eq_exp_minus_1)
  then show ?thesis by (simp only: va_to_pa_def take_bit_eq_mask)
qed

lemma low_half: "drop_bit 39 a = 0 \<Longrightarrow> va_to_pa a = a"
  using bits_ident [of 39 a] by (simp add: low_bits)

lemma slots_in_page:
  assumes "page_ok g" and "ps_global p = Some g" and "unat d < unat g \<or> unat g + PAGE_SIZE \<le> unat d"
  shows "d \<notin> desc_slots p"
proof
  assume "d \<in> desc_slots p"
  then obtain k where k: "k < MAX_DESCS" "d = g + DESC_SIZE * word_of_nat k" using assms(2) by (auto simp: desc_slots_def)
  have w: "unat (DESC_SIZE * word_of_nat k :: u64) = 32 * k" using k(1) by (simp add: unat_word_ariths unat_of_nat)
  have "unat g mod 4096 = 0" using page_phys(2) [OF assms(1)] unat_low_part [of g] by simp
  then obtain c where c: "unat g = 4096 * c" by auto
  have "unat g < 2 ^ 64" by (rule order.strict_trans2 [OF unsigned_less]) simp
  then have "c < 2 ^ 52" using c by simp
  then have "unat g + 32 * k < 2 ^ 64" using k(1) c by simp
  then have "unat d = unat g + 32 * k" unfolding k(2) using w by (simp add: unat_word_ariths)
  then show False using assms(3) k(1) by simp
qed

lemma spare_desc: "dev_tables n g t p \<Longrightarrow> d \<notin> desc_slots p \<Longrightarrow> alloc_ok p [d]"
  by (auto simp: dev_tables_def alloc_ok_def desc_slots_def)

lemma user_run:
  assumes "cd_putc con = mini_uart_putc b" and "cd_puts con = mini_uart_puts b"
    and "gets_ready (io_dev (ks_dev s)) (uart_reg b AUX_MU_LSR) lsr_idle" and "ks_lock s = 0"
    and "dev_tables 4 g (sr_ttbr1 r) (io_pt (ks_dev s))"
    and "page_ok usr_entry" and "unat (va_to_pa usr_entry) + 4096 * 1000 < 2 ^ 32"
    and "d \<noteq> 0" and "d \<notin> desc_slots (io_pt (ks_dev s))" and "pd_child (ps_desc (io_pt (ks_dev s)) d) = None"
  obtains s' r' l where "kthread_start_userspace (Some con) usr_entry entry d (r, s) =
      Inr (\<lparr>ue_pc = entry AND 0xFFFFFFFF, ue_sp = usr_entry + USR_SZ, ue_spsr = 0\<rparr>, r', s')"
    and "sr_ttbr1 r' = sr_ttbr1 r"
    and "\<And>a. va_translate r' (ps_mem (io_pt (ks_dev s'))) a =
      (if drop_bit 39 a = 0 then if user_page usr_entry a then Some a else None
       else va_translate r (ps_mem (io_pt (ks_dev s))) a)"
    and "\<And>a. user_page usr_entry (va_to_pa a) \<Longrightarrow>
      hw_attr (ps_mem (io_pt (ks_dev s'))) (sr_ttbr0 r') a = Some PTE_FLAGS_USER_GENERIC"
    and "transmits (uart_reg b AUX_MU_LSR) (uart_reg b AUX_MU_IO) lsr_idle l (entry_text usr_entry)"
    and "io_log (ks_dev s') = io_log (ks_dev s) @ l"
proof -
  let ?p = "io_pt (ks_dev s)"
  obtain ds kids where t: "pt_inv ?p ds kids" "g \<in> set ds" "lvl ?p g = 1" "tbl ?p g = sr_ttbr1 r" "8 \<le> length (ps_heap ?p)"
    "unat (ps_ctr ?p) \<le> 120" using assms(5) by (auto simp: dev_tables_def)
  obtain pt hs where h: "ps_heap ?p = pt # hs" "6 \<le> length hs" using t(5) by (cases "ps_heap ?p") auto
  have hk: "heap_ok ?p []" using t(1) by (simp add: pt_inv_def heap_ok_def)
  have ctr: "unat (ps_ctr ?p) \<le> 122" using t(6) by simp
  from usr_init_table [OF assms(6,7) hk h ctr assms(8,10) spare_desc [OF assms(5,9)]]
  obtain q where q: "usr_init usr_entry d ?p = Inr (Some (va_to_pa pt), q)"
    "\<forall>a. hw_walk (ps_mem q) (va_to_pa pt) a = (if user_page usr_entry (va_to_pa a) then Some (va_to_pa a) else None)"
    "\<forall>a. user_page usr_entry (va_to_pa a) \<longrightarrow> hw_attr (ps_mem q) (va_to_pa pt) a = Some PTE_FLAGS_USER_GENERIC"
    "framed (va_to_pa ` set (ps_heap ?p)) ?p q"
    unfolding user_page_def by auto
  have k: "hw_walk (ps_mem q) (sr_ttbr1 r) a = hw_walk (ps_mem ?p) (sr_ttbr1 r) a" for a
    using walk_framed [OF t(1-3) q(4)] t(4) by simp
  obtain l where l: "kthread_start_userspace (Some con) usr_entry entry d (r, s) =
      Inr (\<lparr>ue_pc = entry AND 0xFFFFFFFF, ue_sp = usr_entry + USR_SZ, ue_spsr = 0\<rparr>, r\<lparr>sr_ttbr0 := va_to_pa pt\<rparr>,
        s\<lparr>ks_dev := ks_dev s\<lparr>io_log := io_log (ks_dev s) @ l, io_pt := q\<rparr>\<rparr>)"
    "transmits (uart_reg b AUX_MU_LSR) (uart_reg b AUX_MU_IO) lsr_idle l (entry_text usr_entry)"
    using entry_messages [OF assms(1-4), of usr_entry entry d r] q(1) by auto
  show thesis
  proof (rule that [OF l(1) _ _ _ l(2)])
    show "va_translate (r\<lparr>sr_ttbr0 := va_to_pa pt\<rparr>) (ps_mem (io_pt (ks_dev (s\<lparr>ks_dev := ks_dev s\<lparr>io_log := io_log (ks_dev s) @ l, io_pt := q\<rparr>\<rparr>)))) a =
      (if drop_bit 39 a = 0 then if user_page usr_entry a then Some a else None else va_translate r (ps_mem ?p) a)" for a
      using q(2) k low_half [of a] by (simp add: va_translate_def)
  qed (use q(3) in simp_all)
qed

text \<open>
  C24. The way to user mode, from the state that the set-up of the devices leaves:
  kthread_start_userspace returns to the entry point at its low address, with interrupts
  enabled and the stack pointer at the end of user memory; the processor then translates
  the low addresses of user memory to themselves and no other low address, and all high
  addresses as before; and the three messages were transmitted.
\<close>

theorem enter_user_mode:
  assumes "cd_putc con = mini_uart_putc b" and "cd_puts con = mini_uart_puts b"
    and "gets_ready (io_dev (ks_dev s)) (uart_reg b AUX_MU_LSR) lsr_idle" and "ks_lock s = 0"
    and "dev_tables 4 g (sr_ttbr1 r) (io_pt (ks_dev s))"
    and "page_ok usr_entry" and "unat (va_to_pa usr_entry) + 4096 * 1000 < 2 ^ 32"
    and "d \<noteq> 0" and "d \<notin> desc_slots (io_pt (ks_dev s))" and "pd_child (ps_desc (io_pt (ks_dev s)) d) = None"
  shows "\<exists>s' r' l. kthread_start_userspace (Some con) usr_entry entry d (r, s) =
      Inr (\<lparr>ue_pc = entry AND 0xFFFFFFFF, ue_sp = usr_entry + USR_SZ, ue_spsr = 0\<rparr>, r', s') \<and>
    (\<forall>a. va_translate r' (ps_mem (io_pt (ks_dev s'))) a =
      (if drop_bit 39 a = 0 then if user_page usr_entry a then Some a else None
       else va_translate r (ps_mem (io_pt (ks_dev s))) a)) \<and>
    transmits (uart_reg b AUX_MU_LSR) (uart_reg b AUX_MU_IO) lsr_idle l (entry_text usr_entry) \<and>
    io_log (ks_dev s') = io_log (ks_dev s) @ l"
  by (rule user_run [OF assms, of entry]) blast

text \<open>A state to start from, with the tables of \<open>demo_boot_pt\<close>.\<close>

definition demo_entry :: "io kstdio" where
  "demo_entry = demo_kstdio (quiet_io\<lparr>io_pt := demo_boot_pt\<rparr>)"

definition demo_entry_regs :: sys_regs where
  "demo_entry_regs = \<lparr>sr_ttbr0 = 0x180000, sr_ttbr1 = 0x100000, sr_tcr = 0x80190019, sr_mair = 0, sr_vbar = 0, sr_sp = 0, sr_lr = 0\<rparr>"

lemma demo_entry_ok:
  "gets_ready (io_dev (ks_dev demo_entry)) a lsr_idle" "ks_lock demo_entry = 0"
  "dev_tables 4 0x200000 (sr_ttbr1 demo_entry_regs) (io_pt (ks_dev demo_entry))"
  "page_ok (KERNEL_START + 0x400000)" "unat (va_to_pa (KERNEL_START + 0x400000)) + 4096 * 1000 < 2 ^ 32"
  "(0x500000 :: u64) \<noteq> 0" "0x500000 \<notin> desc_slots (io_pt (ks_dev demo_entry))"
  "pd_child (ps_desc (io_pt (ks_dev demo_entry)) 0x500000) = None"
  "user_page (KERNEL_START + 0x400000) 0x400100"
proof -
  have "page_ok 0x200000" by (simp add: page_ok_def page_addr_def va_to_pa_def)
  from slots_in_page [OF this] show "0x500000 \<notin> desc_slots (io_pt (ks_dev demo_entry))"
    by (simp add: demo_entry_def demo_kstdio_def demo_boot_pt_def)
  show "dev_tables 4 0x200000 (sr_ttbr1 demo_entry_regs) (io_pt (ks_dev demo_entry))"
    using demo_boot_tables by (simp add: demo_entry_def demo_kstdio_def demo_entry_regs_def)
  show "gets_ready (io_dev (ks_dev demo_entry)) a lsr_idle"
    using quiet_io_ready by (simp add: demo_entry_def demo_kstdio_def)
qed (simp_all add: demo_entry_def demo_kstdio_def demo_boot_pt_def zero_desc_def page_ok_def page_addr_def va_to_pa_def user_page_def)

theorem enter_user_mode_witness:
  "\<exists>con s1 s' r' l. uart_init \<lparr>gc_base = 0, gc_generic = True\<rparr> ready_io = Inr (con, s1) \<and>
    kthread_start_userspace (Some con) (KERNEL_START + 0x400000) (KERNEL_START + 0x400008) 0x500000 (demo_entry_regs, demo_entry) =
      Inr (\<lparr>ue_pc = 0x400008, ue_sp = 0xFFFFFF80007E8000, ue_spsr = 0\<rparr>, r', s') \<and>
    va_translate r' (ps_mem (io_pt (ks_dev s'))) 0x400100 = Some 0x400100 \<and>
    transmits 0xFFFFFF803F215054 0xFFFFFF803F215040 lsr_idle l (entry_text (KERNEL_START + 0x400000))"
proof -
  obtain con s1 where u: "uart_init \<lparr>gc_base = 0, gc_generic = True\<rparr> ready_io = Inr (con, s1)" "cd_base con = 0xFFFFFF803F215000"
    using ready_io_init by (auto split: sum.splits)
  have v: "io_version ready_io \<noteq> 5" by (simp add: ready_io_def quiet_io_def)
  note D = demo_entry_ok
  obtain s' r' l where r: "kthread_start_userspace (Some con) (KERNEL_START + 0x400000) (KERNEL_START + 0x400008) 0x500000 (demo_entry_regs, demo_entry) =
      Inr (\<lparr>ue_pc = (KERNEL_START + 0x400008) AND 0xFFFFFFFF, ue_sp = KERNEL_START + 0x400000 + USR_SZ, ue_spsr = 0\<rparr>, r', s')"
    "\<forall>a. va_translate r' (ps_mem (io_pt (ks_dev s'))) a =
      (if drop_bit 39 a = 0 then if user_page (KERNEL_START + 0x400000) a then Some a else None
       else va_translate demo_entry_regs (ps_mem (io_pt (ks_dev demo_entry))) a)"
    "transmits (uart_reg (cd_base con) AUX_MU_LSR) (uart_reg (cd_base con) AUX_MU_IO) lsr_idle l (entry_text (KERNEL_START + 0x400000))"
    using enter_user_mode [OF uart_init_mini [OF u(1) v] D(1-8), of "KERNEL_START + 0x400008"] by blast
  have "va_translate r' (ps_mem (io_pt (ks_dev s'))) 0x400100 = Some 0x400100" using r(2) D(9) by simp
  moreover have "transmits 0xFFFFFF803F215054 0xFFFFFF803F215040 lsr_idle l (entry_text (KERNEL_START + 0x400000))"
    using r(3) u(2) by (simp add: uart_reg_def)
  ultimately show ?thesis using u(1) r(1) by (intro exI [of _ con] exI [of _ s1] exI [of _ s'] exI [of _ r'] exI [of _ l]) simp
qed

lemma user_flags: "\<not> el0_may_read PTE_FLAGS_USER_GENERIC" "\<not> el0_may_write PTE_FLAGS_USER_GENERIC"
  "el0_may_execute PTE_FLAGS_USER_GENERIC"
  by (simp_all add: el0_may_read_def el0_may_write_def el0_may_execute_def bit_iff_odd_drop_bit)

text \<open>
  C26. User mode cannot load from its memory or store to it: every page of it is translated,
  to itself, but with the permissions of PTE_FLAGS_USER_GENERIC, which has the name of a
  user mapping and leaves out PT_USER. Only instructions can be fetched.
\<close>

theorem user_memory_no_access:
  assumes "cd_putc con = mini_uart_putc b" and "cd_puts con = mini_uart_puts b"
    and "gets_ready (io_dev (ks_dev s)) (uart_reg b AUX_MU_LSR) lsr_idle" and "ks_lock s = 0"
    and "dev_tables 4 g (sr_ttbr1 r) (io_pt (ks_dev s))"
    and "page_ok usr_entry" and "unat (va_to_pa usr_entry) + 4096 * 1000 < 2 ^ 32"
    and "d \<noteq> 0" and "d \<notin> desc_slots (io_pt (ks_dev s))" and "pd_child (ps_desc (io_pt (ks_dev s)) d) = None"
  shows "\<exists>e s' r'. kthread_start_userspace (Some con) usr_entry entry d (r, s) = Inr (e, r', s') \<and>
    (\<forall>a. user_page usr_entry a \<longrightarrow> va_translate r' (ps_mem (io_pt (ks_dev s'))) a = Some a \<and>
      (\<exists>w. hw_attr (ps_mem (io_pt (ks_dev s'))) (sr_ttbr0 r') a = Some w \<and>
        el0_may_execute w \<and> \<not> el0_may_read w \<and> \<not> el0_may_write w))"
proof (rule user_run [OF assms, of entry])
  fix e s' r' l assume r: "kthread_start_userspace (Some con) usr_entry entry d (r, s) = Inr (e, r', s')"
    and w: "\<And>a. va_translate r' (ps_mem (io_pt (ks_dev s'))) a =
      (if drop_bit 39 a = 0 then if user_page usr_entry a then Some a else None
       else va_translate r (ps_mem (io_pt (ks_dev s))) a)"
    and at: "\<And>a. user_page usr_entry (va_to_pa a) \<Longrightarrow>
      hw_attr (ps_mem (io_pt (ks_dev s'))) (sr_ttbr0 r') a = Some PTE_FLAGS_USER_GENERIC"
  have "drop_bit 39 a = 0" if "user_page usr_entry a" for a
    using that assms(7) by (simp add: user_page_def word_unat_eq_iff drop_bit_eq_div unat_div)
  then show ?thesis
    using r w at low_half user_flags by (intro exI [of _ e] exI [of _ s'] exI [of _ r']) auto
qed

theorem user_memory_no_access_witness:
  "\<exists>con s1 e s' r' w. uart_init \<lparr>gc_base = 0, gc_generic = True\<rparr> ready_io = Inr (con, s1) \<and>
    kthread_start_userspace (Some con) (KERNEL_START + 0x400000) (KERNEL_START + 0x400008) 0x500000 (demo_entry_regs, demo_entry) =
      Inr (e, r', s') \<and>
    hw_attr (ps_mem (io_pt (ks_dev s'))) (sr_ttbr0 r') 0x400100 = Some w \<and> \<not> el0_may_read w"
proof -
  obtain con s1 where u: "uart_init \<lparr>gc_base = 0, gc_generic = True\<rparr> ready_io = Inr (con, s1)"
    using ready_io_init by (auto split: sum.splits)
  have v: "io_version ready_io \<noteq> 5" by (simp add: ready_io_def quiet_io_def)
  note D = demo_entry_ok
  show ?thesis
    using user_memory_no_access [OF uart_init_mini [OF u v] D(1-8), of "KERNEL_START + 0x400008"] D(9) u by blast
qed

section \<open>From the boot tables to user mode\<close>

lemma boot_walk_high:
  assumes "boot_tables m t t2 t3" and "0x200000 \<le> va_to_pa b"
  shows "hw_walk m t b = None"
proof -
  let ?i = "drop_bit 30 b AND 0x1FF" and ?j = "drop_bit 21 b AND 0x1FF"
  have e: "m t AND TABLE_MASK = t2" "m t AND 3 = 3"
    using assms(1) table_entry [OF _ boot_flags(1), of t2] by (auto simp: boot_tables_def)
  have z: "m (t + 8 * i) = 0" "m (t2 + 8 * i) = 0" if "i < 512" "i \<noteq> 0" for i
    using assms(1) that by (auto simp: boot_tables_def)
  have "?i \<noteq> 0 \<or> ?j \<noteq> 0"
  proof (rule ccontr)
    assume "\<not> ?thesis"
    then have "bit (drop_bit 30 b AND 0x1FF) k = bit (0 :: u64) k" "bit (drop_bit 21 b AND 0x1FF) k = bit (0 :: u64) k" for k by simp_all
    then have *: "\<not> bit b (30 + k)" "\<not> bit b (21 + k)" if "k < 9" for k
      using that by (simp_all only: bit_and_iff bit_drop_bit_eq o_def bit_9 bit_0_eq) blast+
    have "\<not> bit (va_to_pa b) n" if "21 \<le> n" for n
      using that *(1) [of "n - 30"] *(2) [of "n - 21"] by (cases "n < 30") (auto simp: low_bits bit_take_bit_iff)
    then have "drop_bit 21 (va_to_pa b) = 0" by (intro bit_word_eqI) (simp add: bit_drop_bit_eq)
    then have "unat (va_to_pa b) div 2 ^ 21 = 0" by (simp add: word_unat_eq_iff drop_bit_eq_div unat_div)
    then show False using assms(2) by (simp add: word_le_nat_alt)
  qed
  then show ?thesis
    using e z [OF index_bound] by (cases "?i = 0") (auto simp: hw_walk_def extract_va_metadata_def Let_def)
qed

lemma kernel_alias:
  assumes "unat x < 2 ^ 39"
  shows "va_to_pa (KERNEL_START + x) = x" and "drop_bit 39 (KERNEL_START + x) = 0x1FFFFFF"
proof -
  have "unat (KERNEL_START + x) = 0x1FFFFFF * 2 ^ 39 + unat x" using assms by (simp add: unat_word_ariths)
  moreover have "(0x1FFFFFF * 2 ^ 39 + n) mod 2 ^ 39 = n" if "n < 2 ^ 39" for n :: nat
    using that by (simp only: mod_mult_self3 mod_less)
  ultimately show "va_to_pa (KERNEL_START + x) = x" "drop_bit 39 (KERNEL_START + x) = 0x1FFFFFF"
    using assms by (simp_all add: word_unat_eq_iff low_bits unsigned_take_bit_eq take_bit_eq_mod drop_bit_eq_div unat_div unat_mod)
qed

text \<open>
  C25. From the tables of the boot code to user mode: with seventeen clean pages init_mmu, the
  set-up of the devices and kthread_start_userspace return, in this order. Then the lower
  half translates the pages of user memory to themselves and nothing else; the upper half
  translates the pages of the devices to the addresses below them and every other address as
  the boot tables did. The stack pointer that user mode starts with is the kernel address
  of the end of user memory, and no address below it, over the whole size of user memory,
  is translated: the first push of user code is a fault.
\<close>

theorem boot_user_stack_unmapped:
  assumes "boot_tables (ps_mem (io_pt (ks_dev k))) (sr_ttbr1 r) t2 t3"
    and "ps_global (io_pt (ks_dev k)) = None" and "ps_ctr (io_pt (ks_dev k)) = 0" and "ps_heap (io_pt (ks_dev k)) = g # hs"
    and "16 \<le> length hs" and "page_ok g"
    and "heap_ok (io_pt (ks_dev k)\<lparr>ps_heap := hs\<rparr>) []" and "\<forall>p\<in>set hs. va_to_pa p \<notin> {sr_ttbr1 r, t2, t3}"
    and "drop_bit 4 reg AND 0xFFF = 0xD03"
    and "gets_ready (io_dev (ks_dev k)) serial_status lsr_idle" and "ks_lock k = 0"
    and "page_addr q" and "0x200000 \<le> unat q" and "unat q + 4096 * 1000 \<le> 0x3F000000"
    and "d \<noteq> 0" and "unat d < unat g \<or> unat g + PAGE_SIZE \<le> unat d" and "pd_child (ps_desc (io_pt (ks_dev k)) d) = None"
  shows "\<exists>p console tmr irq k' e r' s'. init_mmu 0 (r, io_pt (ks_dev k)) = Inr (r\<lparr>sr_mair := mair_el1\<rparr>, p) \<and>
    main_devices reg ctrl (k\<lparr>ks_dev := ks_dev k\<lparr>io_pt := p\<rparr>\<rparr>) = Inr (Some console, tmr, irq, k') \<and>
    kthread_start_userspace (Some console) (KERNEL_START + q) entry d (r\<lparr>sr_mair := mair_el1\<rparr>, k') = Inr (e, r', s') \<and>
    (\<forall>a. va_translate r' (ps_mem (io_pt (ks_dev s'))) a =
      (if drop_bit 39 a = 0 then if user_page (KERNEL_START + q) a then Some a else None
       else if drop_bit 39 a = 0x1FFFFFF then
         if \<exists>b\<in>set device_pages. a AND VA_PAGE = b AND VA_PAGE then Some (va_to_pa a)
         else hw_walk (ps_mem (io_pt (ks_dev k))) (sr_ttbr1 r) a
       else None)) \<and>
    ue_sp e = KERNEL_START + q + USR_SZ \<and>
    (\<forall>i. 0 < i \<and> i \<le> USR_SZ \<longrightarrow> va_translate r' (ps_mem (io_pt (ks_dev s'))) (ue_sp e - i) = None)"
proof -
  have n: "2 * (4 + 4) \<le> length hs" "(4 :: nat) < 50" using assms(5) by simp_all
  obtain p console tmr irq k' where b: "init_mmu 0 (r, io_pt (ks_dev k)) = Inr (r\<lparr>sr_mair := mair_el1\<rparr>, p)"
    "main_devices reg ctrl (k\<lparr>ks_dev := ks_dev k\<lparr>io_pt := p\<rparr>\<rparr>) = Inr (Some console, tmr, irq, k')"
    "\<And>b. hw_walk (ps_mem (io_pt (ks_dev k'))) (sr_ttbr1 r) b =
      (if \<exists>a\<in>set device_pages. b AND VA_PAGE = a AND VA_PAGE then Some (va_to_pa b)
       else hw_walk (ps_mem (io_pt (ks_dev k))) (sr_ttbr1 r) b)"
    "dev_tables 4 g (sr_ttbr1 r) (io_pt (ks_dev k'))" "ks_lock k' = 0" "io_dev (ks_dev k') = io_dev (ks_dev k)"
    "cd_putc console = mini_uart_putc (pa_to_va 0x3F215000)" "cd_puts console = mini_uart_puts (pa_to_va 0x3F215000)"
    "\<And>x. x \<noteq> 0 \<Longrightarrow> unat x < unat g \<or> unat g + PAGE_SIZE \<le> unat x \<Longrightarrow> x \<notin> desc_slots (io_pt (ks_dev k')) \<Longrightarrow>
      ps_desc (io_pt (ks_dev k')) x = ps_desc (io_pt (ks_dev k)) x"
    by (rule boot_run [OF assms(1-4) n assms(6-11), of ctrl]) (rule that)
  have d: "d \<notin> desc_slots (io_pt (ks_dev k'))"
    using slots_in_page [OF assms(6) _ assms(16)] b(4) by (simp add: dev_tables_def)
  have u: "page_ok (KERNEL_START + q)" "va_to_pa (KERNEL_START + q) = q" "unat (va_to_pa (KERNEL_START + q)) + 4096 * 1000 < 2 ^ 32"
  proof -
    have q: "unat q < 2 ^ 39" "q \<noteq> 0" using assms(13,14) by auto
    show "va_to_pa (KERNEL_START + q) = q" by (rule kernel_alias(1) [OF q(1)])
    then show "page_ok (KERNEL_START + q)" "unat (va_to_pa (KERNEL_START + q)) + 4096 * 1000 < 2 ^ 32"
      using assms(12,14) q(2) kernel_plus [OF assms(12)] by (simp_all add: page_ok_def)
  qed
  have rd: "gets_ready (io_dev (ks_dev k')) (uart_reg (pa_to_va 0x3F215000) AUX_MU_LSR) lsr_idle"
    using assms(10) b(6) by (simp add: serial_status_def)
  have dt: "dev_tables 4 g (sr_ttbr1 (r\<lparr>sr_mair := mair_el1\<rparr>)) (io_pt (ks_dev k'))" using b(4) by simp
  have ch: "pd_child (ps_desc (io_pt (ks_dev k')) d) = None" using b(9) [OF assms(15,16) d] assms(17) by simp
  obtain s' r' l where s': "kthread_start_userspace (Some console) (KERNEL_START + q) entry d (r\<lparr>sr_mair := mair_el1\<rparr>, k') =
      Inr (\<lparr>ue_pc = entry AND 0xFFFFFFFF, ue_sp = KERNEL_START + q + USR_SZ, ue_spsr = 0\<rparr>, r', s')"
    "\<And>a. va_translate r' (ps_mem (io_pt (ks_dev s'))) a =
      (if drop_bit 39 a = 0 then if user_page (KERNEL_START + q) a then Some a else None
       else va_translate (r\<lparr>sr_mair := mair_el1\<rparr>) (ps_mem (io_pt (ks_dev k'))) a)"
    by (rule user_run [OF b(7,8) rd b(5) dt u(1,3) assms(15) d ch, of entry]) blast
  have "va_translate r' (ps_mem (io_pt (ks_dev s'))) (KERNEL_START + q + USR_SZ - i) = None" if "0 < i" "i \<le> USR_SZ" for i
  proof -
    define x where "x = q + (USR_SZ - i)"
    have "unat (USR_SZ - i) = 4096 * 1000 - unat i" "unat i \<le> 4096 * 1000"
      using that(2) by (simp_all add: unat_sub word_le_nat_alt)
    then have x: "unat x = unat q + (4096 * 1000 - unat i)"
      using assms(14) unfolding x_def by (subst unat_plus_simple [THEN iffD1]) (auto simp: no_olen_add_nat)
    moreover have "0 < unat i" using that(1) by unat_arith
    ultimately have lt: "unat x < 2 ^ 39" "0x200000 \<le> unat x" "unat x < 0x3F000000" using assms(13,14) by auto
    note al = kernel_alias [OF lt(1)]
    have "\<not> (KERNEL_START + x) AND VA_PAGE = dp AND VA_PAGE" if "dp \<in> set device_pages" for dp
    proof -
      have dp: "dev_page dp" "0x3F000000 \<le> unat dp" using that dev_pages by (auto simp: device_pages_def)
      show ?thesis using in_page_iff(1) [OF dev_page_ok(1) [OF dp(1)], of "KERNEL_START + x"] dev_page_ok(2) [OF dp(1)] al(1) lt(3) dp(2) by simp
    qed
    moreover have "hw_walk (ps_mem (io_pt (ks_dev k))) (sr_ttbr1 r) (KERNEL_START + x) = None"
      by (rule boot_walk_high [OF assms(1)]) (use al(1) lt(2) in \<open>simp add: word_le_nat_alt\<close>)
    ultimately have "hw_walk (ps_mem (io_pt (ks_dev k'))) (sr_ttbr1 r) (KERNEL_START + x) = None" using b(3) by auto
    then have "va_translate r' (ps_mem (io_pt (ks_dev s'))) (KERNEL_START + x) = None"
      unfolding s'(2) using al(2) by (simp add: va_translate_def)
    moreover have "KERNEL_START + q + USR_SZ - i = KERNEL_START + x" by (simp add: x_def)
    ultimately show ?thesis by (simp only:)
  qed
  moreover have "va_translate r' (ps_mem (io_pt (ks_dev s'))) a =
      (if drop_bit 39 a = 0 then if user_page (KERNEL_START + q) a then Some a else None
       else if drop_bit 39 a = 0x1FFFFFF then
         if \<exists>b\<in>set device_pages. a AND VA_PAGE = b AND VA_PAGE then Some (va_to_pa a)
         else hw_walk (ps_mem (io_pt (ks_dev k))) (sr_ttbr1 r) a
       else None)" for a
    by (subst s'(2)) (simp add: va_translate_def b(3))
  ultimately show ?thesis using b(1,2) s'(1) by (intro exI conjI) auto
qed

definition demo_start :: "io kstdio" where
  "demo_start = demo_kstdio (quiet_io\<lparr>io_pt := (io_pt demo_boot)\<lparr>ps_heap :=
     [0x20000, 0x10000, 0x11000, 0x12000, 0x13000, 0x14000, 0x15000, 0x16000, 0x17000,
      0x18000, 0x19000, 0x1A000, 0x1B000, 0x1C000, 0x1D000, 0x1E000, 0x1F000]\<rparr>\<rparr>)"

theorem boot_user_stack_unmapped_witness:
  "\<exists>p console tmr irq k' e r' s'. init_mmu 0 (demo_regs, io_pt (ks_dev demo_start)) = Inr (demo_regs\<lparr>sr_mair := mair_el1\<rparr>, p) \<and>
    main_devices 0x410FD034 \<lparr>gc_base = 0, gc_generic = False\<rparr> (demo_start\<lparr>ks_dev := ks_dev demo_start\<lparr>io_pt := p\<rparr>\<rparr>) =
      Inr (Some console, tmr, irq, k') \<and>
    kthread_start_userspace (Some console) (KERNEL_START + 0x400000) (KERNEL_START + 0x400008) 0x500000
      (demo_regs\<lparr>sr_mair := mair_el1\<rparr>, k') = Inr (e, r', s') \<and>
    ue_sp e = 0xFFFFFF80007E8000 \<and> va_translate r' (ps_mem (io_pt (ks_dev s'))) 0xFFFFFF80007E7FF0 = None"
proof -
  let ?hs = "[0x10000, 0x11000, 0x12000, 0x13000, 0x14000, 0x15000, 0x16000, 0x17000, 0x18000, 0x19000, 0x1A000, 0x1B000,
    0x1C000, 0x1D000, 0x1E000, 0x1F000] :: u64 list"
  have h: "ps_heap (io_pt (ks_dev demo_start)) = 0x20000 # ?hs" "ps_global (io_pt (ks_dev demo_start)) = None"
    "ps_ctr (io_pt (ks_dev demo_start)) = 0" "ps_mem (io_pt (ks_dev demo_start)) = ps_mem (io_pt demo_boot)"
    "pd_child (ps_desc (io_pt (ks_dev demo_start)) 0x500000) = None"
    by (simp_all add: demo_start_def demo_kstdio_def demo_boot_def zero_desc_def)
  have bt: "boot_tables (ps_mem (io_pt (ks_dev demo_start))) (sr_ttbr1 demo_regs) 0x181000 0x182000"
    unfolding h(4) by (rule demo_boot_tables_ok)
  have hp: "heap_ok (io_pt (ks_dev demo_start)\<lparr>ps_heap := ?hs\<rparr>) []"
  proof -
    have low: "unat p < 0x180000 \<and> page_addr p \<and> p \<noteq> 0" if "p \<in> set ?hs" for p
      using that by (auto simp: page_addr_def)
    have "page_ok p \<and> va_to_pa p = p" if "p \<in> set ?hs" for p
      using low [OF that] page_low [of p] by (simp add: page_ok_def)
    moreover have "p + 8 * i \<noteq> 0x180000 \<and> p + 8 * i \<noteq> 0x181000" if "p \<in> set ?hs" "i < 512" for p i
      using slot_eq [of p "0x180000" i 0] slot_eq [of p "0x181000" i 0] low [OF that(1)] that(2) by (auto simp: page_addr_def)
    moreover have "distinct (map va_to_pa ?hs)" by (simp add: va_to_pa_def)
    ultimately show ?thesis unfolding heap_ok_def by (auto simp: h(4) demo_boot_def)
  qed
  have dj: "\<forall>p\<in>set ?hs. va_to_pa p \<notin> {sr_ttbr1 demo_regs, 0x181000, 0x182000}" by (simp add: va_to_pa_def demo_regs_def)
  have g: "page_ok 0x20000" "page_addr 0x400000" by (simp_all add: page_ok_def page_addr_def va_to_pa_def)
  have rd: "gets_ready (io_dev (ks_dev demo_start)) serial_status lsr_idle" "ks_lock demo_start = 0"
    using quiet_io_ready by (simp_all add: demo_start_def demo_kstdio_def)
  have nz: "(0x500000 :: u64) \<noteq> 0" "unat (0x500000 :: u64) < unat (0x20000 :: u64) \<or> unat (0x20000 :: u64) + PAGE_SIZE \<le> unat (0x500000 :: u64)"
    by simp_all
  from boot_user_stack_unmapped [OF bt h(2,3,1) _ g(1) hp dj _ rd g(2) _ _ nz h(5), of "0x410FD034"
    "\<lparr>gc_base = 0, gc_generic = False\<rparr>" "KERNEL_START + 0x400008"]
  obtain p console tmr irq k' e r' s' where r: "init_mmu 0 (demo_regs, io_pt (ks_dev demo_start)) = Inr (demo_regs\<lparr>sr_mair := mair_el1\<rparr>, p)"
    "main_devices 0x410FD034 \<lparr>gc_base = 0, gc_generic = False\<rparr> (demo_start\<lparr>ks_dev := ks_dev demo_start\<lparr>io_pt := p\<rparr>\<rparr>) =
      Inr (Some console, tmr, irq, k')"
    "kthread_start_userspace (Some console) (KERNEL_START + 0x400000) (KERNEL_START + 0x400008) 0x500000
      (demo_regs\<lparr>sr_mair := mair_el1\<rparr>, k') = Inr (e, r', s')"
    "ue_sp e = KERNEL_START + 0x400000 + USR_SZ"
    "\<forall>i. 0 < i \<and> i \<le> USR_SZ \<longrightarrow> va_translate r' (ps_mem (io_pt (ks_dev s'))) (ue_sp e - i) = None"
    by auto
  have "va_translate r' (ps_mem (io_pt (ks_dev s'))) (ue_sp e - 16) = None" using r(5) by simp
  then have "ue_sp e = 0xFFFFFF80007E8000 \<and> va_translate r' (ps_mem (io_pt (ks_dev s'))) 0xFFFFFF80007E7FF0 = None"
    using r(4) by simp
  with r(1-3) show ?thesis by blast
qed

end
