(* ===== verification/Alloc_Print.thy ===== *)
theory Alloc_Print
  imports Page_Alloc_Props Printf_Props
begin

text \<open>
  The messages of the allocators: print\_free\_lists of page\_alloc.c, with init\_free\_list and
  the smoke test as they print. The functions read the state of the allocator, and work on
  that of the console. Pointers are passed as ints: vprintf reads their low halves.
\<close>

section \<open>The block lists\<close>

definition print_page_block :: "'s char_device option \<Rightarrow> nat \<Rightarrow> fl_meta \<Rightarrow> 's kstdio \<Rightarrow> 's kstdio result" where
  "print_page_block console pb m s =
     bindR (kmsg console (chars ''|addr: %x|'' @ [9]) [Arg_int (ucast (pb_page (fl_blk m pb)))] s) (\<lambda>s.
     bindR (if block_is_free pb m then kmsg console (chars ''[free]'') [] s else kmsg console (chars ''[used]'') [] s)
       (kmsg console [0x0A] []))"

primrec print_blocks_loop :: "'s char_device option \<Rightarrow> nat \<Rightarrow> pb_ptr \<Rightarrow> fl_meta \<Rightarrow> 's kstdio \<Rightarrow> 's kstdio result" where
  "print_blocks_loop console 0 pb m s = Inr s"
| "print_blocks_loop console (Suc i) pb m s =
     bindR (derefR pb) (\<lambda>k.
     bindR (print_page_block console k m s) (print_blocks_loop console i (pb_next (fl_blk m k)) m))"

definition print_block_list :: "'s char_device option \<Rightarrow> free_list \<Rightarrow> fl_meta \<Rightarrow> 's kstdio \<Rightarrow> 's kstdio result" where
  "print_block_list console list m s =
     (case fl_first list of
        None \<Rightarrow> Inr s
      | Some pb \<Rightarrow>
          let curr_order = pb_order (fl_blk m pb) in
          bindR (get_list_size curr_order m) (\<lambda>blk_sz_kb.
          let blk_sz_kb = blk_sz_kb div 1024 in
          bindR (get_block_free_list curr_order m) (\<lambda>l.
          bindR (kmsg console (chars ''O[%d][%x pages]:'' @ [9] @ chars ''%d blocks'' @ [9] @ chars ''(%d KiB)'' @ [0x0A])
            [Arg_int (word_of_nat curr_order), Arg_int (word_of_nat (PAGE_BLOCK curr_order)),
             Arg_int (word_of_nat (fl_count l)), Arg_int blk_sz_kb] s)
            (print_blocks_loop console (fl_count list) (Some pb) m))))"

primrec print_lists_loop :: "'s char_device option \<Rightarrow> nat list \<Rightarrow> fl_meta \<Rightarrow> 's kstdio \<Rightarrow> 's kstdio result" where
  "print_lists_loop console [] m s = Inr s"
| "print_lists_loop console (i # is) m s =
     bindR (get_block_free_list i m) (\<lambda>l.
     bindR (print_block_list console l m s) (print_lists_loop console is m))"

definition print_free_lists :: "'s char_device option \<Rightarrow> fl_meta \<Rightarrow> 's kstdio \<Rightarrow> 's kstdio result" where
  "print_free_lists console m s =
     bindR (kmsg console [0x0A] [] s) (print_lists_loop console (rev [0..<MAX_PAGE_ORDER + 1]) m)"

text \<open>init\_free\_list and the smoke test with their messages.\<close>

definition init_free_list_msgs ::
  "'s char_device option \<Rightarrow> u64 \<Rightarrow> u32 \<Rightarrow> fl_meta \<Rightarrow> 's kstdio \<Rightarrow> (fl_meta \<times> 's kstdio) result" where
  "init_free_list_msgs console addr sz m s =
     bindR (kmsg console (chars ''Starting memory management from addr %x'' @ [0x0A]) [Arg_int (ucast (addr - ucast sz))] s) (\<lambda>s.
     bindR (init_free_list addr sz m) (\<lambda>m.
     bindR (print_free_lists console m s) (\<lambda>s. Inr (m, s))))"

text \<open>The loop over the orders, which prints the order at which it fails and leaves the test.\<close>

fun simple_test_msgs ::
  "'s char_device option \<Rightarrow> nat \<Rightarrow> nat \<Rightarrow> fl_meta \<Rightarrow> 's kstdio \<Rightarrow> (bool \<times> fl_meta \<times> 's kstdio) result" where
  "simple_test_msgs console i 0 m s = Inr (True, m, s)"
| "simple_test_msgs console i (Suc n) m s =
     bindR (simple_test_rounds i 2 m) (\<lambda>(ok, m).
     if \<not> ok then
       bindR (kmsg console (chars ''Test failed at alloc order: %d'' @ [0x0A]) [Arg_int (word_of_nat i)] s) (\<lambda>s. Inr (False, m, s))
     else simple_test_msgs console (i + 1) n m s)"

definition page_alloc_test_msgs :: "'s char_device option \<Rightarrow> fl_meta \<Rightarrow> 's kstdio \<Rightarrow> (fl_meta \<times> 's kstdio) result" where
  "page_alloc_test_msgs console m s =
     bindR (kmsg console ([0x0A, 0x0A] @ chars ''** Running simple page alloc test **'' @ [0x0A, 0x0A]) [] s) (\<lambda>s.
     bindR (kmsg console ([0x0A] @ chars ''Starting page block map:'' @ [0x0A]) [] s) (\<lambda>s.
     bindR (print_free_lists console m s) (\<lambda>s.
     bindR (simple_test_msgs console 0 8 m s) (\<lambda>(ok, m, s).
     if \<not> ok then Inr (m, s)
     else
       bindR (kmsg console ([0x0A] @ chars ''Final page block map:'' @ [0x0A]) [] s) (\<lambda>s.
       bindR (print_free_lists console m s) (\<lambda>s.
       bindR (kmsg console ([0x0A, 0x0A] @ chars ''** Test finished **'' @ [0x0A, 0x0A]) [] s) (\<lambda>s. Inr (m, s))))))))"

section \<open>What is printed\<close>

abbreviation serial_prints :: "u64 \<Rightarrow> (io kstdio \<Rightarrow> io kstdio result) \<Rightarrow> u8 list \<Rightarrow> bool" where
  "serial_prints b \<equiv> prints (uart_reg b AUX_MU_LSR) (uart_reg b AUX_MU_IO) lsr_idle"

text \<open>
  A console is a serial line or, before init\_console, nothing: then nothing happens at all.
\<close>

definition serial_console :: "io char_device \<Rightarrow> u64 \<Rightarrow> bool" where
  "serial_console con b \<longleftrightarrow> cd_putc con = mini_uart_putc b \<and> cd_puts con = mini_uart_puts b"

definition console_ok :: "io char_device option \<Rightarrow> u64 \<Rightarrow> bool" where
  "console_ok con b \<longleftrightarrow> (\<forall>d. con = Some d \<longrightarrow> serial_console d b)"

definition says :: "io char_device option \<Rightarrow> u64 \<Rightarrow> (io kstdio \<Rightarrow> io kstdio result) \<Rightarrow> u8 list \<Rightarrow> bool" where
  "says con b f txt \<longleftrightarrow> (case con of None \<Rightarrow> \<forall>s. ks_lock s = 0 \<longrightarrow> f s = Inr s | Some d \<Rightarrow> serial_prints b f txt)"

lemma says_none: "says con b Inr []"
  by (simp add: says_def prints_none split: option.split)

lemma says_bind: "says con b f t1 \<Longrightarrow> says con b g t2 \<Longrightarrow> says con b (\<lambda>s. bindR (f s) g) (t1 @ t2)"
  by (auto simp: says_def intro: prints_bind split: option.splits)

lemma items_prints:
  assumes "console_ok con b" and "list_all item_ok items"
  shows "says con b (kmsg con (concat (map item_format items)) (concat (map item_args items))) (concat (map item_text items))"
  using assms kmsg_prints [OF _ _ assms(2) refl refl] kmsg_silent [OF assms(2)]
  by (auto simp: console_ok_def serial_console_def says_def split: option.split)

definition plain :: "u8 list \<Rightarrow> bool" where
  "plain t \<longleftrightarrow> 0x25 \<notin> set t \<and> 0 \<notin> set t"

lemma plain_items: "list_all item_ok (map Lit t) \<longleftrightarrow> plain t"
  by (auto simp: plain_def list_all_iff)

lemma text_prints:
  "console_ok con b \<Longrightarrow> plain t \<Longrightarrow> says con b (kmsg con t []) t"
  using items_prints [of con b "map Lit t"] by (simp add: plain_items)

lemma hex_prints:
  assumes "console_ok con b" and "plain t" and "plain u"
  shows "says con b (kmsg con (t @ chars ''%x'' @ u) [Arg_int i]) (t @ item_text (Hex i) @ u)"
  using items_prints [of con b "map Lit t @ [Hex i] @ map Lit u"] assms by (simp add: plain_items)

definition block_text :: "fl_meta \<Rightarrow> nat \<Rightarrow> u8 list" where
  "block_text m k = chars ''|addr: '' @ item_text (Hex (ucast (pb_page (fl_blk m k)))) @ chars ''|'' @ [9] @
     chars (if block_is_free k m then ''[free]'' else ''[used]'') @ [0x0A]"

lemma page_block_prints:
  assumes "console_ok con b"
  shows "says con b (print_page_block con k m) (block_text m k)"
proof -
  have "says con b (kmsg con (chars ''|addr: %x|'' @ [9]) [Arg_int i])
      (chars ''|addr: '' @ item_text (Hex i) @ chars ''|'' @ [9])" for i
    using hex_prints [OF assms, of "chars ''|addr: ''" "chars ''|'' @ [9]" i] by (simp add: chars_def plain_def)
  moreover have "says con b (kmsg con (chars ''[free]'') []) (chars ''[free]'')"
    "says con b (kmsg con (chars ''[used]'') []) (chars ''[used]'')"
    "says con b (kmsg con [0x0A] []) [0x0A]"
    by (auto intro!: text_prints [OF assms] simp: plain_def chars_def)
  then have "says con b (\<lambda>s. bindR (if block_is_free k m then kmsg con (chars ''[free]'') [] s else kmsg con (chars ''[used]'') [] s)
      (kmsg con [0x0A] [])) (chars (if block_is_free k m then ''[free]'' else ''[used]'') @ [0x0A])"
    by (cases "block_is_free k m") (auto intro: says_bind)
  ultimately show ?thesis
    using says_bind unfolding print_page_block_def block_text_def by fastforce
qed

lemma blocks_print:
  assumes "console_ok con b"
  shows "chain (nexts m) pb ks \<Longrightarrow> says con b (print_blocks_loop con (length ks) pb m) (concat (map (block_text m) ks))"
proof (induction ks arbitrary: pb)
  case Nil
  have "print_blocks_loop con 0 pb m = Inr" by (simp add: fun_eq_iff)
  then show ?case by (simp add: says_none)
next
  case (Cons k ks)
  then have "pb = Some k" "chain (nexts m) (nexts m k) ks" by simp_all
  from says_bind [OF page_block_prints [OF assms] Cons.IH [OF this(2)], of k m] this(1)
  show ?case by (simp add: nexts_def)
qed

lemma positional_numeral: "positional d b (numeral k) n = positional d b (pred_numeral k) (n div b) @ [d (n mod b)]"
  by (simp add: numeral_eq_Suc)

text \<open>The line for a list: order, pages in hexadecimal, number of blocks, and size.\<close>

definition list_items :: "nat \<Rightarrow> nat \<Rightarrow> item list" where
  "list_items n c = map Lit (chars ''O['') @ [Dec (word_of_nat n)] @ map Lit (chars '']['') @ [Hex (word_of_nat (2 ^ n))] @
     map Lit (chars '' pages]:'' @ [9]) @ [Dec (word_of_nat c)] @ map Lit (chars '' blocks'' @ [9] @ chars ''('') @
     [Dec (word_of_nat (c * 2 ^ (n + 2)))] @ map Lit (chars '' KiB)'' @ [0x0A])"

definition list_text :: "fl_meta \<Rightarrow> nat \<Rightarrow> nat list \<Rightarrow> u8 list" where
  "list_text m n ks =
     (if ks = [] then [] else concat (map item_text (list_items n (length ks))) @ concat (map (block_text m) ks))"

definition lists_text :: "fl_meta \<Rightarrow> (nat \<Rightarrow> nat list) \<Rightarrow> u8 list" where
  "lists_text m L = [0x0A] @ concat (map (\<lambda>n. list_text m n (L n)) (rev [1..<MAX_PAGE_ORDER + 1]))"

lemma list_kib:
  assumes "c * 2 ^ (n + 12) < 2 ^ 32"
  shows "(word_of_nat (PAGE_BLOCK n) * word_of_nat c * word_of_nat PAGE_SIZE :: u32) div 1024 = word_of_nat (c * 2 ^ (n + 2))"
proof -
  let ?N = "c * 2 ^ (n + 12)"
  have e: "(word_of_nat (PAGE_BLOCK n) * word_of_nat c * word_of_nat PAGE_SIZE :: u32) = word_of_nat ?N"
    by (simp only: of_nat_mult [symmetric]) (simp add: power_add mult.commute mult.left_commute)
  have q: "?N div 1024 = c * 2 ^ (n + 2)" "c * 2 ^ (n + 2) \<le> ?N" by (simp_all add: power_add)
  have u: "unat (word_of_nat k :: u32) = k" if "k < 2 ^ 32" for k using that by (simp only: unat_of_nat) simp
  have "unat (word_of_nat ?N :: u32) = ?N" "unat (word_of_nat (c * 2 ^ (n + 2)) :: u32) = c * 2 ^ (n + 2)"
    by (rule u [OF assms], rule u [OF order.strict_trans1 [OF q(2) assms]])
  with q(1) show ?thesis unfolding e word_unat_eq_iff unat_div by simp
qed

lemma list_items_ok:
  assumes "c * 2 ^ (n + 12) < 2 ^ 32" and "0 < c" and "0 < n" and "n \<le> MAX_PAGE_ORDER"
  shows "list_all item_ok (list_items n c)"
proof -
  have p: "(2 :: nat) ^ 12 \<le> 2 ^ (n + 12)" "(2 :: nat) ^ (n + 12) = 2 ^ 10 * 2 ^ (n + 2)" by (simp_all add: power_add)
  then have "c * 2 ^ 12 \<le> c * 2 ^ (n + 12)" by (intro mult_le_mono2)
  then have "c * 2 ^ 12 < 2 ^ 32" using assms(1) by (rule order.strict_trans1)
  then have b: "c < 2 ^ 20" "c * 2 ^ (n + 2) < 2 ^ 22" using assms(1) p(2) by simp_all
  have u: "unat (word_of_nat k :: u32) = k" if "k < 2 ^ 32" for k using that by (simp only: unat_of_nat) simp
  have "item_ok (Dec (word_of_nat n)) \<and> item_ok (Dec (word_of_nat c)) \<and> item_ok (Dec (word_of_nat (c * 2 ^ (n + 2))))"
    using u [of n] u [of c] u [of "c * 2 ^ (n + 2)"] b assms(2-4) by simp
  then show ?thesis by (simp add: list_items_def plain_items) (simp add: plain_def chars_def)
qed

lemma block_list_prints:
  assumes "console_ok con b" and "chains m L" and "fl_count (fl_list m n) = length (L n)"
    and "length (L n) * 2 ^ (n + 12) < 2 ^ 32" and "0 < n" and "n \<le> MAX_PAGE_ORDER"
  shows "says con b (print_block_list con (fl_list m n) m) (list_text m n (L n))"
proof (cases "L n")
  case Nil
  then have "fl_first (fl_list m n) = None" using assms(2,6) by (auto simp: chains_def)
  then have "print_block_list con (fl_list m n) m = Inr" by (simp add: fun_eq_iff print_block_list_def)
  then show ?thesis using Nil by (simp add: list_text_def says_none)
next
  case (Cons k ks)
  then have c: "chain (nexts m) (fl_first (fl_list m n)) (k # ks)" "pb_order (fl_blk m k) = n"
    using assms(2,6) by (auto simp: chains_def)
  have f: "concat (map item_format (list_items n c)) = chars ''O[%d][%x pages]:'' @ [9] @ chars ''%d blocks'' @ [9] @ chars ''(%d KiB)'' @ [0x0A]"
    "concat (map item_args (list_items n c)) = [Arg_int (word_of_nat n), Arg_int (word_of_nat (PAGE_BLOCK n)), Arg_int (word_of_nat c),
      Arg_int (word_of_nat (c * 2 ^ (n + 2)))]" for c
    by (simp_all add: list_items_def) (simp_all add: chars_def)
  let ?c = "length (L n)"
  have ok: "list_all item_ok (list_items n ?c)" by (rule list_items_ok [OF assms(4) _ assms(5,6)]) (simp add: Cons)
  have "get_list_size n m = Inr (word_of_nat (PAGE_BLOCK n) * word_of_nat ?c * word_of_nat PAGE_SIZE)"
    using assms(3,6) by (simp add: get_list_size_def get_block_free_list_def)
  then have e: "print_block_list con (fl_list m n) m = (\<lambda>s. bindR (kmsg con
      (concat (map item_format (list_items n ?c))) (concat (map item_args (list_items n ?c))) s)
      (print_blocks_loop con ?c (fl_first (fl_list m n)) m))"
    using c assms(3,6) list_kib [OF assms(4)] by (simp add: fun_eq_iff print_block_list_def f get_block_free_list_def)
  have ch: "chain (nexts m) (fl_first (fl_list m n)) (L n)" and ne: "L n \<noteq> []" using c(1) Cons by simp_all
  show ?thesis
    unfolding e list_text_def if_not_P [OF ne]
    by (rule says_bind [OF items_prints [OF assms(1) ok] blocks_print [OF assms(1) ch]])
qed

lemma print_lists_nil: "print_lists_loop console [] m = Inr"
  by (simp add: fun_eq_iff)

lemma lists_print:
  assumes "console_ok con b" and "chains m L"
  shows "\<forall>n\<in>set is. 0 < n \<and> n \<le> MAX_PAGE_ORDER \<and> fl_count (fl_list m n) = length (L n) \<and> length (L n) * 2 ^ (n + 12) < 2 ^ 32 \<Longrightarrow>
    says con b (print_lists_loop con is m) (concat (map (\<lambda>n. list_text m n (L n)) is))"
proof (induction "is")
  case Nil
  show ?case by (simp add: print_lists_nil says_none del: print_lists_loop.simps)
next
  case (Cons n "is")
  then have n: "fl_count (fl_list m n) = length (L n)" "length (L n) * 2 ^ (n + 12) < 2 ^ 32" "0 < n" "n \<le> MAX_PAGE_ORDER"
    and r: "says con b (print_lists_loop con is m) (concat (map (\<lambda>n. list_text m n (L n)) is))" by simp_all
  have "print_lists_loop con (n # is) m =
      (\<lambda>s. bindR (print_block_list con (fl_list m n) m s) (print_lists_loop con is m))"
    using n(4) by (simp add: fun_eq_iff get_block_free_list_def)
  then show ?case using says_bind [OF block_list_prints [OF assms n] r] by simp
qed

text \<open>The number 0 is printed with \<open>%d\<close>, which writes beyond the buffer.\<close>

definition console_ready :: "io char_device option \<Rightarrow> u64 \<Rightarrow> io kstdio \<Rightarrow> bool" where
  "console_ready con b s \<longleftrightarrow> ks_lock s = 0 \<and> (con \<noteq> None \<longrightarrow> gets_ready (io_dev (ks_dev s)) (uart_reg b AUX_MU_LSR) lsr_idle)"

lemma says_step:
  assumes "says con b f txt" and "console_ready con b s"
  obtains l where "f s = Inr (s\<lparr>ks_dev := ks_dev s\<lparr>io_log := io_log (ks_dev s) @ l\<rparr>\<rparr>)"
    and "con \<noteq> None \<Longrightarrow> transmits (uart_reg b AUX_MU_LSR) (uart_reg b AUX_MU_IO) lsr_idle l txt" and "con = None \<Longrightarrow> l = []"
    and "console_ready con b (s\<lparr>ks_dev := ks_dev s\<lparr>io_log := io_log (ks_dev s) @ l\<rparr>\<rparr>)"
proof (cases con)
  case None
  have "f s = Inr (s\<lparr>ks_dev := ks_dev s\<lparr>io_log := io_log (ks_dev s) @ []\<rparr>\<rparr>)"
    using assms None by (simp add: says_def console_ready_def)
  then show thesis by (rule that) (use assms(2) None in auto)
next
  case (Some d)
  then obtain l where "f s = Inr (s\<lparr>ks_dev := ks_dev s\<lparr>io_log := io_log (ks_dev s) @ l\<rparr>\<rparr>)"
    "transmits (uart_reg b AUX_MU_LSR) (uart_reg b AUX_MU_IO) lsr_idle l txt"
    using assms by (auto simp: says_def prints_def console_ready_def)
  then show thesis by (rule that) (use assms(2) Some in \<open>auto simp: console_ready_def\<close>)
qed

lemma putc_step:
  assumes "console_ok con b" and "console_ready con b s"
  obtains l where "putc con c (ks_dev s) = Inr (ks_dev s\<lparr>io_log := io_log (ks_dev s) @ l\<rparr>)"
proof (cases con)
  case None
  have "putc con c (ks_dev s) = Inr (ks_dev s\<lparr>io_log := io_log (ks_dev s) @ []\<rparr>)" using None by (simp add: putc_def)
  then show thesis by (rule that)
next
  case (Some d)
  then have "gets_ready (io_dev (ks_dev s)) (uart_reg b AUX_MU_LSR) lsr_idle" "cd_putc d = mini_uart_putc b"
    using assms by (auto simp: console_ready_def console_ok_def serial_console_def)
  then show thesis using mini_uart.putc_transmits that Some by (fastforce simp: putc_def)
qed

lemma literals_step:
  assumes "console_ok con b"
  shows "console_ready con b s \<Longrightarrow> 0x25 \<notin> set t \<Longrightarrow>
    \<exists>d. vprintf_loop con (t @ rest) args buf (ks_dev s) = vprintf_loop con rest args buf d"
proof (induction t arbitrary: s)
  case (Cons c t)
  obtain l where l: "putc con c (ks_dev s) = Inr (ks_dev s\<lparr>io_log := io_log (ks_dev s) @ l\<rparr>)"
    by (rule putc_step [OF assms Cons.prems(1)])
  let ?s = "s\<lparr>ks_dev := ks_dev s\<lparr>io_log := io_log (ks_dev s) @ l\<rparr>\<rparr>"
  have "console_ready con b ?s" "0x25 \<notin> set t" using Cons.prems by (simp_all add: console_ready_def)
  from Cons.IH [OF this] obtain d where "vprintf_loop con (t @ rest) args buf (ks_dev ?s) = vprintf_loop con rest args buf d" ..
  then show ?case using l Cons.prems(2) by (auto simp: vprintf_literal)
qed auto

lemma decimal_zero_faults:
  assumes "console_ok con b" and "console_ready con b s" and "0x25 \<notin> set t"
  shows "kmsg con (t @ chars ''%d'' @ rest) (Arg_int 0 # args) s = Inl OutOfBounds"
proof -
  obtain d where d: "vprintf_loop con (t @ chars ''%d'' @ rest) (Arg_int 0 # args) (replicate D_BUF_SZ 0) (ks_dev s) =
      vprintf_loop con (chars ''%d'' @ rest) (Arg_int 0 # args) (replicate D_BUF_SZ 0) d"
    using literals_step [OF assms] by blast
  have "int_chars 0 = - 2" by (simp add: int_chars_def count_chars.simps)
  then have "vprintf_option con (of_char (CHR ''d'')) (Arg_int 0 # args) (replicate D_BUF_SZ 0) d = Inl OutOfBounds"
    by (simp add: vprintf_option_def puts_number_def d_to_s_def store_char_def)
  then have "vprintf con (t @ chars ''%d'' @ rest) (Arg_int 0 # args) (ks_dev s) = Inl OutOfBounds"
    unfolding vprintf_def d by (simp add: chars_def)
  then show ?thesis using assms(2) by (simp add: kmsg_def kprintf_free console_ready_def)
qed

lemma print_lists_append:
  "print_lists_loop console (is @ js) m s = bindR (print_lists_loop console is m s) (print_lists_loop console js m)"
proof (induction "is" arbitrary: s)
  case (Cons i "is")
  then have "print_lists_loop console (is @ js) m = (\<lambda>s. bindR (print_lists_loop console is m s) (print_lists_loop console js m))"
    by (simp add: fun_eq_iff)
  then show ?case by (simp add: bindR_assoc)
qed simp

text \<open>The lists of order 1 and above, and then the list of single pages.\<close>

definition print_upper :: "'s char_device option \<Rightarrow> fl_meta \<Rightarrow> 's kstdio \<Rightarrow> 's kstdio result" where
  "print_upper console m s = bindR (kmsg console [0x0A] [] s) (print_lists_loop console (rev [1..<MAX_PAGE_ORDER + 1]) m)"

lemma print_free_lists_split:
  "print_free_lists console m s = bindR (print_upper console m s) (print_block_list console (fl_list m 0) m)"
proof -
  have o: "rev [0..<MAX_PAGE_ORDER + 1] = rev [1..<MAX_PAGE_ORDER + 1] @ [0]" by (simp add: upt_rec)
  have n: "bindR m Inr = m" for m :: "'x result" by (cases m) simp_all
  have "print_lists_loop console [0] m s = print_block_list console (fl_list m 0) m s" for s
    by (simp only: print_lists_loop.simps print_lists_nil n) (simp add: get_block_free_list_def)
  then have "print_lists_loop console [0] m = print_block_list console (fl_list m 0) m" by blast
  then show ?thesis unfolding print_free_lists_def print_upper_def o bindR_assoc print_lists_append [abs_def] by simp
qed

lemma print_upper_says:
  assumes "console_ok con b" and "chains m L" and "exact_below (MAX_PAGE_ORDER + 1) m L"
    and "\<forall>n\<le>MAX_PAGE_ORDER. length (L n) * 2 ^ (n + 12) < 2 ^ 32"
  shows "says con b (print_upper con m) (lists_text m L)"
proof -
  have "\<forall>n\<in>set (rev [1..<MAX_PAGE_ORDER + 1]). 0 < n \<and> n \<le> MAX_PAGE_ORDER \<and>
      fl_count (fl_list m n) = length (L n) \<and> length (L n) * 2 ^ (n + 12) < 2 ^ 32"
    using assms(3,4) by (auto simp: exact_below_def)
  from lists_print [OF assms(1,2) this] show ?thesis
    unfolding lists_text_def print_upper_def by (intro says_bind text_prints [OF assms(1)]) (simp add: plain_def)
qed

lemma print_zero_list:
  assumes "console_ok con b" and "console_ready con b s" and "chains m L"
  shows "print_block_list con (fl_list m 0) m s = (if L 0 = [] then Inr s else Inl OutOfBounds)"
proof (cases "L 0")
  case Nil
  have "chain (nexts m) (fl_first (fl_list m 0)) (L 0)" using assms(3) by (simp add: chains_def)
  then show ?thesis using Nil by (simp add: print_block_list_def)
next
  case (Cons k ks)
  then have "fl_first (fl_list m 0) = Some k" "pb_order (fl_blk m k) = 0" using assms(3) by (auto simp: chains_def)
  then show ?thesis
    using Cons decimal_zero_faults [OF assms(1,2), of "chars ''O[''" "chars ''][%x pages]:'' @ [9] @ chars ''%d blocks'' @ [9] @ chars ''(%d KiB)'' @ [0x0A]"]
    by (simp add: print_block_list_def get_list_size_def get_block_free_list_def chars_def)
qed

lemma print_free_lists_eq:
  assumes "console_ok con b" and "chains m L" and "exact_below (MAX_PAGE_ORDER + 1) m L"
    and "\<forall>n\<le>MAX_PAGE_ORDER. length (L n) * 2 ^ (n + 12) < 2 ^ 32" and "console_ready con b s"
  shows "print_free_lists con m s = (if L 0 = [] then print_upper con m s else Inl OutOfBounds)"
proof -
  obtain l where "print_upper con m s = Inr (s\<lparr>ks_dev := ks_dev s\<lparr>io_log := io_log (ks_dev s) @ l\<rparr>\<rparr>)"
    "console_ready con b (s\<lparr>ks_dev := ks_dev s\<lparr>io_log := io_log (ks_dev s) @ l\<rparr>\<rparr>)"
    using says_step [OF print_upper_says [OF assms(1-4)] assms(5)] by blast
  then show ?thesis using print_zero_list [OF assms(1) _ assms(2)] by (simp add: print_free_lists_split)
qed

text \<open>
  C29. print_free_lists, on lists with exact counts: it transmits a line for every list with
  blocks and a line for every block, from the largest order down, and does nothing else.
  But when a single page is in the lists it does not come back: the order 0 is printed as a
  decimal number, which writes outside of the buffer of vprintf.
\<close>

theorem print_free_lists_report:
  assumes "serial_console con b" and "chains m L" and "exact_below (MAX_PAGE_ORDER + 1) m L"
    and "\<forall>n\<le>MAX_PAGE_ORDER. length (L n) * 2 ^ (n + 12) < 2 ^ 32"
    and "gets_ready (io_dev (ks_dev s)) (uart_reg b AUX_MU_LSR) lsr_idle" and "ks_lock s = 0"
  shows "if L 0 = []
    then \<exists>l. print_free_lists (Some con) m s = Inr (s\<lparr>ks_dev := ks_dev s\<lparr>io_log := io_log (ks_dev s) @ l\<rparr>\<rparr>) \<and>
      transmits (uart_reg b AUX_MU_LSR) (uart_reg b AUX_MU_IO) lsr_idle l (lists_text m L)
    else print_free_lists (Some con) m s = Inl OutOfBounds"
proof -
  have c: "console_ok (Some con) b" "console_ready (Some con) b s" using assms(1,5,6) by (simp_all add: console_ok_def console_ready_def)
  show ?thesis
    using print_free_lists_eq [OF c(1) assms(2-4) c(2)] says_step [OF print_upper_says [OF c(1) assms(2-4)] c(2)] by auto
qed

section \<open>The whole pool\<close>

definition whole_text :: "u64 \<Rightarrow> nat \<Rightarrow> u8 list" where
  "whole_text base t = [0x0A] @ concat (map item_text (list_items t 1)) @
     chars ''|addr: '' @ item_text (Hex (ucast base)) @ chars ''|'' @ [9] @ chars ''[free]'' @ [0x0A]"

lemma concat_one: "distinct xs \<Longrightarrow> t \<in> set xs \<Longrightarrow> (\<And>n. n \<noteq> t \<Longrightarrow> f n = []) \<Longrightarrow> concat (map f xs) = f t"
proof (induction xs)
  case (Cons x xs)
  show ?case
  proof (cases "x = t")
    case True
    then have "\<forall>y\<in>set xs. y \<noteq> t" using Cons.prems(1) by auto
    then have "concat (map f xs) = []" using Cons.prems(3) by simp
    then show ?thesis using True by simp
  next
    case False
    then show ?thesis using Cons.IH Cons.prems by simp
  qed
qed simp

lemma whole_pool_lists:
  assumes "whole_pool base t m" and "t \<le> MAX_PAGE_ORDER"
  obtains L where "chains m L" and "exact_below (MAX_PAGE_ORDER + 1) m L"
    and "\<forall>n\<le>MAX_PAGE_ORDER. length (L n) * 2 ^ (n + 12) < 2 ^ 32"
    and "L 0 = [] \<longleftrightarrow> 0 < t" and "0 < t \<Longrightarrow> lists_text m L = whole_text base t"
proof -
  obtain k where k: "\<forall>n\<le>MAX_PAGE_ORDER. fl_list m n =
      (if n = t then \<lparr>fl_first = Some k, fl_count = 1\<rparr> else \<lparr>fl_first = None, fl_count = 0\<rparr>)"
    "pb_page (fl_blk m k) = base" "pb_order (fl_blk m k) = t" "pb_next (fl_blk m k) = None" "block_is_free k m"
    using assms(1) unfolding whole_pool_def by blast
  define L where "L = (\<lambda>n. if n = t then [k] else [])"
  have p: "(2 :: nat) ^ (n + 12) < 2 ^ 32" if "n \<le> MAX_PAGE_ORDER" for n using that by (intro power_strict_increasing) auto
  show thesis
  proof (rule that [of L])
    show "chains m L" "exact_below (MAX_PAGE_ORDER + 1) m L"
      using k by (auto simp: chains_def exact_below_def L_def nexts_def)
    show "\<forall>n\<le>MAX_PAGE_ORDER. length (L n) * 2 ^ (n + 12) < 2 ^ 32" using p by (simp add: L_def)
    show "L 0 = [] \<longleftrightarrow> 0 < t" by (simp add: L_def)
    assume "0 < t"
    then have "concat (map (\<lambda>n. list_text m n (L n)) (rev [1..<MAX_PAGE_ORDER + 1])) = list_text m t (L t)"
      using assms(2) by (intro concat_one) (auto simp: L_def list_text_def)
    then show "lists_text m L = whole_text base t"
      using k(2,5) by (simp add: lists_text_def whole_text_def list_text_def L_def block_text_def)
  qed
qed

lemma whole_pool_says:
  assumes "console_ok con b" and "whole_pool base t m" and "0 < t" and "t \<le> MAX_PAGE_ORDER" and "console_ready con b s"
  obtains l where "print_free_lists con m s = Inr (s\<lparr>ks_dev := ks_dev s\<lparr>io_log := io_log (ks_dev s) @ l\<rparr>\<rparr>)"
    and "con \<noteq> None \<Longrightarrow> transmits (uart_reg b AUX_MU_LSR) (uart_reg b AUX_MU_IO) lsr_idle l (whole_text base t)" and "con = None \<Longrightarrow> l = []"
    and "console_ready con b (s\<lparr>ks_dev := ks_dev s\<lparr>io_log := io_log (ks_dev s) @ l\<rparr>\<rparr>)"
proof -
  obtain L where L: "chains m L" "exact_below (MAX_PAGE_ORDER + 1) m L" "\<forall>n\<le>MAX_PAGE_ORDER. length (L n) * 2 ^ (n + 12) < 2 ^ 32"
    "L 0 = [] \<longleftrightarrow> 0 < t" "0 < t \<Longrightarrow> lists_text m L = whole_text base t"
    by (rule whole_pool_lists [OF assms(2,4)]) (rule that)
  have "print_free_lists con m s = print_upper con m s"
    using print_free_lists_eq [OF assms(1) L(1-3) assms(5)] L(4) assms(3) by simp
  note e = this
  have w: "says con b (print_upper con m) (whole_text base t)" using print_upper_says [OF assms(1) L(1-3)] L(5) assms(3) by simp
  show thesis by (rule says_step [OF w assms(5)]) (rule that [unfolded e])
qed

lemma ready_console:
  obtains con s1 where "uart_init \<lparr>gc_base = 0, gc_generic = True\<rparr> ready_io = Inr (con, s1)" and "serial_console con 0xFFFFFF803F215000"
proof -
  obtain con s1 where u: "uart_init \<lparr>gc_base = 0, gc_generic = True\<rparr> ready_io = Inr (con, s1)" "cd_base con = 0xFFFFFF803F215000"
    using ready_io_init by (auto split: sum.splits)
  have "io_version ready_io \<noteq> 5" by (simp add: ready_io_def quiet_io_def)
  from uart_init_mini [OF u(1) this] u(2) have "serial_console con 0xFFFFFF803F215000" by (simp add: serial_console_def)
  with u(1) show thesis by (rule that)
qed

theorem print_free_lists_report_witness:
  "\<exists>con s1 l. uart_init \<lparr>gc_base = 0, gc_generic = True\<rparr> ready_io = Inr (con, s1) \<and>
    print_free_lists (Some con) (pool_state 0x100000 8) \<lparr>ks_daif = 0, ks_lock = 0, ks_dev = quiet_io\<rparr> =
      Inr \<lparr>ks_daif = 0, ks_lock = 0, ks_dev = quiet_io\<lparr>io_log := l\<rparr>\<rparr> \<and>
    transmits 0xFFFFFF803F215054 0xFFFFFF803F215040 lsr_idle l
      ([0x0A] @ chars ''O[8][0x00000100 pages]:'' @ [9] @ chars ''1 blocks'' @ [9] @ chars ''(1024 KiB)'' @ [0x0A] @
       chars ''|addr: 0x00100000|'' @ [9] @ chars ''[free]'' @ [0x0A]) \<and>
    print_free_lists (Some con) (pool_state 0x1000 0) \<lparr>ks_daif = 0, ks_lock = 0, ks_dev = quiet_io\<rparr> = Inl OutOfBounds"
proof -
  let ?s = "\<lparr>ks_daif = 0, ks_lock = 0, ks_dev = quiet_io\<rparr>"
  obtain con s1 where u: "uart_init \<lparr>gc_base = 0, gc_generic = True\<rparr> ready_io = Inr (con, s1)" "serial_console con 0xFFFFFF803F215000"
    by (rule ready_console)
  have g: "gets_ready (io_dev (ks_dev ?s)) a lsr_idle" "ks_lock ?s = 0" for a using quiet_io_ready by simp_all
  obtain L where L: "chains (pool_state 0x100000 8) L" "exact_below (MAX_PAGE_ORDER + 1) (pool_state 0x100000 8) L"
    "\<forall>n\<le>MAX_PAGE_ORDER. length (L n) * 2 ^ (n + 12) < 2 ^ 32" "L 0 = []" "lists_text (pool_state 0x100000 8) L = whole_text 0x100000 8"
    using whole_pool_lists [OF pool_state_whole, of 8 "0x100000"] by auto
  obtain K where K: "chains (pool_state 0x1000 0) K" "exact_below (MAX_PAGE_ORDER + 1) (pool_state 0x1000 0) K"
    "\<forall>n\<le>MAX_PAGE_ORDER. length (K n) * 2 ^ (n + 12) < 2 ^ 32" "K 0 \<noteq> []"
    using whole_pool_lists [OF pool_state_whole, of 0 "0x1000"] by auto
  have t: "whole_text 0x100000 8 =
      [0x0A] @ chars ''O[8][0x00000100 pages]:'' @ [9] @ chars ''1 blocks'' @ [9] @ chars ''(1024 KiB)'' @ [0x0A] @
       chars ''|addr: 0x00100000|'' @ [9] @ chars ''[free]'' @ [0x0A]"
    by (simp add: whole_text_def list_items_def) (simp add: positional_numeral hex_sym_def decimal.simps dec_sym_def chars_def)
  obtain l where l: "print_free_lists (Some con) (pool_state 0x100000 8) ?s = Inr (?s\<lparr>ks_dev := ks_dev ?s\<lparr>io_log := io_log (ks_dev ?s) @ l\<rparr>\<rparr>)"
    "transmits (uart_reg 0xFFFFFF803F215000 AUX_MU_LSR) (uart_reg 0xFFFFFF803F215000 AUX_MU_IO) lsr_idle l (whole_text 0x100000 8)"
    using print_free_lists_report [OF u(2) L(1-3) g] L(4,5) by auto
  have "print_free_lists (Some con) (pool_state 0x1000 0) ?s = Inl OutOfBounds"
    using print_free_lists_report [OF u(2) K(1-3) g] K(4) by simp
  with l u(1) show ?thesis
    unfolding t by (intro exI [of _ con] exI [of _ s1] exI [of _ l]) (simp add: quiet_io_def uart_reg_def)
qed

definition start_text :: "u64 \<Rightarrow> u32 \<Rightarrow> u8 list" where
  "start_text addr sz = chars ''Starting memory management from addr '' @ item_text (Hex (ucast (addr - ucast sz))) @ [0x0A]"

lemma kmsg_says:
  assumes "console_ok con b" and "console_ready con b s" and "plain t"
  obtains l where "kmsg con t [] s = Inr (s\<lparr>ks_dev := ks_dev s\<lparr>io_log := io_log (ks_dev s) @ l\<rparr>\<rparr>)"
    and "con \<noteq> None \<Longrightarrow> transmits (uart_reg b AUX_MU_LSR) (uart_reg b AUX_MU_IO) lsr_idle l t" and "con = None \<Longrightarrow> l = []"
    and "console_ready con b (s\<lparr>ks_dev := ks_dev s\<lparr>io_log := io_log (ks_dev s) @ l\<rparr>\<rparr>)"
  by (rule says_step [OF text_prints [OF assms(1,3)] assms(2)]) (rule that)

text \<open>
  init_free_list with its messages, on memory of one block: the pool becomes one free
  block, and the start and the map of the blocks are transmitted; when main calls it, before
  there is a console, nothing is put on the bus. A pool of a single page makes it write
  outside of a buffer, with or without a console.
\<close>

theorem init_free_list_prints_map:
  assumes "t < MAX_PAGE_ORDER" and "unat sz = blk_bytes t" and "console_ok con b" and "console_ready con b s"
  shows "if 0 < t
    then \<exists>l. init_free_list_msgs con base sz fl_meta_zero s =
        Inr (pool_state base t, s\<lparr>ks_dev := ks_dev s\<lparr>io_log := io_log (ks_dev s) @ l\<rparr>\<rparr>) \<and>
      (if con = None then l = []
       else transmits (uart_reg b AUX_MU_LSR) (uart_reg b AUX_MU_IO) lsr_idle l (start_text base sz @ whole_text base t))
    else init_free_list_msgs con base sz fl_meta_zero s = Inl OutOfBounds"
proof -
  let ?st = "\<lambda>l s. s\<lparr>ks_dev := ks_dev s\<lparr>io_log := io_log (ks_dev s) @ l\<rparr>\<rparr>"
  have h: "says con b (kmsg con (chars ''Starting memory management from addr %x'' @ [0x0A]) [Arg_int (ucast (base - ucast sz))]) (start_text base sz)"
    using hex_prints [OF assms(3), of "chars ''Starting memory management from addr ''" "[0x0A]"] by (simp add: start_text_def chars_def plain_def)
  obtain l1 where l1: "kmsg con (chars ''Starting memory management from addr %x'' @ [0x0A]) [Arg_int (ucast (base - ucast sz))] s = Inr (?st l1 s)"
    "con \<noteq> None \<Longrightarrow> transmits (uart_reg b AUX_MU_LSR) (uart_reg b AUX_MU_IO) lsr_idle l1 (start_text base sz)" "con = None \<Longrightarrow> l1 = []"
    "console_ready con b (?st l1 s)"
    by (rule says_step [OF h assms(4)]) (rule that)
  have w: "whole_pool base t (pool_state base t)" "t \<le> MAX_PAGE_ORDER" using pool_state_whole [of t] assms(1) by simp_all
  have i: "init_free_list_msgs con base sz fl_meta_zero s =
      bindR (print_free_lists con (pool_state base t) (?st l1 s)) (\<lambda>s. Inr (pool_state base t, s))"
    using l1(1) by (simp add: init_free_list_msgs_def init_free_list_pool [OF assms(1,2)])
  show ?thesis
  proof (cases "0 < t")
    case True
    obtain l2 where l2: "print_free_lists con (pool_state base t) (?st l1 s) = Inr (?st l2 (?st l1 s))"
      "con \<noteq> None \<Longrightarrow> transmits (uart_reg b AUX_MU_LSR) (uart_reg b AUX_MU_IO) lsr_idle l2 (whole_text base t)" "con = None \<Longrightarrow> l2 = []"
      by (rule whole_pool_says [OF assms(3) w(1) True w(2) l1(4)]) (rule that)
    have "init_free_list_msgs con base sz fl_meta_zero s = Inr (pool_state base t, ?st (l1 @ l2) s)" using i l2(1) by simp
    then show ?thesis using True l1(2,3) l2(2,3) transmits_append by (cases "con = None") auto
  next
    case False
    obtain L where L: "chains (pool_state base t) L" "exact_below (MAX_PAGE_ORDER + 1) (pool_state base t) L"
      "\<forall>n\<le>MAX_PAGE_ORDER. length (L n) * 2 ^ (n + 12) < 2 ^ 32" "L 0 \<noteq> []"
      using whole_pool_lists [OF w] False by auto
    show ?thesis using False i print_free_lists_eq [OF assms(3) L(1-3) l1(4)] L(4) by simp
  qed
qed

theorem init_free_list_prints_map_witness:
  "init_free_list_msgs None 0x100000 0x100000 fl_meta_zero \<lparr>ks_daif = 0x3C0, ks_lock = 0, ks_dev = quiet_io\<rparr> =
     Inr (pool_state 0x100000 8, \<lparr>ks_daif = 0x3C0, ks_lock = 0, ks_dev = quiet_io\<rparr>) \<and>
   init_free_list_msgs None 0x100000 0x1000 fl_meta_zero \<lparr>ks_daif = 0x3C0, ks_lock = 0, ks_dev = quiet_io\<rparr> = Inl OutOfBounds"
proof -
  let ?s = "\<lparr>ks_daif = 0x3C0, ks_lock = 0, ks_dev = quiet_io\<rparr>"
  have c: "console_ok None 0" "console_ready None 0 ?s" by (simp_all add: console_ok_def console_ready_def)
  have "unat (0x100000 :: u32) = blk_bytes 8" "unat (0x1000 :: u32) = blk_bytes 0" by (simp_all add: blk_bytes_def)
  then show ?thesis
    using init_free_list_prints_map [of 8 "0x100000" None 0 ?s "0x100000"] init_free_list_prints_map [of 0 "0x1000" None 0 ?s "0x100000"] c
    by (auto simp: quiet_io_def)
qed

section \<open>The smoke test with its messages\<close>

lemma simple_test_msgs_pass:
  "simple_test_loop i n m = Inr (True, m') \<Longrightarrow> simple_test_msgs con i n m s = Inr (True, m', s)"
proof (induction i n m rule: simple_test_loop.induct)
  case (2 i n m)
  then obtain m1 where "simple_test_rounds i 2 m = Inr (True, m1)"
    by (cases "simple_test_rounds i 2 m") (auto split: if_splits)
  then show ?case using 2 by simp
qed simp

definition test_text :: "u64 \<Rightarrow> nat \<Rightarrow> u8 list" where
  "test_text base t = ([0x0A, 0x0A] @ chars ''** Running simple page alloc test **'' @ [0x0A, 0x0A]) @
     ([0x0A] @ chars ''Starting page block map:'' @ [0x0A]) @ whole_text base t @
     ([0x0A] @ chars ''Final page block map:'' @ [0x0A]) @ whole_text base t @
     ([0x0A, 0x0A] @ chars ''** Test finished **'' @ [0x0A, 0x0A])"

text \<open>
  C28. The smoke test of the allocator, simple_page_alloc_test, passes on every aligned
  pool of at least 128 pages that does not start at address 0, and leaves it whole. On the
  serial line it shows the same map before and after, and no message of a failure.
\<close>

theorem page_alloc_test_passes:
  assumes "whole_pool base t m" and "t < MAX_PAGE_ORDER" and "aligned base t" and "7 \<le> t" and "base \<noteq> 0"
    and "serial_console con b" and "gets_ready (io_dev (ks_dev s)) (uart_reg b AUX_MU_LSR) lsr_idle" and "ks_lock s = 0"
  shows "\<exists>m' l. page_alloc_test_msgs (Some con) m s = Inr (m', s\<lparr>ks_dev := ks_dev s\<lparr>io_log := io_log (ks_dev s) @ l\<rparr>\<rparr>) \<and>
    whole_pool base t m' \<and> transmits (uart_reg b AUX_MU_LSR) (uart_reg b AUX_MU_IO) lsr_idle l (test_text base t)"
proof -
  obtain m' where m': "simple_test_loop 0 8 m = Inr (True, m')" "whole_pool base t m'"
    using simple_test_loop_passes [OF assms(1-5), of 0 8 m] assms(1) by auto
  have c: "console_ok (Some con) b" "0 < t" "t \<le> MAX_PAGE_ORDER" using assms(2,4,6) by (simp_all add: console_ok_def)
  have pr: "serial_prints b (print_free_lists (Some con) k) (whole_text base t)" if "whole_pool base t k" for k
    unfolding prints_def
  proof (intro allI impI)
    fix s :: "io kstdio" assume "gets_ready (io_dev (ks_dev s)) (uart_reg b AUX_MU_LSR) lsr_idle \<and> ks_lock s = 0"
    then have "console_ready (Some con) b s" by (simp add: console_ready_def)
    from whole_pool_says [OF c(1) that c(2,3) this]
    show "\<exists>l. print_free_lists (Some con) k s = Inr (s\<lparr>ks_dev := ks_dev s\<lparr>io_log := io_log (ks_dev s) @ l\<rparr>\<rparr>) \<and>
        transmits (uart_reg b AUX_MU_LSR) (uart_reg b AUX_MU_IO) lsr_idle l (whole_text base t)" by auto
  qed
  have tx: "serial_prints b (kmsg (Some con) t []) t" if "plain t" for t
    using text_prints [OF c(1) that] by (simp add: says_def)
  let ?m = "\<lambda>t. kmsg (Some con) t []"
  let ?f = "\<lambda>s. bindR (?m ([0x0A, 0x0A] @ chars ''** Running simple page alloc test **'' @ [0x0A, 0x0A]) s) (\<lambda>s.
    bindR (?m ([0x0A] @ chars ''Starting page block map:'' @ [0x0A]) s) (\<lambda>s.
    bindR (print_free_lists (Some con) m s) (\<lambda>s.
    bindR (?m ([0x0A] @ chars ''Final page block map:'' @ [0x0A]) s) (\<lambda>s.
    bindR (print_free_lists (Some con) m' s)
      (?m ([0x0A, 0x0A] @ chars ''** Test finished **'' @ [0x0A, 0x0A]))))))"
  have "serial_prints b ?f (test_text base t)"
    unfolding test_text_def
    by (intro prints_bind tx pr [OF assms(1)] pr [OF m'(2)]) (simp_all add: plain_def chars_def)
  then obtain l where l: "?f s = Inr (s\<lparr>ks_dev := ks_dev s\<lparr>io_log := io_log (ks_dev s) @ l\<rparr>\<rparr>)"
    "transmits (uart_reg b AUX_MU_LSR) (uart_reg b AUX_MU_IO) lsr_idle l (test_text base t)"
    using assms(7,8) unfolding prints_def by blast
  have "page_alloc_test_msgs (Some con) m s = bindR (?f s) (\<lambda>s. Inr (m', s))"
    by (simp add: page_alloc_test_msgs_def simple_test_msgs_pass [OF m'(1)] bindR_assoc)
  then show ?thesis using l m'(2) by auto
qed

theorem page_alloc_test_passes_witness:
  "\<exists>con s1 m' l. uart_init \<lparr>gc_base = 0, gc_generic = True\<rparr> ready_io = Inr (con, s1) \<and>
    page_alloc_test_msgs (Some con) (pool_state 0x100000 8) \<lparr>ks_daif = 0, ks_lock = 0, ks_dev = quiet_io\<rparr> =
      Inr (m', \<lparr>ks_daif = 0, ks_lock = 0, ks_dev = quiet_io\<lparr>io_log := l\<rparr>\<rparr>) \<and> whole_pool 0x100000 8 m'"
proof -
  let ?s = "\<lparr>ks_daif = 0, ks_lock = 0, ks_dev = quiet_io\<rparr>"
  obtain con s1 where u: "uart_init \<lparr>gc_base = 0, gc_generic = True\<rparr> ready_io = Inr (con, s1)" "serial_console con 0xFFFFFF803F215000"
    by (rule ready_console)
  have g: "gets_ready (io_dev (ks_dev ?s)) a lsr_idle" "ks_lock ?s = 0" for a using quiet_io_ready by simp_all
  have a: "aligned 0x100000 8" "(0x100000 :: u64) \<noteq> 0" "(7 :: nat) \<le> 8" "(8 :: nat) < MAX_PAGE_ORDER" by (simp_all add: aligned_def blk_bytes_def)
  show ?thesis
    using page_alloc_test_passes [OF pool_state_whole a(4,1,3,2) u(2) g] u(1) by (auto simp: quiet_io_def)
qed

end
