(* ===== verification/Slub_Print.thy ===== *)
theory Slub_Print
  imports Slub Alloc_Print
begin

text \<open>
  The functions of slub.c that print an object, a cache and the caches of a core, with the
  accessors kmem\_get\_cache and kmem\_set\_cache. Pointers are passed as ints: vprintf reads
  their low halves.
\<close>

section \<open>The caches\<close>

definition kmem_get_cache :: "kmem_fl \<Rightarrow> nat \<Rightarrow> u64 option result" where
  "kmem_get_cache fl order = (if order \<le> MAX_ORDER_KMEM - MIN_ORDER_KMEM then Inr (kf_cache fl order) else Inl OutOfBounds)"

definition kmem_set_cache :: "u64 option \<Rightarrow> kmem_fl \<Rightarrow> nat \<Rightarrow> kmem_fl result" where
  "kmem_set_cache c fl order =
     (if order \<le> MAX_ORDER_KMEM - MIN_ORDER_KMEM then Inr (fl\<lparr>kf_cache := (kf_cache fl)(order := c)\<rparr>) else Inl OutOfBounds)"

lemma kmem_get_set_cache:
  "kmem_set_cache c fl i = Inr fl' \<Longrightarrow> kmem_get_cache fl' i = Inr c \<and> (\<forall>j. j \<noteq> i \<longrightarrow> kmem_get_cache fl' j = kmem_get_cache fl j)"
  by (auto simp: kmem_set_cache_def kmem_get_cache_def split: if_splits)

definition ptr_arg :: "u64 option \<Rightarrow> va_arg" where
  "ptr_arg p = Arg_int (ucast (case p of None \<Rightarrow> 0 | Some a \<Rightarrow> a))"

definition kmem_print_obj :: "'s char_device option \<Rightarrow> u64 \<Rightarrow> slub \<Rightarrow> 's kstdio \<Rightarrow> 's kstdio result" where
  "kmem_print_obj console obj m s =
     bindR (kmsg console (chars ''order: %x'' @ [0x0A]) [Arg_int (word_of_nat (ob_order (sl_obj m obj)))] s) (\<lambda>s.
     bindR (kmsg console (chars ''addr: %x'' @ [0x0A]) [Arg_int (ucast (ob_addr (sl_obj m obj)))] s) (\<lambda>s.
     bindR (kmsg console (chars ''parent_core_id: %x'' @ [0x0A]) [Arg_int (word_of_nat (ob_core (sl_obj m obj)))] s)
       (kmsg console (chars ''next: %x'' @ [0x0A]) [ptr_arg (ob_next (sl_obj m obj))])))"

partial_function (option) print_objs_loop ::
  "'s char_device option \<Rightarrow> u64 option \<Rightarrow> slub \<Rightarrow> 's kstdio \<Rightarrow> 's kstdio result option" where
  "print_objs_loop console obj m s =
     (case obj of
        None \<Rightarrow> Some (Inr s)
      | Some k \<Rightarrow>
          (case bindR (kmsg console (chars ''%x'' @ [0x0A]) [ptr_arg obj] s) (\<lambda>s.
                bindR (kmem_print_obj console k m s) (kmsg console [0x0A] [])) of
             Inl e \<Rightarrow> Some (Inl e)
           | Inr s \<Rightarrow> print_objs_loop console (ob_next (sl_obj m k)) m s))"

text \<open>The free list of a core is the element of global\_fls, at \<open>fls\<close>, which takes 56 bytes.\<close>

definition fl_ptr :: "u64 \<Rightarrow> nat \<Rightarrow> u64" where
  "fl_ptr fls cpu = fls + 56 * word_of_nat cpu"

definition kmem_print_cache ::
  "'s char_device option \<Rightarrow> u64 \<Rightarrow> u64 option \<Rightarrow> slub \<Rightarrow> 's kstdio \<Rightarrow> 's kstdio result" where
  "kmem_print_cache console fls c m s =
     bindR (derefR c) (\<lambda>k.
     let c = sl_cache m k in
     bindR (kmsg console (chars ''%x'' @ [0x0A]) [Arg_int (ucast k)] s) (\<lambda>s.
     bindR (kmsg console (chars ''fl: %x'' @ [0x0A]) [Arg_int (ucast (fl_ptr fls (kc_fl c)))] s) (\<lambda>s.
     bindR (kmsg console (chars ''order: %x'' @ [0x0A]) [Arg_int (word_of_nat (kc_order c))] s) (\<lambda>s.
     bindR (kmsg console (chars ''first: %x'' @ [0x0A]) [ptr_arg (kc_first c)] s) (\<lambda>s.
     bindR (kmsg console (chars ''next: %x'' @ [0x0A]) [ptr_arg (kc_next c)] s) (\<lambda>s.
     bindR (kmsg console (chars ''status: %x'' @ [0x0A]) [Arg_int (ucast (kc_status c))] s) (\<lambda>s.
     bindR (kmsg console ([0x0A] @ chars ''------'' @ [0x0A]) [] s) (\<lambda>s.
     bindR (bindR (loopR (print_objs_loop console (kc_first c) m s)) (\<lambda>r. r))
       (kmsg console (chars ''===xx==='' @ [0x0A, 0x0A]) [])))))))))"

primrec print_caches_loop ::
  "'s char_device option \<Rightarrow> u64 \<Rightarrow> nat list \<Rightarrow> kmem_fl \<Rightarrow> slub \<Rightarrow> 's kstdio \<Rightarrow> 's kstdio result" where
  "print_caches_loop console fls [] fl m s = Inr s"
| "print_caches_loop console fls (i # is) fl m s =
     bindR (kmem_print_cache console fls (kf_cache fl i) m s) (print_caches_loop console fls is fl m)"

text \<open>Nothing writes the field core\_id of a free list, which is zero from the start.\<close>

definition kmem_print_fl :: "'s char_device option \<Rightarrow> u64 \<Rightarrow> nat \<Rightarrow> slub \<Rightarrow> 's kstdio \<Rightarrow> 's kstdio result" where
  "kmem_print_fl console fls cpu m s =
     (let fl = sl_fls m cpu in
      bindR (kmsg console (chars ''core_id: %x'' @ [0x0A]) [Arg_int 0] s) (\<lambda>s.
      bindR (kmsg console (chars ''end: %x'' @ [0x0A]) [Arg_int (ucast (kf_end fl))] s)
        (print_caches_loop console fls [0..<MAX_ORDER_KMEM - MIN_ORDER_KMEM + 1] fl m)))"

section \<open>The report of a core\<close>

definition hex_line :: "string \<Rightarrow> u32 \<Rightarrow> u8 list" where
  "hex_line name i = chars name @ item_text (Hex i) @ [0x0A]"

definition ptr_int :: "u64 option \<Rightarrow> u32" where
  "ptr_int p = ucast (case p of None \<Rightarrow> 0 | Some a \<Rightarrow> a)"

definition obj_text :: "slub \<Rightarrow> u64 \<Rightarrow> u8 list" where
  "obj_text m k = hex_line [] (ucast k) @
     (hex_line ''order: '' (word_of_nat (ob_order (sl_obj m k))) @ hex_line ''addr: '' (ucast (ob_addr (sl_obj m k))) @
      hex_line ''parent_core_id: '' (word_of_nat (ob_core (sl_obj m k))) @ hex_line ''next: '' (ptr_int (ob_next (sl_obj m k)))) @ [0x0A]"

definition cache_text :: "u64 \<Rightarrow> slub \<Rightarrow> u64 \<Rightarrow> u64 list \<Rightarrow> u8 list" where
  "cache_text fls m k ks = hex_line [] (ucast k) @ hex_line ''fl: '' (ucast (fl_ptr fls (kc_fl (sl_cache m k)))) @
     hex_line ''order: '' (word_of_nat (kc_order (sl_cache m k))) @ hex_line ''first: '' (ptr_int (kc_first (sl_cache m k))) @
     hex_line ''next: '' (ptr_int (kc_next (sl_cache m k))) @ hex_line ''status: '' (ucast (kc_status (sl_cache m k))) @
     ([0x0A] @ chars ''------'' @ [0x0A]) @ concat (map (obj_text m) ks) @ (chars ''===xx==='' @ [0x0A, 0x0A])"

lemma hex_line_says:
  assumes "console_ok con b" and "plain (chars name)" and "fmt = chars name @ chars ''%x'' @ [0x0A]"
  shows "says con b (kmsg con fmt [Arg_int i]) (hex_line name i)"
  using hex_prints [OF assms(1,2), of "[0x0A]" i] assms(3) by (simp add: hex_line_def plain_def)

lemma ptr_arg_int: "ptr_arg p = Arg_int (ptr_int p)"
  by (simp add: ptr_arg_def ptr_int_def)

lemma plain_chars: "plain (chars cs) \<longleftrightarrow> list_all (\<lambda>c. of_char c \<noteq> (0x25 :: u8) \<and> of_char c \<noteq> (0 :: u8)) cs"
  by (auto simp: plain_def chars_def list_all_iff)

lemma obj_says:
  assumes "console_ok con b"
  shows "says con b (\<lambda>s. bindR (kmsg con (chars ''%x'' @ [0x0A]) [ptr_arg (Some k)] s) (\<lambda>s.
    bindR (kmem_print_obj con k m s) (kmsg con [0x0A] []))) (obj_text m k)"
  unfolding obj_text_def kmem_print_obj_def ptr_arg_int
proof (intro says_bind)
  show "says con b (kmsg con [0x0A] []) [0x0A]" by (rule text_prints [OF assms]) (simp add: plain_def)
  show "says con b (kmsg con (chars ''%x'' @ [0x0A]) [Arg_int (ptr_int (Some k))]) (hex_line [] (ucast k))"
    using hex_line_says [OF assms, of "[]"] by (simp add: ptr_int_def chars_def plain_def)
qed (rule hex_line_says [OF assms]; simp add: plain_chars; simp add: chars_def)+

lemma objs_say:
  assumes "console_ok con b"
  shows "chain (obj_nexts m) p ks \<Longrightarrow>
    says con b (\<lambda>s. bindR (loopR (print_objs_loop con p m s)) (\<lambda>r. r)) (concat (map (obj_text m) ks))"
proof (induction ks arbitrary: p)
  case Nil
  then have "(\<lambda>s. bindR (loopR (print_objs_loop con p m s)) (\<lambda>r. r)) = Inr" by (simp add: fun_eq_iff print_objs_loop.simps)
  then show ?case by (simp add: says_none)
next
  case (Cons k ks)
  let ?f = "\<lambda>s. bindR (kmsg con (chars ''%x'' @ [0x0A]) [ptr_arg (Some k)] s) (\<lambda>s.
    bindR (kmem_print_obj con k m s) (kmsg con [0x0A] []))"
  have c: "p = Some k" "chain (obj_nexts m) (ob_next (sl_obj m k)) ks" using Cons.prems by (simp_all add: obj_nexts_def [symmetric])
  have "bindR (loopR (print_objs_loop con p m s)) (\<lambda>r. r) =
      bindR (?f s) (\<lambda>s. bindR (loopR (print_objs_loop con (ob_next (sl_obj m k)) m s)) (\<lambda>r. r))" for s
    unfolding c(1) by (subst print_objs_loop.simps) (cases "?f s"; simp)
  then have "(\<lambda>s. bindR (loopR (print_objs_loop con p m s)) (\<lambda>r. r)) =
      (\<lambda>s. bindR (?f s) (\<lambda>s. bindR (loopR (print_objs_loop con (ob_next (sl_obj m k)) m s)) (\<lambda>r. r)))" by blast
  then show ?case using says_bind [OF obj_says [OF assms] Cons.IH [OF c(2)], of k] by simp
qed

lemma cache_says:
  assumes "console_ok con b" and "chain (obj_nexts m) (kc_first (sl_cache m k)) ks"
  shows "says con b (kmem_print_cache con fls (Some k) m) (cache_text fls m k ks)"
  unfolding cache_text_def kmem_print_cache_def ptr_arg_int derefR_simps bindR.simps Let_def
proof (intro says_bind objs_say [OF assms])
  show "says con b (kmsg con ([0x0A] @ chars ''------'' @ [0x0A]) []) ([0x0A] @ chars ''------'' @ [0x0A])"
    "says con b (kmsg con (chars ''===xx==='' @ [0x0A, 0x0A]) []) (chars ''===xx==='' @ [0x0A, 0x0A])"
    by (rule text_prints [OF assms(1)]; simp add: plain_def chars_def)+
  show "says con b (kmsg con (chars ''%x'' @ [0x0A]) [Arg_int (ucast k)]) (hex_line [] (ucast k))"
    using hex_line_says [OF assms(1), of "[]"] by (simp add: chars_def plain_def)
qed (rule hex_line_says [OF assms(1)]; simp add: plain_chars; simp add: chars_def)+

lemma caches_say:
  assumes "console_ok con b"
  shows "\<forall>i\<in>set is. \<exists>k. kf_cache fl i = Some k \<and> chain (obj_nexts m) (kc_first (sl_cache m k)) (L i) \<Longrightarrow>
    says con b (print_caches_loop con fls is fl m) (concat (map (\<lambda>i. cache_text fls m (the (kf_cache fl i)) (L i)) is))"
proof (induction "is")
  case Nil
  have "print_caches_loop con fls [] fl m = Inr" by (simp add: fun_eq_iff)
  then show ?case by (simp add: says_none del: print_caches_loop.simps)
next
  case (Cons i "is")
  then obtain k where k: "kf_cache fl i = Some k" "chain (obj_nexts m) (kc_first (sl_cache m k)) (L i)" by auto
  have "print_caches_loop con fls (i # is) fl m =
      (\<lambda>s. bindR (kmem_print_cache con fls (Some k) m s) (print_caches_loop con fls is fl m))"
    using k(1) by (simp add: fun_eq_iff)
  then show ?case using says_bind [OF cache_says [OF assms k(2)] Cons.IH] Cons.prems k(1) by simp
qed

lemma print_caches_append:
  "print_caches_loop console fls (is @ js) fl m s = bindR (print_caches_loop console fls is fl m s) (print_caches_loop console fls js fl m)"
proof (induction "is" arbitrary: s)
  case (Cons i "is")
  then have "print_caches_loop console fls (is @ js) fl m =
      (\<lambda>s. bindR (print_caches_loop console fls is fl m s) (print_caches_loop console fls js fl m))"
    by (simp add: fun_eq_iff)
  then show ?case by (simp add: bindR_assoc)
qed simp

definition fl_text :: "u64 \<Rightarrow> nat \<Rightarrow> slub \<Rightarrow> nat list \<Rightarrow> (nat \<Rightarrow> u64 list) \<Rightarrow> u8 list" where
  "fl_text fls cpu m is L = hex_line ''core_id: '' 0 @ hex_line ''end: '' (ucast (kf_end (sl_fls m cpu))) @
     concat (map (\<lambda>i. cache_text fls m (the (kf_cache (sl_fls m cpu) i)) (L i)) is)"

text \<open>
  kmem_print_fl transmits the report of a core: the lines of the five caches in order,
  each with the lines of its free objects; and changes nothing. When one of the caches does
  not exist, as before the first allocation of the core, it dereferences a null pointer.
  The core number in the report is always 0.
\<close>

theorem kmem_print_fl_report:
  assumes "serial_console con b" and "gets_ready (io_dev (ks_dev s)) (uart_reg b AUX_MU_LSR) lsr_idle" and "ks_lock s = 0"
    and "\<forall>i<5. \<forall>k. kf_cache (sl_fls m cpu) i = Some k \<longrightarrow> chain (obj_nexts m) (kc_first (sl_cache m k)) (L i)"
  shows "if \<exists>i<5. kf_cache (sl_fls m cpu) i = None then kmem_print_fl (Some con) fls cpu m s = Inl NullDeref
    else \<exists>l. kmem_print_fl (Some con) fls cpu m s = Inr (s\<lparr>ks_dev := ks_dev s\<lparr>io_log := io_log (ks_dev s) @ l\<rparr>\<rparr>) \<and>
      transmits (uart_reg b AUX_MU_LSR) (uart_reg b AUX_MU_IO) lsr_idle l (fl_text fls cpu m [0..<5] L)"
proof -
  let ?fl = "sl_fls m cpu" and ?con = "Some con"
  have c: "console_ok ?con b" "console_ready ?con b s" using assms(1-3) by (simp_all add: console_ok_def console_ready_def)
  have five: "[0..<MAX_ORDER_KMEM - MIN_ORDER_KMEM + 1] = [0..<5]" by simp
  define F where "F = (\<lambda>is s. bindR (kmsg ?con (chars ''core_id: %x'' @ [0x0A]) [Arg_int 0] s) (\<lambda>s.
      bindR (kmsg ?con (chars ''end: %x'' @ [0x0A]) [Arg_int (ucast (kf_end ?fl))] s) (print_caches_loop ?con fls is ?fl m)))"
  have p: "kmem_print_fl ?con fls cpu m = F [0..<5]" by (simp add: fun_eq_iff kmem_print_fl_def F_def Let_def)
  have F: "says ?con b (F is) (fl_text fls cpu m is L)"
    if "\<forall>i\<in>set is. i < 5 \<and> kf_cache ?fl i \<noteq> None" for "is"
    unfolding F_def fl_text_def
  proof (intro says_bind caches_say [OF c(1)])
    show "\<forall>i\<in>set is. \<exists>k. kf_cache ?fl i = Some k \<and> chain (obj_nexts m) (kc_first (sl_cache m k)) (L i)" using that assms(4) by auto
  qed (rule hex_line_says [OF c(1)]; simp add: plain_chars; simp add: chars_def)+
  show ?thesis
  proof (cases "\<exists>i<5. kf_cache ?fl i = None")
    case True
    obtain j where j: "j < 5" "kf_cache ?fl j = None" "\<forall>i<j. \<not> (i < 5 \<and> kf_cache ?fl i = None)"
      using exists_least_iff [of "\<lambda>i. i < 5 \<and> kf_cache ?fl i = None"] True by blast
    then have sp: "[0..<5] = [0..<j] @ j # [Suc j..<5]" using upt_add_eq_append [of 0 j "5 - j"] by (simp add: upt_conv_Cons)
    obtain l where "F [0..<j] s = Inr (s\<lparr>ks_dev := ks_dev s\<lparr>io_log := io_log (ks_dev s) @ l\<rparr>\<rparr>)"
      using says_step [OF F c(2), of "[0..<j]"] j by auto
    moreover have "F [0..<5] s = bindR (F [0..<j] s) (print_caches_loop ?con fls (j # [Suc j..<5]) ?fl m)"
      unfolding sp F_def bindR_assoc print_caches_append [abs_def] ..
    ultimately have "F [0..<5] s = Inl NullDeref" using j(2) by (simp add: kmem_print_cache_def)
    then show ?thesis using True p by simp
  next
    case False
    then have "\<forall>i\<in>set [0..<5]. i < 5 \<and> kf_cache ?fl i \<noteq> None" by auto
    then obtain l where "F [0..<5] s = Inr (s\<lparr>ks_dev := ks_dev s\<lparr>io_log := io_log (ks_dev s) @ l\<rparr>\<rparr>)"
      "?con \<noteq> None \<Longrightarrow> transmits (uart_reg b AUX_MU_LSR) (uart_reg b AUX_MU_IO) lsr_idle l (fl_text fls cpu m [0..<5] L)"
      by (rule says_step [OF F c(2)]) (rule that)
    then have "\<exists>l. F [0..<5] s = Inr (s\<lparr>ks_dev := ks_dev s\<lparr>io_log := io_log (ks_dev s) @ l\<rparr>\<rparr>) \<and>
        transmits (uart_reg b AUX_MU_LSR) (uart_reg b AUX_MU_IO) lsr_idle l (fl_text fls cpu m [0..<5] L)" by blast
    then show ?thesis unfolding p if_not_P [OF False] .
  qed
qed

definition demo_slub :: "(nat \<Rightarrow> u64 option) \<Rightarrow> slub" where
  "demo_slub cs = \<lparr>sl_fls = (\<lambda>_. \<lparr>kf_cache = cs, kf_end = 0x1100\<rparr>),
     sl_obj = (\<lambda>_. \<lparr>ob_addr = 0x3000, ob_order = 6, ob_core = 0, ob_cache = 0x1000, ob_next = None\<rparr>),
     sl_cache = (\<lambda>_. \<lparr>kc_order = 6, kc_fl = 0, kc_page = 0, kc_first = Some 0x2000, kc_status = 1, kc_next = None\<rparr>),
     sl_used = (\<lambda>_. None), sl_pages = fl_meta_zero\<rparr>"

theorem kmem_print_fl_report_witness:
  "\<exists>con s1 l. uart_init \<lparr>gc_base = 0, gc_generic = True\<rparr> ready_io = Inr (con, s1) \<and>
    kmem_print_fl (Some con) 0x9000 0 (demo_slub (\<lambda>_. Some 0x1000)) \<lparr>ks_daif = 0, ks_lock = 0, ks_dev = quiet_io\<rparr> =
      Inr \<lparr>ks_daif = 0, ks_lock = 0, ks_dev = quiet_io\<lparr>io_log := l\<rparr>\<rparr> \<and>
    kmem_print_fl (Some con) 0x9000 0 (demo_slub (\<lambda>_. None)) \<lparr>ks_daif = 0, ks_lock = 0, ks_dev = quiet_io\<rparr> = Inl NullDeref"
proof -
  let ?s = "\<lparr>ks_daif = 0, ks_lock = 0, ks_dev = quiet_io\<rparr>"
  obtain con s1 where u: "uart_init \<lparr>gc_base = 0, gc_generic = True\<rparr> ready_io = Inr (con, s1)" "serial_console con 0xFFFFFF803F215000"
    by (rule ready_console)
  have g: "gets_ready (io_dev (ks_dev ?s)) a lsr_idle" "ks_lock ?s = 0" for a using quiet_io_ready by simp_all
  have a: "\<forall>i<5. \<forall>k. kf_cache (sl_fls (demo_slub (\<lambda>_. Some 0x1000)) 0) i = Some k \<longrightarrow>
      chain (obj_nexts (demo_slub (\<lambda>_. Some 0x1000))) (kc_first (sl_cache (demo_slub (\<lambda>_. Some 0x1000)) k)) [0x2000]"
    "\<forall>i<5. \<forall>k. kf_cache (sl_fls (demo_slub (\<lambda>_. None)) 0) i = Some k \<longrightarrow>
      chain (obj_nexts (demo_slub (\<lambda>_. None))) (kc_first (sl_cache (demo_slub (\<lambda>_. None)) k)) [0x2000]"
    by (simp_all add: demo_slub_def obj_nexts_def)
  obtain l where "kmem_print_fl (Some con) 0x9000 0 (demo_slub (\<lambda>_. Some 0x1000)) ?s =
      Inr (?s\<lparr>ks_dev := ks_dev ?s\<lparr>io_log := io_log (ks_dev ?s) @ l\<rparr>\<rparr>)"
    using kmem_print_fl_report [OF u(2) g a(1), of "0x9000"] by (auto simp: demo_slub_def)
  moreover have "\<exists>i<5. kf_cache (sl_fls (demo_slub (\<lambda>_. None)) 0) i = None" by (rule exI [of _ 0]) (simp add: demo_slub_def)
  then have "kmem_print_fl (Some con) 0x9000 0 (demo_slub (\<lambda>_. None)) ?s = Inl NullDeref"
    using kmem_print_fl_report [OF u(2) g a(2), of "0x9000"] by (simp only: if_True)
  ultimately show ?thesis using u(1) by (auto simp: quiet_io_def)
qed

end
