(* ===== verification/Workqueue.thy ===== *)
theory Workqueue
  imports Kernel_Prelude
begin

text \<open>
  Tasks and the work queues of the cores: the data of task.h and workqueue.h, and the
  operations of workqueue.c. Tasks, contexts and queues are addressed by pointers
  (\<open>None\<close> is the null pointer). The argument \<open>cpu\<close> is the result of curr\_core\_id.
\<close>

section \<open>Data\<close>

abbreviation NR_CORES :: nat where "NR_CORES \<equiv> 4"

record ctxt =
  cx_sp :: u64
  cx_spsr :: u64
  cx_x :: u64
  cx_pad :: u64
  cx_elr :: u64
  cx_used :: u64

record task =
  tk_pid :: u32
  tk_base_pt :: u64
  tk_ctxt :: "u64 option"
  tk_pc :: u64
  tk_data :: u64
  tk_running :: u8
  tk_next :: "u64 option"
  tk_completed :: u8
  tk_resume :: u8

record workqueue =
  wq_core :: nat
  wq_queue :: "u64 option"

text \<open>
  The registers that the scheduler touches: the callee saved x19 to x30, the stack
  pointer, the saved processor state, the exception link register and the interrupt mask.
\<close>

record cpu =
  cp_reg :: "nat \<Rightarrow> u64"
  cp_sp :: u64
  cp_spsr :: u64
  cp_elr :: u64
  cp_daif :: u64

text \<open>
  The state that the components of this theory and of the scheduler share. \<open>kn_mem\<close> is the
  memory of the stacks, in 64 bit words; \<open>kn_idle\<close> and \<open>kn_ret\<close> are the addresses of
  idle\_task and of kthread\_ret\_from\_fork, fixed when the kernel is linked.
\<close>

record kern =
  kn_task :: "u64 \<Rightarrow> task"
  kn_ctxt :: "u64 \<Rightarrow> ctxt"
  kn_wq :: "u64 \<Rightarrow> workqueue"
  kn_global_wqs :: "nat \<Rightarrow> u64 option"
  kn_pid_cntr :: u32
  kn_schedule_needed :: int
  kn_mem :: "u64 \<Rightarrow> u64"
  kn_cpu :: cpu
  kn_idle :: u64
  kn_ret :: u64

definition set_task :: "u64 \<Rightarrow> task \<Rightarrow> kern \<Rightarrow> kern" where
  "set_task t b s = s\<lparr>kn_task := (kn_task s)(t := b)\<rparr>"

definition set_wq :: "u64 \<Rightarrow> workqueue \<Rightarrow> kern \<Rightarrow> kern" where
  "set_wq w b s = s\<lparr>kn_wq := (kn_wq s)(w := b)\<rparr>"

definition set_ctxt :: "u64 \<Rightarrow> ctxt \<Rightarrow> kern \<Rightarrow> kern" where
  "set_ctxt c b s = s\<lparr>kn_ctxt := (kn_ctxt s)(c := b)\<rparr>"

definition task_nexts :: "kern \<Rightarrow> u64 \<Rightarrow> u64 option" where
  "task_nexts s t = tk_next (kn_task s t)"

definition set_task_next :: "u64 \<Rightarrow> u64 option \<Rightarrow> kern \<Rightarrow> kern" where
  "set_task_next t q s = set_task t (kn_task s t\<lparr>tk_next := q\<rparr>) s"

lemma kern_set_simps [simp]:
  "kn_task (set_task t b s) = (kn_task s)(t := b)" "kn_task (set_wq w q s) = kn_task s"
  "kn_task (set_ctxt c d s) = kn_task s"
  "kn_wq (set_task t b s) = kn_wq s" "kn_wq (set_wq w q s) = (kn_wq s)(w := q)"
  "kn_wq (set_ctxt c d s) = kn_wq s"
  "kn_ctxt (set_task t b s) = kn_ctxt s" "kn_ctxt (set_wq w q s) = kn_ctxt s"
  "kn_ctxt (set_ctxt c d s) = (kn_ctxt s)(c := d)"
  "kn_global_wqs (set_task t b s) = kn_global_wqs s" "kn_global_wqs (set_wq w q s) = kn_global_wqs s"
  "kn_global_wqs (set_ctxt c d s) = kn_global_wqs s"
  "kn_pid_cntr (set_task t b s) = kn_pid_cntr s" "kn_pid_cntr (set_wq w q s) = kn_pid_cntr s"
  "kn_pid_cntr (set_ctxt c d s) = kn_pid_cntr s"
  "kn_mem (set_task t b s) = kn_mem s" "kn_mem (set_wq w q s) = kn_mem s" "kn_mem (set_ctxt c d s) = kn_mem s"
  "kn_cpu (set_task t b s) = kn_cpu s" "kn_cpu (set_wq w q s) = kn_cpu s" "kn_cpu (set_ctxt c d s) = kn_cpu s"
  "kn_idle (set_task t b s) = kn_idle s" "kn_idle (set_wq w q s) = kn_idle s" "kn_idle (set_ctxt c d s) = kn_idle s"
  "kn_ret (set_task t b s) = kn_ret s" "kn_ret (set_wq w q s) = kn_ret s" "kn_ret (set_ctxt c d s) = kn_ret s"
  by (simp_all add: set_task_def set_wq_def set_ctxt_def)

lemma set_task_next_simps [simp]:
  "kn_task (set_task_next t q s) = (kn_task s)(t := kn_task s t\<lparr>tk_next := q\<rparr>)"
  "kn_wq (set_task_next t q s) = kn_wq s" "kn_ctxt (set_task_next t q s) = kn_ctxt s"
  "kn_global_wqs (set_task_next t q s) = kn_global_wqs s" "kn_pid_cntr (set_task_next t q s) = kn_pid_cntr s"
  "kn_mem (set_task_next t q s) = kn_mem s" "kn_cpu (set_task_next t q s) = kn_cpu s"
  "kn_idle (set_task_next t q s) = kn_idle s" "kn_ret (set_task_next t q s) = kn_ret s"
  by (simp_all add: set_task_next_def)

lemma task_nexts_simps [simp]:
  "task_nexts (set_task t b s) = (task_nexts s)(t := tk_next b)"
  "task_nexts (set_task_next t q s) = (task_nexts s)(t := q)"
  "task_nexts (set_wq w v s) = task_nexts s" "task_nexts (set_ctxt c d s) = task_nexts s"
  by (auto simp: task_nexts_def set_task_next_def)

section \<open>workqueue.c\<close>

definition get_core_workqueue :: "nat \<Rightarrow> kern \<Rightarrow> u64 option result" where
  "get_core_workqueue core_id s =
     (if core_id < NR_CORES then Inr (kn_global_wqs s core_id) else Inl OutOfBounds)"

definition wq_get_curr :: "nat \<Rightarrow> kern \<Rightarrow> u64 option result" where
  "wq_get_curr cpu s = get_core_workqueue cpu s"

definition wq_is_not_empty :: "u64 \<Rightarrow> kern \<Rightarrow> bool" where
  "wq_is_not_empty w s \<longleftrightarrow> wq_queue (kn_wq s w) \<noteq> None"

definition wq_is_empty :: "u64 \<Rightarrow> kern \<Rightarrow> bool" where
  "wq_is_empty w s \<longleftrightarrow> \<not> wq_is_not_empty w s"

definition has_completed :: "u64 \<Rightarrow> kern \<Rightarrow> bool" where
  "has_completed t s \<longleftrightarrow> tk_completed (kn_task s t) \<noteq> 0"

text \<open>task\_free has an empty body: all of it is commented out.\<close>

definition task_free :: "u64 \<Rightarrow> kern \<Rightarrow> kern" where
  "task_free t s = s"

definition wq_pop :: "u64 \<Rightarrow> kern \<Rightarrow> u64 option \<times> kern" where
  "wq_pop w s =
     (case wq_queue (kn_wq s w) of
        None \<Rightarrow> (None, s)
      | Some t \<Rightarrow>
          let s = set_wq w (kn_wq s w\<lparr>wq_queue := tk_next (kn_task s t)\<rparr>) s;
              s = set_task_next t None s
          in if has_completed t s then (None, task_free t s) else (Some t, s))"

definition get_workqueue_end :: "u64 \<Rightarrow> kern \<Rightarrow> u64 option result" where
  "get_workqueue_end w s =
     (case wq_queue (kn_wq s w) of
        None \<Rightarrow> Inr None
      | Some t \<Rightarrow> bindR (loopR (last_of (task_nexts s) t)) (\<lambda>t. Inr (Some t)))"

definition wq_push :: "u64 \<Rightarrow> u64 option \<Rightarrow> kern \<Rightarrow> kern result" where
  "wq_push w t s =
     bindR (get_workqueue_end w s) (\<lambda>tail_t.
     case tail_t of
       None \<Rightarrow>
         let s = set_wq w (kn_wq s w\<lparr>wq_queue := t\<rparr>) s
         in bindR (derefR t) (\<lambda>t. Inr (set_task_next t None s))
     | Some l \<Rightarrow> Inr (set_task_next l t s))"

text \<open>
  wq\_print prints only in a debug build, but walks the queue in every build: it does not
  end on a cyclic queue.
\<close>

definition wq_print :: "u64 \<Rightarrow> kern \<Rightarrow> unit result" where
  "wq_print w s =
     (case wq_queue (kn_wq s w) of
        None \<Rightarrow> Inr ()
      | Some t \<Rightarrow> bindR (loopR (find_ptr (task_nexts s) (\<lambda>_. False) (Some t))) (\<lambda>_. Inr ()))"

definition wq_queue_next :: "u64 \<Rightarrow> kern \<Rightarrow> (u64 option \<times> kern) result" where
  "wq_queue_next w s =
     (let (t, s) = wq_pop w s in
      bindR (case t of Some t \<Rightarrow> wq_push w (Some t) s | None \<Rightarrow> Inr s) (\<lambda>s.
      let t = wq_queue (kn_wq s w) in
      bindR (wq_print w s) (\<lambda>_. Inr (t, s))))"

text \<open>
  wq\_init with the four results of kmalloc. A null result is written to by memset.
\<close>

primrec wq_init_loop :: "u64 list \<Rightarrow> nat \<Rightarrow> kern \<Rightarrow> kern result" where
  "wq_init_loop [] i s = Inr s"
| "wq_init_loop (p # ps) i s =
     (if NR_CORES \<le> i then Inl OutOfBounds
      else if p = 0 then Inl NullDeref
      else wq_init_loop ps (i + 1)
        (set_wq p \<lparr>wq_core = i, wq_queue = None\<rparr> (s\<lparr>kn_global_wqs := (kn_global_wqs s)(i := Some p)\<rparr>)))"

definition wq_init :: "u64 list \<Rightarrow> kern \<Rightarrow> kern result" where
  "wq_init ps s = wq_init_loop ps 0 s"

section \<open>The queue as a round robin\<close>

text \<open>
  The contract of a work queue: \<open>holds s xs\<close> says that the queue of \<open>s\<close> is \<open>xs\<close>, \<open>over s x\<close>
  that \<open>x\<close> has completed, \<open>loose s x\<close> that \<open>x\<close> is in no list.
\<close>

locale round_robin =
  fixes holds :: "'s \<Rightarrow> 'a list \<Rightarrow> bool"
    and over :: "'s \<Rightarrow> 'a \<Rightarrow> bool"
    and loose :: "'s \<Rightarrow> 'a \<Rightarrow> bool"
    and pop :: "'s \<Rightarrow> 'a option \<times> 's"
    and push :: "'a \<Rightarrow> 's \<Rightarrow> 's result"
  assumes holds_distinct: "holds s xs \<Longrightarrow> distinct xs"
    and pop_nil: "holds s [] \<Longrightarrow> pop s = (None, s)"
    and pop_over: "holds s (x # xs) \<Longrightarrow> over s x \<Longrightarrow> \<exists>s'. pop s = (None, s') \<and> holds s' xs \<and> over s' = over s"
    and pop_live: "holds s (x # xs) \<Longrightarrow> \<not> over s x \<Longrightarrow>
      \<exists>s'. pop s = (Some x, s') \<and> holds s' xs \<and> over s' = over s \<and> loose s' x"
    and push_loose: "holds s xs \<Longrightarrow> x \<notin> set xs \<Longrightarrow> loose s x \<Longrightarrow>
      \<exists>s'. push x s = Inr s' \<and> holds s' (xs @ [x]) \<and> over s' = over s"
begin

definition turn :: "'s \<Rightarrow> 's result" where
  "turn s = (case pop s of (Some x, s) \<Rightarrow> push x s | (None, s) \<Rightarrow> Inr s)"

lemma turn_nil: "holds s [] \<Longrightarrow> turn s = Inr s"
  by (simp add: turn_def pop_nil)

lemma turn_cons:
  assumes "holds s (x # xs)"
  shows "\<exists>s'. turn s = Inr s' \<and> holds s' (if over s x then xs else xs @ [x]) \<and> over s' = over s"
proof (cases "over s x")
  case True
  with pop_over [OF assms] show ?thesis by (auto simp: turn_def)
next
  case False
  obtain s1 where s1: "pop s = (Some x, s1)" "holds s1 xs" "over s1 = over s" "loose s1 x"
    using pop_live [OF assms False] by blast
  moreover have "x \<notin> set xs" using holds_distinct [OF assms] by simp
  ultimately show ?thesis using push_loose [of s1 xs x] False by (auto simp: turn_def)
qed

primrec turns :: "nat \<Rightarrow> 's \<Rightarrow> 's result" where
  "turns 0 s = Inr s"
| "turns (Suc n) s = bindR (turn s) (turns n)"

lemma turns_pass:
  "holds s (xs @ ys) \<Longrightarrow> \<exists>s'. turns (length xs) s = Inr s' \<and>
     holds s' (ys @ filter (\<lambda>x. \<not> over s x) xs) \<and> over s' = over s"
proof (induction xs arbitrary: s ys)
  case (Cons x xs)
  then obtain s1 where s1: "turn s = Inr s1" "holds s1 (if over s x then xs @ ys else (xs @ ys) @ [x])"
    "over s1 = over s" using turn_cons [of s x "xs @ ys"] by auto
  show ?case
  proof (cases "over s x")
    case True
    with Cons.IH [of s1 ys] s1 show ?thesis by simp
  next
    case False
    with Cons.IH [of s1 "ys @ [x]"] s1 show ?thesis by simp
  qed
qed simp

text \<open>One round over the queue keeps exactly the tasks that are not over, in their order.\<close>

lemma turns_round:
  "holds s xs \<Longrightarrow> \<exists>s'. turns (length xs) s = Inr s' \<and> holds s' (filter (\<lambda>x. \<not> over s x) xs) \<and> over s' = over s"
  using turns_pass [of s xs "[]"] by simp

text \<open>No task waits longer than the tasks before it: after that many turns it is the first.\<close>

lemma turns_first:
  "holds s (xs @ x # ys) \<Longrightarrow> \<exists>s' zs. turns (length xs) s = Inr s' \<and> holds s' (x # zs) \<and> over s' = over s"
  using turns_pass [of s xs "x # ys"] by auto

end

section \<open>The work queue fulfils the contract\<close>

definition wq_holds :: "u64 \<Rightarrow> kern \<Rightarrow> u64 list \<Rightarrow> bool" where
  "wq_holds w s ts \<longleftrightarrow> chain (task_nexts s) (wq_queue (kn_wq s w)) ts"

definition wq_over :: "kern \<Rightarrow> u64 \<Rightarrow> bool" where
  "wq_over s t \<longleftrightarrow> has_completed t s"

definition wq_loose :: "kern \<Rightarrow> u64 \<Rightarrow> bool" where
  "wq_loose s t \<longleftrightarrow> tk_next (kn_task s t) = None"

lemma wq_over_simps [simp]:
  "wq_over (set_task_next t q s) = wq_over s" "wq_over (set_wq w b s) = wq_over s"
  by (auto simp: wq_over_def has_completed_def fun_eq_iff)

lemma wq_pop_cons:
  assumes "wq_holds w s (t # ts)"
  shows "wq_holds w (snd (wq_pop w s)) ts \<and> wq_over (snd (wq_pop w s)) = wq_over s \<and>
    fst (wq_pop w s) = (if wq_over s t then None else Some t) \<and> wq_loose (snd (wq_pop w s)) t \<and>
    task_nexts (snd (wq_pop w s)) = (task_nexts s)(t := None)"
proof -
  have t: "wq_queue (kn_wq s w) = Some t" and c: "chain (task_nexts s) (task_nexts s t) ts"
    using assms by (simp_all add: wq_holds_def)
  let ?s = "set_task_next t None (set_wq w (kn_wq s w\<lparr>wq_queue := tk_next (kn_task s t)\<rparr>) s)"
  have over: "has_completed t ?s = wq_over s t" by (simp add: has_completed_def wq_over_def)
  then have pop: "wq_pop w s = (if wq_over s t then None else Some t, ?s)"
    using t by (simp add: wq_pop_def task_free_def Let_def)
  have "chain ((task_nexts s)(t := None)) (task_nexts s t) ts"
    using c chain_notin_tail [OF c] by (simp add: chain_upd_other)
  then have "wq_holds w ?s ts" by (simp add: wq_holds_def task_nexts_def [of s t])
  then show ?thesis unfolding pop by (simp add: wq_loose_def)
qed

lemma wq_push_loose:
  assumes "wq_holds w s ts" and "t \<notin> set ts" and "wq_loose s t"
  shows "\<exists>s'. wq_push w (Some t) s = Inr s' \<and> wq_holds w s' (ts @ [t]) \<and> wq_over s' = wq_over s"
proof (cases ts rule: rev_cases)
  case Nil
  then have "wq_queue (kn_wq s w) = None" using assms(1) by (simp add: wq_holds_def)
  then show ?thesis using Nil by (simp add: wq_push_def get_workqueue_end_def wq_holds_def Let_def)
next
  case (snoc us l)
  then obtain f where f: "wq_queue (kn_wq s w) = Some f"
    using assms(1) by (cases "wq_queue (kn_wq s w)") (auto simp: wq_holds_def)
  have c: "chain (task_nexts s) (Some f) (us @ [l])" using assms(1) snoc f by (simp add: wq_holds_def)
  then have last: "last_of (task_nexts s) f = Some l" by (simp add: last_of_chain)
  have "chain ((task_nexts s)(l := Some t)) (Some f) (us @ [l, t])"
    using chain_snoc [OF c, of t] assms(2,3) snoc by (simp add: task_nexts_def wq_loose_def)
  then show ?thesis using last f snoc by (simp add: wq_push_def get_workqueue_end_def wq_holds_def)
qed

interpretation wq: round_robin "wq_holds w" wq_over wq_loose "wq_pop w" "\<lambda>t. wq_push w (Some t)" for w :: u64
proof
  show "wq_holds w s xs \<Longrightarrow> distinct xs" for s xs
    unfolding wq_holds_def by (rule chain_distinct)
  show "wq_holds w s [] \<Longrightarrow> wq_pop w s = (None, s)" for s
    by (simp add: wq_holds_def wq_pop_def)
  show "\<exists>s'. wq_pop w s = (None, s') \<and> wq_holds w s' xs \<and> wq_over s' = wq_over s"
    if "wq_holds w s (x # xs)" "wq_over s x" for s x xs
    using wq_pop_cons [OF that(1)] that(2) by (cases "wq_pop w s") auto
  show "\<exists>s'. wq_pop w s = (Some x, s') \<and> wq_holds w s' xs \<and> wq_over s' = wq_over s \<and> wq_loose s' x"
    if "wq_holds w s (x # xs)" "\<not> wq_over s x" for s x xs
    using wq_pop_cons [OF that(1)] that(2) by (cases "wq_pop w s") auto
qed (rule wq_push_loose)

lemma wq_print_ok: "wq_holds w s ts \<Longrightarrow> wq_print w s = Inr ()"
proof (cases ts)
  case Nil
  moreover assume "wq_holds w s ts"
  ultimately show ?thesis by (simp add: wq_print_def wq_holds_def)
next
  case (Cons a as)
  moreover assume h: "wq_holds w s ts"
  ultimately have "wq_queue (kn_wq s w) = Some a" by (simp add: wq_holds_def)
  moreover have "find_ptr (task_nexts s) (\<lambda>_. False) (wq_queue (kn_wq s w)) = Some None"
    using find_ptr_chain [OF h [unfolded wq_holds_def], of "\<lambda>_. False"] by (simp add: find_None_iff [THEN iffD2])
  ultimately show ?thesis by (simp add: wq_print_def)
qed

lemma wq_queue_next_turn:
  assumes "wq_holds w s ts"
  shows "\<exists>s'. wq.turn w s = Inr s' \<and>
    wq_queue_next w s = Inr (wq_queue (kn_wq s' w), s') \<and> wq_over s' = wq_over s \<and>
    wq_holds w s' (case ts of [] \<Rightarrow> [] | t # us \<Rightarrow> if wq_over s t then us else us @ [t])"
proof -
  have "\<exists>s'. wq.turn w s = Inr s' \<and> wq_over s' = wq_over s \<and>
    wq_holds w s' (case ts of [] \<Rightarrow> [] | t # us \<Rightarrow> if wq_over s t then us else us @ [t])"
  proof (cases ts)
    case Nil
    with wq.turn_nil [of w s] assms show ?thesis by simp
  next
    case (Cons t us)
    with wq.turn_cons [of w s t us] assms show ?thesis by auto
  qed
  then obtain s' where s': "wq.turn w s = Inr s'" "wq_over s' = wq_over s"
    "wq_holds w s' (case ts of [] \<Rightarrow> [] | t # us \<Rightarrow> if wq_over s t then us else us @ [t])" by blast
  moreover have "wq_print w s' = Inr ()" using wq_print_ok [OF s'(3)] .
  ultimately have "wq_queue_next w s = Inr (wq_queue (kn_wq s' w), s')"
    by (cases "wq_pop w s") (auto simp: wq_queue_next_def wq.turn_def Let_def split: option.splits)
  with s' show ?thesis by blast
qed

text \<open>The queue operations change queues and next fields only.\<close>

definition wq_frame :: "kern \<Rightarrow> kern \<Rightarrow> bool" where
  "wq_frame s s' \<longleftrightarrow> kn_ctxt s' = kn_ctxt s \<and> kn_mem s' = kn_mem s \<and> kn_cpu s' = kn_cpu s \<and>
     kn_ret s' = kn_ret s \<and> kn_idle s' = kn_idle s \<and> kn_pid_cntr s' = kn_pid_cntr s \<and>
     kn_global_wqs s' = kn_global_wqs s \<and>
     (\<forall>t. tk_pid (kn_task s' t) = tk_pid (kn_task s t) \<and> tk_ctxt (kn_task s' t) = tk_ctxt (kn_task s t) \<and>
        tk_pc (kn_task s' t) = tk_pc (kn_task s t) \<and> tk_data (kn_task s' t) = tk_data (kn_task s t) \<and>
        tk_running (kn_task s' t) = tk_running (kn_task s t) \<and>
        tk_completed (kn_task s' t) = tk_completed (kn_task s t) \<and>
        tk_resume (kn_task s' t) = tk_resume (kn_task s t))"

lemma wq_frame_refl [simp]: "wq_frame s s"
  by (simp add: wq_frame_def)

lemma wq_frame_trans: "wq_frame s s' \<Longrightarrow> wq_frame s' s'' \<Longrightarrow> wq_frame s s''"
  by (simp add: wq_frame_def)

lemma wq_frame_set [simp]: "wq_frame s (set_task_next t q s')= wq_frame s s'"
  "wq_frame s (set_wq w v s') = wq_frame s s'"
  by (auto simp: wq_frame_def)

lemma wq_pop_frame: "wq_frame s (snd (wq_pop w s))"
  by (auto simp: wq_pop_def Let_def task_free_def split: option.splits)

lemma wq_push_frame: "wq_push w t s = Inr s' \<Longrightarrow> wq_frame s s'"
  by (auto simp: wq_push_def result_simps Let_def split: option.splits)

lemma wq_queue_next_frame: "wq_queue_next w s = Inr (r, s') \<Longrightarrow> wq_frame s s'"
  using wq_pop_frame [of s w] wq_frame_trans wq_push_frame
  by (cases "wq_pop w s") (auto simp: wq_queue_next_def result_simps Let_def split: option.splits; blast)

end
