(* ===== verification/Tasks.thy ===== *)
theory Tasks
  imports Workqueue
begin

text \<open>
  Kernel threads and the scheduler: task.c, sched.c and irq.c. The assembly in these
  functions is modelled as reads and writes of the registers of \<open>kn_cpu\<close> and of the
  stack memory. Results of kmalloc are arguments, 0 for a failed allocation.
\<close>

section \<open>Interrupt mask\<close>

text \<open>\<^verbatim>\<open>msr daifset, #2\<close> sets the I bit, which is bit 7 of the register.\<close>

definition irq_save :: "kern \<Rightarrow> u64 \<times> kern" where
  "irq_save s = (cp_daif (kn_cpu s), s\<lparr>kn_cpu := kn_cpu s\<lparr>cp_daif := cp_daif (kn_cpu s) OR 0x80\<rparr>\<rparr>)"

definition irq_restore :: "u64 \<Rightarrow> kern \<Rightarrow> kern" where
  "irq_restore flags s = s\<lparr>kn_cpu := kn_cpu s\<lparr>cp_daif := flags\<rparr>\<rparr>"

section \<open>Creating tasks\<close>

text \<open>The offset of the end of the stack in struct task, which starts at offset 58.\<close>

abbreviation STACK_END :: u64 where "STACK_END \<equiv> 58 + 8192"

definition zero_task :: task where
  "zero_task = \<lparr>tk_pid = 0, tk_base_pt = 0, tk_ctxt = None, tk_pc = 0, tk_data = 0, tk_running = 0,
     tk_next = None, tk_completed = 0, tk_resume = 0\<rparr>"

definition zero_ctxt :: ctxt where
  "zero_ctxt = \<lparr>cx_sp = 0, cx_spsr = 0, cx_x = 0, cx_pad = 0, cx_elr = 0, cx_used = 0\<rparr>"

definition assign_new_pid :: "kern \<Rightarrow> u32 \<times> kern" where
  "assign_new_pid s = (kn_pid_cntr s, s\<lparr>kn_pid_cntr := kn_pid_cntr s + 1\<rparr>)"

definition clone :: "u64 \<Rightarrow> u64 \<Rightarrow> u64 option \<Rightarrow> kern \<Rightarrow> (u64 option \<times> kern) result" where
  "clone new_task new_ctxt task s =
     (case task of
        None \<Rightarrow> Inr (None, s)
      | Some t \<Rightarrow>
          if new_task = 0 \<or> new_ctxt = 0 then Inl NullDeref
          else
            let s = set_task new_task zero_task s;
                s = set_ctxt new_ctxt zero_ctxt s;
                s = set_task new_task (kn_task s t) s;
                (pid, s) = assign_new_pid s;
                s = set_task new_task (kn_task s new_task\<lparr>tk_pid := pid\<rparr>) s;
                s = set_ctxt new_ctxt (kn_ctxt s new_ctxt\<lparr>cx_sp := new_task + STACK_END\<rparr>) s;
                s = set_task new_task (kn_task s new_task\<lparr>tk_ctxt := Some new_ctxt\<rparr>) s
            in Inr (Some new_task, s))"

definition get_curr_task :: "nat \<Rightarrow> kern \<Rightarrow> u64 option result" where
  "get_curr_task cpu s =
     bindR (wq_get_curr cpu s) (\<lambda>wq.
     if kn_pid_cntr s = 1 \<or> wq = None then Inr (Some (kn_idle s))
     else bindR (derefR wq) (\<lambda>w. Inr (wq_queue (kn_wq s w))))"

definition kthread_create ::
  "nat \<Rightarrow> u64 \<Rightarrow> u64 \<Rightarrow> u64 \<Rightarrow> u64 \<Rightarrow> kern \<Rightarrow> (u64 option \<times> kern) result" where
  "kthread_create cpu thread_fn data new_task new_ctxt s =
     bindR (get_curr_task cpu s) (\<lambda>t.
     bindR (clone new_task new_ctxt t s) (\<lambda>(new_t, s).
     case new_t of
       None \<Rightarrow> Inr (None, s)
     | Some n \<Rightarrow>
         let s = set_task n (kn_task s n\<lparr>tk_pc := thread_fn, tk_running := 0, tk_resume := 0,
                   tk_data := data\<rparr>) s
         in Inr (Some n, s)))"

definition kthread_queue :: "nat \<Rightarrow> u64 option \<Rightarrow> kern \<Rightarrow> kern result" where
  "kthread_queue cpu t s =
     bindR (wq_get_curr cpu s) (\<lambda>wq. bindR (derefR wq) (\<lambda>w. wq_push w t s))"

section \<open>Starting and finishing tasks\<close>

definition mark_completed :: "u64 \<Rightarrow> kern \<Rightarrow> kern" where
  "mark_completed t s =
     (let s = set_task t (kn_task s t\<lparr>tk_resume := 0\<rparr>) s
      in set_task t (kn_task s t\<lparr>tk_completed := 1\<rparr>) s)"

text \<open>What kthread\_ret\_from\_fork does after the thread function returned, up to its
  endless loop of yields.\<close>

definition kthread_finish :: "nat \<Rightarrow> kern \<Rightarrow> kern result" where
  "kthread_finish cpu s =
     (let (flags, s) = irq_save s in
      bindR (get_curr_task cpu s) (\<lambda>t.
      bindR (derefR t) (\<lambda>t. Inr (irq_restore flags (mark_completed t s)))))"

definition kthread_init_stack :: "u64 \<Rightarrow> kern \<Rightarrow> kern result" where
  "kthread_init_stack t s =
     bindR (derefR (tk_ctxt (kn_task s t))) (\<lambda>c.
     let s = set_ctxt c (kn_ctxt s c\<lparr>cx_sp := cx_sp (kn_ctxt s c) - 16 * 6\<rparr>) s;
         x = cx_sp (kn_ctxt s c);
         s = s\<lparr>kn_mem := (kn_mem s)(x := tk_pc (kn_task s t), x + 8 := tk_data (kn_task s t),
                 x + 88 := kn_ret s)\<rparr>;
         s = s\<lparr>kn_cpu := kn_cpu s\<lparr>cp_elr := kn_ret s\<rparr>\<rparr>
     in Inr (set_task t (kn_task s t\<lparr>tk_running := 1, tk_resume := 0\<rparr>) s))"

definition is_running :: "u64 \<Rightarrow> kern \<Rightarrow> u8" where
  "is_running t s = tk_running (kn_task s t)"

definition kthread_start :: "u64 option \<Rightarrow> kern \<Rightarrow> (int \<times> kern) result" where
  "kthread_start t s =
     (case t of
        None \<Rightarrow> Inr (-1, s)
      | Some t \<Rightarrow>
          let (flags, s) = irq_save s in
          bindR (if is_running t s = 0 then kthread_init_stack t s else Inr s) (\<lambda>s.
          Inr (0, irq_restore flags s)))"

section \<open>The scheduler\<close>

text \<open>The context as the twelve words that the second block of assembly loads.\<close>

definition ctxt_word :: "kern \<Rightarrow> u64 \<Rightarrow> nat \<Rightarrow> u64" where
  "ctxt_word s c i =
     (let b = kn_ctxt s c in
      if i = 0 then cx_sp b else if i = 1 then cx_spsr b else if i = 2 then cx_x b
      else if i = 3 then cx_pad b else if i = 4 then cx_elr b else if i = 5 then cx_used b
      else kn_mem s (c + word_of_nat (8 * i)))"

text \<open>The stores of x19 to x30, and the loads.\<close>

definition save_regs :: "u64 \<Rightarrow> kern \<Rightarrow> kern" where
  "save_regs sp s = s\<lparr>kn_mem := fold (\<lambda>i m. m(sp + word_of_nat (8 * i) := cp_reg (kn_cpu s) (19 + i)))
     [0..<12] (kn_mem s)\<rparr>"

definition load_regs :: "u64 \<Rightarrow> kern \<Rightarrow> kern" where
  "load_regs c s = s\<lparr>kn_cpu := kn_cpu s\<lparr>cp_reg := (\<lambda>r. if 19 \<le> r \<and> r \<le> 30 then ctxt_word s c (r - 19)
     else cp_reg (kn_cpu s) r)\<rparr>\<rparr>"

text \<open>sched\_switch either returns to its caller or leaves by \<^verbatim>\<open>ret\<close> to x30.\<close>

datatype flow = Returns | Jumps u64

definition sched_switch :: "u64 \<Rightarrow> u64 \<Rightarrow> kern \<Rightarrow> (flow \<times> kern) result" where
  "sched_switch prev nxt s =
     bindR (derefR (tk_ctxt (kn_task s prev))) (\<lambda>c.
     let s = set_ctxt c (kn_ctxt s c\<lparr>cx_sp := cp_sp (kn_cpu s), cx_spsr := cp_spsr (kn_cpu s)\<rparr>) s;
         s = save_regs (cx_sp (kn_ctxt s c)) s
     in if tk_resume (kn_task s prev) = 1
        then Inr (Returns, set_task prev (kn_task s prev\<lparr>tk_resume := 0\<rparr>) s)
        else
          let s = set_task nxt (kn_task s nxt\<lparr>tk_resume := 1\<rparr>) s in
          bindR (kthread_start (Some nxt) s) (\<lambda>(ret, s).
          bindR (derefR (tk_ctxt (kn_task s nxt))) (\<lambda>c.
          let s = load_regs c s;
              s = s\<lparr>kn_cpu := kn_cpu s\<lparr>cp_spsr := cx_spsr (kn_ctxt s c), cp_sp := cx_sp (kn_ctxt s c)\<rparr>\<rparr>
          in Inr (Jumps (cp_reg (kn_cpu s) 30), s))))"

text \<open>Without a work queue yield calls fail, which never returns.\<close>

definition yield :: "nat \<Rightarrow> kern \<Rightarrow> (flow \<times> kern) result" where
  "yield cpu s =
     bindR (wq_get_curr cpu s) (\<lambda>wq.
     bindR (get_curr_task cpu s) (\<lambda>t.
     case wq of
       None \<Rightarrow> Inl Diverges
     | Some w \<Rightarrow>
         bindR (case wq_queue (kn_wq s w) of
                  None \<Rightarrow> Inr True
                | Some h \<Rightarrow> Inr (tk_next (kn_task s h) = None)) (\<lambda>stay.
         if stay then Inr (Returns, s)
         else
           bindR (wq_queue_next w s) (\<lambda>(next_t, s).
           let t = (case t of None \<Rightarrow> kn_idle s | Some t \<Rightarrow> t);
               next_t = (case next_t of None \<Rightarrow> t | Some n \<Rightarrow> n)
           in sched_switch t next_t s))))"

text \<open>
  The handler of the timer interrupt: the stack pointer to go on with, or None when it
  leaves by \<^verbatim>\<open>eret\<close>. It re-arms the timer, which has no effect on this state.
\<close>

definition handle_sched_irq :: "nat \<Rightarrow> u64 \<Rightarrow> kern \<Rightarrow> (u64 option \<times> kern) result" where
  "handle_sched_irq cpu sp s =
     bindR (wq_get_curr cpu s) (\<lambda>wq.
     bindR (get_curr_task cpu s) (\<lambda>t.
     bindR (derefR t) (\<lambda>t.
     bindR (derefR (tk_ctxt (kn_task s t))) (\<lambda>c.
     let s = set_ctxt c (kn_ctxt s c\<lparr>cx_sp := sp\<rparr>) s;
         s = s\<lparr>kn_schedule_needed := 1\<rparr>
     in bindR (derefR wq) (\<lambda>w.
        bindR (wq_queue_next w s) (\<lambda>(next_t, s).
        case next_t of
          None \<Rightarrow> Inr (None, s)
        | Some n \<Rightarrow>
            if wq_is_empty w s then Inr (None, s)
            else
              bindR (kthread_start (Some n) s) (\<lambda>(ret, s).
              if ret < 0 then Inr (None, s)
              else bindR (derefR (tk_ctxt (kn_task s n))) (\<lambda>c.
                   Inr (Some (cx_sp (kn_ctxt s c)), s)))))))))"

end
