(* ===== verification/Tasks_Props.thy ===== *)
theory Tasks_Props
  imports Tasks
begin

text \<open>What the work queues, kernel threads and the scheduler promise.\<close>

section \<open>Round robin\<close>

text \<open>Successive calls of wq_queue_next, with the tasks they return.\<close>

primrec wq_rounds :: "nat \<Rightarrow> u64 \<Rightarrow> kern \<Rightarrow> (u64 option list \<times> kern) result" where
  "wq_rounds 0 w s = Inr ([], s)"
| "wq_rounds (Suc n) w s = bindR (wq_queue_next w s) (\<lambda>(t, s).
     bindR (wq_rounds n w s) (\<lambda>(ts, s). Inr (t # ts, s)))"

lemma wq_holds_head: "wq_holds w s ts \<Longrightarrow> wq_queue (kn_wq s w) = (case ts of [] \<Rightarrow> None | t # _ \<Rightarrow> Some t)"
  by (cases ts) (auto simp: wq_holds_def)

lemma wq_rounds_turns:
  "wq_holds w s ts \<Longrightarrow> \<exists>rs s'. wq_rounds n w s = Inr (rs, s') \<and> wq.turns w n s = Inr s'"
proof (induction n arbitrary: s ts)
  case (Suc n)
  obtain s1 us where s1: "wq.turn w s = Inr s1" "wq_queue_next w s = Inr (wq_queue (kn_wq s1 w), s1)" "wq_holds w s1 us"
    using wq_queue_next_turn [OF Suc.prems] by blast
  with Suc.IH [OF s1(3)] show ?case by auto
qed simp

lemma wq_rounds_live:
  assumes "wq_holds w s (us @ vs)" and "\<forall>t\<in>set us \<union> set vs. \<not> wq_over s t" and "vs \<noteq> [] \<or> us = []"
  shows "\<exists>s'. wq_rounds (length us) w s = Inr (map Some (tl (us @ take 1 vs)), s') \<and>
    wq_holds w s' (vs @ us) \<and> wq_over s' = wq_over s"
  using assms
proof (induction us arbitrary: s vs)
  case (Cons u us)
  obtain s1 where s1: "wq_queue_next w s = Inr (wq_queue (kn_wq s1 w), s1)" "wq_over s1 = wq_over s"
    "wq_holds w s1 ((us @ vs) @ [u])"
    using wq_queue_next_turn [OF Cons.prems(1)] Cons.prems(2) by auto
  from Cons.prems(3) obtain v ws where v: "vs = v # ws" by (cases vs) auto
  have h: "wq_queue (kn_wq s1 w) = Some (hd (us @ vs))" using wq_holds_head [OF s1(3)] v by (cases us) auto
  have s1h: "wq_holds w s1 (us @ (vs @ [u]))" using s1(3) by simp
  obtain s' where s': "wq_rounds (length us) w s1 = Inr (map Some (tl (us @ take 1 (vs @ [u]))), s')"
    "wq_holds w s' ((vs @ [u]) @ us)" "wq_over s' = wq_over s1"
    using Cons.IH [OF s1h] Cons.prems(2) s1(2) by auto
  then show ?case using s1(1,2) h v by (cases us) auto
next
  case Nil
  then show ?case by (cases vs) auto
qed

text \<open>
  C9. Scheduling by wq_queue_next is a round robin: as many calls as the queue has tasks
  return every task exactly once, in the order of the queue, and leave the queue as it
  was.
\<close>

theorem wq_round_robin:
  assumes "wq_holds w s (t # ts)" and "\<forall>u\<in>set (t # ts). tk_completed (kn_task s u) = 0"
  shows "\<exists>s'. wq_rounds (length (t # ts)) w s = Inr (map Some (ts @ [t]), s') \<and> wq_holds w s' (t # ts)"
proof -
  have over: "\<not> wq_over s u" if "u \<in> set (t # ts)" for u
    using assms(2) that by (auto simp: wq_over_def has_completed_def)
  obtain s1 where s1: "wq_queue_next w s = Inr (wq_queue (kn_wq s1 w), s1)" "wq_over s1 = wq_over s"
    "wq_holds w s1 (ts @ [t])"
    using wq_queue_next_turn [OF assms(1)] over [of t] by auto
  obtain s2 where s2: "wq_rounds (length ts) w s1 = Inr (map Some (tl (ts @ take 1 [t])), s2)"
    "wq_holds w s2 ([t] @ ts)"
    using wq_rounds_live [OF s1(3)] over s1(2) by auto
  have "wq_queue (kn_wq s1 w) = Some (hd (ts @ [t]))" using wq_holds_head [OF s1(3)] by (cases ts) auto
  then show ?thesis using s1(1) s2 by (cases ts) auto
qed

definition demo_kern :: "(u64 \<Rightarrow> u64 option) \<Rightarrow> u64 option \<Rightarrow> u32 \<Rightarrow> kern" where
  "demo_kern nxt q pid = \<lparr>kn_task = (\<lambda>t. zero_task\<lparr>tk_next := nxt t, tk_ctxt := Some (t + 0x10000)\<rparr>),
     kn_ctxt = (\<lambda>_. zero_ctxt), kn_wq = (\<lambda>_. \<lparr>wq_core = 0, wq_queue = q\<rparr>),
     kn_global_wqs = (\<lambda>_. Some 0x100), kn_pid_cntr = pid, kn_schedule_needed = 0, kn_mem = (\<lambda>_. 0),
     kn_cpu = \<lparr>cp_reg = (\<lambda>_. 0), cp_sp = 0, cp_spsr = 0, cp_elr = 0, cp_daif = 0\<rparr>, kn_idle = 0x50, kn_ret = 0x60\<rparr>"

lemma demo_holds: "chain nxt q ts \<Longrightarrow> wq_holds w (demo_kern nxt q pid) ts"
proof -
  have "task_nexts (demo_kern nxt q pid) = nxt" by (simp add: demo_kern_def task_nexts_def fun_eq_iff)
  moreover assume "chain nxt q ts"
  ultimately show ?thesis by (simp add: wq_holds_def demo_kern_def)
qed

lemma demo_three: "wq_holds 0x100 (demo_kern ((\<lambda>_. None)(1 := Some 2, 2 := Some 3)) (Some 1) 4) [1, 2, 3]"
  by (rule demo_holds) simp

theorem wq_round_robin_witness:
  "\<exists>s'. wq_rounds 3 0x100 (demo_kern ((\<lambda>_. None)(1 := Some 2, 2 := Some 3)) (Some 1) 4) =
     Inr ([Some 2, Some 3, Some 1], s')"
proof -
  have "\<forall>u\<in>set [1, 2, 3]. tk_completed (kn_task (demo_kern ((\<lambda>_. None)(1 := Some 2, 2 := Some 3)) (Some 1) 4) u) = 0"
    by (simp add: demo_kern_def zero_task_def)
  from wq_round_robin [OF demo_three this] show ?thesis by (auto simp: eval_nat_numeral)
qed

text \<open>
  C11. Tasks that have completed leave the queue, each when it is at the front: after as
  many calls as the queue has tasks, exactly the others are left, in their order.
\<close>

theorem wq_drops_completed:
  assumes "wq_holds w s ts"
  shows "\<exists>rs s'. wq_rounds (length ts) w s = Inr (rs, s') \<and>
    wq_holds w s' (filter (\<lambda>t. tk_completed (kn_task s t) = 0) ts)"
proof -
  obtain rs s' where r: "wq_rounds (length ts) w s = Inr (rs, s')" "wq.turns w (length ts) s = Inr s'"
    using wq_rounds_turns [OF assms] by blast
  have "filter (\<lambda>t. \<not> wq_over s t) ts = filter (\<lambda>t. tk_completed (kn_task s t) = 0) ts"
    by (rule filter_cong) (simp_all add: wq_over_def has_completed_def)
  with wq.turns_round [OF assms] r show ?thesis by auto
qed

definition demo_over :: "u64 \<Rightarrow> kern \<Rightarrow> kern" where
  "demo_over t s = s\<lparr>kn_task := (kn_task s)(t := kn_task s t\<lparr>tk_completed := 1\<rparr>)\<rparr>"

lemma demo_over_holds: "wq_holds w (demo_over t s) ts \<longleftrightarrow> wq_holds w s ts"
proof -
  have "task_nexts (demo_over t s) = task_nexts s" by (simp add: demo_over_def task_nexts_def fun_eq_iff)
  then show ?thesis by (simp add: wq_holds_def demo_over_def)
qed

theorem wq_drops_completed_witness:
  "\<exists>rs s'. wq_rounds 3 0x100 (demo_over 2 (demo_kern ((\<lambda>_. None)(1 := Some 2, 2 := Some 3)) (Some 1) 4)) = Inr (rs, s') \<and>
     wq_holds 0x100 s' [1, 3]"
  using wq_drops_completed [OF demo_over_holds [THEN iffD2, OF demo_three], of 2]
  by (simp add: demo_over_def demo_kern_def zero_task_def eval_nat_numeral)

section \<open>Creating threads\<close>

text \<open>
  kthread_create makes a copy of the current task with a new number, its own context
  and stack, and the given function and data, not running yet; nothing else changes. The
  counter of the numbers goes up by one.
\<close>

theorem kthread_create_spec:
  assumes "get_curr_task cpu s = Inr (Some t)" and "n \<noteq> 0" and "c \<noteq> 0" and "n \<noteq> t"
  shows "\<exists>s'. kthread_create cpu fn d n c s = Inr (Some n, s') \<and>
    kn_task s' n = kn_task s t\<lparr>tk_pid := kn_pid_cntr s, tk_ctxt := Some c, tk_pc := fn, tk_data := d,
      tk_running := 0, tk_resume := 0\<rparr> \<and>
    kn_ctxt s' c = zero_ctxt\<lparr>cx_sp := n + 8250\<rparr> \<and> kn_pid_cntr s' = kn_pid_cntr s + 1 \<and>
    (\<forall>x. x \<noteq> n \<longrightarrow> kn_task s' x = kn_task s x) \<and> (\<forall>x. x \<noteq> c \<longrightarrow> kn_ctxt s' x = kn_ctxt s x) \<and>
    kn_wq s' = kn_wq s \<and> kn_global_wqs s' = kn_global_wqs s"
  using assms by (simp add: kthread_create_def clone_def assign_new_pid_def Let_def zero_ctxt_def)

lemma demo_one: "get_curr_task 0 (demo_kern (\<lambda>_. None) (Some 1) 2) = Inr (Some 1)"
  by (simp add: get_curr_task_def wq_get_curr_def get_core_workqueue_def demo_kern_def)

theorem kthread_create_spec_witness:
  "\<exists>s'. kthread_create 0 0xF00 7 0x1000 0x2000 (demo_kern (\<lambda>_. None) (Some 1) 2) = Inr (Some 0x1000, s') \<and>
     tk_pid (kn_task s' 0x1000) = 2 \<and> kn_pid_cntr s' = 3"
  using kthread_create_spec [OF demo_one, of "0x1000" "0x2000" "0xF00" 7] by (auto simp: demo_kern_def)

text \<open>Numbers of consecutive calls of assign_new_pid.\<close>

primrec new_pids :: "nat \<Rightarrow> kern \<Rightarrow> u32 list \<times> kern" where
  "new_pids 0 s = ([], s)"
| "new_pids (Suc n) s = (let (p, s) = assign_new_pid s; (ps, s) = new_pids n s in (p # ps, s))"

lemma new_pids_count:
  "fst (new_pids n s) = map (\<lambda>i. kn_pid_cntr s + word_of_nat i) [0..<n]"
proof (induction n arbitrary: s)
  case (Suc n)
  have "map (\<lambda>i. kn_pid_cntr s + 1 + word_of_nat i) [0..<n] = map (\<lambda>i. kn_pid_cntr s + word_of_nat i) [Suc 0..<Suc n]"
    by (simp add: map_Suc_upt [symmetric] algebra_simps del: upt_Suc)
  then show ?case using Suc.IH [of "snd (assign_new_pid s)"]
    by (simp add: assign_new_pid_def Let_def case_prod_unfold upt_conv_Cons del: upt_Suc)
qed simp

text \<open>
  The numbers that assign_new_pid gives out are different from each other, until the
  32 bit counter has gone round once.
\<close>

theorem pids_distinct:
  assumes "n \<le> 2 ^ 32"
  shows "distinct (fst (new_pids n s)) \<and> length (fst (new_pids n s)) = n"
proof -
  have "inj_on (\<lambda>i. kn_pid_cntr s + (word_of_nat i :: u32)) {0..<n}"
  proof (rule inj_onI)
    fix i j assume ij: "i \<in> {0..<n}" "j \<in> {0..<n}"
      and "kn_pid_cntr s + (word_of_nat i :: u32) = kn_pid_cntr s + word_of_nat j"
    then have "(word_of_nat i :: u32) = word_of_nat j" by simp
    then show "i = j" using ij assms by (simp add: word_of_nat_eq_iff take_bit_nat_eq_self)
  qed
  then show ?thesis by (simp add: new_pids_count distinct_map)
qed

theorem pids_distinct_witness: "distinct (fst (new_pids 3 (demo_kern (\<lambda>_. None) None 0xFFFFFFFE)))"
  using pids_distinct [of 3] by simp

section \<open>The timer interrupt\<close>

lemma get_curr_task_head:
  "cpu < NR_CORES \<Longrightarrow> kn_global_wqs s cpu = Some w \<Longrightarrow> kn_pid_cntr s \<noteq> 1 \<Longrightarrow> wq_holds w s (t # ts) \<Longrightarrow>
    get_curr_task cpu s = Inr (Some t)"
  by (simp add: get_curr_task_def wq_get_curr_def get_core_workqueue_def wq_holds_def)

text \<open>The handler up to kthread_start, and what kthread_start does.\<close>

lemma handle_sched_irq_next:
  assumes "cpu < NR_CORES" and "kn_global_wqs s cpu = Some w" and "kn_pid_cntr s \<noteq> 1"
    and "wq_holds w s (t # us)" and "tk_completed (kn_task s t) = 0" and "tk_ctxt (kn_task s t) = Some c"
    and "n = hd (us @ [t])"
  obtains s1 where "handle_sched_irq cpu sp s = bindR (kthread_start (Some n) s1) (\<lambda>(ret, s).
      if ret < 0 then Inr (None, s)
      else bindR (derefR (tk_ctxt (kn_task s n))) (\<lambda>c. Inr (Some (cx_sp (kn_ctxt s c)), s)))"
    and "wq_holds w s1 (us @ [t])"
    and "wq_frame (set_ctxt c (kn_ctxt s c\<lparr>cx_sp := sp\<rparr>) s\<lparr>kn_schedule_needed := 1\<rparr>) s1"
proof -
  let ?s0 = "set_ctxt c (kn_ctxt s c\<lparr>cx_sp := sp\<rparr>) s\<lparr>kn_schedule_needed := 1\<rparr>"
  have nx0: "task_nexts ?s0 = task_nexts s" by (simp add: task_nexts_def set_ctxt_def fun_eq_iff)
  then have h0: "wq_holds w ?s0 (t # us)" using assms(4) by (simp add: wq_holds_def set_ctxt_def)
  have over: "\<not> wq_over ?s0 t" using assms(5) by (simp add: wq_over_def has_completed_def set_ctxt_def)
  obtain s1 where s1: "wq_queue_next w ?s0 = Inr (wq_queue (kn_wq s1 w), s1)" "wq_holds w s1 (us @ [t])"
    using wq_queue_next_turn [OF h0] over by auto
  have q1: "wq_queue (kn_wq s1 w) = Some n" using wq_holds_head [OF s1(2)] assms(7) by (cases us) simp_all
  have fr: "wq_frame ?s0 s1" using wq_queue_next_frame [OF s1(1)] .
  have t: "get_curr_task cpu s = Inr (Some t)" by (rule get_curr_task_head [OF assms(1-4)])
  have ne: "\<not> wq_is_empty w s1" using q1 by (simp add: wq_is_empty_def wq_is_not_empty_def)
  show thesis
    by (rule that [OF _ s1(2) fr])
      (use assms(1,2,6) t s1(1) q1 ne in \<open>simp add: handle_sched_irq_def wq_get_curr_def get_core_workqueue_def Let_def\<close>)
qed

lemma kthread_start_running: "tk_running (kn_task s n) \<noteq> 0 \<Longrightarrow> kthread_start (Some n) s = Inr (0, s)"
  by (simp add: kthread_start_def is_running_def irq_save_def irq_restore_def Let_def)

lemma kthread_start_fresh:
  assumes "tk_running (kn_task s n) = 0" and "tk_ctxt (kn_task s n) = Some d"
  obtains s' where "kthread_start (Some n) s = Inr (0, s')"
    and "kn_ctxt s' = (kn_ctxt s)(d := kn_ctxt s d\<lparr>cx_sp := cx_sp (kn_ctxt s d) - 96\<rparr>)"
    and "kn_mem s' = (kn_mem s)(cx_sp (kn_ctxt s d) - 96 := tk_pc (kn_task s n),
         cx_sp (kn_ctxt s d) - 96 + 8 := tk_data (kn_task s n), cx_sp (kn_ctxt s d) - 96 + 88 := kn_ret s)"
    and "kn_task s' = (kn_task s)(n := kn_task s n\<lparr>tk_running := 1, tk_resume := 0\<rparr>)" and "kn_wq s' = kn_wq s"
    and "kn_cpu s' = (kn_cpu s)\<lparr>cp_elr := kn_ret s\<rparr>"
proof -
  obtain s2 where s2: "kthread_init_stack n (snd (irq_save s)) = Inr s2"
    "kn_ctxt s2 = (kn_ctxt s)(d := kn_ctxt s d\<lparr>cx_sp := cx_sp (kn_ctxt s d) - 96\<rparr>)"
    "kn_mem s2 = (kn_mem s)(cx_sp (kn_ctxt s d) - 96 := tk_pc (kn_task s n),
         cx_sp (kn_ctxt s d) - 96 + 8 := tk_data (kn_task s n), cx_sp (kn_ctxt s d) - 96 + 88 := kn_ret s)"
    "kn_task s2 = (kn_task s)(n := kn_task s n\<lparr>tk_running := 1, tk_resume := 0\<rparr>)" "kn_wq s2 = kn_wq s"
    "kn_cpu s2 = (kn_cpu s)\<lparr>cp_daif := cp_daif (kn_cpu s) OR 0x80, cp_elr := kn_ret s\<rparr>"
    using assms(2) by (simp add: kthread_init_stack_def irq_save_def Let_def)
  show thesis
  proof (rule that [of "irq_restore (cp_daif (kn_cpu s)) s2"])
    show "kthread_start (Some n) s = Inr (0, irq_restore (cp_daif (kn_cpu s)) s2)"
      using assms(1) s2(1) by (simp add: kthread_start_def is_running_def Let_def) (simp add: irq_save_def)
  qed (use s2 in \<open>simp_all add: irq_restore_def\<close>)
qed

lemma task_nexts_running:
  "kn_task s' = (kn_task s)(n := kn_task s n\<lparr>tk_running := 1, tk_resume := 0\<rparr>) \<Longrightarrow> task_nexts s' = task_nexts s"
  by (auto simp: task_nexts_def)

text \<open>
  C10. The timer interrupt saves the stack pointer of the current task in its context,
  moves the task to the end of the queue and continues with the next one: at its saved
  stack pointer when it has run before, else 96 bytes below the top of its new stack,
  where its function, its data and the return address lie ready.
\<close>

theorem handle_sched_irq_switches:
  assumes "cpu < NR_CORES" and "kn_global_wqs s cpu = Some w" and "kn_pid_cntr s \<noteq> 1"
    and "wq_holds w s (t # n # ts)" and "tk_completed (kn_task s t) = 0"
    and "tk_ctxt (kn_task s t) = Some c" and "tk_ctxt (kn_task s n) = Some d" and "c \<noteq> d"
  shows "\<exists>s' new. handle_sched_irq cpu sp s = Inr (Some new, s') \<and> cx_sp (kn_ctxt s' c) = sp \<and>
    wq_holds w s' (n # ts @ [t]) \<and> cp_daif (kn_cpu s') = cp_daif (kn_cpu s) \<and>
    (tk_running (kn_task s n) \<noteq> 0 \<longrightarrow> new = cx_sp (kn_ctxt s d)) \<and>
    (tk_running (kn_task s n) = 0 \<longrightarrow> new = cx_sp (kn_ctxt s d) - 96 \<and> tk_running (kn_task s' n) = 1 \<and>
       kn_mem s' new = tk_pc (kn_task s n) \<and> kn_mem s' (new + 8) = tk_data (kn_task s n) \<and>
       kn_mem s' (new + 88) = kn_ret s)"
proof -
  obtain s1 where s1: "handle_sched_irq cpu sp s = bindR (kthread_start (Some n) s1) (\<lambda>(ret, s).
      if ret < 0 then Inr (None, s)
      else bindR (derefR (tk_ctxt (kn_task s n))) (\<lambda>c. Inr (Some (cx_sp (kn_ctxt s c)), s)))"
    "wq_holds w s1 (n # ts @ [t])" "wq_frame (set_ctxt c (kn_ctxt s c\<lparr>cx_sp := sp\<rparr>) s\<lparr>kn_schedule_needed := 1\<rparr>) s1"
    using handle_sched_irq_next [OF assms(1-6), of n sp] by auto
  then have f1: "kn_ctxt s1 = (kn_ctxt s)(c := kn_ctxt s c\<lparr>cx_sp := sp\<rparr>)" "kn_mem s1 = kn_mem s" "kn_cpu s1 = kn_cpu s"
    "kn_ret s1 = kn_ret s" "tk_ctxt (kn_task s1 n) = Some d" "tk_pc (kn_task s1 n) = tk_pc (kn_task s n)"
    "tk_data (kn_task s1 n) = tk_data (kn_task s n)" "tk_running (kn_task s1 n) = tk_running (kn_task s n)"
    using assms(7) by (simp_all add: wq_frame_def set_ctxt_def)
  show ?thesis
  proof (cases "tk_running (kn_task s n) = 0")
    case False
    then have "handle_sched_irq cpu sp s = Inr (Some (cx_sp (kn_ctxt s d)), s1)"
      using s1(1) kthread_start_running [of s1 n] f1 assms(8) by simp
    then show ?thesis using False f1 s1(2) assms(8) by simp
  next
    case True
    then obtain s2 where s2: "kthread_start (Some n) s1 = Inr (0, s2)"
      "kn_ctxt s2 = (kn_ctxt s1)(d := kn_ctxt s1 d\<lparr>cx_sp := cx_sp (kn_ctxt s1 d) - 96\<rparr>)"
      "kn_mem s2 = (kn_mem s1)(cx_sp (kn_ctxt s1 d) - 96 := tk_pc (kn_task s1 n),
         cx_sp (kn_ctxt s1 d) - 96 + 8 := tk_data (kn_task s1 n), cx_sp (kn_ctxt s1 d) - 96 + 88 := kn_ret s1)"
      "kn_task s2 = (kn_task s1)(n := kn_task s1 n\<lparr>tk_running := 1, tk_resume := 0\<rparr>)" "kn_wq s2 = kn_wq s1"
      "kn_cpu s2 = (kn_cpu s1)\<lparr>cp_elr := kn_ret s1\<rparr>"
      using kthread_start_fresh [of s1 n d] f1(5,8) by auto
    have "handle_sched_irq cpu sp s = Inr (Some (cx_sp (kn_ctxt s d) - 96), s2)"
      using s1(1) s2(1,2,4) f1(1,5) assms(8) by simp
    moreover have "wq_holds w s2 (n # ts @ [t])"
      using s1(2) s2(5) task_nexts_running [OF s2(4)] by (simp add: wq_holds_def)
    ultimately show ?thesis using True f1 s2(2-4,6) assms(8) by simp
  qed
qed

theorem handle_sched_irq_switches_witness:
  "\<exists>s'. handle_sched_irq 0 0x5000 (demo_kern ((\<lambda>_. None)(1 := Some 2, 2 := Some 3)) (Some 1) 4) =
     Inr (Some (- 96), s') \<and> cx_sp (kn_ctxt s' 0x10001) = 0x5000 \<and> wq_holds 0x100 s' [2, 3, 1]"
proof -
  let ?s = "demo_kern ((\<lambda>_. None)(1 := Some 2, 2 := Some 3)) (Some 1) 4"
  have "kn_global_wqs ?s 0 = Some 0x100" "kn_pid_cntr ?s \<noteq> 1" "tk_completed (kn_task ?s 1) = 0"
    "tk_ctxt (kn_task ?s 1) = Some 0x10001" "tk_ctxt (kn_task ?s 2) = Some 0x10002" "(0x10001 :: u64) \<noteq> 0x10002"
    "tk_running (kn_task ?s 2) = 0" "kn_ctxt ?s 0x10002 = zero_ctxt"
    by (simp_all add: demo_kern_def zero_task_def)
  with handle_sched_irq_switches [of 0 ?s "0x100" 1 2 "[3]" "0x10001" "0x10002" "0x5000"] demo_three
  show ?thesis by (auto simp: zero_ctxt_def)
qed

text \<open>A list that never leaves a set of nodes has no end.\<close>

lemma last_of_closed:
  assumes "x \<in> X" and "\<And>x. x \<in> X \<Longrightarrow> \<exists>y\<in>X. nxt x = Some y"
  shows "last_of nxt x = None"
proof (rule ccontr)
  assume "last_of nxt x \<noteq> None"
  then obtain y xs where "chain nxt (Some x) (xs @ [y])" using last_of_Some_chain by fast
  then show False using assms(1)
  proof (induction xs arbitrary: x)
    case Nil
    with assms(2) [of x] show ?case by auto
  next
    case (Cons a xs)
    with assms(2) [of x] show ?case by auto
  qed
qed

lemma chain_set_next:
  "chain nxt p xs \<Longrightarrow> x \<in> set xs \<Longrightarrow> (\<exists>y\<in>set xs. nxt x = Some y) \<or> x = last xs \<and> nxt x = None"
proof (induction xs arbitrary: p)
  case (Cons a xs)
  then show ?case by (cases xs) auto
qed simp

lemma kthread_queue_push:
  "cpu < NR_CORES \<Longrightarrow> kn_global_wqs s cpu = Some w \<Longrightarrow> kthread_queue cpu t s = wq_push w t s"
  by (simp add: kthread_queue_def wq_get_curr_def get_core_workqueue_def)

lemma wq_push_snoc:
  assumes "wq_holds w s (ts @ [l])"
  shows "wq_push w t s = Inr (set_task_next l t s)"
proof -
  obtain f where f: "wq_queue (kn_wq s w) = Some f"
    using assms by (cases "wq_queue (kn_wq s w)") (auto simp: wq_holds_def)
  then have "last_of (task_nexts s) f = Some l" using assms by (simp add: wq_holds_def last_of_chain)
  with f show ?thesis by (simp add: wq_push_def get_workqueue_end_def)
qed

lemma kthread_create_eq:
  assumes "get_curr_task cpu s = Inr (Some t)" and "n \<noteq> 0" and "c \<noteq> 0" and "n \<noteq> t"
  obtains s' where "kthread_create cpu fn d n c s = Inr (Some n, s')"
    and "kn_task s' = (kn_task s)(n := kn_task s t\<lparr>tk_pid := kn_pid_cntr s, tk_ctxt := Some c, tk_pc := fn,
      tk_running := 0, tk_resume := 0, tk_data := d\<rparr>)"
    and "kn_ctxt s' = (kn_ctxt s)(c := zero_ctxt\<lparr>cx_sp := n + 8250\<rparr>)" and "kn_pid_cntr s' = kn_pid_cntr s + 1"
    and "kn_wq s' = kn_wq s" and "kn_global_wqs s' = kn_global_wqs s"
  using assms by (auto simp: kthread_create_def clone_def assign_new_pid_def Let_def zero_ctxt_def)

text \<open>A queue whose list never ends: every walk along it goes on for ever.\<close>

definition queue_loop :: "u64 \<Rightarrow> kern \<Rightarrow> bool" where
  "queue_loop w s \<longleftrightarrow> (\<exists>t u X. wq_queue (kn_wq s w) = Some t \<and> tk_completed (kn_task s t) = 0 \<and> task_nexts s t = Some u \<and>
     u \<in> X \<and> t \<notin> X \<and> (\<forall>x\<in>X. \<exists>y\<in>X. task_nexts s x = Some y))"

lemma queue_loop_cong: "kn_task s' = kn_task s \<Longrightarrow> kn_wq s' = kn_wq s \<Longrightarrow> queue_loop w s' = queue_loop w s"
  by (simp add: queue_loop_def task_nexts_def)

lemma queue_loop_stuck:
  assumes "queue_loop w s"
  shows "wq_push w x s = Inl Diverges" and "wq_queue_next w s = Inl Diverges"
proof -
  obtain t u X where q: "wq_queue (kn_wq s w) = Some t" "tk_completed (kn_task s t) = 0" "task_nexts s t = Some u"
    "u \<in> X" "t \<notin> X" "\<And>x. x \<in> X \<Longrightarrow> \<exists>y\<in>X. task_nexts s x = Some y"
    using assms by (auto simp: queue_loop_def)
  have "last_of (task_nexts s) u = None" by (rule last_of_closed [OF q(4)]) (rule q(6))
  then show "wq_push w x s = Inl Diverges"
    using q(1,3) by (simp add: wq_push_def get_workqueue_end_def last_of_Some)
  let ?s = "set_task_next t None (set_wq w (kn_wq s w\<lparr>wq_queue := Some u\<rparr>) s)"
  have pop: "wq_pop w s = (Some t, ?s)" using q(1-3) by (simp add: wq_pop_def has_completed_def task_nexts_def)
  have "last_of (task_nexts ?s) u = None" by (rule last_of_closed [OF q(4)]) (use q(5,6) in auto)
  then have "wq_push w (Some t) ?s = Inl Diverges" by (simp add: wq_push_def get_workqueue_end_def)
  then show "wq_queue_next w s = Inl Diverges" by (simp add: wq_queue_next_def pop)
qed

lemma kthread_clone_loop:
  assumes "cpu < NR_CORES" and "kn_global_wqs s cpu = Some w" and "kn_pid_cntr s \<noteq> 1"
    and "wq_holds w s (t # u # ts)" and "n \<notin> set (t # u # ts)" and "n \<noteq> 0" and "c \<noteq> 0"
    and "tk_completed (kn_task s t) = 0"
  obtains s1 s2 where "kthread_create cpu fn d n c s = Inr (Some n, s1)" and "kthread_queue cpu (Some n) s1 = Inr s2"
    and "tk_next (kn_task s2 n) = Some u" and "queue_loop w s2" and "wq_queue (kn_wq s2 w) = Some t"
    and "tk_ctxt (kn_task s2 t) = tk_ctxt (kn_task s t)" and "kn_global_wqs s2 = kn_global_wqs s"
    and "kn_pid_cntr s2 = kn_pid_cntr s + 1"
proof -
  have h: "wq_holds w s (t # u # ts)" using assms(4) .
  obtain s1 where s1: "kthread_create cpu fn d n c s = Inr (Some n, s1)"
    "kn_task s1 = (kn_task s)(n := kn_task s t\<lparr>tk_pid := kn_pid_cntr s, tk_ctxt := Some c, tk_pc := fn,
      tk_running := 0, tk_resume := 0, tk_data := d\<rparr>)" "kn_wq s1 = kn_wq s" "kn_global_wqs s1 = kn_global_wqs s"
    "kn_pid_cntr s1 = kn_pid_cntr s + 1"
    using kthread_create_eq [OF get_curr_task_head [OF assms(1-4)] assms(6,7), of fn d] assms(5) by auto
  obtain us l where us: "u # ts = us @ [l]" by (metis list.discI rev_exhaust)
  have nx: "task_nexts s1 = (task_nexts s)(n := Some u)"
    using s1(2) h by (auto simp: task_nexts_def wq_holds_def)
  have h1: "wq_holds w s1 ((t # us) @ [l])"
    using h us assms(5) s1(3) unfolding wq_holds_def nx by (auto simp: chain_upd_other)
  let ?s2 = "set_task_next l (Some n) s1" and ?X = "insert n (set (u # ts))"
  have q: "kthread_queue cpu (Some n) s1 = Inr ?s2"
    using assms(1,2) s1(4) by (simp add: kthread_queue_push wq_push_snoc [OF h1])
  have l: "l \<in> set (u # ts)" "l \<noteq> n" using us assms(5) by auto
  have dist: "t \<notin> ?X" using wq.holds_distinct [OF h] assms(5) by auto
  have closed: "\<exists>y\<in>?X. task_nexts ?s2 x = Some y" if "x \<in> ?X" for x
  proof -
    have "chain (task_nexts s) (Some u) (u # ts)" using h by (simp add: wq_holds_def)
    moreover have "last (u # ts) = l" unfolding us by simp
    ultimately show ?thesis using chain_set_next [of "task_nexts s" "Some u" "u # ts" x] that l
      by (cases "x = n") (auto simp: nx)
  qed
  have tl: "l \<noteq> t" using l(1) dist by blast
  have tu: "task_nexts ?s2 t = Some u" using h dist tl by (simp add: nx wq_holds_def)
  have qh: "wq_queue (kn_wq ?s2 w) = Some t" using h s1(3) by (simp add: wq_holds_def)
  have tk: "kn_task ?s2 t = kn_task s t" using dist tl s1(2) by simp
  have ql: "queue_loop w ?s2" unfolding queue_loop_def
    by (intro exI [of _ t] exI [of _ u] exI [of _ ?X]) (use qh tk tu closed dist assms(8) in simp)
  have "tk_next (kn_task ?s2 n) = Some u" using l(2) nx by (simp add: task_nexts_def fun_eq_iff)
  then show thesis by (rule that [OF s1(1) q _ ql qh]) (use tk s1(4,5) in simp_all)
qed

text \<open>
  kthread_create copies the next field of the current task. With two or more tasks in
  the queue the new task therefore points back at the second one, kthread_queue closes the
  queue to a cycle, and after that neither wq_push nor wq_queue_next ever returns.
\<close>

theorem kthread_clone_makes_cycle:
  assumes "cpu < NR_CORES" and "kn_global_wqs s cpu = Some w" and "kn_pid_cntr s \<noteq> 1"
    and "wq_holds w s (t # u # ts)" and "n \<notin> set (t # u # ts)" and "n \<noteq> 0" and "c \<noteq> 0"
    and "tk_completed (kn_task s t) = 0"
  shows "\<exists>s1 s2. kthread_create cpu fn d n c s = Inr (Some n, s1) \<and> kthread_queue cpu (Some n) s1 = Inr s2 \<and>
    tk_next (kn_task s2 n) = Some u \<and> wq_push w x s2 = Inl Diverges \<and> wq_queue_next w s2 = Inl Diverges"
  by (rule kthread_clone_loop [OF assms]) (use queue_loop_stuck in blast)

theorem kthread_clone_makes_cycle_witness:
  "\<exists>s1 s2. kthread_create 0 0xF00 7 0x1000 0x2000 (demo_kern ((\<lambda>_. None)(1 := Some 2, 2 := Some 3)) (Some 1) 4) =
       Inr (Some 0x1000, s1) \<and> kthread_queue 0 (Some 0x1000) s1 = Inr s2 \<and> wq_queue_next 0x100 s2 = Inl Diverges"
proof -
  let ?s = "demo_kern ((\<lambda>_. None)(1 := Some 2, 2 := Some 3)) (Some 1) 4"
  have "kn_global_wqs ?s 0 = Some 0x100" "kn_pid_cntr ?s \<noteq> 1" "tk_completed (kn_task ?s 1) = 0"
    by (simp_all add: demo_kern_def zero_task_def)
  with kthread_clone_makes_cycle [of 0 ?s "0x100" 1 2 "[3]" "0x1000" "0x2000" "0xF00" 7 None] demo_three
  show ?thesis by auto
qed

text \<open>
  Before the first thread is created the timer interrupt leaves the kernel running.
  Between the first kthread_create and its kthread_queue it dereferences a null pointer:
  the counter of the numbers has moved on, and the queue is still empty.
\<close>

theorem handle_sched_irq_empty_queue:
  assumes "cpu < NR_CORES" and "kn_global_wqs s cpu = Some w" and "kn_pid_cntr s = 1" and "wq_holds w s []"
    and "tk_ctxt (kn_task s (kn_idle s)) = Some e" and "n \<noteq> 0" and "c \<noteq> 0" and "n \<noteq> kn_idle s"
  shows "(\<exists>s'. handle_sched_irq cpu sp s = Inr (None, s') \<and> wq_holds w s' []) \<and>
    (\<exists>s1. kthread_create cpu fn d n c s = Inr (Some n, s1) \<and> handle_sched_irq cpu sp s1 = Inl NullDeref)"
proof -
  have cur: "get_curr_task cpu s = Inr (Some (kn_idle s))"
    using assms(1-3) by (simp add: get_curr_task_def wq_get_curr_def get_core_workqueue_def)
  obtain s1 where s1: "kthread_create cpu fn d n c s = Inr (Some n, s1)"
    "kn_pid_cntr s1 = kn_pid_cntr s + 1" "kn_wq s1 = kn_wq s" "kn_global_wqs s1 = kn_global_wqs s"
    using kthread_create_eq [OF cur assms(6,7), of fn d] assms(8) by auto
  have "handle_sched_irq cpu sp s1 = Inl NullDeref"
    using assms(1-4) s1(2-4)
    by (simp add: handle_sched_irq_def get_curr_task_def wq_get_curr_def get_core_workqueue_def wq_holds_def)
  moreover have "\<exists>s'. handle_sched_irq cpu sp s = Inr (None, s') \<and> wq_holds w s' []"
    using assms(1,2,4,5) cur
    by (simp add: handle_sched_irq_def wq_get_curr_def get_core_workqueue_def wq_holds_def Let_def
        wq_queue_next_def wq_pop_def wq_print_def)
  ultimately show ?thesis using s1(1) by blast
qed

theorem handle_sched_irq_empty_queue_witness:
  "\<exists>s1. kthread_create 0 0xF00 7 0x1000 0x2000 (demo_kern (\<lambda>_. None) None 1) = Inr (Some 0x1000, s1) \<and>
     handle_sched_irq 0 0x5000 s1 = Inl NullDeref"
proof -
  let ?s = "demo_kern (\<lambda>_. None) None 1"
  have "kn_global_wqs ?s 0 = Some 0x100" "kn_pid_cntr ?s = 1" "tk_ctxt (kn_task ?s (kn_idle ?s)) = Some 0x10050"
    "kn_idle ?s \<noteq> 0x1000" by (simp_all add: demo_kern_def)
  with handle_sched_irq_empty_queue [of 0 ?s "0x100" "0x10050" "0x1000" "0x2000" "0x5000" "0xF00" 7] demo_holds [of "\<lambda>_. None" None "[]" "0x100" 1]
  show ?thesis by auto
qed

section \<open>yield\<close>

lemma ctxt_word_cong: "kn_ctxt s = kn_ctxt s' \<Longrightarrow> kn_mem s = kn_mem s' \<Longrightarrow> ctxt_word s c i = ctxt_word s' c i"
  by (simp add: ctxt_word_def Let_def)

lemma sched_switch_away:
  assumes "tk_ctxt (kn_task s t) = Some c" and "tk_resume (kn_task s t) \<noteq> 1" and "n \<noteq> t"
    and "tk_ctxt (kn_task s n) = Some d" and "tk_running (kn_task s n) \<noteq> 0" and "c \<noteq> d"
  obtains s' where "sched_switch t n s = Inr (Jumps (cp_reg (kn_cpu s') 30), s')"
    and "kn_ctxt s' = (kn_ctxt s)(c := kn_ctxt s c\<lparr>cx_sp := cp_sp (kn_cpu s), cx_spsr := cp_spsr (kn_cpu s)\<rparr>)"
    and "kn_mem s' = kn_mem (save_regs (cp_sp (kn_cpu s)) s)"
    and "cp_sp (kn_cpu s') = cx_sp (kn_ctxt s d)" and "cp_spsr (kn_cpu s') = cx_spsr (kn_ctxt s d)"
    and "\<And>i. i < 12 \<Longrightarrow> cp_reg (kn_cpu s') (19 + i) = ctxt_word s' d i"
    and "kn_task s' = (kn_task s)(n := kn_task s n\<lparr>tk_resume := 1\<rparr>)" and "kn_wq s' = kn_wq s"
proof -
  let ?s1 = "set_ctxt c (kn_ctxt s c\<lparr>cx_sp := cp_sp (kn_cpu s), cx_spsr := cp_spsr (kn_cpu s)\<rparr>) s"
  let ?s2 = "set_task n (kn_task s n\<lparr>tk_resume := 1\<rparr>) (save_regs (cp_sp (kn_cpu s)) ?s1)"
  let ?s3 = "irq_restore (cp_daif (kn_cpu ?s2)) (snd (irq_save ?s2))"
  let ?s4 = "load_regs d ?s3"
  let ?s' = "?s4\<lparr>kn_cpu := kn_cpu ?s4\<lparr>cp_spsr := cx_spsr (kn_ctxt ?s4 d), cp_sp := cx_sp (kn_ctxt ?s4 d)\<rparr>\<rparr>"
  have start: "kthread_start (Some n) ?s2 = Inr (0, ?s3)"
    using assms(5) by (simp add: kthread_start_def is_running_def irq_save_def save_regs_def Let_def)
  have "sched_switch t n s = Inr (Jumps (cp_reg (kn_cpu ?s') 30), ?s')"
    unfolding sched_switch_def Let_def using assms start
    by (simp add: save_regs_def irq_save_def irq_restore_def load_regs_def)
  moreover have "ctxt_word ?s' d i = ctxt_word ?s3 d i" for i
    by (rule ctxt_word_cong) (simp_all add: load_regs_def)
  then have "cp_reg (kn_cpu ?s') (19 + i) = ctxt_word ?s' d i" if "i < 12" for i
    using that by (simp add: load_regs_def)
  ultimately show thesis using assms
    by (intro that [of ?s']) (simp_all add: load_regs_def irq_restore_def irq_save_def save_regs_def)
qed

text \<open>
  C38. yield with two or more tasks stores the stack pointer, the processor state and the
  registers x19 to x30 of the current task, moves it to the end of the queue and sets the
  stack pointer of the next one. But it loads x19 to x30 from the context structure, where
  the stack pointer and the processor state lie, and not from the saved stack: x19 becomes
  the stack pointer, and yield jumps to the word 88 bytes after the start of the structure,
  which has 48 bytes.
\<close>

theorem yield_switches:
  assumes "cpu < NR_CORES" and "kn_global_wqs s cpu = Some w" and "kn_pid_cntr s \<noteq> 1"
    and "wq_holds w s (t # n # ts)" and "tk_completed (kn_task s t) = 0" and "tk_resume (kn_task s t) \<noteq> 1"
    and "tk_ctxt (kn_task s t) = Some c" and "tk_ctxt (kn_task s n) = Some d" and "c \<noteq> d"
    and "tk_running (kn_task s n) \<noteq> 0"
  shows "\<exists>s'. yield cpu s = Inr (Jumps (kn_mem s' (d + 88)), s') \<and> wq_holds w s' (n # ts @ [t]) \<and>
    cx_sp (kn_ctxt s' c) = cp_sp (kn_cpu s) \<and> cx_spsr (kn_ctxt s' c) = cp_spsr (kn_cpu s) \<and>
    kn_mem s' = kn_mem (save_regs (cp_sp (kn_cpu s)) s) \<and>
    cp_sp (kn_cpu s') = cx_sp (kn_ctxt s d) \<and> cp_spsr (kn_cpu s') = cx_spsr (kn_ctxt s d) \<and>
    cp_reg (kn_cpu s') 19 = cx_sp (kn_ctxt s d) \<and> cp_reg (kn_cpu s') 20 = cx_spsr (kn_ctxt s d)"
proof -
  have cur: "get_curr_task cpu s = Inr (Some t)" by (rule get_curr_task_head [OF assms(1-4)])
  obtain s1 where s1: "wq_queue_next w s = Inr (wq_queue (kn_wq s1 w), s1)" "wq_holds w s1 (n # ts @ [t])"
    using wq_queue_next_turn [OF assms(4)] assms(5) by (auto simp: wq_over_def has_completed_def)
  have q1: "wq_queue (kn_wq s1 w) = Some n" using wq_holds_head [OF s1(2)] by simp
  have fr: "wq_frame s s1" using wq_queue_next_frame [OF s1(1)] .
  have tn: "n \<noteq> t" using wq.holds_distinct [OF assms(4)] by auto
  have f: "tk_ctxt (kn_task s1 t) = Some c" "tk_resume (kn_task s1 t) \<noteq> 1" "tk_ctxt (kn_task s1 n) = Some d"
    "tk_running (kn_task s1 n) \<noteq> 0" "kn_cpu s1 = kn_cpu s" "kn_ctxt s1 = kn_ctxt s" "kn_mem s1 = kn_mem s"
    using fr assms(6-8,10) by (simp_all add: wq_frame_def)
  have y: "yield cpu s = sched_switch t n s1"
    using assms(1,2,4) cur s1(1) q1
    by (simp add: yield_def wq_get_curr_def get_core_workqueue_def wq_holds_def task_nexts_def)
  obtain s' where s': "sched_switch t n s1 = Inr (Jumps (cp_reg (kn_cpu s') 30), s')"
    "kn_ctxt s' = (kn_ctxt s)(c := kn_ctxt s c\<lparr>cx_sp := cp_sp (kn_cpu s), cx_spsr := cp_spsr (kn_cpu s)\<rparr>)"
    "kn_mem s' = kn_mem (save_regs (cp_sp (kn_cpu s)) s)"
    "cp_sp (kn_cpu s') = cx_sp (kn_ctxt s d)" "cp_spsr (kn_cpu s') = cx_spsr (kn_ctxt s d)"
    "\<And>i. i < 12 \<Longrightarrow> cp_reg (kn_cpu s') (19 + i) = ctxt_word s' d i"
    "kn_task s' = (kn_task s1)(n := kn_task s1 n\<lparr>tk_resume := 1\<rparr>)" "kn_wq s' = kn_wq s1"
    using sched_switch_away [OF f(1,2) tn f(3,4) assms(9)] by (auto simp: f(5-7) save_regs_def)
  have "task_nexts s' = task_nexts s1" by (simp add: task_nexts_def s'(7) fun_eq_iff)
  then have "wq_holds w s' (n # ts @ [t])" using s1(2) s'(8) by (simp add: wq_holds_def)
  moreover have "cp_reg (kn_cpu s') 30 = kn_mem s' (d + 88)" "cp_reg (kn_cpu s') 19 = cx_sp (kn_ctxt s d)"
    "cp_reg (kn_cpu s') 20 = cx_spsr (kn_ctxt s d)"
    using s'(6) [of 11] s'(6) [of 0] s'(6) [of 1] s'(2) assms(9) by (simp_all add: ctxt_word_def)
  ultimately show ?thesis using y s'(1-5) assms(9) by simp
qed

definition demo_running :: "u64 \<Rightarrow> kern \<Rightarrow> kern" where
  "demo_running t s = set_task t (kn_task s t\<lparr>tk_running := 1\<rparr>) s"

lemma demo_running_holds: "wq_holds w s ts \<Longrightarrow> wq_holds w (demo_running t s) ts"
proof -
  have "task_nexts (demo_running t s) = task_nexts s" by (auto simp: demo_running_def task_nexts_def)
  then show "wq_holds w s ts \<Longrightarrow> wq_holds w (demo_running t s) ts" by (simp add: wq_holds_def demo_running_def)
qed

theorem yield_switches_witness:
  "\<exists>s'. yield 0 (demo_running 2 (demo_kern ((\<lambda>_. None)(1 := Some 2, 2 := Some 3)) (Some 1) 4)) =
     Inr (Jumps (kn_mem s' 0x1005A), s')"
proof -
  let ?s = "demo_running 2 (demo_kern ((\<lambda>_. None)(1 := Some 2, 2 := Some 3)) (Some 1) 4)"
  have "kn_global_wqs ?s 0 = Some 0x100" "kn_pid_cntr ?s \<noteq> 1" "tk_completed (kn_task ?s 1) = 0"
    "tk_resume (kn_task ?s 1) \<noteq> 1" "tk_ctxt (kn_task ?s 1) = Some 0x10001" "tk_ctxt (kn_task ?s 2) = Some 0x10002"
    "(0x10001 :: u64) \<noteq> 0x10002" "tk_running (kn_task ?s 2) \<noteq> 0"
    by (simp_all add: demo_kern_def zero_task_def demo_running_def)
  with yield_switches [of 0 ?s "0x100" 1 2 "[3]" "0x10001" "0x10002"] demo_running_holds [OF demo_three, of 2]
  show ?thesis by auto
qed

end
