(* ===== verification/Kernel_Threads.thy ===== *)
theory Kernel_Threads
  imports Tasks_Props
begin

text \<open>
  The threads that main starts (kernel.c, test.c), the way from the timer interrupt to a
  thread and back (handle\_irq of proc.S, which calls the handler of sched.c), and the
  function that every thread starts in (kthread\_ret\_from\_fork of task.c). Addresses of
  functions are arguments, fixed when the kernel is linked.
\<close>

section \<open>Starting threads\<close>

definition kthread_queue_userspace :: "nat \<Rightarrow> u64 \<Rightarrow> u64 \<times> u64 \<Rightarrow> kern \<Rightarrow> kern result" where
  "kthread_queue_userspace cpu start_userspace mem s =
     bindR (kthread_create cpu start_userspace 0 (fst mem) (snd mem) s) (\<lambda>(t, s). kthread_queue cpu t s)"

text \<open>kthread\_test, with the address of print\_msg, the two messages and the memory of two tasks.\<close>

definition kthread_test :: "nat \<Rightarrow> u64 \<Rightarrow> u64 \<Rightarrow> u64 \<Rightarrow> u64 \<times> u64 \<Rightarrow> u64 \<times> u64 \<Rightarrow> kern \<Rightarrow> (int \<times> kern) result" where
  "kthread_test cpu print_msg msg1 msg2 mem1 mem2 s =
     bindR (kthread_create cpu print_msg msg1 (fst mem1) (snd mem1) s) (\<lambda>(t1, s).
     if t1 = None then Inr (- 1, s)
     else
       bindR (kthread_queue cpu t1 s) (\<lambda>s.
       bindR (kthread_create cpu print_msg msg2 (fst mem2) (snd mem2) s) (\<lambda>(t2, s).
       if t2 = None then Inr (- 1, s)
       else bindR (kthread_queue cpu t2 s) (\<lambda>s. Inr (0, s)))))"

definition kernel_test :: "bool \<Rightarrow> nat \<Rightarrow> u64 \<Rightarrow> u64 \<Rightarrow> u64 \<Rightarrow> u64 \<times> u64 \<Rightarrow> u64 \<times> u64 \<Rightarrow> kern \<Rightarrow> (int \<times> kern) result" where
  "kernel_test enable_test cpu print_msg msg1 msg2 mem1 mem2 s =
     (if enable_test then kthread_test cpu print_msg msg1 msg2 mem1 mem2 s else Inr (0, s))"

text \<open>The last calls of main before its endless loop; kernel\_panic does not return.\<close>

definition main_threads ::
  "bool \<Rightarrow> nat \<Rightarrow> u64 \<Rightarrow> u64 \<Rightarrow> u64 \<Rightarrow> u64 \<Rightarrow> u64 \<times> u64 \<Rightarrow> u64 \<times> u64 \<Rightarrow> u64 \<times> u64 \<Rightarrow> kern \<Rightarrow> kern result" where
  "main_threads enable_test cpu start_userspace print_msg msg1 msg2 mem1 mem2 mem3 s =
     bindR (kernel_test enable_test cpu print_msg msg1 msg2 mem1 mem2 s) (\<lambda>(ret, s).
     if ret \<noteq> 0 then Inl Diverges else kthread_queue_userspace cpu start_userspace mem3 s)"

section \<open>The interrupt\<close>

text \<open>
  handle\_irq: m\_\_save\_curr\_context, \<^verbatim>\<open>mov x0, sp\<close>, the handler,
  m\_\_resume\_from\_context and \<^verbatim>\<open>eret\<close>. The processor puts the interrupted address into
  elr\_el1 before. The result is the address at which the processor goes on. The handler is
  a C function that leaves what it likes in the registers its caller saves, the argument
  \<open>clob\<close>: in x1 to x18 when it returns, with its result in x0. When it executes
  \<^verbatim>\<open>eret\<close> itself, nothing is restored and every register is what it has made of it. The
  frame of the handler on the stack is left out.
\<close>

definition clobber :: "(nat \<Rightarrow> u64) \<Rightarrow> nat \<Rightarrow> kern \<Rightarrow> kern" where
  "clobber clob n s = s\<lparr>kn_cpu := kn_cpu s\<lparr>cp_reg := (\<lambda>r. if r < n then clob r else cp_reg (kn_cpu s) r)\<rparr>\<rparr>"

lemma clobber_simps [simp]:
  "kn_task (clobber f n s) = kn_task s" "kn_global_wqs (clobber f n s) = kn_global_wqs s"
  "kn_pid_cntr (clobber f n s) = kn_pid_cntr s" "kn_wq (clobber f n s) = kn_wq s" "kn_mem (clobber f n s) = kn_mem s"
  "kn_ctxt (clobber f n s) = kn_ctxt s" "kn_idle (clobber f n s) = kn_idle s"
  "cp_elr (kn_cpu (clobber f n s)) = cp_elr (kn_cpu s)" "cp_sp (kn_cpu (clobber f n s)) = cp_sp (kn_cpu s)"
  "cp_reg (kn_cpu (clobber f n s)) r = (if r < n then f r else cp_reg (kn_cpu s) r)"
  by (simp_all add: clobber_def)

definition resume_frame :: "u64 \<Rightarrow> kern \<Rightarrow> kern" where
  "resume_frame x s = s\<lparr>kn_cpu := kn_cpu s\<lparr>cp_reg := (\<lambda>r. if 19 \<le> r \<and> r \<le> 30 then kn_mem s (x + word_of_nat (8 * (r - 19)))
     else cp_reg (kn_cpu s) r), cp_sp := x + 16 * 6\<rparr>\<rparr>"

definition save_frame :: "u64 \<Rightarrow> kern \<Rightarrow> kern" where
  "save_frame pc s =
     (let s = s\<lparr>kn_cpu := kn_cpu s\<lparr>cp_elr := pc, cp_sp := cp_sp (kn_cpu s) - 16 * 6\<rparr>\<rparr>
      in save_regs (cp_sp (kn_cpu s)) s)"

definition handle_irq :: "nat \<Rightarrow> (nat \<Rightarrow> u64) \<Rightarrow> u64 \<Rightarrow> kern \<Rightarrow> (u64 \<times> kern) result" where
  "handle_irq cpu clob pc s =
     (let s = save_frame pc s
      in bindR (handle_sched_irq cpu (cp_sp (kn_cpu s)) s) (\<lambda>(x, s).
         let s = (case x of None \<Rightarrow> clobber clob 31 s
                  | Some x \<Rightarrow> resume_frame x (clobber (clob(0 := x)) 19 s))
         in Inr (cp_elr (kn_cpu s), s)))"

lemma word_offset_eq: "i < 12 \<Longrightarrow> j < 12 \<Longrightarrow> 8 * word_of_nat i = (8 * word_of_nat j :: u64) \<longleftrightarrow> i = j"
proof -
  assume "i < 12" "j < 12"
  then have "unat (8 * word_of_nat i :: u64) = 8 * i" "unat (8 * word_of_nat j :: u64) = 8 * j"
    by (simp_all add: unat_word_ariths unat_of_nat)
  then show ?thesis by (metis mult_cancel1 zero_neq_numeral)
qed

lemma fold_store:
  "distinct ks \<Longrightarrow> \<forall>i\<in>set ks. i < 12 \<Longrightarrow> i < 12 \<Longrightarrow>
    fold (\<lambda>i m. m(sp + word_of_nat (8 * i) := f i)) ks m (sp + word_of_nat (8 * i) :: u64) =
      (if i \<in> set ks then f i else m (sp + word_of_nat (8 * i)))"
  by (induction ks arbitrary: m) (auto simp: word_offset_eq)

lemma fold_store_other:
  "\<forall>i\<in>set ks. a \<noteq> sp + word_of_nat (8 * i) \<Longrightarrow> fold (\<lambda>i m. m(sp + word_of_nat (8 * i) := f i)) ks m (a :: u64) = m a"
  by (induction ks arbitrary: m) auto

lemma save_frame_mem:
  "i < 12 \<Longrightarrow> kn_mem (save_frame pc s) (cp_sp (kn_cpu s) - 96 + word_of_nat (8 * i)) = cp_reg (kn_cpu s) (19 + i)"
  "\<forall>i<12. a \<noteq> cp_sp (kn_cpu s) - 96 + word_of_nat (8 * i) \<Longrightarrow> kn_mem (save_frame pc s) a = kn_mem s a"
  using fold_store [of "[0..<12]" i "cp_sp (kn_cpu s) - 96" "\<lambda>i. cp_reg (kn_cpu s) (19 + i)" "kn_mem s"]
    fold_store_other [of "[0..<12]" a "cp_sp (kn_cpu s) - 96" "\<lambda>i. cp_reg (kn_cpu s) (19 + i)" "kn_mem s"]
  by (simp_all add: save_frame_def save_regs_def Let_def del: upt_rec_numeral)

lemma save_frame_simps [simp]:
  "kn_task (save_frame pc s) = kn_task s" "kn_global_wqs (save_frame pc s) = kn_global_wqs s"
  "kn_pid_cntr (save_frame pc s) = kn_pid_cntr s" "kn_ret (save_frame pc s) = kn_ret s" "kn_wq (save_frame pc s) = kn_wq s"
  "kn_ctxt (save_frame pc s) = kn_ctxt s" "kn_idle (save_frame pc s) = kn_idle s"
  "kn_cpu (save_frame pc s) = (kn_cpu s)\<lparr>cp_elr := pc, cp_sp := cp_sp (kn_cpu s) - 96\<rparr>"
  by (simp_all add: save_frame_def save_regs_def Let_def)

lemma save_frame_holds [simp]: "wq_holds w (save_frame pc s) ts \<longleftrightarrow> wq_holds w s ts"
proof -
  have "task_nexts (save_frame pc s) = task_nexts s" by (simp add: task_nexts_def fun_eq_iff)
  then show ?thesis by (simp add: wq_holds_def)
qed

lemma resume_frame_simps [simp]:
  "kn_mem (resume_frame x s) = kn_mem s" "kn_ctxt (resume_frame x s) = kn_ctxt s" "kn_task (resume_frame x s) = kn_task s"
  "cp_elr (kn_cpu (resume_frame x s)) = cp_elr (kn_cpu s)" "cp_sp (kn_cpu (resume_frame x s)) = x + 96"
  "i < 12 \<Longrightarrow> cp_reg (kn_cpu (resume_frame x s)) (19 + i) = kn_mem s (x + word_of_nat (8 * i))"
  "r < 19 \<Longrightarrow> cp_reg (kn_cpu (resume_frame x s)) r = cp_reg (kn_cpu s) r"
  by (simp_all add: resume_frame_def)

section \<open>The first function of a thread\<close>

text \<open>
  kthread\_ret\_from\_fork up to its endless loop of yields. The code of the thread is the
  argument \<open>run\<close>: what the function at an address does with its data and the state.
\<close>

definition thread_arguments :: "kern \<Rightarrow> u64 \<times> u64 \<times> kern" where
  "thread_arguments s =
     (let (flags, s) = irq_save s;
          data = cp_reg (kn_cpu s) 20;
          thread_fn = cp_reg (kn_cpu s) 19
      in (thread_fn, data, irq_restore flags s))"

definition kthread_ret_from_fork :: "(u64 \<Rightarrow> u64 \<Rightarrow> kern \<Rightarrow> (u32 \<times> kern) result) \<Rightarrow> nat \<Rightarrow> kern \<Rightarrow> kern result" where
  "kthread_ret_from_fork run cpu s =
     (let (thread_fn, data, s) = thread_arguments s
      in bindR (run thread_fn data s) (\<lambda>(ret, s). kthread_finish cpu s))"

lemma thread_arguments_eq: "thread_arguments s = (cp_reg (kn_cpu s) 19, cp_reg (kn_cpu s) 20, s)"
  by (simp add: thread_arguments_def irq_save_def irq_restore_def)

section \<open>The first thread\<close>

lemma handle_sched_irq_single:
  assumes "cpu < NR_CORES" and "kn_global_wqs s cpu = Some w" and "kn_pid_cntr s \<noteq> 1"
    and "wq_holds w s [n]" and "tk_completed (kn_task s n) = 0" and "tk_ctxt (kn_task s n) = Some c"
    and "tk_running (kn_task s n) = 0"
  obtains s' where "handle_sched_irq cpu sp s = Inr (Some (sp - 96), s')" and "wq_holds w s' [n]"
    and "kn_cpu s' = (kn_cpu s)\<lparr>cp_elr := kn_ret s\<rparr>" and "tk_running (kn_task s' n) = 1"
    and "kn_mem s' = (kn_mem s)(sp - 96 := tk_pc (kn_task s n), sp - 96 + 8 := tk_data (kn_task s n), sp - 96 + 88 := kn_ret s)"
proof -
  obtain s1 where s1: "handle_sched_irq cpu sp s = bindR (kthread_start (Some n) s1) (\<lambda>(ret, s).
      if ret < 0 then Inr (None, s)
      else bindR (derefR (tk_ctxt (kn_task s n))) (\<lambda>c. Inr (Some (cx_sp (kn_ctxt s c)), s)))"
    "wq_holds w s1 [n]" "wq_frame (set_ctxt c (kn_ctxt s c\<lparr>cx_sp := sp\<rparr>) s\<lparr>kn_schedule_needed := 1\<rparr>) s1"
    using handle_sched_irq_next [OF assms(1-6), of n sp] by auto
  then have f1: "kn_ctxt s1 = (kn_ctxt s)(c := kn_ctxt s c\<lparr>cx_sp := sp\<rparr>)" "kn_mem s1 = kn_mem s" "kn_cpu s1 = kn_cpu s"
    "kn_ret s1 = kn_ret s" "tk_ctxt (kn_task s1 n) = Some c" "tk_pc (kn_task s1 n) = tk_pc (kn_task s n)"
    "tk_data (kn_task s1 n) = tk_data (kn_task s n)" "tk_running (kn_task s1 n) = 0"
    using assms(6,7) by (simp_all add: wq_frame_def set_ctxt_def)
  obtain s2 where s2: "kthread_start (Some n) s1 = Inr (0, s2)"
    "kn_ctxt s2 = (kn_ctxt s1)(c := kn_ctxt s1 c\<lparr>cx_sp := cx_sp (kn_ctxt s1 c) - 96\<rparr>)"
    "kn_mem s2 = (kn_mem s1)(cx_sp (kn_ctxt s1 c) - 96 := tk_pc (kn_task s1 n),
       cx_sp (kn_ctxt s1 c) - 96 + 8 := tk_data (kn_task s1 n), cx_sp (kn_ctxt s1 c) - 96 + 88 := kn_ret s1)"
    "kn_task s2 = (kn_task s1)(n := kn_task s1 n\<lparr>tk_running := 1, tk_resume := 0\<rparr>)" "kn_wq s2 = kn_wq s1"
    "kn_cpu s2 = (kn_cpu s1)\<lparr>cp_elr := kn_ret s1\<rparr>"
    by (rule kthread_start_fresh [OF f1(8,5)])
  show thesis
  proof (rule that [of s2])
    show "handle_sched_irq cpu sp s = Inr (Some (sp - 96), s2)" using s1(1) s2(1,2,4) f1(1,5) by simp
    show "wq_holds w s2 [n]" using s1(2) s2(5) task_nexts_running [OF s2(4)] by (simp add: wq_holds_def)
  qed (use s2 f1 in simp_all)
qed

lemma kthread_queue_first:
  assumes "cpu < NR_CORES" and "kn_global_wqs s cpu = Some w" and "kn_pid_cntr s = 1" and "wq_holds w s []"
    and "n \<noteq> 0" and "c \<noteq> 0" and "n \<noteq> kn_idle s"
  obtains s1 s' where "kthread_create cpu fn d n c s = Inr (Some n, s1)" and "kthread_queue cpu (Some n) s1 = Inr s'"
    and "wq_holds w s' [n]"
    and "kn_task s' n = kn_task s (kn_idle s)\<lparr>tk_pid := 1, tk_ctxt := Some c, tk_pc := fn, tk_running := 0,
      tk_resume := 0, tk_data := d, tk_next := None\<rparr>"
    and "kn_pid_cntr s' = 2" and "kn_global_wqs s' = kn_global_wqs s" and "kn_ctxt s' c = zero_ctxt\<lparr>cx_sp := n + 8250\<rparr>"
    and "kn_ret s' = kn_ret s" and "kn_cpu s' = kn_cpu s" and "kn_mem s' = kn_mem s"
proof -
  have cur: "get_curr_task cpu s = Inr (Some (kn_idle s))"
    using assms(1-3) by (simp add: get_curr_task_def wq_get_curr_def get_core_workqueue_def)
  let ?b = "kn_task s (kn_idle s)\<lparr>tk_pid := 1, tk_ctxt := Some c, tk_pc := fn, tk_running := 0, tk_resume := 0, tk_data := d\<rparr>"
  obtain s1 where s1: "kthread_create cpu fn d n c s = Inr (Some n, s1)" "kn_task s1 n = ?b" "kn_wq s1 = kn_wq s"
    "kn_global_wqs s1 = kn_global_wqs s" "kn_pid_cntr s1 = 2" "kn_ctxt s1 c = zero_ctxt\<lparr>cx_sp := n + 8250\<rparr>"
    "kn_ret s1 = kn_ret s" "kn_cpu s1 = kn_cpu s" "kn_mem s1 = kn_mem s"
    using cur assms(3,5,6,7) by (simp add: kthread_create_def clone_def assign_new_pid_def Let_def zero_ctxt_def)
  let ?s' = "set_task_next n None (set_wq w (kn_wq s1 w\<lparr>wq_queue := Some n\<rparr>) s1)"
  have "kthread_queue cpu (Some n) s1 = Inr ?s'"
    using assms(1,2,4) s1(3,4)
    by (simp add: kthread_queue_def wq_get_curr_def get_core_workqueue_def wq_push_def get_workqueue_end_def wq_holds_def)
  then show thesis
    by (rule that [OF s1(1)]) (use s1 in \<open>simp_all add: wq_holds_def\<close>)
qed

text \<open>
  C23. The first thread, from main to its function: on an empty queue kthread_queue_userspace
  makes it the only task; the next timer interrupt enters kthread_ret_from_fork, which calls
  kthread_start_userspace with 0. But as get_curr_task takes the new thread for the one that
  was interrupted, the thread runs below the interrupted stack of main and not on the stack
  of its own that kthread_create has set up, and main is never continued.
\<close>

theorem first_thread_starts:
  assumes "cpu < NR_CORES" and "kn_global_wqs s cpu = Some w" and "kn_pid_cntr s = 1" and "wq_holds w s []"
    and "n \<noteq> 0" and "c \<noteq> 0" and "n \<noteq> kn_idle s" and "tk_completed (kn_task s (kn_idle s)) = 0"
  shows "\<exists>s1 s2. kthread_queue_userspace cpu start (n, c) s = Inr s1 \<and> wq_holds w s1 [n] \<and>
    cx_sp (kn_ctxt s1 c) = n + 8250 \<and> handle_irq cpu clob pc s1 = Inr (kn_ret s, s2) \<and>
    cp_sp (kn_cpu s2) = cp_sp (kn_cpu s) - 96 \<and>
    kthread_ret_from_fork run cpu s2 = bindR (run start 0 s2) (\<lambda>(ret, s). kthread_finish cpu s)"
proof -
  obtain s0 s1 where s1: "kthread_create cpu start 0 n c s = Inr (Some n, s0)" "kthread_queue cpu (Some n) s0 = Inr s1"
    "wq_holds w s1 [n]"
    "kn_task s1 n = kn_task s (kn_idle s)\<lparr>tk_pid := 1, tk_ctxt := Some c, tk_pc := start, tk_running := 0,
      tk_resume := 0, tk_data := 0, tk_next := None\<rparr>"
    "kn_pid_cntr s1 = 2" "kn_global_wqs s1 = kn_global_wqs s" "kn_ctxt s1 c = zero_ctxt\<lparr>cx_sp := n + 8250\<rparr>"
    "kn_ret s1 = kn_ret s" "kn_cpu s1 = kn_cpu s" "kn_mem s1 = kn_mem s"
    by (rule kthread_queue_first [OF assms(1-7)])
  have u: "kthread_queue_userspace cpu start (n, c) s = Inr s1"
    using s1(1,2) by (simp add: kthread_queue_userspace_def)
  let ?sp = "cp_sp (kn_cpu s) - 96"
  let ?s2 = "save_frame pc s1"
  have k: "kn_global_wqs ?s2 cpu = Some w" "kn_pid_cntr ?s2 \<noteq> 1" "wq_holds w ?s2 [n]" "tk_completed (kn_task ?s2 n) = 0"
    "tk_ctxt (kn_task ?s2 n) = Some c" "tk_running (kn_task ?s2 n) = 0"
    using s1(3-6) assms(2,8) by simp_all
  obtain s3 where s3: "handle_sched_irq cpu ?sp ?s2 = Inr (Some (?sp - 96), s3)"
    "kn_cpu s3 = (kn_cpu ?s2)\<lparr>cp_elr := kn_ret s\<rparr>"
    "kn_mem s3 = (kn_mem ?s2)(?sp - 96 := start, ?sp - 96 + 8 := 0, ?sp - 96 + 88 := kn_ret s)"
    using handle_sched_irq_single [OF assms(1) k, of ?sp] s1(4,8) by auto
  let ?s4 = "resume_frame (?sp - 96) (clobber (clob(0 := ?sp - 96)) 19 s3)"
  have "handle_irq cpu clob pc s1 = Inr (kn_ret s, ?s4)"
    using s3(1,2) s1(9) by (simp add: handle_irq_def)
  moreover have "cp_reg (kn_cpu ?s4) 19 = start" "cp_reg (kn_cpu ?s4) 20 = 0"
    using s3(3) by (simp_all add: resume_frame_def)
  moreover have "cp_sp (kn_cpu ?s4) = ?sp" by simp
  ultimately show ?thesis using u s1(3,7)
    by (intro exI [of _ s1] exI [of _ ?s4]) (simp add: kthread_ret_from_fork_def thread_arguments_eq)
qed

theorem first_thread_starts_witness:
  "\<exists>s1 s2. kthread_queue_userspace 0 0xF00 (0x1000, 0x2000) (demo_kern (\<lambda>_. None) None 1) = Inr s1 \<and>
     handle_irq 0 (\<lambda>_. 7) 0x80123 s1 = Inr (0x60, s2) \<and> cp_sp (kn_cpu s2) = - 96"
proof -
  let ?s = "demo_kern (\<lambda>_. None) None 1"
  have "kn_global_wqs ?s 0 = Some 0x100" "kn_pid_cntr ?s = 1" "tk_completed (kn_task ?s (kn_idle ?s)) = 0"
    "kn_idle ?s \<noteq> 0x1000" "kn_ret ?s = 0x60" "cp_sp (kn_cpu ?s) = 0" by (simp_all add: demo_kern_def zero_task_def)
  with first_thread_starts [of 0 ?s "0x100" "0x1000" "0x2000" "0xF00" "\<lambda>_. 7" "0x80123"] demo_holds [of "\<lambda>_. None" None "[]" "0x100" 1]
  show ?thesis by fastforce
qed

section \<open>Switching between running threads\<close>

text \<open>
  C30. A timer interrupt that switches to a thread which has run before saves x19 to x30 and the
  stack pointer of the interrupted thread and restores those of the other one. But
  handle_irq neither saves nor restores x0 to x18 and the address of the interrupted
  instruction: the processor goes on at the instruction of the thread that was interrupted,
  on the stack of the other one, with the address of the frame of the other one in x0 and
  in x1 to x18 what the C handler has left there.
\<close>

theorem handle_irq_keeps_pc:
  assumes "cpu < NR_CORES" and "kn_global_wqs s cpu = Some w" and "kn_pid_cntr s \<noteq> 1"
    and "wq_holds w s (t # n # ts)" and "tk_completed (kn_task s t) = 0"
    and "tk_ctxt (kn_task s t) = Some c" and "tk_ctxt (kn_task s n) = Some d" and "c \<noteq> d" and "tk_running (kn_task s n) \<noteq> 0"
    and "\<forall>i<12. \<forall>j<12. cx_sp (kn_ctxt s d) + word_of_nat (8 * i) \<noteq> cp_sp (kn_cpu s) - 96 + word_of_nat (8 * j)"
  shows "\<exists>s'. handle_irq cpu clob pc s = Inr (pc, s') \<and> wq_holds w s' (n # ts @ [t]) \<and>
    cx_sp (kn_ctxt s' c) = cp_sp (kn_cpu s) - 96 \<and> cp_sp (kn_cpu s') = cx_sp (kn_ctxt s d) + 96 \<and>
    (\<forall>i<12. kn_mem s' (cp_sp (kn_cpu s) - 96 + word_of_nat (8 * i)) = cp_reg (kn_cpu s) (19 + i) \<and>
       cp_reg (kn_cpu s') (19 + i) = kn_mem s (cx_sp (kn_ctxt s d) + word_of_nat (8 * i))) \<and>
    cp_reg (kn_cpu s') 0 = cx_sp (kn_ctxt s d) \<and> (\<forall>r\<in>{1..18}. cp_reg (kn_cpu s') r = clob r)"
proof -
  let ?sp = "cp_sp (kn_cpu s) - 96" and ?s2 = "save_frame pc s"
  have k: "kn_global_wqs ?s2 cpu = Some w" "kn_pid_cntr ?s2 \<noteq> 1" "wq_holds w ?s2 (t # n # ts)"
    "tk_completed (kn_task ?s2 t) = 0" "tk_ctxt (kn_task ?s2 t) = Some c"
    using assms(2-6) by simp_all
  obtain s3 where s3: "handle_sched_irq cpu ?sp ?s2 = bindR (kthread_start (Some n) s3) (\<lambda>(ret, s).
      if ret < 0 then Inr (None, s)
      else bindR (derefR (tk_ctxt (kn_task s n))) (\<lambda>c. Inr (Some (cx_sp (kn_ctxt s c)), s)))"
    "wq_holds w s3 (n # ts @ [t])" "wq_frame (set_ctxt c (kn_ctxt ?s2 c\<lparr>cx_sp := ?sp\<rparr>) ?s2\<lparr>kn_schedule_needed := 1\<rparr>) s3"
    using handle_sched_irq_next [OF assms(1) k, of n ?sp] by auto
  then have f: "kn_ctxt s3 = (kn_ctxt s)(c := kn_ctxt s c\<lparr>cx_sp := ?sp\<rparr>)" "kn_mem s3 = kn_mem ?s2" "kn_cpu s3 = kn_cpu ?s2"
    "tk_ctxt (kn_task s3 n) = Some d" "tk_running (kn_task s3 n) \<noteq> 0"
    using assms(7,9) by (simp_all add: wq_frame_def set_ctxt_def)
  let ?x = "cx_sp (kn_ctxt s d)" and ?s4 = "resume_frame (cx_sp (kn_ctxt s d)) (clobber (clob(0 := cx_sp (kn_ctxt s d))) 19 s3)"
  have "handle_sched_irq cpu ?sp ?s2 = Inr (Some ?x, s3)"
    using s3(1) kthread_start_running [OF f(5)] f(1,4) assms(8) by simp
  then have "handle_irq cpu clob pc s = Inr (pc, ?s4)" using f(3) by (simp add: handle_irq_def)
  moreover have "wq_holds w ?s4 (n # ts @ [t])"
  proof -
    have "task_nexts ?s4 = task_nexts s3" "kn_wq ?s4 = kn_wq s3" by (simp_all add: task_nexts_def fun_eq_iff resume_frame_def)
    then show ?thesis using s3(2) by (simp add: wq_holds_def)
  qed
  moreover have "kn_mem ?s2 (?x + word_of_nat (8 * i)) = kn_mem s (?x + word_of_nat (8 * i))" if "i < 12" for i
    by (rule save_frame_mem(2)) (use assms(10) that in blast)
  ultimately show ?thesis using f save_frame_mem(1) assms(8) by (intro exI [of _ ?s4]) simp
qed

definition demo_running_stack :: "kern \<Rightarrow> kern" where
  "demo_running_stack s = (demo_running 2 s)\<lparr>kn_cpu := kn_cpu s\<lparr>cp_sp := 0x5000\<rparr>\<rparr>"

theorem handle_irq_keeps_pc_witness:
  "\<exists>s'. handle_irq 0 (\<lambda>_. 7) 0x80123 (demo_running_stack (demo_kern ((\<lambda>_. None)(1 := Some 2, 2 := Some 3)) (Some 1) 4)) = Inr (0x80123, s') \<and>
     cp_sp (kn_cpu s') = 96 \<and> cp_reg (kn_cpu s') 0 = 0 \<and> cp_reg (kn_cpu s') 5 = 7"
proof -
  let ?s0 = "demo_kern ((\<lambda>_. None)(1 := Some 2, 2 := Some 3)) (Some 1) 4"
  let ?s = "demo_running_stack ?s0"
  have "kn_global_wqs ?s 0 = Some 0x100" "kn_pid_cntr ?s \<noteq> 1" "tk_completed (kn_task ?s 1) = 0"
    "tk_ctxt (kn_task ?s 1) = Some 0x10001" "tk_ctxt (kn_task ?s 2) = Some 0x10002" "(0x10001 :: u64) \<noteq> 0x10002"
    "tk_running (kn_task ?s 2) \<noteq> 0" "cx_sp (kn_ctxt ?s 0x10002) = 0" "cp_sp (kn_cpu ?s) = 0x5000"
    by (simp_all add: demo_kern_def zero_task_def zero_ctxt_def demo_running_def demo_running_stack_def)
  moreover have "wq_holds 0x100 ?s [1, 2, 3]"
    using demo_running_holds [OF demo_three, of 2] by (simp add: wq_holds_def demo_running_stack_def task_nexts_def [abs_def])
  moreover have "0 + word_of_nat (8 * i) \<noteq> (0x5000 - 96 + word_of_nat (8 * j) :: u64)" if "i < 12" "j < 12" for i j
  proof -
    have "unat (word_of_nat (8 * i) :: u64) = 8 * i" "unat (0x4FA0 + word_of_nat (8 * j) :: u64) = 0x4FA0 + 8 * j"
      using that by (simp_all add: unat_word_ariths unat_of_nat)
    then have "unat (word_of_nat (8 * i) :: u64) < unat (0x4FA0 + word_of_nat (8 * j) :: u64)" using that by linarith
    then show ?thesis by auto
  qed
  ultimately show ?thesis using handle_irq_keeps_pc [of 0 ?s "0x100" 1 2 "[3]" "0x10001" "0x10002" "\<lambda>_. 7" "0x80123"] by auto
qed

section \<open>The self-test\<close>

lemma kthread_queue_second:
  assumes "cpu < NR_CORES" and "kn_global_wqs s cpu = Some w" and "kn_pid_cntr s = 2" and "wq_holds w s [t]"
    and "n \<noteq> 0" and "c \<noteq> 0" and "n \<noteq> t"
  obtains s1 s' where "kthread_create cpu fn d n c s = Inr (Some n, s1)" and "kthread_queue cpu (Some n) s1 = Inr s'"
    and "wq_holds w s' [t, n]" and "kn_pid_cntr s' = 3" and "kn_global_wqs s' = kn_global_wqs s"
    and "tk_ctxt (kn_task s' t) = tk_ctxt (kn_task s t)" and "tk_completed (kn_task s' t) = tk_completed (kn_task s t)"
proof -
  have "kn_pid_cntr s \<noteq> 1" using assms(3) by simp
  from get_curr_task_head [OF assms(1,2) this assms(4)] have cur: "get_curr_task cpu s = Inr (Some t)" .
  obtain s1 where s1: "kthread_create cpu fn d n c s = Inr (Some n, s1)"
    "kn_task s1 = (kn_task s)(n := kn_task s t\<lparr>tk_pid := kn_pid_cntr s, tk_ctxt := Some c, tk_pc := fn,
      tk_running := 0, tk_resume := 0, tk_data := d\<rparr>)" "kn_pid_cntr s1 = kn_pid_cntr s + 1"
    "kn_wq s1 = kn_wq s" "kn_global_wqs s1 = kn_global_wqs s"
    by (rule kthread_create_eq [OF cur assms(5-7)])
  have nx: "task_nexts s1 = (task_nexts s)(n := None)"
    using s1(2) assms(4) by (auto simp: task_nexts_def wq_holds_def)
  have "wq_holds w s1 ([] @ [t])" using assms(4,7) s1(4) by (simp add: wq_holds_def nx)
  then have q: "kthread_queue cpu (Some n) s1 = Inr (set_task_next t (Some n) s1)"
    using assms(1,2) s1(5) wq_push_snoc [of w s1 "[]" t] by (simp add: kthread_queue_push)
  have "wq_holds w (set_task_next t (Some n) s1) [t, n]"
    using assms(4,7) s1(4) by (simp add: wq_holds_def nx)
  then show thesis by (rule that [OF s1(1) q]) (use s1 assms(3,7) in simp_all)
qed

text \<open>
  What main leaves for the scheduler. As the kernel is built, without the self-test, the
  queue holds the thread that enters user mode, and nothing else. With the self-test
  enabled, which queues two threads before, the third kthread_create copies a next field
  that is in use: the queue never ends, and the first timer interrupt does not return.
\<close>

theorem kernel_test_hangs_scheduler:
  assumes "cpu < NR_CORES" and "kn_global_wqs s cpu = Some w" and "kn_pid_cntr s = 1" and "wq_holds w s []"
    and "tk_completed (kn_task s (kn_idle s)) = 0" and "distinct [0, kn_idle s, n1, n2, n3]" and "0 \<notin> {c1, c2, c3}"
  shows "(\<exists>s'. main_threads False cpu start print_msg msg1 msg2 (n1, c1) (n2, c2) (n3, c3) s = Inr s' \<and> wq_holds w s' [n3]) \<and>
    (\<exists>s'. main_threads True cpu start print_msg msg1 msg2 (n1, c1) (n2, c2) (n3, c3) s = Inr s' \<and>
       handle_irq cpu clob pc s' = Inl Diverges)"
proof
  have n: "n1 \<noteq> 0" "n2 \<noteq> 0" "n3 \<noteq> 0" "n1 \<noteq> kn_idle s" "n3 \<noteq> kn_idle s" "n2 \<noteq> n1" "n3 \<notin> {n1, n2}" using assms(6) by auto
  have c: "c1 \<noteq> 0" "c2 \<noteq> 0" "c3 \<noteq> 0" using assms(7) by auto
  show "\<exists>s'. main_threads False cpu start print_msg msg1 msg2 (n1, c1) (n2, c2) (n3, c3) s = Inr s' \<and> wq_holds w s' [n3]"
    by (rule kthread_queue_first [OF assms(1-4) n(3) c(3) n(5), of start 0])
      (simp add: main_threads_def kernel_test_def kthread_queue_userspace_def)
  obtain s0 s1 where s1: "kthread_create cpu print_msg msg1 n1 c1 s = Inr (Some n1, s0)" "kthread_queue cpu (Some n1) s0 = Inr s1"
    "wq_holds w s1 [n1]" "kn_task s1 n1 = kn_task s (kn_idle s)\<lparr>tk_pid := 1, tk_ctxt := Some c1, tk_pc := print_msg,
      tk_running := 0, tk_resume := 0, tk_data := msg1, tk_next := None\<rparr>" "kn_pid_cntr s1 = 2" "kn_global_wqs s1 = kn_global_wqs s"
    by (rule kthread_queue_first [OF assms(1-4) n(1) c(1) n(4), of print_msg msg1])
  have "kn_global_wqs s1 cpu = Some w" using s1(6) assms(2) by simp
  then obtain s2 s3 where s3: "kthread_create cpu print_msg msg2 n2 c2 s1 = Inr (Some n2, s2)" "kthread_queue cpu (Some n2) s2 = Inr s3"
    "wq_holds w s3 [n1, n2]" "kn_pid_cntr s3 = 3" "kn_global_wqs s3 = kn_global_wqs s1"
    "tk_ctxt (kn_task s3 n1) = Some c1" "tk_completed (kn_task s3 n1) = 0"
    using kthread_queue_second [OF assms(1) _ s1(5,3) n(2) c(2) n(6), of print_msg msg2] s1(4) assms(5) by auto
  have g: "kn_global_wqs s3 cpu = Some w" "kn_pid_cntr s3 \<noteq> 1" "n3 \<notin> set [n1, n2]" using s3(4,5) s1(6) assms(2) n(7) by simp_all
  obtain s4 s5 where s5: "kthread_create cpu start 0 n3 c3 s3 = Inr (Some n3, s4)" "kthread_queue cpu (Some n3) s4 = Inr s5"
    "queue_loop w s5" "wq_queue (kn_wq s5 w) = Some n1" "tk_ctxt (kn_task s5 n1) = Some c1"
    "kn_global_wqs s5 cpu = Some w" "kn_pid_cntr s5 = 4"
    by (rule kthread_clone_loop [OF assms(1) g(1,2) s3(3) g(3) n(3) c(3) s3(7), of start 0]) (use g(1) s3(4,6) in auto)
  let ?s6 = "save_frame pc s5"
  let ?s7 = "set_ctxt c1 (kn_ctxt ?s6 c1\<lparr>cx_sp := cp_sp (kn_cpu ?s6)\<rparr>) ?s6\<lparr>kn_schedule_needed := 1\<rparr>"
  have "queue_loop w ?s7" using s5(3) queue_loop_cong [of ?s7 s5 w] by (simp add: set_ctxt_def)
  then have "wq_queue_next w ?s7 = Inl Diverges" by (rule queue_loop_stuck)
  then have "handle_irq cpu clob pc s5 = Inl Diverges"
    using s5(4-7) assms(1)
    by (simp add: handle_irq_def handle_sched_irq_def get_curr_task_def wq_get_curr_def get_core_workqueue_def Let_def)
  then show "\<exists>s'. main_threads True cpu start print_msg msg1 msg2 (n1, c1) (n2, c2) (n3, c3) s = Inr s' \<and>
       handle_irq cpu clob pc s' = Inl Diverges"
    using s1(1,2) s3(1,2) s5(1,2) by (simp add: main_threads_def kernel_test_def kthread_test_def kthread_queue_userspace_def)
qed

theorem kernel_test_hangs_scheduler_witness:
  "\<exists>s'. main_threads True 0 0xF00 0xE00 0xA0 0xB0 (0x1000, 0x2000) (0x4000, 0x5000) (0x7000, 0x8000)
      (demo_kern (\<lambda>_. None) None 1) = Inr s' \<and> handle_irq 0 (\<lambda>_. 7) 0x80123 s' = Inl Diverges"
proof -
  let ?s = "demo_kern (\<lambda>_. None) None 1"
  have "kn_global_wqs ?s 0 = Some 0x100" "kn_pid_cntr ?s = 1" "tk_completed (kn_task ?s (kn_idle ?s)) = 0"
    "distinct [0, kn_idle ?s, 0x1000, 0x4000, 0x7000]" by (simp_all add: demo_kern_def zero_task_def)
  with kernel_test_hangs_scheduler [of 0 ?s "0x100" "0x1000" "0x4000" "0x7000" "0x2000" "0x5000" "0x8000" "0xF00" "0xE00" "0xA0" "0xB0"]
    demo_holds [of "\<lambda>_. None" None "[]" "0x100" 1]
  show ?thesis by auto
qed

section \<open>Interrupts before the first thread\<close>

primrec irqs :: "nat \<Rightarrow> nat \<Rightarrow> (nat \<Rightarrow> nat \<Rightarrow> u64) \<Rightarrow> u64 \<Rightarrow> kern \<Rightarrow> (u64 \<times> kern) result" where
  "irqs 0 cpu clobs pc s = Inr (pc, s)"
| "irqs (Suc k) cpu clobs pc s = bindR (handle_irq cpu (clobs k) pc s) (\<lambda>(pc, s). irqs k cpu clobs pc s)"

lemma handle_irq_idle:
  assumes "cpu < NR_CORES" and "kn_global_wqs s cpu = Some w" and "kn_pid_cntr s = 1" and "wq_holds w s []"
    and "tk_ctxt (kn_task s (kn_idle s)) = Some e"
  obtains s' where "handle_irq cpu clob pc s = Inr (pc, s')" and "cp_sp (kn_cpu s') = cp_sp (kn_cpu s) - 96"
    and "kn_global_wqs s' cpu = Some w" and "kn_pid_cntr s' = 1" and "wq_holds w s' []" and "tk_ctxt (kn_task s' (kn_idle s')) = Some e"
proof -
  let ?s = "save_frame pc s"
  have "wq_queue (kn_wq s w) = None" using assms(4) by (simp add: wq_holds_def)
  then have "handle_sched_irq cpu (cp_sp (kn_cpu ?s)) ?s =
      Inr (None, set_ctxt e (kn_ctxt ?s e\<lparr>cx_sp := cp_sp (kn_cpu ?s)\<rparr>) ?s\<lparr>kn_schedule_needed := 1\<rparr>)"
    using assms(1-3,5)
    by (simp add: handle_sched_irq_def get_curr_task_def wq_get_curr_def get_core_workqueue_def wq_queue_next_def wq_pop_def
        wq_print_def set_ctxt_def Let_def)
  then have "handle_irq cpu clob pc s =
      Inr (pc, clobber clob 31 (set_ctxt e (kn_ctxt ?s e\<lparr>cx_sp := cp_sp (kn_cpu ?s)\<rparr>) ?s\<lparr>kn_schedule_needed := 1\<rparr>))"
    by (simp add: handle_irq_def set_ctxt_def)
  then show thesis
    by (rule that) (use assms(2-5) in \<open>simp_all add: set_ctxt_def wq_holds_def clobber_def\<close>)
qed

text \<open>
  Until the first thread is created, a timer interrupt returns to the interrupted
  instruction, but leaves its frame on the stack, as the handler executes eret itself: after
  k interrupts the stack pointer is at least 96 k bytes lower than before, and the first
  4096 byte stack of a core is used up by 43 interrupts.
\<close>

theorem idle_irqs_leak_stack:
  assumes "cpu < NR_CORES" and "kn_global_wqs s cpu = Some w" and "kn_pid_cntr s = 1" and "wq_holds w s []"
    and "tk_ctxt (kn_task s (kn_idle s)) = Some e"
  shows "\<exists>s'. irqs k cpu clobs pc s = Inr (pc, s') \<and> cp_sp (kn_cpu s') = cp_sp (kn_cpu s) - 96 * word_of_nat k \<and> wq_holds w s' []"
  using assms(2-)
proof (induction k arbitrary: s)
  case (Suc k)
  obtain s1 where s1: "handle_irq cpu (clobs k) pc s = Inr (pc, s1)" "cp_sp (kn_cpu s1) = cp_sp (kn_cpu s) - 96"
    "kn_global_wqs s1 cpu = Some w" "kn_pid_cntr s1 = 1" "wq_holds w s1 []" "tk_ctxt (kn_task s1 (kn_idle s1)) = Some e"
    by (rule handle_irq_idle [OF assms(1) Suc.prems])
  show ?case using Suc.IH [OF s1(3-6)] s1(1,2) by (auto simp: algebra_simps)
qed simp

theorem idle_irqs_leak_stack_witness:
  "\<exists>s'. irqs 43 0 (\<lambda>_ _. 7) 0x80123 (demo_kern (\<lambda>_. None) None 1) = Inr (0x80123, s') \<and> cp_sp (kn_cpu s') = - 4128"
proof -
  let ?s = "demo_kern (\<lambda>_. None) None 1"
  have "kn_global_wqs ?s 0 = Some 0x100" "kn_pid_cntr ?s = 1" "tk_ctxt (kn_task ?s (kn_idle ?s)) = Some 0x10050"
    "cp_sp (kn_cpu ?s) = 0" by (simp_all add: demo_kern_def)
  with idle_irqs_leak_stack [of 0 ?s "0x100" "0x10050" 43 "\<lambda>_ _. 7" "0x80123"] demo_holds [of "\<lambda>_. None" None "[]" "0x100" 1]
  show ?thesis by auto
qed

end
