(* ===== verification/Thread_Print.thy ===== *)
theory Thread_Print
  imports Kernel_Threads Alloc_Print
begin

text \<open>
  The end of a thread with its message (kthread\_ret\_from\_fork of task.c) and the thread of
  the self-test (print\_msg of test.c). The state is that of the scheduler and that of the
  console; kprintf leaves the interrupt mask as it finds it.
\<close>

definition print_msg_loop :: "'s char_device option \<Rightarrow> u8 list \<Rightarrow> nat list \<Rightarrow> 's kstdio \<Rightarrow> 's kstdio result" where
  "print_msg_loop console t_msg is s =
     fold (\<lambda>i r. bindR r (kmsg console (chars ''%x %s'') [Arg_int (word_of_nat i), Arg_str t_msg])) is (Inr s)"

definition print_msg :: "'s char_device option \<Rightarrow> u8 list \<Rightarrow> 's kstdio \<Rightarrow> (u32 \<times> 's kstdio) result" where
  "print_msg console t_msg s = bindR (print_msg_loop console t_msg [0..<100] s) (\<lambda>s. Inr (5, s))"

text \<open>kthread\_ret\_from\_fork after the call of the thread, up to its endless loop of yields.\<close>

definition kthread_exit ::
  "'s char_device option \<Rightarrow> nat \<Rightarrow> u32 \<Rightarrow> kern \<times> 's kstdio \<Rightarrow> (kern \<times> 's kstdio) result" where
  "kthread_exit console cpu ret = (\<lambda>(k, s).
     let (flags, k) = irq_save k in
     bindR (get_curr_task cpu k) (\<lambda>t.
     bindR (derefR t) (\<lambda>t.
     bindR (kmsg console (chars ''Task (%d) returned with ret: %x'' @ [0x0A]) [Arg_int ret, Arg_int (tk_pid (kn_task k t))] s) (\<lambda>s.
     Inr (irq_restore flags (mark_completed t k), s)))))"

definition kthread_run ::
  "(u64 \<Rightarrow> u64 \<Rightarrow> kern \<times> 's kstdio \<Rightarrow> (u32 \<times> kern \<times> 's kstdio) result) \<Rightarrow> 's char_device option \<Rightarrow> nat \<Rightarrow>
    kern \<times> 's kstdio \<Rightarrow> (kern \<times> 's kstdio) result" where
  "kthread_run run console cpu = (\<lambda>(k, s).
     let (thread_fn, data, k) = thread_arguments k
     in bindR (run thread_fn data (k, s)) (\<lambda>(ret, ks). kthread_exit console cpu ret ks))"

text \<open>Without its message this is kthread\_finish of Tasks.\<close>

lemma get_curr_task_mask: "get_curr_task cpu (s\<lparr>kn_cpu := c\<rparr>) = get_curr_task cpu s"
  by (simp add: get_curr_task_def wq_get_curr_def get_core_workqueue_def)

lemma kthread_exit_eq:
  assumes "get_curr_task cpu k = Inr (Some t)"
  shows "kthread_exit console cpu ret (k, s) =
    bindR (kmsg console (chars ''Task (%d) returned with ret: %x'' @ [0x0A]) [Arg_int ret, Arg_int (tk_pid (kn_task k t))] s) (\<lambda>s.
    bindR (kthread_finish cpu k) (\<lambda>k. Inr (k, s)))"
  using assms by (simp add: kthread_exit_def kthread_finish_def irq_save_def get_curr_task_mask)

lemma kthread_finish_eq:
  assumes "get_curr_task cpu k = Inr (Some t)"
  shows "kthread_finish cpu k = Inr (mark_completed t k)"
  using assms
  by (simp add: kthread_finish_def irq_save_def irq_restore_def get_curr_task_mask mark_completed_def set_task_def)

definition exit_text :: "u32 \<Rightarrow> u32 \<Rightarrow> u8 list" where
  "exit_text ret pid = chars ''Task ('' @ item_text (Dec ret) @ chars '') returned with ret: '' @ item_text (Hex pid) @ [0x0A]"

lemma exit_prints:
  assumes "console_ok con b" and "0 < unat ret" and "unat ret \<le> 214748364"
  shows "says con b (kmsg con (chars ''Task (%d) returned with ret: %x'' @ [0x0A]) [Arg_int ret, Arg_int pid]) (exit_text ret pid)"
  using items_prints [OF assms(1), of "map Lit (chars ''Task ('') @ [Dec ret] @ map Lit (chars '') returned with ret: '') @ [Hex pid] @ [Lit 0x0A]"] assms(2,3)
  by (simp add: exit_text_def chars_def)

text \<open>
  The end of a thread. With a result between 1 and 214748364 the message is transmitted,
  with the result where the number of the task belongs and the other way round, and the
  task is marked as completed. With the result 0, which says that all went well, vprintf
  writes outside of its buffer, with or without a console.
\<close>

theorem kthread_exit_report:
  assumes "console_ok con b" and "console_ready con b s" and "get_curr_task cpu k = Inr (Some t)" and "unat ret \<le> 214748364"
  shows "if ret = 0 then kthread_exit con cpu ret (k, s) = Inl OutOfBounds
    else \<exists>l. kthread_exit con cpu ret (k, s) = Inr (mark_completed t k, s\<lparr>ks_dev := ks_dev s\<lparr>io_log := io_log (ks_dev s) @ l\<rparr>\<rparr>) \<and>
      (if con = None then l = []
       else transmits (uart_reg b AUX_MU_LSR) (uart_reg b AUX_MU_IO) lsr_idle l (exit_text ret (tk_pid (kn_task k t))))"
proof (cases "ret = 0")
  case True
  have "kmsg con (chars ''Task ('' @ chars ''%d'' @ (chars '') returned with ret: %x'' @ [0x0A])) (Arg_int 0 # as) s = Inl OutOfBounds" for as
    by (rule decimal_zero_faults [OF assms(1,2)]) (simp add: chars_def)
  then show ?thesis using True by (simp add: kthread_exit_eq [OF assms(3)] chars_def)
next
  case False
  then have "0 < unat ret" by (simp add: unat_gt_0)
  from says_step [OF exit_prints [OF assms(1) this assms(4)] assms(2), of "tk_pid (kn_task k t)"]
  obtain l where "kmsg con (chars ''Task (%d) returned with ret: %x'' @ [0x0A]) [Arg_int ret, Arg_int (tk_pid (kn_task k t))] s =
      Inr (s\<lparr>ks_dev := ks_dev s\<lparr>io_log := io_log (ks_dev s) @ l\<rparr>\<rparr>)"
    "con \<noteq> None \<Longrightarrow> transmits (uart_reg b AUX_MU_LSR) (uart_reg b AUX_MU_IO) lsr_idle l (exit_text ret (tk_pid (kn_task k t)))"
    "con = None \<Longrightarrow> l = []" by blast
  then have "kthread_exit con cpu ret (k, s) = Inr (mark_completed t k, s\<lparr>ks_dev := ks_dev s\<lparr>io_log := io_log (ks_dev s) @ l\<rparr>\<rparr>)"
    "if con = None then l = []
     else transmits (uart_reg b AUX_MU_LSR) (uart_reg b AUX_MU_IO) lsr_idle l (exit_text ret (tk_pid (kn_task k t)))"
    by (simp_all add: kthread_exit_eq [OF assms(3)] kthread_finish_eq [OF assms(3)])
  with False show ?thesis unfolding if_not_P [OF False] by blast
qed

theorem kthread_exit_report_witness:
  "\<exists>con s1 l. uart_init \<lparr>gc_base = 0, gc_generic = True\<rparr> ready_io = Inr (con, s1) \<and>
    kthread_exit (Some con) 0 0 (demo_kern ((\<lambda>_. None)(1 := Some 2, 2 := Some 3)) (Some 1) 4, \<lparr>ks_daif = 0, ks_lock = 0, ks_dev = quiet_io\<rparr>) = Inl OutOfBounds \<and>
    kthread_exit (Some con) 0 5 (demo_kern ((\<lambda>_. None)(1 := Some 2, 2 := Some 3)) (Some 1) 4, \<lparr>ks_daif = 0, ks_lock = 0, ks_dev = quiet_io\<rparr>) =
      Inr (mark_completed 1 (demo_kern ((\<lambda>_. None)(1 := Some 2, 2 := Some 3)) (Some 1) 4), \<lparr>ks_daif = 0, ks_lock = 0, ks_dev = quiet_io\<lparr>io_log := l\<rparr>\<rparr>)"
proof -
  let ?k = "demo_kern ((\<lambda>_. None)(1 := Some 2, 2 := Some 3)) (Some 1) 4" and ?s = "\<lparr>ks_daif = 0, ks_lock = 0, ks_dev = quiet_io\<rparr>"
  obtain con s1 where u: "uart_init \<lparr>gc_base = 0, gc_generic = True\<rparr> ready_io = Inr (con, s1)" "serial_console con 0xFFFFFF803F215000"
    by (rule ready_console)
  have c: "console_ok (Some con) 0xFFFFFF803F215000" "console_ready (Some con) 0xFFFFFF803F215000 ?s"
    using u(2) quiet_io_ready by (simp_all add: console_ok_def console_ready_def)
  have t: "get_curr_task 0 ?k = Inr (Some 1)"
    by (rule get_curr_task_head [OF _ _ _ demo_three]) (simp_all add: demo_kern_def)
  obtain l where "kthread_exit (Some con) 0 5 (?k, ?s) = Inr (mark_completed 1 ?k, ?s\<lparr>ks_dev := ks_dev ?s\<lparr>io_log := io_log (ks_dev ?s) @ l\<rparr>\<rparr>)"
    using kthread_exit_report [OF c t, of 5] by auto
  moreover have "kthread_exit (Some con) 0 0 (?k, ?s) = Inl OutOfBounds"
    using kthread_exit_report [OF c t, of 0] by simp
  ultimately show ?thesis using u(1) by (auto simp: quiet_io_def)
qed

section \<open>The thread of the self-test\<close>

definition msg_text :: "u8 list \<Rightarrow> nat \<Rightarrow> u8 list" where
  "msg_text t_msg i = item_text (Hex (word_of_nat i)) @ chars '' '' @ t_msg"

lemma msg_prints:
  assumes "console_ok con b" and "0 \<notin> set t_msg"
  shows "says con b (kmsg con (chars ''%x %s'') [Arg_int (word_of_nat i), Arg_str t_msg]) (msg_text t_msg i)"
  using items_prints [OF assms(1), of "[Hex (word_of_nat i), Lit 0x20, Str t_msg]"] assms(2)
  by (simp add: msg_text_def chars_def)

lemma print_msg_loop_prints:
  assumes "console_ok con b" and "0 \<notin> set t_msg"
  shows "says con b (print_msg_loop con t_msg is) (concat (map (msg_text t_msg) is))"
proof (induction "is" rule: rev_induct)
  case Nil
  have "print_msg_loop con t_msg [] = Inr" by (simp add: print_msg_loop_def fun_eq_iff)
  then show ?case by (simp add: says_none)
next
  case (snoc i "is")
  have "print_msg_loop con t_msg (is @ [i]) =
      (\<lambda>s. bindR (print_msg_loop con t_msg is s) (kmsg con (chars ''%x %s'') [Arg_int (word_of_nat i), Arg_str t_msg]))"
    by (simp add: print_msg_loop_def fun_eq_iff)
  then show ?case using says_bind [OF snoc.IH msg_prints [OF assms, of i]] by simp
qed

text \<open>
  A thread of the self-test runs to its end: it transmits a hundred numbered copies of its
  message, then the message that it returned 5, and the task at the front of the queue is
  marked as completed, so that the scheduler drops it.
\<close>

theorem print_msg_completes:
  assumes "serial_console con b" and "gets_ready (io_dev (ks_dev s)) (uart_reg b AUX_MU_LSR) lsr_idle" and "ks_lock s = 0"
    and "cpu < NR_CORES" and "kn_global_wqs k cpu = Some w" and "kn_pid_cntr k \<noteq> 1" and "wq_holds w k (t # ts)" and "0 \<notin> set t_msg"
  shows "\<exists>l k'. kthread_run (\<lambda>fn data (k, s). bindR (print_msg (Some con) t_msg s) (\<lambda>(ret, s). Inr (ret, k, s))) (Some con) cpu (k, s) =
      Inr (k', s\<lparr>ks_dev := ks_dev s\<lparr>io_log := io_log (ks_dev s) @ l\<rparr>\<rparr>) \<and>
    k' = mark_completed t k \<and> has_completed t k' \<and>
    transmits (uart_reg b AUX_MU_LSR) (uart_reg b AUX_MU_IO) lsr_idle l
      (concat (map (msg_text t_msg) [0..<100]) @ exit_text 5 (tk_pid (kn_task k t)))"
proof -
  have c: "console_ok (Some con) b" "console_ready (Some con) b s" using assms(1-3) by (simp_all add: console_ok_def console_ready_def)
  have t: "get_curr_task cpu k = Inr (Some t)" by (rule get_curr_task_head [OF assms(4-7)])
  let ?f = "\<lambda>s. bindR (print_msg_loop (Some con) t_msg [0..<100] s)
    (kmsg (Some con) (chars ''Task (%d) returned with ret: %x'' @ [0x0A]) [Arg_int 5, Arg_int (tk_pid (kn_task k t))])"
  obtain l where l: "?f s = Inr (s\<lparr>ks_dev := ks_dev s\<lparr>io_log := io_log (ks_dev s) @ l\<rparr>\<rparr>)"
    "Some con \<noteq> None \<Longrightarrow> transmits (uart_reg b AUX_MU_LSR) (uart_reg b AUX_MU_IO) lsr_idle l
      (concat (map (msg_text t_msg) [0..<100]) @ exit_text 5 (tk_pid (kn_task k t)))"
    by (rule says_step [OF says_bind [OF print_msg_loop_prints [OF c(1) assms(8), of "[0..<100]"]
        exit_prints [OF c(1), of 5 "tk_pid (kn_task k t)"]] c(2)]) (simp, simp, rule that)
  have e: "kthread_exit (Some con) cpu 5 (k, s) = bindR (kmsg (Some con) (chars ''Task (%d) returned with ret: %x'' @ [0x0A])
      [Arg_int 5, Arg_int (tk_pid (kn_task k t))] s) (\<lambda>s. Inr (mark_completed t k, s))" for s
    by (simp add: kthread_exit_eq [OF t] kthread_finish_eq [OF t])
  have "kthread_run (\<lambda>fn data (k, s). bindR (print_msg (Some con) t_msg s) (\<lambda>(ret, s). Inr (ret, k, s))) (Some con) cpu (k, s) =
      bindR (?f s) (\<lambda>s. Inr (mark_completed t k, s))"
    by (simp add: kthread_run_def thread_arguments_eq print_msg_def bindR_assoc e)
  moreover have "has_completed t (mark_completed t k)" by (simp add: has_completed_def mark_completed_def set_task_def)
  ultimately show ?thesis using l by (intro exI [of _ l] exI [of _ "mark_completed t k"]) simp
qed

theorem print_msg_completes_witness:
  "\<exists>con s1 l. uart_init \<lparr>gc_base = 0, gc_generic = True\<rparr> ready_io = Inr (con, s1) \<and>
    kthread_run (\<lambda>fn data (k, s). bindR (print_msg (Some con) (chars ''Hello'' @ [0x0A]) s) (\<lambda>(ret, s). Inr (ret, k, s))) (Some con) 0
      (demo_kern ((\<lambda>_. None)(1 := Some 2, 2 := Some 3)) (Some 1) 4, \<lparr>ks_daif = 0, ks_lock = 0, ks_dev = quiet_io\<rparr>) =
      Inr (mark_completed 1 (demo_kern ((\<lambda>_. None)(1 := Some 2, 2 := Some 3)) (Some 1) 4), \<lparr>ks_daif = 0, ks_lock = 0, ks_dev = quiet_io\<lparr>io_log := l\<rparr>\<rparr>)"
proof -
  let ?k = "demo_kern ((\<lambda>_. None)(1 := Some 2, 2 := Some 3)) (Some 1) 4" and ?s = "\<lparr>ks_daif = 0, ks_lock = 0, ks_dev = quiet_io\<rparr>"
  obtain con s1 where u: "uart_init \<lparr>gc_base = 0, gc_generic = True\<rparr> ready_io = Inr (con, s1)" "serial_console con 0xFFFFFF803F215000"
    by (rule ready_console)
  have g: "gets_ready (io_dev (ks_dev ?s)) a lsr_idle" "ks_lock ?s = 0" for a using quiet_io_ready by simp_all
  have k: "0 < NR_CORES" "kn_global_wqs ?k 0 = Some 0x100" "kn_pid_cntr ?k \<noteq> 1" "0 \<notin> set (chars ''Hello'' @ [0x0A])"
    by (simp_all add: demo_kern_def chars_def)
  show ?thesis
    using print_msg_completes [OF u(2) g k(1-3) demo_three k(4)] u(1) by (auto simp: quiet_io_def)
qed

end
