(* ===== verification/Boot.thy ===== *)
theory Boot
  imports Mmu_Props Slub_Inv Page_Alloc_Calls
begin

text \<open>
  The first part of main, across the components: init\_free\_list on the pool of pages, the
  pages that it hands out as translation tables, init\_mmu on the tables of the boot code,
  and the set-up of the devices.
\<close>

section \<open>Pages of the pool as table pages\<close>

text \<open>The physical addresses of the pool.\<close>

definition pool_phys :: "u64 \<Rightarrow> nat \<Rightarrow> nat set" where
  "pool_phys base t = {unat (va_to_pa base) ..< unat (va_to_pa base) + blk_bytes t}"

lemma pool_page:
  assumes "page_ok base" and "unat (va_to_pa base) + blk_bytes t \<le> 2 ^ 32"
    and "aligned p 0" and "region p 0 \<subseteq> region base t"
  shows "page_ok p" and "unat (va_to_pa p) = unat (va_to_pa base) + (unat p - unat base)"
    and "unat (va_to_pa p) + 4096 \<le> unat (va_to_pa base) + blk_bytes t" and "unat base \<le> unat p"
proof -
  define d where "d = unat p - unat base"
  let ?q = "va_to_pa base" and ?w = "word_of_nat d :: u64"
  have "unat p \<in> region base t" "unat p + 4095 \<in> region base t"
    using assms(4) by (auto simp: region_def blk_bytes_def)
  then have r: "unat base \<le> unat p" "d + 4096 \<le> blk_bytes t" by (auto simp: region_def d_def)
  show "unat base \<le> unat p" by (rule r(1))
  have d: "d < 2 ^ 32" using r(2) assms(2) by simp
  then have w: "unat ?w = d" by (simp add: unat_of_nat)
  have "unat base + d = unat p" using r(1) by (simp add: d_def)
  moreover have "unat p < 2 ^ 64" by (rule order.strict_trans2 [OF unsigned_less]) simp
  ultimately have p: "p = base + ?w" by (simp add: word_unat_eq_iff unat_word_ariths w)
  have sum: "unat (?q + ?w) = unat ?q + d"
    using assms(2) r(2) w by (subst unat_plus_simple [THEN iffD1]) (auto simp: no_olen_add_nat)
  have al: "4096 dvd unat base" "4096 dvd unat ?q"
    using assms(1)
  proof -
    show "4096 dvd unat ?q" using page_ok_page [OF assms(1)] by (simp add: page_addr_iff)
    have "unat base mod 4096 = 0" using page_phys(2) [OF assms(1)] unat_low_part [of base] by simp
    then show "4096 dvd unat base" by (simp add: dvd_eq_mod_eq_0)
  qed
  have "4096 dvd unat p" using assms(3) by (simp add: aligned_def blk_bytes_def dvd_eq_mod_eq_0)
  then have "4096 dvd d" using al(1) by (simp add: d_def)
  then have qa: "page_addr (?q + ?w)" using sum al(2) assms(2) r(2) by (simp add: page_addr_iff)
  have "0 < unat ?q" using assms(1) by (simp add: page_ok_def unat_gt_0)
  then have "0 < unat (?q + ?w)" using sum by simp
  then have qn: "?q + ?w \<noteq> 0" by (simp add: unat_gt_0)
  have pp: "page_ok p \<and> va_to_pa p = ?q + ?w"
    using assms(1)
  proof (cases rule: page_ok_cases)
    case 1
    have "p = ?q + ?w" unfolding p by (rule arg_cong [OF 1(3)])
    then show ?thesis using qa qn page_low [of "?q + ?w"] by (simp add: page_ok_def)
  next
    case 2
    have "p = KERNEL_START + (?q + ?w)" unfolding p add.assoc [symmetric] by (rule arg_cong [OF 2(3)])
    then show ?thesis
      using qa qn va_to_pa_kernel [of "?q + ?w"] kernel_plus [of "?q + ?w"]
      by (simp add: page_ok_def)
  qed
  then show "page_ok p" "unat (va_to_pa p) = unat ?q + (unat p - unat base)" using sum by (simp_all add: d_def)
  then show "unat (va_to_pa p) + 4096 \<le> unat ?q + blk_bytes t" using r(2) by (simp add: d_def)
qed


lemma pool_pages_heap:
  assumes "pool_ok base sz t" and "init_free_list base sz fl_meta_zero = Inr m0" and "take_pages n m0 = Inr (ps, m)" and "0 \<notin> set ps"
    and "page_ok base" and "unat (va_to_pa base) + blk_bytes t \<le> 2 ^ 32"
  shows "\<forall>p\<in>set ps. page_ok p \<and> unat (va_to_pa p) \<in> pool_phys base t \<and> unat (va_to_pa p) + 4096 \<le> unat (va_to_pa base) + blk_bytes t"
    and "distinct (map va_to_pa ps)" and "length ps = n"
proof -
  have "pa_inv (region base t) t (m0, [])"
    using page_alloc_calls.reach_inv [OF reach_init, of base sz t "(m0, [])"] assms(1,2) by (simp add: pa_boot_def)
  from take_pages_disjoint [OF assms(3) this assms(4)]
  have d: "length ps = n" "\<forall>p\<in>set ps. aligned p 0 \<and> region p 0 \<subseteq> region base t"
    "\<forall>i<n. \<forall>j<n. i \<noteq> j \<longrightarrow> region (ps ! i) 0 \<inter> region (ps ! j) 0 = {}" by auto
  have pg: "page_ok p" "unat (va_to_pa p) = unat (va_to_pa base) + (unat p - unat base)"
    "unat (va_to_pa p) + 4096 \<le> unat (va_to_pa base) + blk_bytes t" "unat base \<le> unat p" if "p \<in> set ps" for p
    using pool_page [OF assms(5,6)] d(2) that by blast+
  show "\<forall>p\<in>set ps. page_ok p \<and> unat (va_to_pa p) \<in> pool_phys base t \<and> unat (va_to_pa p) + 4096 \<le> unat (va_to_pa base) + blk_bytes t"
    using pg by (force simp: pool_phys_def)
  show "length ps = n" by (rule d(1))
  show "distinct (map va_to_pa ps)"
  proof (subst distinct_conv_nth, intro allI impI)
    fix i j assume ij: "i < length (map va_to_pa ps)" "j < length (map va_to_pa ps)" "i \<noteq> j"
    then have "ps ! i \<in> set ps" "ps ! j \<in> set ps" by simp_all
    note p = pg(2,4) [OF this(1)] pg(2,4) [OF this(2)]
    have "unat (ps ! i) \<in> region (ps ! i) 0" "unat (ps ! j) \<in> region (ps ! j) 0" by (simp_all add: region_def blk_bytes_def)
    moreover have "region (ps ! i) 0 \<inter> region (ps ! j) 0 = {}" using d(1,3) ij by simp
    ultimately have "unat (ps ! i) \<noteq> unat (ps ! j)" by auto
    then have "unat (va_to_pa (ps ! i)) \<noteq> unat (va_to_pa (ps ! j))" using p by simp
    then show "map va_to_pa ps ! i \<noteq> map va_to_pa ps ! j" using ij by auto
  qed
qed

lemma pool_boot:
  assumes "pool_ok base sz t" and "page_ok base" and "unat (va_to_pa base) + blk_bytes t \<le> 2 ^ 32"
    and "init_free_list base sz fl_meta_zero = Inr m0" and "take_pages (2 * n + 9) m0 = Inr (ps, m)" and "0 \<notin> set ps" and "n < 50"
    and "io_pt (ks_dev k) = \<lparr>ps_mem = mem, ps_desc = descs, ps_global = None, ps_ctr = 0, ps_heap = ps\<rparr>"
    and "\<forall>a. unat a \<in> pool_phys base t \<longrightarrow> mem a = 0"
    and "boot_tables mem (sr_ttbr1 r) t2 t3" and "\<forall>a\<in>{sr_ttbr1 r, t2, t3}. unat a \<notin> pool_phys base t"
    and "drop_bit 4 reg AND 0xFFF = 0xD03" and "gets_ready (io_dev (ks_dev k)) serial_status lsr_idle" and "ks_lock k = 0"
  obtains p console tmr irq k' g where "init_mmu 0 (r, io_pt (ks_dev k)) = Inr (r\<lparr>sr_mair := mair_el1\<rparr>, p)"
    and "main_devices reg ctrl (k\<lparr>ks_dev := ks_dev k\<lparr>io_pt := p\<rparr>\<rparr>) = Inr (Some console, tmr, irq, k')"
    and "\<And>b. hw_walk (ps_mem (io_pt (ks_dev k'))) (sr_ttbr1 r) b =
      (if \<exists>a\<in>set device_pages. b AND VA_PAGE = a AND VA_PAGE then Some (va_to_pa b)
       else hw_walk mem (sr_ttbr1 r) b)"
    and "dev_tables n g (sr_ttbr1 r) (io_pt (ks_dev k'))" and "ks_lock k' = 0" and "io_dev (ks_dev k') = io_dev (ks_dev k)"
    and "cd_putc console = mini_uart_putc (pa_to_va 0x3F215000)" and "cd_puts console = mini_uart_puts (pa_to_va 0x3F215000)"
proof -
  note pages = pool_pages_heap [OF assms(1,4,5,6,2,3)]
  obtain g hs where ps: "ps = g # hs" "length hs = 2 * n + 8" using pages(3) by (cases ps) auto
  have z: "mem (va_to_pa p + 8 * i) = 0" if "p \<in> set ps" "i < 512" for p i
  proof -
    have p: "page_ok p" "unat (va_to_pa p) \<in> pool_phys base t" "unat (va_to_pa p) + 4096 \<le> unat (va_to_pa base) + blk_bytes t"
      using pages(1) that(1) by blast+
    have "unat (8 * i) \<le> 4088" using that(2) by (simp add: unat_word_ariths word_less_nat_alt)
    then have "unat (va_to_pa p + 8 * i) = unat (va_to_pa p) + unat (8 * i) \<and> unat (8 * i) < 4096"
      using p(3) assms(3) by (subst unat_plus_simple [THEN iffD1]) (auto simp: no_olen_add_nat)
    then have "unat (va_to_pa p + 8 * i) \<in> pool_phys base t" using p(2,3) by (auto simp: pool_phys_def)
    then show ?thesis using assms(9) by blast
  qed
  have h: "ps_heap (io_pt (ks_dev k)) = g # hs" "ps_global (io_pt (ks_dev k)) = None" "ps_ctr (io_pt (ks_dev k)) = 0"
    "ps_mem (io_pt (ks_dev k)) = mem"
    using assms(8) ps(1) by simp_all
  have hk: "heap_ok (io_pt (ks_dev k)\<lparr>ps_heap := hs\<rparr>) []" using pages(1,2) z ps(1) h(4) by (simp add: heap_ok_def)
  have dj: "\<forall>p\<in>set hs. va_to_pa p \<notin> {sr_ttbr1 r, t2, t3}" using pages(1) assms(11) ps(1) by auto
  have g: "page_ok g" "2 * (n + 4) \<le> length hs" using pages(1) ps by auto
  have bt: "boot_tables (ps_mem (io_pt (ks_dev k))) (sr_ttbr1 r) t2 t3" using assms(10) unfolding h(4) .
  show thesis
    by (rule boot_run [OF bt h(2,3,1) g(2) assms(7) g(1) hk dj assms(12-14), of ctrl, unfolded h(4)]) (rule that)
qed

text \<open>
  The boot of the first core, from the pool of pages to the armed timer: init_free_list
  makes the pool, and with pages from it for the tables, on clean memory that does not
  contain the tables of the boot code, and a serial line that gets ready, init_mmu and the set-up of the devices return. The
  addresses of the boot code are translated as before, and the four device pages are
  mapped to themselves in addition.
\<close>

theorem kernel_boot:
  assumes "pool_ok base sz t" and "page_ok base" and "unat (va_to_pa base) + blk_bytes t \<le> 2 ^ 32"
    and "init_free_list base sz fl_meta_zero = Inr m0" and "take_pages 9 m0 = Inr (ps, m)" and "0 \<notin> set ps"
    and "io_pt (ks_dev k) = \<lparr>ps_mem = mem, ps_desc = descs, ps_global = None, ps_ctr = 0, ps_heap = ps\<rparr>"
    and "\<forall>a. unat a \<in> pool_phys base t \<longrightarrow> mem a = 0"
    and "boot_tables mem (sr_ttbr1 r) t2 t3" and "\<forall>a\<in>{sr_ttbr1 r, t2, t3}. unat a \<notin> pool_phys base t"
    and "drop_bit 4 reg AND 0xFFF = 0xD03" and "gets_ready (io_dev (ks_dev k)) serial_status lsr_idle" and "ks_lock k = 0"
  shows "\<exists>p console tmr irq k'. init_mmu 0 (r, io_pt (ks_dev k)) = Inr (r\<lparr>sr_mair := mair_el1\<rparr>, p) \<and>
    main_devices reg ctrl (k\<lparr>ks_dev := ks_dev k\<lparr>io_pt := p\<rparr>\<rparr>) = Inr (Some console, tmr, irq, k') \<and>
    (\<forall>b. hw_walk (ps_mem (io_pt (ks_dev k'))) (sr_ttbr1 r) b =
      (if \<exists>a\<in>set device_pages. b AND VA_PAGE = a AND VA_PAGE then Some (va_to_pa b)
       else hw_walk mem (sr_ttbr1 r) b))"
proof -
  have t: "take_pages (2 * 0 + 9) m0 = Inr (ps, m)" using assms(5) by simp
  show ?thesis by (rule pool_boot [OF assms(1-4) t assms(6) _ assms(7-13), of ctrl]) (simp, blast)
qed

definition demo_kernel :: "u64 list \<Rightarrow> io kstdio" where
  "demo_kernel ps = demo_kstdio (quiet_io\<lparr>io_pt := (io_pt demo_boot)\<lparr>ps_heap := ps\<rparr>\<rparr>)"

lemma demo_pool_pages:
  "\<exists>m. take_pages 9 (pool_state 0x10000 4) =
     Inr ([0x1F000, 0x1E000, 0x1D000, 0x1C000, 0x1B000, 0x1A000, 0x19000, 0x18000, 0x17000], m)"
proof -
  have "map_sum id fst (take_pages 9 (pool_state 0x10000 4)) =
      Inr [0x1F000, 0x1E000, 0x1D000, 0x1C000, 0x1B000, 0x1A000, 0x19000, 0x18000, 0x17000]" by code_simp
  then show ?thesis by (auto simp: map_sum_def split: sum.splits)
qed

theorem kernel_boot_witness:
  "\<exists>ps p console tmr irq k'. ps = [0x1F000, 0x1E000, 0x1D000, 0x1C000, 0x1B000, 0x1A000, 0x19000, 0x18000, 0x17000] \<and>
    init_mmu 0 (demo_regs, io_pt (ks_dev (demo_kernel ps))) = Inr (demo_regs\<lparr>sr_mair := mair_el1\<rparr>, p) \<and>
    main_devices 0x410FD034 \<lparr>gc_base = 0, gc_generic = False\<rparr> (demo_kernel ps\<lparr>ks_dev := ks_dev (demo_kernel ps)\<lparr>io_pt := p\<rparr>\<rparr>) = Inr (Some console, tmr, irq, k') \<and>
    hw_walk (ps_mem (io_pt (ks_dev k'))) 0x180000 0x3F215040 = Some 0x3F215040"
proof -
  let ?ps = "[0x1F000, 0x1E000, 0x1D000, 0x1C000, 0x1B000, 0x1A000, 0x19000, 0x18000, 0x17000] :: u64 list"
  let ?mem = "(\<lambda>_. 0)(0x180000 := 0x181000 OR INIT_PT_FLAGS, 0x181000 := 0x182000 OR INIT_PT_FLAGS) :: u64 \<Rightarrow> u64"
  have ok: "pool_ok 0x10000 0x10000 4" by (simp add: pool_ok_def aligned_def blk_bytes_def)
  have pg: "page_ok 0x10000" by (simp add: page_ok_def page_addr_def va_to_pa_def)
  have phys: "pool_phys 0x10000 4 = {0x10000 ..< 0x20000}" by (simp add: pool_phys_def va_to_pa_def blk_bytes_def)
  have run: "init_free_list 0x10000 0x10000 fl_meta_zero = Inr (pool_state 0x10000 4)"
    by (rule init_free_list_pool) (simp_all add: blk_bytes_def)
  obtain m where m: "take_pages 9 (pool_state 0x10000 4) = Inr (?ps, m)" using demo_pool_pages by blast
  have io: "io_pt (ks_dev (demo_kernel ?ps)) = \<lparr>ps_mem = ?mem, ps_desc = \<lambda>_. zero_desc, ps_global = None, ps_ctr = 0, ps_heap = ?ps\<rparr>"
    by (simp add: demo_kernel_def demo_boot_def demo_kstdio_def)
  have clean: "\<forall>a. unat a \<in> pool_phys 0x10000 4 \<longrightarrow> ?mem a = 0" by (auto simp: phys)
  have bt: "boot_tables ?mem (sr_ttbr1 demo_regs) 0x181000 0x182000"
    using demo_boot_tables_ok by (simp add: demo_boot_def)
  have out: "\<forall>a\<in>{sr_ttbr1 demo_regs, 0x181000, 0x182000}. unat a \<notin> pool_phys 0x10000 4"
    by (simp add: phys demo_regs_def)
  have sz: "unat (va_to_pa 0x10000) + blk_bytes 4 \<le> 2 ^ 32" by (simp add: va_to_pa_def blk_bytes_def)
  have rd: "gets_ready (io_dev (ks_dev (demo_kernel ?ps))) serial_status lsr_idle" "ks_lock (demo_kernel ?ps) = 0"
    using quiet_io_ready by (simp_all add: demo_kernel_def demo_kstdio_def)
  obtain p console tmr irq k' where k': "init_mmu 0 (demo_regs, io_pt (ks_dev (demo_kernel ?ps))) = Inr (demo_regs\<lparr>sr_mair := mair_el1\<rparr>, p)"
    "main_devices 0x410FD034 \<lparr>gc_base = 0, gc_generic = False\<rparr> (demo_kernel ?ps\<lparr>ks_dev := ks_dev (demo_kernel ?ps)\<lparr>io_pt := p\<rparr>\<rparr>) = Inr (Some console, tmr, irq, k')"
    "\<forall>b. hw_walk (ps_mem (io_pt (ks_dev k'))) (sr_ttbr1 demo_regs) b =
      (if \<exists>a\<in>set device_pages. b AND VA_PAGE = a AND VA_PAGE then Some (va_to_pa b)
       else hw_walk ?mem (sr_ttbr1 demo_regs) b)"
    using kernel_boot [OF ok pg sz run m _ io clean bt out _ rd,
        of "0x410FD034" "\<lparr>gc_base = 0, gc_generic = False\<rparr>"] by auto
  have "hw_walk (ps_mem (io_pt (ks_dev k'))) 0x180000 0x3F215040 = Some (va_to_pa 0x3F215040)"
    using k'(3) by (simp add: device_pages_def demo_regs_def)
  then show ?thesis
    using k'(1,2) by (intro exI [of _ ?ps] exI [of _ p] exI [of _ console] exI [of _ tmr] exI [of _ irq] exI [of _ k'])
      (simp add: va_to_pa_def)
qed

end
