(* ===== verification/Start_Code.thy ===== *)
theory Start_Code
  imports Mmu_Props
begin

text \<open>
  The start of a core in assembly: boot.S from the entry of the kernel to the call of main,
  the way of a remote core through proc.S, and the macros of asm/assembler.h, asm/mmu.h and
  asm/pt.h. A block of instructions is a function on the registers that it touches and, where
  it stores, on the memory, which is addressed physically. Addresses of symbols are arguments.
\<close>

section \<open>Registers\<close>

text \<open>
  Those of Mmu, with the exception level, the mask of exceptions and the registers that are
  set on the way to EL1. The field sr\_sp is the stack pointer in use.
\<close>

record core_regs =
  cr_el :: u64
  cr_daif :: u64
  cr_scr :: u64
  cr_cnthctl :: u64
  cr_cntvoff :: u64
  cr_hcr :: u64
  cr_sctlr :: u64
  cr_sp_el1 :: u64
  cr_sp_el2 :: u64
  cr_sys :: sys_regs

definition set_sys :: "(sys_regs \<Rightarrow> sys_regs) \<Rightarrow> core_regs \<Rightarrow> core_regs" where
  "set_sys f r = r\<lparr>cr_sys := f (cr_sys r)\<rparr>"

text \<open>The return of an exception: the saved state has the level and the mask.\<close>

definition eret :: "u64 \<Rightarrow> core_regs \<Rightarrow> core_regs" where
  "eret spsr r =
     (let el = drop_bit 2 spsr AND 3;
          r = r\<lparr>cr_el := el, cr_daif := spsr AND 0x3C0\<rparr>
      in set_sys (sr_sp_update (\<lambda>_. if el = 1 then cr_sp_el1 r else cr_sp_el2 r)) r)"

text \<open>The register CurrentEL has the level in bits 2 and 3.\<close>

definition curr_core_el :: "core_regs \<Rightarrow> u64" where
  "curr_core_el r =
     (let x0 = push_bit 2 (cr_el r);
          x0 = drop_bit 2 x0
      in x0 AND 0x0F)"

definition curr_core_id :: "u64 \<Rightarrow> u64" where
  "curr_core_id mpidr = mpidr AND 3"

section \<open>The way to EL1\<close>

definition leave_el3 :: "core_regs \<Rightarrow> core_regs" where
  "leave_el3 r =
     (let x1 = 0x1;
          x1 = x1 OR 0x80;
          x1 = x1 OR 0x100;
          x1 = x1 OR 0x400;
          r = r\<lparr>cr_scr := x1\<rparr>;
          x1 = 0x9;
          x1 = x1 OR 0x300
      in eret x1 r)"

text \<open>The first value for sctlr\_el1 is overwritten in the register x0.\<close>

definition leave_el2 :: "u64 \<Rightarrow> core_regs \<Rightarrow> core_regs" where
  "leave_el2 sp r =
     (let x0 = cr_cnthctl r;
          x0 = x0 OR 0x1;
          x0 = x0 OR 0x2;
          r = r\<lparr>cr_cnthctl := x0\<rparr>;
          r = r\<lparr>cr_cntvoff := 0\<rparr>;
          x0 = cr_hcr r;
          x0 = x0 OR 0x2;
          x0 = x0 OR push_bit 31 1;
          r = r\<lparr>cr_hcr := x0\<rparr>;
          x0 = 0x800 :: u64;
          x0 = push_bit 16 1;
          x0 = x0 OR push_bit 18 1;
          x0 = x0 OR push_bit 19 1;
          r = r\<lparr>cr_sctlr := x0\<rparr>;
          x0 = 0x5;
          x0 = x0 OR 0x300;
          spsr = x0;
          r = r\<lparr>cr_sp_el1 := sp\<rparr>
      in eret spsr r)"

text \<open>m\_\_jump\_to\_EL1 of boot.S; \<^verbatim>\<open>adrp\<close> gives the page of the symbol.\<close>

definition m_jump_to_EL1 :: "u64 \<Rightarrow> core_regs \<Rightarrow> core_regs" where
  "m_jump_to_EL1 core0_stack r =
     (if curr_core_el r = 1 then r
      else
        let r = (if curr_core_el r = 3 then leave_el3 r else r)
        in if curr_core_el r = 2 then leave_el2 (core0_stack AND NOT 0xFFF) r else r)"

section \<open>The first tables\<close>

abbreviation INIT_PAGE_FLAGS :: u64 where "INIT_PAGE_FLAGS \<equiv> 0x0040000000000703"
abbreviation INIT_TCR_EL1_TTBR0 :: u64 where "INIT_TCR_EL1_TTBR0 \<equiv> 0x19"
abbreviation INIT_TCR_EL1_TTBR1 :: u64 where "INIT_TCR_EL1_TTBR1 \<equiv> 0x80190000"
abbreviation VMEM_OFFSET :: u64 where "VMEM_OFFSET \<equiv> 0xFFFFFF8000000000"
abbreviation PT_SIZE :: u64 where "PT_SIZE \<equiv> 0x1000"
abbreviation PTE_SIZE :: u64 where "PTE_SIZE \<equiv> 8"
abbreviation CORE_STACK_SIZE :: u64 where "CORE_STACK_SIZE \<equiv> 0x1000"
abbreviation BSS_SIZE :: u32 where "BSS_SIZE \<equiv> 0xA000"

partial_function (option) next_pte :: "u64 \<Rightarrow> u64 \<Rightarrow> u64 \<Rightarrow> (u64 \<Rightarrow> u64) \<Rightarrow> (u64 \<Rightarrow> u64) option" where
  "next_pte x0 x2 x5 m =
     (let x1 = INIT_PAGE_FLAGS;
          x1 = x1 OR x2;
          m = m(x0 := x1);
          x0 = x0 + PTE_SIZE;
          x2 = x2 + 0x1000
      in if x2 \<le>s x5 then next_pte x0 x2 x5 m else Some m)"

definition m_populate_pt_pages :: "u64 \<Rightarrow> (u64 \<Rightarrow> u64) \<Rightarrow> (u64 \<Rightarrow> u64) result" where
  "m_populate_pt_pages x0 m = loopR (next_pte x0 0 0x1F0000 m)"

definition m_setup_mair :: "core_regs \<Rightarrow> core_regs" where
  "m_setup_mair = set_sys (sr_mair_update (\<lambda>_. 0x0040DD))"

definition m_tcr :: "core_regs \<Rightarrow> core_regs" where
  "m_tcr = set_sys (sr_tcr_update (\<lambda>_. INIT_TCR_EL1_TTBR0))"

definition m_sctlr :: "core_regs \<Rightarrow> core_regs" where
  "m_sctlr r =
     (let x0 = 0xC00800;
          x0 = x0 AND NOT (push_bit 1 1);
          x0 = x0 AND NOT (push_bit 25 1);
          x0 = x0 OR 0x1
      in r\<lparr>cr_sctlr := x0\<rparr>)"

definition m_setup_mmu :: "core_regs \<Rightarrow> core_regs" where
  "m_setup_mmu r = m_sctlr (m_tcr (m_setup_mair r))"

definition m_prep_ttbr1_el1 :: "core_regs \<Rightarrow> core_regs" where
  "m_prep_ttbr1_el1 r =
     (let r = set_sys (\<lambda>q. q\<lparr>sr_ttbr1 := sr_ttbr0 q\<rparr>) r;
          r = set_sys (\<lambda>q. q\<lparr>sr_tcr := sr_tcr q OR INIT_TCR_EL1_TTBR1\<rparr>) r
      in set_sys (\<lambda>q. q\<lparr>sr_sp := sr_sp q + VMEM_OFFSET\<rparr>) r)"

definition switch_to_highmem :: "core_regs \<Rightarrow> core_regs" where
  "switch_to_highmem = set_sys (\<lambda>q. q\<lparr>sr_lr := sr_lr q OR VMEM_OFFSET\<rparr>)"

text \<open>The address after the call of switch\_to\_highmem is \<open>after\<close>, which is physical.\<close>

definition m_lowlevel_init ::
  "u64 \<Rightarrow> u64 \<Rightarrow> u64 \<Rightarrow> core_regs \<times> (u64 \<Rightarrow> u64) \<Rightarrow> (core_regs \<times> (u64 \<Rightarrow> u64)) result" where
  "m_lowlevel_init core0_stack kernel_pt after = (\<lambda>(r, m).
     let r = set_sys (sr_sp_update (\<lambda>_. core0_stack AND NOT 0xFFF)) r;
         r = m_jump_to_EL1 core0_stack r;
         x0 = kernel_pt AND NOT 0xFFF;
         r = set_sys (set_ttbr0_el1 x0) r;
         x2 = x0 + PT_SIZE;
         x1 = INIT_PT_FLAGS;
         x1 = x1 OR x2;
         m = m(x0 := x1);
         x0 = x0 + PT_SIZE;
         x2 = x0 + PT_SIZE;
         x1 = INIT_PT_FLAGS;
         x1 = x1 OR x2;
         m = m(x0 := x1);
         x0 = x0 + PT_SIZE
     in bindR (m_populate_pt_pages x0 m) (\<lambda>m.
        let r = m_setup_mmu r;
            r = m_prep_ttbr1_el1 r;
            r = set_sys (sr_lr_update (\<lambda>_. after)) r
        in Inr (switch_to_highmem r, m)))"

text \<open>The loop that clears the bss, from a kernel address and with a counter of 32 bits.\<close>

function clear_bss :: "u64 \<Rightarrow> u32 \<Rightarrow> (u64 \<Rightarrow> u64) \<Rightarrow> (u64 \<Rightarrow> u64)" where
  "clear_bss x1 w2 m =
     (if w2 = 0 then m
      else
        let m = m(va_to_pa x1 := 0);
            x1 = x1 + 8;
            w2 = w2 - 1
        in clear_bss x1 w2 m)"
  by auto

termination by (relation "measure (\<lambda>(x1, w2, m). unat w2)") (auto simp: unat_gt_0 unat_minus_one)

declare clear_bss.simps [simp del]

text \<open>From the entry to the call of main.\<close>

definition start ::
  "u64 \<Rightarrow> u64 \<Rightarrow> u64 \<Rightarrow> u64 \<Rightarrow> u64 \<Rightarrow> core_regs \<times> (u64 \<Rightarrow> u64) \<Rightarrow> (core_regs \<times> (u64 \<Rightarrow> u64)) result" where
  "start core0_stack kernel_pt after bss_start vector_table s =
     bindR (m_lowlevel_init core0_stack kernel_pt after s) (\<lambda>(r, m).
     let m = clear_bss bss_start BSS_SIZE m
     in Inr (set_sys (sr_vbar_update (\<lambda>_. vector_table)) r, m))"

section \<open>Remote cores\<close>

text \<open>
  proc.S. The stack of a core is found from its number; the local label in the middle of
  setup\_stack is also the target of the branches of jump\_to\_EL1. The register x2 is what the
  core has in it when it gets there. After \<open>exec\<close> the core parks (Smp).
\<close>

definition core_stack_base :: "u64 \<Rightarrow> u64 \<Rightarrow> u64" where
  "core_stack_base core0_stack x0 =
     (let x2 = CORE_STACK_SIZE;
          x0 = x0 * x2;
          x1 = core0_stack AND NOT 0xFFF
      in x1 - x0)"

definition remote_exec :: "u64 \<Rightarrow> u64 \<Rightarrow> core_regs \<times> pt_state \<Rightarrow> (core_regs \<times> pt_state) result" where
  "remote_exec mpidr after = (\<lambda>(r, s).
     bindR (init_mmu (unat (curr_core_id mpidr)) (cr_sys r, s)) (\<lambda>(q, s).
     let r = r\<lparr>cr_sys := q\<rparr>;
         r = m_setup_mmu r;
         r = set_sys (sr_lr_update (\<lambda>_. after)) r
     in Inr (set_sys switch_vmem r, s)))"

definition set_core_stack ::
  "u64 \<Rightarrow> u64 \<Rightarrow> u64 \<Rightarrow> u64 \<Rightarrow> u64 \<Rightarrow> core_regs \<times> pt_state \<Rightarrow> (core_regs \<times> pt_state) result" where
  "set_core_stack mpidr core0_stack after x0 x2 = (\<lambda>(r, s).
     let x1 = core0_stack AND NOT 0xFFF;
         x1 = x1 - x2;
         r = set_sys (sr_sp_update (\<lambda>_. x1)) r
     in if x0 \<noteq> 0 then remote_exec mpidr after (r, s) else Inr (r, s))"

definition setup_stack :: "u64 \<Rightarrow> u64 \<Rightarrow> u64 \<Rightarrow> u64 \<Rightarrow> core_regs \<times> pt_state \<Rightarrow> (core_regs \<times> pt_state) result" where
  "setup_stack mpidr core0_stack after x2 s =
     (let x0 = mpidr AND 3;
          x2 = (if x0 = 0 then x2 else x0 * CORE_STACK_SIZE)
      in set_core_stack mpidr core0_stack after x0 x2 s)"

text \<open>The stack pointer of EL1 is first the page \<open>pc\<close> of the code.\<close>

definition jump_to_EL1 ::
  "u64 \<Rightarrow> u64 \<Rightarrow> u64 \<Rightarrow> u64 \<Rightarrow> u64 \<Rightarrow> core_regs \<times> pt_state \<Rightarrow> (core_regs \<times> pt_state) result" where
  "jump_to_EL1 mpidr core0_stack after pc x2 = (\<lambda>(r, s).
     if curr_core_el r = 1 then set_core_stack mpidr core0_stack after 1 x2 (r, s)
     else
       let r = (if curr_core_el r = 3 then leave_el3 r else r)
       in if curr_core_el r = 2 then setup_stack mpidr core0_stack after x2 (leave_el2 (pc AND NOT 0xFFF) r, s)
          else set_core_stack mpidr core0_stack after (curr_core_el r) x2 (r, s))"

end
