(* ===== verification/Start_Props.thy ===== *)
theory Start_Props
  imports Start_Code
begin

text \<open>
  What the start code establishes: the tables that init\_mmu takes over, the translation of
  the first 497 pages, the registers at the call of main, and the cleared memory.
\<close>

section \<open>The loops\<close>

text \<open>A fold of updates at different addresses.\<close>

lemma fold_upd_in:
  "inj_on a (set js) \<Longrightarrow> j \<in> set js \<Longrightarrow> fold (\<lambda>j m. m(a j := v j)) js m (a j) = v j"
proof (induction js rule: rev_induct)
  case (snoc i js)
  then show ?case by (cases "i = j") (auto simp: inj_on_def)
qed simp

lemma fold_upd_out: "x \<notin> a ` set js \<Longrightarrow> fold (\<lambda>j m. m(a j := v j)) js m x = m x"
  by (induction js arbitrary: m) auto

lemma sle_small: "m < 2 ^ 63 \<Longrightarrow> n < 2 ^ 63 \<Longrightarrow> word_of_nat m \<le>s (word_of_nat n :: u64) \<longleftrightarrow> m \<le> n"
proof -
  have s: "sint (word_of_nat k :: u64) = int k" if "k < 2 ^ 63" for k
    using that by (simp add: signed_of_nat signed_take_bit_int_eq_self)
  assume "m < 2 ^ 63" "n < 2 ^ 63"
  then show ?thesis by (simp add: word_sle_eq s)
qed

lemma next_pte_run:
  assumes "k \<le> 0x1F0"
  shows "next_pte (x0 + word_of_nat (8 * k)) (word_of_nat (0x1000 * k)) 0x1F0000 m =
    Some (fold (\<lambda>j m. m(x0 + word_of_nat (8 * j) := INIT_PAGE_FLAGS OR word_of_nat (0x1000 * j))) [k..<0x1F1] m)"
  using assms
proof (induction arbitrary: m rule: inc_induct)
  case base
  have u: "[0x1F0..<0x1F1] = [0x1F0 :: nat]" by (subst upt_rec) simp
  show ?case unfolding u by (subst next_pte.simps) (simp add: Let_def word_sle_eq)
next
  case (step k)
  have c: "word_of_nat (0x1000 * Suc k) \<le>s (0x1F0000 :: u64)"
    using sle_small [of "0x1000 * Suc k" "0x1F0000"] step.hyps by simp
  have n: "x0 + word_of_nat (8 * k) + 8 = x0 + word_of_nat (8 * Suc k)" "word_of_nat (0x1000 * k) + 0x1000 = (word_of_nat (0x1000 * Suc k) :: u64)"
    by (simp_all add: algebra_simps)
  have u: "[k..<0x1F1] = k # [Suc k..<0x1F1]" using step.hyps by (simp add: upt_conv_Cons)
  show ?case
    unfolding u by (subst next_pte.simps) (simp only: Let_def n c if_True step.IH fold.simps comp_def id_def)
qed

lemma populate_run:
  "m_populate_pt_pages x0 m =
    Inr (fold (\<lambda>j m. m(x0 + word_of_nat (8 * j) := INIT_PAGE_FLAGS OR word_of_nat (0x1000 * j))) [0..<0x1F1] m)"
  using next_pte_run [of 0 x0 m] by (simp add: m_populate_pt_pages_def del: upt_rec_numeral)

lemma clear_bss_run:
  "clear_bss x w m a = (if \<exists>j<unat w. a = va_to_pa (x + word_of_nat (8 * j)) then 0 else m a)"
proof (induction x w m rule: clear_bss.induct)
  case (1 x w m)
  show ?case
  proof (cases "w = 0")
    case False
    then have "0 < unat w" by (simp add: unat_gt_0)
    then obtain n where n: "unat w = Suc n" "unat (w - 1) = n" using False by (cases "unat w") (auto simp: unat_minus_one)
    have st: "clear_bss x w m = clear_bss (x + 8) (w - 1) (m(va_to_pa x := 0))"
      using False by (subst clear_bss.simps) (simp add: Let_def)
    have IH: "clear_bss (x + 8) (w - 1) (m(va_to_pa x := 0)) a =
        (if \<exists>j<n. a = va_to_pa (x + 8 + word_of_nat (8 * j)) then 0 else (m(va_to_pa x := 0)) a)"
      by (rule "1.IH" [OF False refl refl refl, unfolded n(2)])
    have e: "(\<exists>j<Suc n. a = va_to_pa (x + word_of_nat (8 * j))) \<longleftrightarrow>
        a = va_to_pa x \<or> (\<exists>j<n. a = va_to_pa (x + 8 + word_of_nat (8 * j)))"
      by (auto simp: less_Suc_eq_0_disj algebra_simps)
    show ?thesis unfolding st IH n(1) e by (simp only: fun_upd_apply) auto
  qed (simp add: clear_bss.simps)
qed

section \<open>The translation\<close>

lemma unat_drop: "unat (drop_bit k a) = unat a div 2 ^ k" for a :: u64
  unfolding unat_drop_bit_eq by (simp add: drop_bit_eq_div)

lemma unat_take: "unat (take_bit k a) = unat a mod 2 ^ k" for a :: u64
  unfolding unsigned_take_bit_eq by (simp add: take_bit_eq_mod)

lemma va_fields:
  fixes a :: u64
  defines "n \<equiv> unat (take_bit 39 a)"
  shows "unat (drop_bit 30 a AND 0x1FF) = n div 2 ^ 30" and "unat (drop_bit 21 a AND 0x1FF) = (n div 2 ^ 21) mod 512"
    and "unat (drop_bit 12 a AND 0x1FF) = (n div 2 ^ 12) mod 512" and "unat (a AND 0xFFF) = n mod 4096"
proof -
  have m: "x AND 0x1FF = take_bit 9 x" "x AND 0xFFF = take_bit 12 x" for x :: u64 by (simp_all add: take_bit_eq_mask mask_numeral)
  have w: "take_bit 9 (drop_bit 30 a) = drop_bit 30 (take_bit 39 a)" "take_bit 9 (drop_bit 21 a) = take_bit 9 (drop_bit 21 (take_bit 39 a))"
    "take_bit 9 (drop_bit 12 a) = take_bit 9 (drop_bit 12 (take_bit 39 a))" "take_bit 12 a = take_bit 12 (take_bit 39 a)"
    by (rule bit_word_eqI, auto simp: bit_simps)+
  show "unat (drop_bit 30 a AND 0x1FF) = n div 2 ^ 30" unfolding m w(1) n_def by (rule unat_drop)
  show "unat (drop_bit 21 a AND 0x1FF) = (n div 2 ^ 21) mod 512" unfolding m w(2) n_def unat_drop [symmetric] by (subst unat_take) simp_all
  show "unat (drop_bit 12 a AND 0x1FF) = (n div 2 ^ 12) mod 512" unfolding m w(3) n_def unat_drop [symmetric] by (subst unat_take) simp_all
  show "unat (a AND 0xFFF) = n mod 4096" unfolding m w(4) n_def by (subst unat_take) simp_all
qed

lemma low_fields: "n div 2 ^ 30 = 0 \<and> (n div 2 ^ 21) mod 512 = 0 \<and> (n div 2 ^ 12) mod 512 < 0x1F1 \<longleftrightarrow> n < 0x1F1000" for n :: nat
proof -
  define p where "p = n div 4096"
  have d: "n div 2 ^ 30 = p div 512 div 512" "n div 2 ^ 21 = p div 512" "n div 2 ^ 12 = p"
    by (simp_all add: p_def div_mult2_eq [symmetric])
  have "q div 512 = 0 \<and> q mod 512 = 0 \<longleftrightarrow> q = 0" for q :: nat by (auto simp: div_eq_0_iff)
  from this [of "p div 512"] have "p div 512 div 512 = 0 \<and> (p div 512) mod 512 = 0 \<longleftrightarrow> p div 512 = 0" .
  moreover have "p div 512 = 0 \<and> p mod 512 < 0x1F1 \<longleftrightarrow> p < 0x1F1" by (auto simp: div_eq_0_iff)
  moreover have "p < 0x1F1 \<longleftrightarrow> n < 0x1F1000" by (simp add: p_def div_less_iff_less_mult)
  ultimately show ?thesis unfolding d conj_assoc [symmetric] by simp
qed

definition first_pages :: "(u64 \<Rightarrow> u64) \<Rightarrow> u64 \<Rightarrow> bool" where
  "first_pages m t3 \<longleftrightarrow>
     (\<forall>j<512. m (t3 + word_of_nat (8 * j)) = (if j < 0x1F1 then INIT_PAGE_FLAGS OR word_of_nat (0x1000 * j) else 0))"

lemma boot_walk:
  assumes "boot_tables m t t2 t3" and "first_pages m t3"
  shows "hw_walk m t a = (if unat (take_bit 39 a) < 0x1F1000 then Some (take_bit 39 a) else None)"
proof -
  define n where "n = unat (take_bit 39 a)"
  let ?i = "drop_bit 30 a AND 0x1FF" and ?j = "drop_bit 21 a AND 0x1FF" and ?k = "drop_bit 12 a AND 0x1FF"
  note f = va_fields [of a, folded n_def]
  have pg: "page_addr t2" "page_addr t3" using assms(1) by (auto simp: boot_tables_def)
  have e1: "m (t + 8 * ?i) = (if ?i = 0 then t2 OR INIT_PT_FLAGS else 0)"
    and e2: "m (t2 + 8 * ?j) = (if ?j = 0 then t3 OR INIT_PT_FLAGS else 0)"
    using assms(1) index_bound [of "drop_bit 30 a"] index_bound [of "drop_bit 21 a"] by (auto simp: boot_tables_def)
  let ?q = "word_of_nat (0x1000 * unat ?k) :: u64"
  have k: "unat ?k < 512" using index_bound [of "drop_bit 12 a"] by (simp add: word_less_nat_alt)
  have w: "word_of_nat (8 * unat ?k) = 8 * ?k" by simp
  have e3: "m (t3 + 8 * ?k) = (if unat ?k < 0x1F1 then ?q OR INIT_PAGE_FLAGS else 0)"
    using assms(2) k unfolding first_pages_def w [symmetric] by (metis or.commute)
  have q: "page_addr ?q" using k by (simp add: page_addr_iff unat_word_ariths)
  note t2 = table_entry [OF pg(1) boot_flags(1)] and t3 = table_entry [OF pg(2) boot_flags(1)]
    and q3 = table_entry [OF q boot_flags(1)]
  have e0: "m t = t2 OR INIT_PT_FLAGS" "m t2 = t3 OR INIT_PT_FLAGS" using assms(1) by (simp_all add: boot_tables_def)
  have walk: "hw_walk m t a = (if ?i = 0 \<and> ?j = 0 \<and> unat ?k < 0x1F1 then Some (?q OR (a AND 0xFFF)) else None)"
    using t2(1,3) t3(1,3) q3(1,3) e0 e1 e2 e3
    by (simp add: hw_walk_def extract_va_metadata_def Let_def del: of_nat_mult)
  have ij: "?i = 0 \<longleftrightarrow> n div 2 ^ 30 = 0" "?j = 0 \<longleftrightarrow> (n div 2 ^ 21) mod 512 = 0" using f(1,2) by (simp_all add: word_unat_eq_iff)
  have c: "(?i = 0 \<and> ?j = 0 \<and> unat ?k < 0x1F1) \<longleftrightarrow> n < 0x1F1000" unfolding ij f(3) by (rule low_fields)
  have v: "?q OR (a AND 0xFFF) = take_bit 39 a" if "n < 0x1F1000"
  proof -
    have l: "a AND 0xFFF < 4096" using f(4) by (simp add: word_less_nat_alt)
    have "unat (?q + (a AND 0xFFF)) = 0x1000 * unat ?k + n mod 4096"
      using k f(4) by (simp add: unat_word_ariths)
    moreover have "unat ?k = n div 4096" using f(3) that by simp
    then have "0x1000 * unat ?k + n mod 4096 = n" by simp
    ultimately have "unat (?q + (a AND 0xFFF)) = unat (take_bit 39 a)" by (simp add: n_def)
    then show ?thesis using page_or [OF q l] by (simp add: word_unat_eq_iff)
  qed
  show ?thesis unfolding walk c n_def [symmetric] using v by simp
qed

section \<open>The memory after the start\<close>

lemma va_to_pa_take: "va_to_pa a = take_bit 39 a"
proof -
  have "NOT KERNEL_START = (mask 39 :: u64)" by (simp add: mask_numeral)
  then show ?thesis by (simp only: va_to_pa_def take_bit_eq_mask)
qed

lemma va_to_pa_add: "va_to_pa (KERNEL_START + y) = va_to_pa y"
proof -
  have "unat (KERNEL_START + y) mod 2 ^ 39 = (unat KERNEL_START + unat y) mod 2 ^ 39"
    by (simp only: unat_word_ariths) (simp add: mod_mod_cancel)
  also have "unat KERNEL_START + unat y = unat y + 0x1FFFFFF * 2 ^ 39" by simp
  also have "\<dots> mod 2 ^ 39 = unat y mod 2 ^ 39" by (rule mod_mult_self1)
  finally show ?thesis by (simp add: va_to_pa_take word_unat_eq_iff unat_take)
qed

lemma va_to_pa_small: "unat y < 2 ^ 39 \<Longrightarrow> va_to_pa y = y"
  by (simp add: va_to_pa_take word_unat_eq_iff unat_take)

lemma unat_slot: "unat q + 8 * n < 2 ^ 64 \<Longrightarrow> unat (q + word_of_nat (8 * n) :: u64) = unat q + 8 * n"
proof -
  assume a: "unat q + 8 * n < 2 ^ 64"
  then have "unat (word_of_nat (8 * n) :: u64) = 8 * n" by (simp only: unat_of_nat) simp
  then show ?thesis using a by (subst unat_plus_simple [THEN iffD1]) (auto simp: no_olen_add_nat)
qed

text \<open>Three pages for the tables, behind the memory that is cleared.\<close>

definition table_space :: "u64 \<Rightarrow> u64 \<Rightarrow> bool" where
  "table_space t b \<longleftrightarrow> page_addr t \<and> unat t + 0x3000 \<le> 2 ^ 32 \<and> unat b + 0x50000 \<le> unat t"

definition start_memory :: "u64 \<Rightarrow> u64 \<Rightarrow> (u64 \<Rightarrow> u64) \<Rightarrow> (u64 \<Rightarrow> u64)" where
  "start_memory t b m =
     clear_bss (KERNEL_START + b) BSS_SIZE
       (fold (\<lambda>j m. m(t + 0x2000 + word_of_nat (8 * j) := INIT_PAGE_FLAGS OR word_of_nat (0x1000 * j))) [0..<0x1F1]
         (m(t := INIT_PT_FLAGS OR (t + 0x1000), t + 0x1000 := INIT_PT_FLAGS OR (t + 0x2000))))"

lemma start_memory_at:
  assumes "table_space t b"
  shows "i < 1536 \<Longrightarrow> start_memory t b m (t + word_of_nat (8 * i)) =
      (if i = 0 then INIT_PT_FLAGS OR (t + 0x1000) else if i = 512 then INIT_PT_FLAGS OR (t + 0x2000)
       else if 1024 \<le> i \<and> i < 1024 + 0x1F1 then INIT_PAGE_FLAGS OR word_of_nat (0x1000 * (i - 1024)) else m (t + word_of_nat (8 * i)))"
    and "j < 0xA000 \<Longrightarrow> start_memory t b m (b + word_of_nat (8 * j)) = 0"
    and "\<forall>i<1536. a \<noteq> t + word_of_nat (8 * i) \<Longrightarrow> \<forall>j<0xA000. a \<noteq> b + word_of_nat (8 * j) \<Longrightarrow> start_memory t b m a = m a"
proof -
  have t: "unat t + 0x3000 \<le> 2 ^ 32" and bt: "unat b + 0x50000 \<le> unat t" using assms by (simp_all add: table_space_def)
  have u: "unat (t + word_of_nat (8 * i)) = unat t + 8 * i" if "i < 1536" for i by (rule unat_slot) (use t that in simp)
  have ub: "unat (b + word_of_nat (8 * j)) = unat b + 8 * j" if "j < 0xA000" for j by (rule unat_slot) (use t bt that in simp)
  have eq: "t + word_of_nat (8 * i) = t + word_of_nat (8 * k) \<longleftrightarrow> i = k" if "i < 1536" "k < 1536" for i k
    using u [OF that(1)] u [OF that(2)] by (simp add: word_unat_eq_iff)
  have ne: "b + word_of_nat (8 * j) \<noteq> t + word_of_nat (8 * i)" if "j < 0xA000" "i < 1536" for i j
    using ub [OF that(1)] u [OF that(2)] bt that(1) by (auto dest: arg_cong [of _ _ unat])
  have cl: "va_to_pa (KERNEL_START + b + word_of_nat (8 * j)) = b + word_of_nat (8 * j)" if "j < 0xA000" for j
  proof -
    have "va_to_pa (KERNEL_START + (b + word_of_nat (8 * j))) = b + word_of_nat (8 * j)"
      unfolding va_to_pa_add by (rule va_to_pa_small) (use ub [OF that] t bt that in simp)
    then show ?thesis by (simp only: add.assoc)
  qed
  have z: "unat BSS_SIZE = 0xA000" by simp
  let ?f = "\<lambda>j. t + word_of_nat (8 * (1024 + j))"
  have pos: "t + 0x2000 + word_of_nat (8 * j) = ?f j" for j by simp
  have inj: "inj_on ?f (set [0..<0x1F1])" 
  proof (rule inj_onI)
    fix x y assume "x \<in> set [0..<0x1F1]" "y \<in> set [0..<0x1F1]" "?f x = ?f y"
    then show "x = y" using eq [of "1024 + x" "1024 + y"] by (simp del: of_nat_mult of_nat_add)
  qed
  define m1 where "m1 = m(t := INIT_PT_FLAGS OR (t + 0x1000), t + 0x1000 := INIT_PT_FLAGS OR (t + 0x2000))"
  define m2 where "m2 = fold (\<lambda>j m. m(?f j := INIT_PAGE_FLAGS OR word_of_nat (0x1000 * j))) [0..<0x1F1] m1"
  have sm: "start_memory t b m a = (if \<exists>j<0xA000. a = b + word_of_nat (8 * j) then 0 else m2 a)" for a
    using cl by (auto simp: start_memory_def clear_bss_run z m1_def m2_def pos simp del: of_nat_mult of_nat_add upt_rec_numeral)
  have m2_in: "m2 (?f j) = INIT_PAGE_FLAGS OR word_of_nat (0x1000 * j)" if "j < 0x1F1" for j
    unfolding m2_def by (rule fold_upd_in [OF inj]) (use that in simp)
  have m2_out: "m2 a = m1 a" if "\<forall>j<0x1F1. a \<noteq> ?f j" for a
    unfolding m2_def by (rule fold_upd_out) (use that in \<open>auto simp del: of_nat_mult of_nat_add\<close>)
  have m1: "m1 (t + word_of_nat (8 * i)) = (if i = 0 then INIT_PT_FLAGS OR (t + 0x1000) else if i = 512 then INIT_PT_FLAGS OR (t + 0x2000)
      else m (t + word_of_nat (8 * i)))" if "i < 1536" for i
    using eq [OF that, of 0] eq [OF that, of 512] by (auto simp: m1_def)
  show "start_memory t b m (t + word_of_nat (8 * i)) =
      (if i = 0 then INIT_PT_FLAGS OR (t + 0x1000) else if i = 512 then INIT_PT_FLAGS OR (t + 0x2000)
       else if 1024 \<le> i \<and> i < 1024 + 0x1F1 then INIT_PAGE_FLAGS OR word_of_nat (0x1000 * (i - 1024)) else m (t + word_of_nat (8 * i)))"
    if i: "i < 1536"
  proof -
    have "start_memory t b m (t + word_of_nat (8 * i)) = m2 (t + word_of_nat (8 * i))"
    proof -
      have "\<not> (\<exists>j<0xA000. t + word_of_nat (8 * i) = b + word_of_nat (8 * j))" using ne i by metis
      then show ?thesis unfolding sm by (simp only: if_False)
    qed
    also have "\<dots> = (if 1024 \<le> i \<and> i < 1024 + 0x1F1 then INIT_PAGE_FLAGS OR word_of_nat (0x1000 * (i - 1024)) else m1 (t + word_of_nat (8 * i)))"
    proof (cases "1024 \<le> i \<and> i < 1024 + 0x1F1")
      case True
      then obtain j where "i = 1024 + j" "j < 0x1F1" by (auto simp: le_iff_add)
      then show ?thesis using m2_in [of j] by (simp del: of_nat_mult of_nat_add)
    next
      case False
      have "t + word_of_nat (8 * i) \<noteq> ?f j" if "j < 0x1F1" for j
        using eq [OF i, of "1024 + j"] that False by (simp del: of_nat_mult of_nat_add) auto
      then have "\<forall>j<0x1F1. t + word_of_nat (8 * i) \<noteq> ?f j" by blast
      from m2_out [OF this] show ?thesis unfolding if_not_P [OF False] .
    qed
    finally have f: "start_memory t b m (t + word_of_nat (8 * i)) =
        (if 1024 \<le> i \<and> i < 1024 + 0x1F1 then INIT_PAGE_FLAGS OR word_of_nat (0x1000 * (i - 1024)) else m1 (t + word_of_nat (8 * i)))" .
    consider "i = 0" | "i = 512" | "i \<noteq> 0" "i \<noteq> 512" by blast
    then show ?thesis unfolding f m1 [OF i] by cases simp_all
  qed
  show "start_memory t b m (b + word_of_nat (8 * j)) = 0" if "j < 0xA000" using that by (auto simp: sm)
  show "start_memory t b m a = m a" if a: "\<forall>i<1536. a \<noteq> t + word_of_nat (8 * i)" "\<forall>j<0xA000. a \<noteq> b + word_of_nat (8 * j)"
  proof -
    have "a \<noteq> t" "a \<noteq> t + 0x1000" using a(1) [rule_format, of 0] a(1) [rule_format, of 512] by simp_all
    moreover have "a \<noteq> ?f j" if "j < 0x1F1" for j by (rule a(1) [rule_format]) (use that in simp)
    then have "\<forall>j<0x1F1. a \<noteq> ?f j" by blast
    ultimately have "m2 a = m a" using m2_out by (simp add: m1_def)
    moreover have "\<not> (\<exists>j<0xA000. a = b + word_of_nat (8 * j))" using a(2) by blast
    ultimately show ?thesis unfolding sm by (simp only: if_False)
  qed
qed

lemma start_tables:
  assumes "table_space t b" and "t \<noteq> 0" and "\<forall>i<1536. m (t + word_of_nat (8 * i)) = 0"
  shows "boot_tables (start_memory t b m) t (t + 0x1000) (t + 0x2000)" and "first_pages (start_memory t b m) (t + 0x2000)"
proof -
  have sp: "page_addr t" "unat t + 0x3000 \<le> 2 ^ 32" using assms(1) by (simp_all add: table_space_def)
  have u: "unat (t + 0x1000) = unat t + 0x1000" "unat (t + 0x2000) = unat t + 0x2000"
    using unat_slot [of t 512] unat_slot [of t 1024] sp(2) by simp_all
  have d: "4096 dvd unat t" using sp(1) by (simp add: page_addr_iff)
  have pg: "page_addr (t + 0x1000)" "page_addr (t + 0x2000)"
    using d sp(2) by (simp_all add: page_addr_iff u)
  have nz: "t + 0x1000 \<noteq> 0" "t + 0x2000 \<noteq> 0" "t + 0x1000 \<noteq> t" "t + 0x2000 \<noteq> t" "t + 0x2000 \<noteq> t + 0x1000"
    using u by (auto dest: arg_cong [of _ _ unat])
  note at = start_memory_at(1) [OF assms(1)]
  have e: "start_memory t b m t = (t + 0x1000) OR INIT_PT_FLAGS" "start_memory t b m (t + 0x1000) = (t + 0x2000) OR INIT_PT_FLAGS"
    using at [of 0] at [of 512] by (simp_all add: or.commute)
  have z: "start_memory t b m (t + 8 * i) = 0 \<and> start_memory t b m (t + 0x1000 + 8 * i) = 0" if i: "i < 512" "i \<noteq> 0" for i
  proof -
    have n: "unat i < 512" "0 < unat i" using i by (simp_all add: word_less_nat_alt unat_gt_0)
    have w: "t + 8 * i = t + word_of_nat (8 * unat i)" "t + 0x1000 + 8 * i = t + word_of_nat (8 * (512 + unat i))" by simp_all
    have "m (t + word_of_nat (8 * unat i)) = 0" "m (t + word_of_nat (8 * (512 + unat i))) = 0" 
      by (rule assms(3) [rule_format], use n in simp)+
    then show ?thesis unfolding w using at [of "unat i"] at [of "512 + unat i"] n by (simp del: of_nat_mult of_nat_add)
  qed
  show "boot_tables (start_memory t b m) t (t + 0x1000) (t + 0x2000)"
    using sp(1) pg nz e z assms(2) by (simp add: boot_tables_def)
  show "first_pages (start_memory t b m) (t + 0x2000)"
    unfolding first_pages_def
  proof (intro allI impI)
    fix j :: nat assume j: "j < 512"
    have w: "t + 0x2000 + word_of_nat (8 * j) = t + word_of_nat (8 * (1024 + j))" by simp
    show "start_memory t b m (t + 0x2000 + word_of_nat (8 * j)) = (if j < 0x1F1 then INIT_PAGE_FLAGS OR word_of_nat (0x1000 * j) else 0)"
    proof -
      have "m (t + word_of_nat (8 * (1024 + j))) = 0" by (rule assms(3) [rule_format]) (use j in simp)
      moreover have "1024 + j - 1024 = j" by simp
      ultimately show ?thesis unfolding w using at [of "1024 + j"] j by (simp del: of_nat_mult of_nat_add)
    qed
  qed
qed

section \<open>The registers after the start\<close>

text \<open>The kernel is entered at EL3, EL2 or EL1.\<close>

definition start_regs :: "u64 \<Rightarrow> u64 \<Rightarrow> u64 \<Rightarrow> u64 \<Rightarrow> core_regs \<Rightarrow> core_regs" where
  "start_regs sp t after vt r =
     (let r = set_sys (sr_sp_update (\<lambda>_. sp AND NOT 0xFFF)) r;
          r = m_setup_mmu (set_sys (set_ttbr0_el1 t) (m_jump_to_EL1 sp r));
          r = switch_to_highmem (set_sys (sr_lr_update (\<lambda>_. after)) (m_prep_ttbr1_el1 r))
      in set_sys (sr_vbar_update (\<lambda>_. vt)) r)"

lemma el_code: "x \<in> {1, 2, 3} \<Longrightarrow> drop_bit 2 (push_bit 2 x) AND 0xF = (x :: u64)"
  by auto

lemma jump_to_EL1_level:
  assumes "cr_el r \<in> {1, 2, 3}"
  shows "cr_el (m_jump_to_EL1 sp r) = 1" and "cr_daif (m_jump_to_EL1 sp r) = (if cr_el r = 1 then cr_daif r else 0x300)"
    and "sr_sp (cr_sys (m_jump_to_EL1 sp r)) = (if cr_el r = 1 then sr_sp (cr_sys r) else sp AND NOT 0xFFF)"
    and "cr_el r \<noteq> 1 \<Longrightarrow> bit (cr_hcr (m_jump_to_EL1 sp r)) 31"
proof -
  have e: "drop_bit 2 0x305 AND 3 = (1 :: u64)" "drop_bit 2 0x309 AND 3 = (2 :: u64)" "0x305 AND 0x3C0 = (0x300 :: u64)" by simp_all
  note d = m_jump_to_EL1_def leave_el3_def leave_el2_def eret_def set_sys_def curr_core_el_def
  show "cr_el (m_jump_to_EL1 sp r) = 1" "cr_daif (m_jump_to_EL1 sp r) = (if cr_el r = 1 then cr_daif r else 0x300)"
    "sr_sp (cr_sys (m_jump_to_EL1 sp r)) = (if cr_el r = 1 then sr_sp (cr_sys r) else sp AND NOT 0xFFF)"
    using assms by (auto simp: d e)
  show "bit (cr_hcr (m_jump_to_EL1 sp r)) 31" if "cr_el r \<noteq> 1"
    using assms that by (auto simp: d e bit_or_iff bit_push_bit_iff)
qed

lemma page_align: "page_addr q \<Longrightarrow> q AND NOT 0xFFF = q"
  using and_mask_via [of q "0xFFFFF000" "NOT 0xFFF"] by (simp add: page_addr_def)

lemma start_eq:
  assumes "page_addr t"
  shows "start sp t after (KERNEL_START + b) vt (r, m) = Inr (start_regs sp t after vt r, start_memory t b m)"
  using page_align [OF assms]
  by (simp add: start_def m_lowlevel_init_def populate_run start_regs_def start_memory_def Let_def add.assoc del: upt_rec_numeral of_nat_mult)

lemma start_regs_values:
  assumes "cr_el r \<in> {1, 2, 3}"
  shows "cr_el (start_regs sp t after vt r) = 1" and "cr_daif (start_regs sp t after vt r) = (if cr_el r = 1 then cr_daif r else 0x300)"
    and "cr_sctlr (start_regs sp t after vt r) = 0xC00801"
    and "cr_sys (start_regs sp t after vt r) = \<lparr>sr_ttbr0 = t, sr_ttbr1 = t, sr_tcr = 0x80190019, sr_mair = 0x40DD, sr_vbar = vt,
      sr_sp = (sp AND NOT 0xFFF) + KERNEL_START, sr_lr = after OR KERNEL_START\<rparr>"
proof -
  let ?r = "set_sys (sr_sp_update (\<lambda>_. sp AND NOT 0xFFF)) r"
  have el: "cr_el ?r \<in> {1, 2, 3}" using assms by (simp add: set_sys_def)
  note j = jump_to_EL1_level [OF el, of sp]
  note d = start_regs_def Let_def set_sys_def m_setup_mmu_def m_setup_mair_def m_tcr_def m_sctlr_def m_prep_ttbr1_el1_def
    switch_to_highmem_def set_ttbr0_el1_def
  show "cr_el (start_regs sp t after vt r) = 1" "cr_daif (start_regs sp t after vt r) = (if cr_el r = 1 then cr_daif r else 0x300)"
    "cr_sctlr (start_regs sp t after vt r) = 0xC00801"
    using j(1,2) by (simp_all add: d)
  have "sr_sp (cr_sys (m_jump_to_EL1 sp ?r)) = sp AND NOT 0xFFF" using j(3) by (simp add: set_sys_def split: if_splits)
  then show "cr_sys (start_regs sp t after vt r) = \<lparr>sr_ttbr0 = t, sr_ttbr1 = t, sr_tcr = 0x80190019, sr_mair = 0x40DD, sr_vbar = vt,
      sr_sp = (sp AND NOT 0xFFF) + KERNEL_START, sr_lr = after OR KERNEL_START\<rparr>"
    by (simp add: d)
qed

lemma mair_value: "mair_el1 = 0x40DD"
  by (simp add: mair_el1_def mair_byte_def mair_at_def MAIR_MEM_RW_def MAIR_DEV_def)

text \<open>
  C20. The start of the first core, from the entry of the kernel to the call of main, at any
  exception level: on clean memory for the tables, behind the memory that is cleared, it
  ends at EL1 with the MMU on, and the processor translates exactly the first 497 pages, in
  the low and in the kernel half, to the same physical addresses. The stack and the return
  address are kernel addresses, and 0xA000 words from the start of the bss are zero. When
  the core comes from EL2 or EL3, interrupts are not masked.
\<close>

theorem start_translates:
  assumes "table_space t b" and "t \<noteq> 0" and "\<forall>i<1536. m (t + word_of_nat (8 * i)) = 0" and "cr_el r \<in> {1, 2, 3}"
  shows "\<exists>r' m'. start sp t after (KERNEL_START + b) vt (r, m) = Inr (r', m') \<and>
    cr_el r' = 1 \<and> cr_daif r' = (if cr_el r = 1 then cr_daif r else 0x300) \<and> bit (cr_sctlr r') 0 \<and>
    (\<forall>a. va_translate (cr_sys r') m' a =
      (if drop_bit 39 a \<in> {0, 0x1FFFFFF} \<and> unat (va_to_pa a) < 0x1F1000 then Some (va_to_pa a) else None)) \<and>
    sr_tcr (cr_sys r') = 0x80190019 \<and> sr_mair (cr_sys r') = mair_el1 \<and>
    sr_sp (cr_sys r') = (sp AND NOT 0xFFF) + KERNEL_START \<and> sr_lr (cr_sys r') = after OR KERNEL_START \<and>
    (\<forall>j<0xA000. m' (b + word_of_nat (8 * j)) = 0)"
proof -
  have t: "page_addr t" using assms(1) by (simp add: table_space_def)
  note sm = start_tables [OF assms(1-3)] and sr = start_regs_values [OF assms(4), of sp t after vt]
  have w: "hw_walk (start_memory t b m) t a = (if unat (va_to_pa a) < 0x1F1000 then Some (va_to_pa a) else None)" for a
    using boot_walk [OF sm] by (simp add: va_to_pa_take)
  show ?thesis
    using start_memory_at(2) [OF assms(1)] sr w
    by (intro exI [of _ "start_regs sp t after vt r"] exI [of _ "start_memory t b m"])
      (auto simp: start_eq [OF t] va_translate_def mair_value bit_iff_odd simp del: of_nat_mult)
qed

definition demo_core :: "u64 \<Rightarrow> core_regs" where
  "demo_core el = \<lparr>cr_el = el, cr_daif = 0x3C0, cr_scr = 0, cr_cnthctl = 0, cr_cntvoff = 0, cr_hcr = 0, cr_sctlr = 0,
     cr_sp_el1 = 0, cr_sp_el2 = 0,
     cr_sys = \<lparr>sr_ttbr0 = 0, sr_ttbr1 = 0, sr_tcr = 0, sr_mair = 0, sr_vbar = 0, sr_sp = 0, sr_lr = 0\<rparr>\<rparr>"

theorem start_translates_witness:
  "\<exists>r' m'. start 0x9E000 0x1A0000 0x80100 0xFFFFFF8000090000 0xFFFFFF8000080800 (demo_core 2, \<lambda>_. 0) = Inr (r', m') \<and>
    cr_el r' = 1 \<and> cr_daif r' = 0x300 \<and> va_translate (cr_sys r') m' 0xFFFFFF8000080123 = Some 0x80123 \<and>
    va_translate (cr_sys r') m' 0x1F1000 = None"
proof -
  have sp: "table_space 0x1A0000 0x90000" by (simp add: table_space_def page_addr_def)
  have el: "cr_el (demo_core 2) \<in> {1, 2, 3}" by (simp add: demo_core_def)
  have v: "va_to_pa 0xFFFFFF8000080123 = 0x80123" "va_to_pa 0x1F1000 = 0x1F1000" by (simp_all add: va_to_pa_def)
  have z: "\<forall>i<1536. (\<lambda>_. 0 :: u64) (0x1A0000 + word_of_nat (8 * i) :: u64) = 0" by simp
  obtain r' m' where r': "start 0x9E000 0x1A0000 0x80100 (KERNEL_START + 0x90000) 0xFFFFFF8000080800 (demo_core 2, \<lambda>_. 0) = Inr (r', m')"
    "cr_el r' = 1" "cr_daif r' = (if cr_el (demo_core 2) = 1 then cr_daif (demo_core 2) else 0x300)"
    "\<forall>a. va_translate (cr_sys r') m' a =
      (if drop_bit 39 a \<in> {0, 0x1FFFFFF} \<and> unat (va_to_pa a) < 0x1F1000 then Some (va_to_pa a) else None)"
    using start_translates [OF sp _ z el, of "0x9E000" "0x80100" "0xFFFFFF8000080800"] by auto
  have "va_translate (cr_sys r') m' 0xFFFFFF8000080123 = Some 0x80123" "va_translate (cr_sys r') m' 0x1F1000 = None"
    unfolding r'(4) [rule_format] v by simp_all
  then show ?thesis using r'(1-3) by (intro exI [of _ r'] exI [of _ m']) (simp add: demo_core_def)
qed

section \<open>The start of a remote core\<close>

lemma leave_level:
  "cr_el r = 3 \<Longrightarrow> cr_el (leave_el3 r) = 2" "cr_el (leave_el2 sp r) = 1" "cr_daif (leave_el2 sp r) = 0x300"
  "cr_sys (leave_el3 r) = (cr_sys r)\<lparr>sr_sp := cr_sp_el2 r\<rparr>" "cr_sys (leave_el2 sp r) = (cr_sys r)\<lparr>sr_sp := sp\<rparr>"
  by (simp_all add: leave_el3_def leave_el2_def eret_def set_sys_def)

lemma remote_exec_run:
  assumes "ps_global s = Some g" and "va_to_pa g \<noteq> 0" and "pd_pt (ps_desc s g) = t" and "page_addr t" and "t \<noteq> 0" and "mpidr AND 3 \<noteq> 0"
  shows "\<exists>r'. remote_exec mpidr after (r, s) = Inr (r', s) \<and> cr_el r' = cr_el r \<and> cr_daif r' = cr_daif r \<and> cr_sctlr r' = 0xC00801 \<and>
    cr_sys r' = \<lparr>sr_ttbr0 = t, sr_ttbr1 = t, sr_tcr = 0x80190019, sr_mair = 0x40DD, sr_vbar = sr_vbar (cr_sys r) + KERNEL_START,
      sr_sp = sr_sp (cr_sys r) + KERNEL_START, sr_lr = after + KERNEL_START\<rparr>"
proof -
  have c: "unat (curr_core_id mpidr) \<noteq> 0" using assms(6) by (simp add: curr_core_id_def unat_eq_zero)
  have t: "\<not> KERNEL_START < t" by (rule page_below_kernel [OF assms(4)])
  have g: "get_kernel_translation_table s = t" using assms(1-3) by (simp add: get_kernel_translation_table_def)
  have "init_mmu (unat (curr_core_id mpidr)) (cr_sys r, s) = Inr ((cr_sys r)\<lparr>sr_ttbr0 := t, sr_mair := mair_el1\<rparr>, s)"
    using c g assms(5) by (simp add: init_mmu_def set_ttbr0_el1_def)
  then show ?thesis
    using t by (simp add: remote_exec_def m_setup_mmu_def m_setup_mair_def m_tcr_def m_sctlr_def set_sys_def switch_vmem_def Let_def
        set_ttbr1_el1_def get_ttbr0_el1_def)
qed

text \<open>
  C21. A remote core that enters jump_to_EL1 at EL2 or EL3, after the first core has made the
  descriptors of the tables, comes to EL1 with the MMU on and the registers of the first
  core: whatever the tables hold by then, both translate every address alike. Its stack
  lies one page per number below the stack of the first core. The descriptors do not
  change.
\<close>

theorem remote_core_joins:
  assumes "ps_global s = Some g" and "va_to_pa g \<noteq> 0" and "pd_pt (ps_desc s g) = t" and "page_addr t" and "t \<noteq> 0"
    and "mpidr AND 3 \<noteq> 0" and "cr_el r \<in> {2, 3}" and "cr_el r0 \<in> {1, 2, 3}"
  shows "\<exists>r'. jump_to_EL1 mpidr sp after pc x2 (r, s) = Inr (r', s) \<and> cr_el r' = 1 \<and> bit (cr_sctlr r') 0 \<and>
    sr_sp (cr_sys r') = KERNEL_START + core_stack_base sp (curr_core_id mpidr) \<and>
    sr_tcr (cr_sys r') = sr_tcr (cr_sys (start_regs sp t after0 vt r0)) \<and>
    sr_mair (cr_sys r') = sr_mair (cr_sys (start_regs sp t after0 vt r0)) \<and>
    (\<forall>m a. va_translate (cr_sys r') m a = va_translate (cr_sys (start_regs sp t after0 vt r0)) m a)"
proof -
  define q where "q = set_sys (sr_sp_update (\<lambda>_. (sp AND NOT 0xFFF) - (mpidr AND 3) * CORE_STACK_SIZE))
    (leave_el2 (pc AND NOT 0xFFF) (if cr_el r = 3 then leave_el3 r else r))"
  have el: "cr_el q = 1" "sr_sp (cr_sys q) = (sp AND NOT 0xFFF) - (mpidr AND 3) * CORE_STACK_SIZE"
    by (simp_all add: q_def set_sys_def leave_level)
  obtain r' where r': "remote_exec mpidr after (q, s) = Inr (r', s)" "cr_el r' = cr_el q" "cr_sctlr r' = 0xC00801"
    "cr_sys r' = \<lparr>sr_ttbr0 = t, sr_ttbr1 = t, sr_tcr = 0x80190019, sr_mair = 0x40DD, sr_vbar = sr_vbar (cr_sys q) + KERNEL_START,
      sr_sp = sr_sp (cr_sys q) + KERNEL_START, sr_lr = after + KERNEL_START\<rparr>"
    using remote_exec_run [OF assms(1-6), of after q] by blast
  have "jump_to_EL1 mpidr sp after pc x2 (r, s) = remote_exec mpidr after (q, s)"
    using assms(6,7) leave_level(1) by (auto simp: jump_to_EL1_def setup_stack_def set_core_stack_def curr_core_el_def q_def Let_def)
  then show ?thesis
    using r' el start_regs_values(4) [OF assms(8), of sp t after0 vt]
    by (auto simp: core_stack_base_def curr_core_id_def va_translate_def bit_iff_odd)
qed

definition demo_shared :: pt_state where
  "demo_shared = \<lparr>ps_mem = (\<lambda>_. 0), ps_desc = (\<lambda>_. zero_desc\<lparr>pd_level := 1, pd_pt := 0x1A0000\<rparr>), ps_global = Some 0xFFFFFF8000100000,
     ps_ctr = 3, ps_heap = []\<rparr>"

theorem remote_core_joins_witness:
  "\<exists>r'. jump_to_EL1 0x80000002 0x9E000 0x80200 0x80000 7 (demo_core 2, demo_shared) = Inr (r', demo_shared) \<and> cr_el r' = 1 \<and>
     sr_sp (cr_sys r') = 0xFFFFFF800009C000"
proof -
  have p: "ps_global demo_shared = Some 0xFFFFFF8000100000" "va_to_pa 0xFFFFFF8000100000 \<noteq> 0"
    "pd_pt (ps_desc demo_shared 0xFFFFFF8000100000) = 0x1A0000" "page_addr 0x1A0000" "(0x1A0000 :: u64) \<noteq> 0"
    "0x80000002 AND 3 \<noteq> (0 :: u64)" "cr_el (demo_core 2) \<in> {2, 3}" "cr_el (demo_core 2) \<in> {1, 2, 3}"
    by (simp_all add: demo_shared_def va_to_pa_def page_addr_def demo_core_def)
  show ?thesis
    using remote_core_joins [OF p, of "0x9E000" "0x80200" "0x80000" 7 0 0]
    by (auto simp: core_stack_base_def curr_core_id_def)
qed

section \<open>The stacks\<close>

text \<open>
  The page below the stack pointer of a core, by its physical addresses. In linker.ld the
  stack of core 0 is the page behind the bss, and those of the other cores are meant to
  follow it.
\<close>

definition stack_page :: "core_regs \<Rightarrow> nat set" where
  "stack_page r = {unat (va_to_pa (sr_sp (cr_sys r))) - 0x1000 ..< unat (va_to_pa (sr_sp (cr_sys r)))}"

lemma page_plus_kernel: "unat x < 2 ^ 39 \<Longrightarrow> va_to_pa (x + KERNEL_START) = x"
proof -
  assume x: "unat x < 2 ^ 39"
  have "unat (x + KERNEL_START) = 0x1FFFFFF * 2 ^ 39 + unat x" using x by (simp add: unat_word_ariths)
  moreover have "(0x1FFFFFF * 2 ^ 39 + n) mod 2 ^ 39 = n" if "n < 2 ^ 39" for n :: nat
    using that by (simp only: mod_mult_self3 mod_less)
  ultimately show ?thesis
    using x by (simp add: va_to_pa_take word_unat_eq_iff unsigned_take_bit_eq take_bit_eq_mod unat_mod)
qed

lemma setup_stack_remote:
  assumes "ps_global s = Some g" and "va_to_pa g \<noteq> 0" and "pd_pt (ps_desc s g) = t" and "page_addr t" and "t \<noteq> 0"
    and "page_addr sp" and "0x4000 \<le> unat sp" and "mpidr AND 3 = word_of_nat c" and "c \<in> {1, 2, 3}"
  obtains r' where "setup_stack mpidr sp after x2 (r, s) = Inr (r', s)"
    and "stack_page r' = {unat sp - 0x1000 * (c + 1) ..< unat sp - 0x1000 * c}"
proof -
  have c: "mpidr AND 3 \<noteq> 0" "c < 4" using assms(8,9) by (auto simp: word_of_nat_eq_0_iff)
  let ?sp = "sp - word_of_nat c * CORE_STACK_SIZE"
  have "unat (word_of_nat c * 0x1000 :: u64) = 0x1000 * c" using c(2) by (simp add: unat_word_ariths unat_of_nat)
  moreover from this have "word_of_nat c * 0x1000 \<le> sp" using assms(7) c(2) by (simp add: word_le_nat_alt)
  ultimately have sp: "unat ?sp = unat sp - 0x1000 * c" by (simp add: unat_sub)
  have "unat sp < 2 ^ 32" using assms(6) by (simp add: page_addr_iff)
  then have pa: "va_to_pa (?sp + KERNEL_START) = ?sp" using sp by (intro page_plus_kernel) simp
  obtain r' where r': "remote_exec mpidr after (set_sys (sr_sp_update (\<lambda>_. ?sp)) r, s) = Inr (r', s)"
    "sr_sp (cr_sys r') = ?sp + KERNEL_START"
    using remote_exec_run [OF assms(1-5) c(1), of after "set_sys (sr_sp_update (\<lambda>_. ?sp)) r"]
    by (auto simp: set_sys_def)
  have "setup_stack mpidr sp after x2 (r, s) = Inr (r', s)"
    using r'(1) c(1) assms(8) page_align [OF assms(6)] by (simp add: setup_stack_def set_core_stack_def Let_def)
  moreover have "stack_page r' = {unat sp - 0x1000 * (c + 1) ..< unat sp - 0x1000 * c}"
    unfolding stack_page_def r'(2) pa sp by (simp add: add.commute)
  ultimately show thesis by (rule that)
qed

text \<open>
  C39. What setup_stack gives the four cores, with the layout of linker.ld, where the stack of
  core 0 is the page behind the bss, which ends at \<open>e\<close>. A remote core comes back from it
  with a page of its own, which overlaps neither the page of core 0 nor that of another
  remote core; but this page lies below the stack of core 0, in the bss, and not in the
  section behind it that the linker script reserves: the last byte of the bss is on the
  stack of core 1. On core 0 setup_stack subtracts whatever x2 holds from the stack of
  core 0.
\<close>

theorem remote_stacks_in_bss:
  assumes "ps_global s = Some g" and "va_to_pa g \<noteq> 0" and "pd_pt (ps_desc s g) = t" and "page_addr t" and "t \<noteq> 0"
    and "\<forall>c<4. mpidr c AND 3 = word_of_nat c"
    and "unat sp = (e + 4095) div 4096 * 4096 + 0x1000" and "unat sp < 2 ^ 32" and "0xA000 \<le> e"
  shows "\<exists>r'. (\<forall>c\<in>{1, 2, 3}. setup_stack (mpidr c) sp after (x2 c) (r c, s) = Inr (r' c, s) \<and>
      stack_page (r' c) \<subseteq> {e - 0x3000 ..< (e + 4095) div 4096 * 4096} \<and>
      stack_page (r' c) \<inter> {unat sp - 0x1000 ..< unat sp} = {} \<and>
      (\<forall>d\<in>{1, 2, 3}. c \<noteq> d \<longrightarrow> stack_page (r' c) \<inter> stack_page (r' d) = {})) \<and>
    e - 1 \<in> stack_page (r' 1) \<and>
    setup_stack (mpidr 0) sp after (x2 0) (r 0, s) = Inr (set_sys (sr_sp_update (\<lambda>_. sp - x2 0)) (r 0), s)"
proof -
  define A where "A = (e + 4095) div 4096 * 4096"
  have "A + (e + 4095) mod 4096 = e + 4095" "(e + 4095) mod 4096 < 4096" unfolding A_def by (rule div_mult_mod_eq) simp
  then have a: "e \<le> A" "A < e + 4096" by linarith+
  have pg: "page_addr sp" using assms(7,8) by (simp add: page_addr_iff)
  have sp: "unat sp = A + 4096" using assms(7) by (simp add: A_def)
  have lo: "0x4000 \<le> unat sp" using sp assms(9) a(1) by linarith
  have "\<forall>c. \<exists>r'. c \<in> {1, 2, 3} \<longrightarrow> setup_stack (mpidr c) sp after (x2 c) (r c, s) = Inr (r', s) \<and>
      stack_page r' = {unat sp - 0x1000 * (c + 1) ..< unat sp - 0x1000 * c}"
  proof
    fix c
    show "\<exists>r'. c \<in> {1, 2, 3} \<longrightarrow> setup_stack (mpidr c) sp after (x2 c) (r c, s) = Inr (r', s) \<and>
      stack_page r' = {unat sp - 0x1000 * (c + 1) ..< unat sp - 0x1000 * c}"
    proof (cases "c \<in> {1, 2, 3}")
      case True
      then have "mpidr c AND 3 = word_of_nat c" using assms(6) by auto
      from setup_stack_remote [OF assms(1-5) pg lo this True] show ?thesis by metis
    qed simp
  qed
  then obtain r' where r': "\<And>c. c \<in> {1, 2, 3} \<Longrightarrow> setup_stack (mpidr c) sp after (x2 c) (r c, s) = Inr (r' c, s) \<and>
      stack_page (r' c) = {unat sp - 0x1000 * (c + 1) ..< unat sp - 0x1000 * c}"
    by metis
  have "stack_page (r' c) \<subseteq> {e - 0x3000 ..< A}" "stack_page (r' c) \<inter> {unat sp - 0x1000 ..< unat sp} = {}"
    if "c \<in> {1, 2, 3}" for c
    using that r' [OF that] a assms(9) unfolding sp by auto
  moreover have "stack_page (r' c) \<inter> stack_page (r' d) = {}" if "c \<in> {1, 2, 3}" "d \<in> {1, 2, 3}" "c \<noteq> d" for c d
  proof -
    have "c + 1 \<le> d \<or> d + 1 \<le> c" using that(3) by linarith
    then have "0x1000 * (c + 1) \<le> 0x1000 * d \<or> 0x1000 * (d + 1) \<le> 0x1000 * c" by auto
    then show ?thesis using r' [OF that(1)] r' [OF that(2)] by auto
  qed
  moreover have "e - 1 \<in> stack_page (r' 1)" using r' [of 1] sp a assms(9) by auto
  moreover have "setup_stack (mpidr 0) sp after (x2 0) (r 0, s) = Inr (set_sys (sr_sp_update (\<lambda>_. sp - x2 0)) (r 0), s)"
    using assms(6) [rule_format, of 0] page_align [OF pg] by (simp add: setup_stack_def set_core_stack_def Let_def)
  moreover have "setup_stack (mpidr c) sp after (x2 c) (r c, s) = Inr (r' c, s)" if "c \<in> {1, 2, 3}" for c
    using r' [OF that] by blast
  ultimately show ?thesis unfolding A_def [symmetric] by (intro exI [of _ r'] conjI ballI impI)
qed

theorem remote_stacks_in_bss_witness:
  "\<exists>r1 r0. setup_stack 0x80000001 0x9C000 0x80200 7 (demo_core 1, demo_shared) = Inr (r1, demo_shared) \<and>
    0x9A9FF \<in> stack_page r1 \<and> setup_stack 0x80000000 0x9C000 0x80200 7 (demo_core 1, demo_shared) = Inr (r0, demo_shared) \<and>
    sr_sp (cr_sys r0) = 0x9BFF9"
proof -
  have p: "ps_global demo_shared = Some 0xFFFFFF8000100000" "va_to_pa 0xFFFFFF8000100000 \<noteq> 0"
    "pd_pt (ps_desc demo_shared 0xFFFFFF8000100000) = 0x1A0000" "page_addr 0x1A0000" "(0x1A0000 :: u64) \<noteq> 0"
    by (simp_all add: demo_shared_def va_to_pa_def page_addr_def)
  have m: "\<forall>c<4. (0x80000000 + word_of_nat c) AND 3 = (word_of_nat c :: u64)"
    by (simp add: eval_nat_numeral less_Suc_eq)
  have l: "unat (0x9C000 :: u64) = (0x9AA00 + 4095) div 4096 * 4096 + 0x1000" "unat (0x9C000 :: u64) < 2 ^ 32" "(0xA000 :: nat) \<le> 0x9AA00"
    by simp_all
  from remote_stacks_in_bss [OF p m l, of "0x80200" "\<lambda>_. 7" "\<lambda>_. demo_core 1"] obtain r' where
    r': "\<forall>c\<in>{1, 2, 3}. setup_stack (0x80000000 + word_of_nat c) 0x9C000 0x80200 7 (demo_core 1, demo_shared) = Inr (r' c, demo_shared)"
      "0x9AA00 - 1 \<in> stack_page (r' 1)"
      "setup_stack (0x80000000 + word_of_nat 0) 0x9C000 0x80200 7 (demo_core 1, demo_shared) =
        Inr (set_sys (sr_sp_update (\<lambda>_. 0x9C000 - 7)) (demo_core 1), demo_shared)"
    by blast
  then show ?thesis by (auto simp: set_sys_def)
qed

end
