(* ===== verification/Pool_Frames.thy ===== *)
theory Pool_Frames
  imports Slub_Inv Page_Alloc_Calls
begin

text \<open>
  The pages that the allocator hands out first, for the pool of 256 pages that main makes,
  at any address.
\<close>

section \<open>The first pages of the pool\<close>

text \<open>
  The allocator finds the other half of a block by flipping a bit of its address, so the
  pages are those that differ from the start of the pool in the offset bits. They are in the
  pool only when it is aligned to its size.
\<close>

definition first_offsets :: "u64 list" where
  "first_offsets = [0xFF000, 0xFE000, 0xFD000, 0xFC000, 0xFB000, 0xFA000, 0xF9000, 0xF8000, 0xF7000]"

definition first_frames :: "u64 \<Rightarrow> u64 list" where
  "first_frames base = map (\<lambda>d. d XOR base) first_offsets"

text \<open>The run, for any property \<open>Q\<close> of its result, so that no addresses are compared in it.\<close>

lemma take_frames_run:
  assumes "Q (Inr [0x1000 XOR (0x2000 XOR (0x4000 XOR (0x8000 XOR (0x10000 XOR (0x20000 XOR (0x40000 XOR (0x80000 XOR base))))))),
      0x2000 XOR (0x4000 XOR (0x8000 XOR (0x10000 XOR (0x20000 XOR (0x40000 XOR (0x80000 XOR base)))))),
      0x1000 XOR (0x4000 XOR (0x8000 XOR (0x10000 XOR (0x20000 XOR (0x40000 XOR (0x80000 XOR base)))))),
      0x4000 XOR (0x8000 XOR (0x10000 XOR (0x20000 XOR (0x40000 XOR (0x80000 XOR base))))),
      0x1000 XOR (0x2000 XOR (0x8000 XOR (0x10000 XOR (0x20000 XOR (0x40000 XOR (0x80000 XOR base)))))),
      0x2000 XOR (0x8000 XOR (0x10000 XOR (0x20000 XOR (0x40000 XOR (0x80000 XOR base))))),
      0x1000 XOR (0x8000 XOR (0x10000 XOR (0x20000 XOR (0x40000 XOR (0x80000 XOR base))))),
      0x8000 XOR (0x10000 XOR (0x20000 XOR (0x40000 XOR (0x80000 XOR base)))),
      0x1000 XOR (0x2000 XOR (0x4000 XOR (0x10000 XOR (0x20000 XOR (0x40000 XOR (0x80000 XOR base))))))])"
  shows "Q (map_sum id fst (take_pages 9 (pool_state base 8)) :: fault + u64 list)"
  by (code_simp, rule assms)

lemma take_first_frames: "\<exists>m. take_pages 9 (pool_state base 8) = Inr (first_frames base, m)"
proof -
  have "map_sum id fst (take_pages 9 (pool_state base 8)) = Inr (first_frames base)"
    by (rule take_frames_run) (simp add: first_frames_def first_offsets_def xor.assoc [symmetric])
  then show ?thesis by (auto simp: map_sum_def split: sum.splits)
qed

end
