(* ===== verification/Reset_Boot.thy ===== *)
theory Reset_Boot
  imports Boot Start_Props Pool_Frames
begin

text \<open>
  From the entry of the kernel to the armed timer, with the layout of linker.ld: the pool of
  pages begins at the end of the kernel, which is also where the tables of the boot code lie.
\<close>

section \<open>Where the first pages lie\<close>

lemma main_pool: "init_free_list base 0x100000 fl_meta_zero = Inr (pool_state base 8)"
  by (rule init_free_list_pool) (simp_all add: blk_bytes_def)

lemma or_disjoint: "a AND b = 0 \<Longrightarrow> a OR b = a XOR b" for a b :: u64
  by (rule bit_word_eqI) (metis bit_0_eq bit_and_iff bit_or_iff bit_xor_iff bot_apply bot_bool_def)

lemma frame_phys:
  assumes "page_addr t" and "page_addr d"
  shows "va_to_pa (d XOR (KERNEL_START + t)) = d XOR t" and "d XOR (KERNEL_START + t) = KERNEL_START OR (d XOR t)"
    and "page_addr (d XOR t)"
proof -
  have z: "KERNEL_START AND q = 0" if "page_addr q" for q
    using and_mask_via [of q "0xFFFFF000" KERNEL_START] that by (simp add: page_addr_def and.commute)
  have x: "KERNEL_START OR q = KERNEL_START XOR q" if "page_addr q" for q
    by (rule or_disjoint) (rule z [OF that])
  show p: "page_addr (d XOR t)"
    using assms by (simp add: page_addr_def bit.conj_xor_distrib2)
  have "d XOR (KERNEL_START + t) = KERNEL_START XOR (d XOR t)"
    unfolding kernel_plus [OF assms(1), symmetric] x [OF assms(1)] by (rule xor.left_commute)
  then show e: "d XOR (KERNEL_START + t) = KERNEL_START OR (d XOR t)" by (simp only: x [OF p])
  show "va_to_pa (d XOR (KERNEL_START + t)) = d XOR t"
    unfolding e kernel_plus [OF p] by (rule va_to_pa_kernel [OF p])
qed

lemma page_half: "page_addr q \<Longrightarrow> drop_bit 39 q = 0" "page_addr q \<Longrightarrow> drop_bit 39 (KERNEL_START OR q) = 0x1FFFFFF"
proof -
  assume "page_addr q"
  then show z: "drop_bit 39 q = 0" by (simp add: word_unat_eq_iff unat_drop page_addr_iff)
  have "drop_bit 39 KERNEL_START = (0x1FFFFFF :: u64)" by simp
  then show "drop_bit 39 (KERNEL_START OR q) = 0x1FFFFFF" by (simp only: drop_bit_or z or.right_neutral)
qed

lemma first_offsets_ok: "d \<in> set first_offsets \<Longrightarrow> page_addr d \<and> drop_bit 19 d = 1"
  by (auto simp: first_offsets_def page_addr_def)

lemma drop_bounds: "unat (drop_bit k q) = c \<Longrightarrow> c * 2 ^ k \<le> unat q \<and> unat q < (c + 1) * 2 ^ k" for q :: u64
proof -
  assume "unat (drop_bit k q) = c"
  then have "c * 2 ^ k + unat q mod 2 ^ k = unat q" unfolding unat_drop by (metis div_mult_mod_eq)
  moreover have "unat q mod 2 ^ k < 2 ^ k" by simp
  ultimately show ?thesis unfolding add_mult_distrib mult_1 by linarith
qed

text \<open>With the pool in the second half of the second megabyte, its first pages are in the first half.\<close>

lemma frame_range:
  assumes "page_addr t" and "0x180000 \<le> unat t" and "unat t < 0x200000" and "d \<in> set first_offsets"
  shows "0x100000 \<le> unat (d XOR t)" and "unat (d XOR t) + 4096 \<le> 0x180000"
proof -
  have "unat t div 2 ^ 19 = 3" using assms(2,3) by simp
  then have "drop_bit 19 t = 3" by (simp add: word_unat_eq_iff unat_drop)
  then have "drop_bit 19 (d XOR t) = 1 XOR 3" using first_offsets_ok [OF assms(4)] by (simp only: drop_bit_xor)
  then have "unat (drop_bit 19 (d XOR t)) = 2" by simp
  from drop_bounds [OF this] have b: "0x100000 \<le> unat (d XOR t)" "unat (d XOR t) < 0x180000" by simp_all
  have "4096 dvd unat (d XOR t)" using frame_phys(3) [OF assms(1)] first_offsets_ok [OF assms(4)] by (simp add: page_addr_iff)
  then have "4096 dvd 0x180000 - unat (d XOR t)" by (intro dvd_diff_nat) simp_all
  then have "4096 \<le> 0x180000 - unat (d XOR t)" by (rule dvd_imp_le) (use b(2) in simp)
  then show "0x100000 \<le> unat (d XOR t)" "unat (d XOR t) + 4096 \<le> 0x180000" using b by simp_all
qed

section \<open>The boot\<close>

text \<open>Memory that is clean where the tables and the first pages lie; the kernel may be anywhere else.\<close>

definition clean_layout :: "u64 \<Rightarrow> u64 \<Rightarrow> (u64 \<Rightarrow> u64) \<Rightarrow> bool" where
  "clean_layout t b m \<longleftrightarrow> table_space t b \<and> 0x180000 \<le> unat t \<and> unat t < 0x200000 \<and>
     (\<forall>i<1536. m (t + word_of_nat (8 * i)) = 0) \<and> (\<forall>a. 0x100000 \<le> unat a \<and> unat a < 0x180000 \<longrightarrow> m a = 0)"

lemma first_frame:
  assumes "page_addr t" and "0x180000 \<le> unat t" and "unat t < 0x200000" and "p \<in> set (first_frames (KERNEL_START + t))"
  shows "page_ok p" and "0x100000 \<le> unat (va_to_pa p)" and "unat (va_to_pa p) + 4096 \<le> 0x180000"
proof -
  obtain d where d: "d \<in> set first_offsets" "p = d XOR (KERNEL_START + t)" using assms(4) by (auto simp: first_frames_def)
  have pd: "page_addr d" using first_offsets_ok [OF d(1)] by simp
  note ph = frame_phys [OF assms(1) pd, folded d(2)] and rg = frame_range [OF assms(1-3) d(1)]
  show "0x100000 \<le> unat (va_to_pa p)" "unat (va_to_pa p) + 4096 \<le> 0x180000" using rg by (simp_all only: ph(1))
  have "d XOR t \<noteq> 0" using rg(1) by auto
  then show "page_ok p" using ph by (simp add: page_ok_def)
qed

lemma start_memory_clean:
  assumes "clean_layout t b m" and "0x100000 \<le> unat a" and "unat a < 0x180000"
  shows "start_memory t b m a = 0"
proof (cases "\<exists>j<0xA000. a = b + word_of_nat (8 * j)")
  case True
  then obtain j where j: "j < 0xA000" "a = b + word_of_nat (8 * j)" by blast
  have "table_space t b" using assms(1) by (simp add: clean_layout_def)
  from start_memory_at(2) [OF this j(1)] show ?thesis unfolding j(2) .
next
  case False
  have l: "table_space t b" "m a = 0" "0x180000 \<le> unat t" "unat t + 0x3000 \<le> 2 ^ 32"
    using assms by (simp_all add: clean_layout_def table_space_def)
  have "a \<noteq> t + word_of_nat (8 * i)" if "i < 1536" for i
    using unat_slot [of t i] l(3,4) that assms(3) by (auto simp del: of_nat_mult)
  then have "start_memory t b m a = m a" using False by (intro start_memory_at(3) [OF l(1)]) blast+
  then show ?thesis by (simp only: l(2))
qed

lemma first_frames_heap:
  assumes "clean_layout t b m" and "ps_mem s = start_memory t b m" and "ps_heap s = first_frames (KERNEL_START + t)"
  shows "heap_ok s []"
proof -
  have l: "page_addr t" "0x180000 \<le> unat t" "unat t < 0x200000" using assms(1) by (simp_all add: clean_layout_def table_space_def)
  note fr = first_frame [OF l]
  have z: "start_memory t b m (va_to_pa p + 8 * i) = 0" if p: "p \<in> set (first_frames (KERNEL_START + t))" and i: "i < 512" for p i
  proof -
    have "unat (8 * i) \<le> 4088" using i by (simp add: unat_word_ariths word_less_nat_alt)
    moreover have "unat (va_to_pa p) + unat (8 * i) < 2 ^ 64" using fr(3) [OF p] calculation by simp
    then have "unat (va_to_pa p + 8 * i) = unat (va_to_pa p) + unat (8 * i)"
      by (subst unat_plus_simple [THEN iffD1]) (auto simp: no_olen_add_nat)
    ultimately show ?thesis using fr(2,3) [OF p] by (intro start_memory_clean [OF assms(1)]) simp_all
  qed
  have "map va_to_pa (first_frames (KERNEL_START + t)) = map (\<lambda>d. d XOR t) first_offsets"
    using frame_phys(1) [OF l(1)] first_offsets_ok by (simp add: first_frames_def)
  moreover have "inj_on (\<lambda>d. d XOR t) (set first_offsets)"
  proof (rule inj_onI)
    fix x y assume "x XOR t = y XOR t"
    then have "(x XOR t) XOR t = (y XOR t) XOR t" by (rule arg_cong)
    then show "x = y" by (simp only: xor.assoc xor_self_eq xor.right_neutral)
  qed
  ultimately have "distinct (map va_to_pa (first_frames (KERNEL_START + t)))" by (simp add: distinct_map first_offsets_def)
  then show ?thesis using fr(1) z by (simp add: heap_ok_def assms(2,3))
qed

lemma desc_nonzero: "page_ok g \<Longrightarrow> g \<noteq> 0 \<and> g + 32 \<noteq> 0 \<and> g + 64 \<noteq> 0"
proof -
  assume a: "page_ok g"
  have "g AND 0xFFF = 0" "va_to_pa g \<noteq> 0" using page_phys(2) [OF a] a by (simp_all add: page_ok_def)
  then show ?thesis by (auto simp: eq_neg_iff_add_eq_0 [symmetric] va_to_pa_def)
qed

lemma start_translation:
  "va_translate (cr_sys (start_regs sp t after vt r)) m a = (if drop_bit 39 a \<in> {0, 0x1FFFFFF} then hw_walk m t a else None)"
  if "cr_el r \<in> {1, 2, 3}"
  using start_regs_values(4) [OF that, of sp t after vt] by (auto simp: va_translate_def)

lemma start_walk:
  assumes "table_space t b" and "t \<noteq> 0" and "\<forall>i<1536. m (t + word_of_nat (8 * i)) = 0"
  shows "hw_walk (start_memory t b m) t a = (if unat (va_to_pa a) < 0x1F1000 then Some (va_to_pa a) else None)"
  using boot_walk [OF start_tables [OF assms]] by (simp add: va_to_pa_take)

text \<open>
  From the entry of the kernel to the armed timer, with the pool at the tables of the boot
  code, in the second half of the second megabyte.
\<close>

lemma reset_boot:
  assumes "clean_layout t b m" and "cr_el r \<in> {1, 2, 3}"
    and "start sp t after (KERNEL_START + b) vt (r, m) = Inr (r', m')"
    and "init_free_list (KERNEL_START + t) 0x100000 fl_meta_zero = Inr m0" and "take_pages 9 m0 = Inr (ps, m1)"
    and "io_pt (ks_dev k) = \<lparr>ps_mem = m', ps_desc = descs, ps_global = None, ps_ctr = 0, ps_heap = ps\<rparr>"
    and "drop_bit 4 reg AND 0xFFF = 0xD03" and "gets_ready (io_dev (ks_dev k)) serial_status lsr_idle" and "ks_lock k = 0"
  shows "(\<forall>p\<in>set ps. va_translate (cr_sys r') m' p = Some (va_to_pa p)) \<and>
    (\<exists>q p console tmr irq k'. init_mmu 0 (cr_sys r', io_pt (ks_dev k)) = Inr (q, p) \<and> ps_global p = Some (hd ps) \<and>
      main_devices reg ctrl (k\<lparr>ks_dev := ks_dev k\<lparr>io_pt := p\<rparr>\<rparr>) = Inr (Some console, tmr, irq, k') \<and>
      (\<forall>a. va_translate q (ps_mem (io_pt (ks_dev k'))) a =
        (if drop_bit 39 a \<in> {0, 0x1FFFFFF} \<and>
            (unat (va_to_pa a) < 0x1F1000 \<or> (\<exists>d\<in>set device_pages. a AND VA_PAGE = d AND VA_PAGE))
         then Some (va_to_pa a) else None)))"
proof -
  have l: "table_space t b" "0x180000 \<le> unat t" "unat t < 0x200000" "\<forall>i<1536. m (t + word_of_nat (8 * i)) = 0"
    using assms(1) by (simp_all add: clean_layout_def)
  have t: "page_addr t" "t \<noteq> 0" using l(1,2) by (auto simp: table_space_def)
  have rm: "r' = start_regs sp t after vt r" "m' = start_memory t b m" using assms(3) by (simp_all add: start_eq [OF t(1)])
  obtain mm where "take_pages 9 (pool_state (KERNEL_START + t) 8) = Inr (first_frames (KERNEL_START + t), mm)"
    using take_first_frames by blast
  then have ps: "ps = first_frames (KERNEL_START + t)" using assms(4,5) by (simp add: main_pool)
  note bt = start_tables [OF l(1) t(2) l(4), folded rm(2)] and fr = first_frame [OF t(1) l(2,3), folded ps]
  note walk = start_walk [OF l(1) t(2) l(4), folded rm(2)]
  have sys: "sr_ttbr1 (cr_sys r') = t" "(cr_sys r')\<lparr>sr_mair := mair_el1\<rparr> = cr_sys r'"
    using start_regs_values(4) [OF assms(2), of sp t after vt] by (simp_all add: rm(1) mair_value)
  note tr = start_translation [OF assms(2), of sp t after vt, folded rm(1)]
  have half: "drop_bit 39 p \<in> {0, 0x1FFFFFF}" if "p \<in> set ps" for p
  proof -
    have "drop_bit 39 p = 0 \<or> drop_bit 39 p = 0x1FFFFFF"
      using fr(1) [OF that] page_half [OF page_ok_page] unfolding page_ok_def by metis
    then show ?thesis by simp
  qed
  have mapped: "va_translate (cr_sys r') m' p = Some (va_to_pa p)" if "p \<in> set ps" for p
    using tr [of m' p] half [OF that] fr(3) [OF that] by (simp add: walk)
  obtain g hs where gh: "ps = g # hs" "length hs = 8" by (simp add: ps first_frames_def first_offsets_def)
  have h: "ps_heap (io_pt (ks_dev k)) = g # hs" "ps_global (io_pt (ks_dev k)) = None" "ps_ctr (io_pt (ks_dev k)) = 0"
    "ps_mem (io_pt (ks_dev k)) = m'" using assms(6) gh(1) by simp_all
  have "heap_ok (io_pt (ks_dev k)) []"
    by (rule first_frames_heap [OF assms(1)]) (use assms(6) ps rm(2) in simp_all)
  then have hk: "heap_ok (io_pt (ks_dev k)\<lparr>ps_heap := hs\<rparr>) []" using h(1) by (simp add: heap_ok_def)
  have u: "unat (t + 0x1000) = unat t + 0x1000" "unat (t + 0x2000) = unat t + 0x2000"
    using unat_slot [of t 512] unat_slot [of t 1024] l(3) by simp_all
  have dj: "\<forall>p\<in>set hs. va_to_pa p \<notin> {sr_ttbr1 (cr_sys r'), t + 0x1000, t + 0x2000}"
    using fr(3) u l(2) gh(1) by (fastforce simp: sys(1))
  have g: "page_ok g" "2 * (0 + 4) \<le> length hs" using fr(1) gh by auto
  have bt': "boot_tables (ps_mem (io_pt (ks_dev k))) (sr_ttbr1 (cr_sys r')) (t + 0x1000) (t + 0x2000)"
    using bt(1) by (simp only: h(4) sys(1))
  obtain p console tmr irq k' where run: "init_mmu 0 (cr_sys r', io_pt (ks_dev k)) = Inr (cr_sys r', p)"
    "main_devices reg ctrl (k\<lparr>ks_dev := ks_dev k\<lparr>io_pt := p\<rparr>\<rparr>) = Inr (Some console, tmr, irq, k')"
    "\<And>a. hw_walk (ps_mem (io_pt (ks_dev k'))) t a =
      (if \<exists>d\<in>set device_pages. a AND VA_PAGE = d AND VA_PAGE then Some (va_to_pa a) else hw_walk m' t a)"
    by (rule boot_run [OF bt' h(2,3,1) g(2) _ g(1) hk dj assms(7-9), of ctrl, unfolded h(4) sys]) (simp, rule that)
  have nz: "g \<noteq> 0" "g + 32 \<noteq> 0" "g + 64 \<noteq> 0"
    using desc_nonzero [OF g(1)] by simp_all
  obtain p1 where "extract_global_pt_info (cr_sys r') (io_pt (ks_dev k)) = Inr p1" "ps_global p1 = Some g"
    by (rule extract_first [OF h(2,1,3) bt' nz]) (rule that)
  then have "ps_global p = Some (hd ps)" using run(1) by (simp add: init_mmu_def gh(1) split: if_splits)
  moreover have "va_translate (cr_sys r') (ps_mem (io_pt (ks_dev k'))) a =
      (if drop_bit 39 a \<in> {0, 0x1FFFFFF} \<and>
          (unat (va_to_pa a) < 0x1F1000 \<or> (\<exists>d\<in>set device_pages. a AND VA_PAGE = d AND VA_PAGE))
       then Some (va_to_pa a) else None)" for a
    using tr [of "ps_mem (io_pt (ks_dev k'))" a, unfolded run(3) walk] by (simp split: if_splits)
  ultimately show ?thesis using mapped run(1,2) by blast
qed

section \<open>A pool above the mapped pages\<close>

text \<open>
  C22. The first page of the pool, which init_mmu writes to before any other page is mapped,
  when the pool begins at the tables of the boot code, at 0x180000 or above: it is mapped
  exactly if the kernel with the reserved megabyte ends below 2 MB. From there on the access
  faults, in particular for every pool of 1 MB that is aligned to its size.
\<close>

theorem first_page_needs_low_pool:
  assumes "table_space t b" and "\<forall>i<1536. m (t + word_of_nat (8 * i)) = 0" and "cr_el r \<in> {1, 2, 3}" and "0x180000 \<le> unat t"
    and "start sp t after (KERNEL_START + b) vt (r, m) = Inr (r', m')"
    and "init_free_list (KERNEL_START + t) 0x100000 fl_meta_zero = Inr m0"
  shows "\<exists>p m1. page_alloc 1 m0 = Inr (p, m1) \<and>
    va_translate (cr_sys r') m' p = (if unat t < 0x200000 then Some (va_to_pa p) else None)"
proof -
  have t: "page_addr t" "t \<noteq> 0" using assms(1,4) by (auto simp: table_space_def)
  have rm: "r' = start_regs sp t after vt r" "m' = start_memory t b m" using assms(5) by (simp_all add: start_eq [OF t(1)])
  let ?q = "0xFF000 XOR t :: u64" and ?p = "0xFF000 XOR (KERNEL_START + t)"
  have d: "page_addr 0xFF000" by (simp add: page_addr_def)
  note ph = frame_phys [OF t(1) d]
  obtain mm where "take_pages 9 m0 = Inr (first_frames (KERNEL_START + t), mm)"
    using take_first_frames assms(6) by (auto simp: main_pool)
  then obtain m1 where p: "page_alloc 1 m0 = Inr (?p, m1)"
    by (auto simp: first_frames_def first_offsets_def numeral_eq_Suc bindR_Inr_iff split: prod.splits)
  have half: "drop_bit 39 ?p = 0x1FFFFFF" using page_half(2) [OF ph(3)] by (simp only: ph(2))
  have walk: "va_translate (cr_sys r') m' ?p = (if unat ?q < 0x1F1000 then Some ?q else None)"
    unfolding rm start_translation [OF assms(3)] start_walk [OF assms(1) t(2) assms(2)] half ph(1) by simp
  have "unat ?q < 0x1F1000 \<longleftrightarrow> unat t < 0x200000"
  proof (cases "unat t < 0x200000")
    case True
    then show ?thesis using frame_range [OF t(1) assms(4), of "0xFF000"] by (simp add: first_offsets_def)
  next
    case False
    have "drop_bit 20 ?q = drop_bit 20 t" by (simp add: drop_bit_xor)
    then have "unat (drop_bit 20 ?q) = unat t div 2 ^ 20" by (simp only: unat_drop)
    then have "unat t div 2 ^ 20 * 2 ^ 20 \<le> unat ?q" using drop_bounds by blast
    moreover have "2 \<le> unat t div 2 ^ 20" using False by (simp add: less_eq_div_iff_mult_less_eq)
    then have "2 * 2 ^ 20 \<le> unat t div 2 ^ 20 * 2 ^ 20" by (rule mult_le_mono1)
    ultimately have "2 * 2 ^ 20 \<le> unat ?q" by (rule order.trans [rotated])
    then show ?thesis using False by simp
  qed
  then show ?thesis using p walk ph(1) by auto
qed

theorem first_page_needs_low_pool_witness:
  "\<exists>r' m' m0 p m1. start 0x9E000 0x200000 0x80100 0xFFFFFF8000090000 0xFFFFFF8000080800 (demo_core 2, \<lambda>_. 0) = Inr (r', m') \<and>
    init_free_list 0xFFFFFF8000200000 0x100000 fl_meta_zero = Inr m0 \<and> page_alloc 1 m0 = Inr (p, m1) \<and>
    va_translate (cr_sys r') m' p = None"
proof -
  have sp: "table_space 0x200000 0x90000" by (simp add: table_space_def page_addr_def)
  have el: "cr_el (demo_core 2) \<in> {1, 2, 3}" by (simp add: demo_core_def)
  obtain r' m' where st: "start 0x9E000 0x200000 0x80100 (KERNEL_START + 0x90000) 0xFFFFFF8000080800 (demo_core 2, \<lambda>_. 0) = Inr (r', m')"
    using start_eq [of "0x200000" "0x9E000" "0x80100" "0x90000"] by (auto simp: page_addr_def)
  have "\<exists>p m1. page_alloc 1 (pool_state (KERNEL_START + 0x200000) 8) = Inr (p, m1) \<and>
    va_translate (cr_sys r') m' p = (if unat (0x200000 :: u64) < 0x200000 then Some (va_to_pa p) else None)"
    by (rule first_page_needs_low_pool [OF sp _ el _ st main_pool]) simp_all
  then show ?thesis using st main_pool [of "0xFFFFFF8000200000"] by auto
qed

end
