(* ===== verification/Mutex.thy ===== *)
theory Mutex
  imports Workqueue
begin

text \<open>
  The spin lock of asm/mutex.h, one instruction per step, on a machine of four cores with
  an exclusive monitor and an event register each. The lock word is a single location, so
  the steps are interleavings of the accesses to it. The lock implements the abstract lock
  of one owner.
\<close>

section \<open>The instructions\<close>

text \<open>
  The program counter of a core: outside of the lock functions, at an instruction of
  acquire\_mutex (with the loaded value or the status of the store), between acquire and
  release, and between the two instructions of release\_mutex.
\<close>

datatype lock_pc = Outside | At_ldaxr | At_cbnz_held u32 | At_stxr | At_cbnz_retry u32 | At_wfe | Critical | At_sev

record lock_state =
  lk_word :: u32
  lk_pc :: "nat \<Rightarrow> lock_pc"
  lk_monitor :: "nat \<Rightarrow> bool"
  lk_event :: "nat \<Rightarrow> bool"

text \<open>
  A store to the lock word clears the monitors of all cores; a core whose monitor is
  cleared by another one gets an event.
\<close>

definition store_lock :: "nat \<Rightarrow> u32 \<Rightarrow> lock_state \<Rightarrow> lock_state" where
  "store_lock c v s = s\<lparr>lk_word := v, lk_monitor := (\<lambda>_. False),
     lk_event := (\<lambda>d. lk_event s d \<or> d \<noteq> c \<and> lk_monitor s d)\<rparr>"

definition goto :: "nat \<Rightarrow> lock_pc \<Rightarrow> lock_state \<Rightarrow> lock_state" where
  "goto c p s = s\<lparr>lk_pc := (lk_pc s)(c := p)\<rparr>"

definition acquire_mutex :: "nat \<Rightarrow> lock_state \<Rightarrow> lock_state" where
  "acquire_mutex c s =
     (case lk_pc s c of
        At_ldaxr \<Rightarrow> goto c (At_cbnz_held (lk_word s)) (s\<lparr>lk_monitor := (lk_monitor s)(c := True)\<rparr>)
      | At_cbnz_held v \<Rightarrow> goto c (if v \<noteq> 0 then At_wfe else At_stxr) s
      | At_stxr \<Rightarrow>
          if lk_monitor s c then goto c (At_cbnz_retry 0) (store_lock c 1 s)
          else goto c (At_cbnz_retry 1) s
      | At_cbnz_retry r \<Rightarrow> goto c (if r \<noteq> 0 then At_ldaxr else Critical) s
      | At_wfe \<Rightarrow> if lk_event s c then goto c At_ldaxr (s\<lparr>lk_event := (lk_event s)(c := False)\<rparr>) else s
      | _ \<Rightarrow> s)"

text \<open>
  release\_mutex stores 0 whoever holds the lock; the second instruction is the signal.
\<close>

definition release_mutex :: "nat \<Rightarrow> lock_state \<Rightarrow> lock_state" where
  "release_mutex c s =
     (if lk_pc s c = At_sev then goto c Outside (s\<lparr>lk_event := (\<lambda>_. True)\<rparr>)
      else goto c At_sev (store_lock c 0 s))"

text \<open>
  What can happen: a core calls acquire\_mutex, performs the next instruction of the one
  function or of the other, or loses its exclusive monitor, which the architecture allows
  at any time, with the event that this makes. As mutex.h says of release\_mutex, the lock
  is released by a core that owns it; the hand over of smp.c, which releases locks that
  another core has taken, is in the theory Smp.
\<close>

datatype lock_act = Call nat | Acquire nat | Release nat | Lose nat

definition lock_act :: "lock_act \<Rightarrow> lock_state \<Rightarrow> lock_state" where
  "lock_act a s =
     (case a of
        Call c \<Rightarrow> if lk_pc s c = Outside then goto c At_ldaxr s else s
      | Acquire c \<Rightarrow> acquire_mutex c s
      | Release c \<Rightarrow> if lk_pc s c = Critical \<or> lk_pc s c = At_sev then release_mutex c s else s
      | Lose c \<Rightarrow> if lk_monitor s c
          then s\<lparr>lk_monitor := (lk_monitor s)(c := False), lk_event := (lk_event s)(c := True)\<rparr> else s)"

primrec act_core :: "lock_act \<Rightarrow> nat" where
  "act_core (Call c) = c" | "act_core (Acquire c) = c" | "act_core (Release c) = c" | "act_core (Lose c) = c"

inductive lock_step :: "lock_state \<Rightarrow> lock_state \<Rightarrow> bool" where
  "act_core a < NR_CORES \<Longrightarrow> lock_step s (lock_act a s)"

definition lock_free :: lock_state where
  "lock_free = \<lparr>lk_word = 0, lk_pc = (\<lambda>_. Outside), lk_monitor = (\<lambda>_. False), lk_event = (\<lambda>_. False)\<rparr>"

primrec run_lock :: "lock_act list \<Rightarrow> lock_state \<Rightarrow> lock_state" where
  "run_lock [] s = s"
| "run_lock (a # as) s = run_lock as (lock_act a s)"

section \<open>The invariant\<close>

text \<open>A core owns the lock from its successful store on.\<close>

definition owns :: "lock_state \<Rightarrow> nat \<Rightarrow> bool" where
  "owns s c \<longleftrightarrow> lk_pc s c = Critical \<or> lk_pc s c = At_cbnz_retry 0"

definition waits :: "lock_state \<Rightarrow> nat \<Rightarrow> bool" where
  "waits s c \<longleftrightarrow> lk_pc s c = At_wfe \<or> (\<exists>v. lk_pc s c = At_cbnz_held v \<and> v \<noteq> 0)"

definition wake_up :: "lock_state \<Rightarrow> bool" where
  "wake_up s \<longleftrightarrow> (\<exists>d<NR_CORES. lk_pc s d = At_sev)"

text \<open>
  \<open>locked s ow\<close> says that \<open>ow\<close> is the owner. A monitor that is still set vouches for the
  value that was loaded, and a core that waits for a free lock has an event, or is about
  to get one.
\<close>

definition locked :: "lock_state \<Rightarrow> nat option \<Rightarrow> bool" where
  "locked s ow \<longleftrightarrow> (\<forall>c. owns s c \<longleftrightarrow> ow = Some c) \<and> (lk_word s = 0 \<longleftrightarrow> ow = None)"

definition monitors_ok :: "lock_state \<Rightarrow> bool" where
  "monitors_ok s \<longleftrightarrow> (\<forall>c. lk_monitor s c \<longrightarrow>
     (\<forall>v. lk_pc s c = At_cbnz_held v \<longrightarrow> lk_word s = v) \<and> (lk_pc s c = At_stxr \<longrightarrow> lk_word s = 0))"

definition waiters_ok :: "lock_state \<Rightarrow> bool" where
  "waiters_ok s \<longleftrightarrow> (\<forall>c. waits s c \<longrightarrow> lk_word s = 0 \<longrightarrow> lk_event s c \<or> wake_up s)"

definition lock_inv :: "lock_state \<Rightarrow> bool" where
  "lock_inv s \<longleftrightarrow> (\<exists>ow. locked s ow) \<and> monitors_ok s \<and> waiters_ok s \<and>
     (\<forall>c. \<not> c < NR_CORES \<longrightarrow> lk_pc s c = Outside)"

lemma goto_simps [simp]:
  "lk_pc (goto c p s) = (lk_pc s)(c := p)" "lk_word (goto c p s) = lk_word s"
  "lk_monitor (goto c p s) = lk_monitor s" "lk_event (goto c p s) = lk_event s"
  by (simp_all add: goto_def)

lemma store_lock_simps [simp]:
  "lk_pc (store_lock c v s) = lk_pc s" "lk_word (store_lock c v s) = v"
  "lk_monitor (store_lock c v s) = (\<lambda>_. False)"
  "lk_event (store_lock c v s) = (\<lambda>d. lk_event s d \<or> d \<noteq> c \<and> lk_monitor s d)"
  by (simp_all add: store_lock_def)

lemma owns_simps [simp]:
  "owns (goto c p s) d \<longleftrightarrow> (if d = c then p = Critical \<or> p = At_cbnz_retry 0 else owns s d)"
  "owns (store_lock c v s) d \<longleftrightarrow> owns s d" "owns (s\<lparr>lk_event := e\<rparr>) d \<longleftrightarrow> owns s d"
  "owns (s\<lparr>lk_monitor := m\<rparr>) d \<longleftrightarrow> owns s d"
  by (simp_all add: owns_def)

lemma waits_simps [simp]:
  "waits (goto c p s) d \<longleftrightarrow> (if d = c then p = At_wfe \<or> (\<exists>v. p = At_cbnz_held v \<and> v \<noteq> 0) else waits s d)"
  "waits (store_lock c v s) d \<longleftrightarrow> waits s d" "waits (s\<lparr>lk_event := e\<rparr>) d \<longleftrightarrow> waits s d"
  "waits (s\<lparr>lk_monitor := m\<rparr>) d \<longleftrightarrow> waits s d"
  by (simp_all add: waits_def)

lemma wake_up_simps [simp]:
  "lk_pc s c \<noteq> At_sev \<Longrightarrow> p \<noteq> At_sev \<Longrightarrow> wake_up (goto c p s) = wake_up s"
  "c < NR_CORES \<Longrightarrow> wake_up (goto c At_sev s)"
  "wake_up (store_lock c v s) = wake_up s" "wake_up (s\<lparr>lk_event := e\<rparr>) = wake_up s"
  "wake_up (s\<lparr>lk_monitor := m\<rparr>) = wake_up s"
  by (auto simp: wake_up_def)

lemma lock_inv_free: "lock_inv lock_free"
  by (auto simp: lock_inv_def lock_free_def owns_def waits_def locked_def monitors_ok_def waiters_ok_def)

text \<open>
  What one action does to the owner: nothing, or the core of the action takes a lock that
  is free, or gives up the lock it holds.
\<close>

definition owner_step :: "nat \<Rightarrow> nat option \<Rightarrow> nat option \<Rightarrow> bool" where
  "owner_step c ow ow' \<longleftrightarrow> ow' = ow \<or> ow = None \<and> ow' = Some c \<or> ow = Some c \<and> ow' = None"

lemma not_owner: "locked s ow \<Longrightarrow> \<not> owns s c \<Longrightarrow> ow \<noteq> Some c"
  by (auto simp: locked_def)

lemma locked_goto: "locked s ow \<Longrightarrow> \<not> owns s c \<Longrightarrow> p \<noteq> Critical \<Longrightarrow> p \<noteq> At_cbnz_retry 0 \<Longrightarrow> locked (goto c p s) ow"
  by (auto simp: locked_def)

lemma locked_frame [simp]:
  "locked (s\<lparr>lk_event := e\<rparr>) ow = locked s ow" "locked (s\<lparr>lk_monitor := m\<rparr>) ow = locked s ow"
  by (simp_all add: locked_def)

lemma acquire_owner:
  assumes "locked s ow" and "monitors_ok s"
  shows "\<exists>ow'. locked (acquire_mutex c s) ow' \<and> owner_step c ow ow'"
proof (cases "lk_pc s c = At_stxr \<and> lk_monitor s c")
  case True
  then have "ow = None" using assms by (auto simp: locked_def monitors_ok_def)
  then have "locked (acquire_mutex c s) (Some c)" using assms(1) True
    by (auto simp: locked_def acquire_mutex_def)
  with \<open>ow = None\<close> show ?thesis by (auto simp: owner_step_def)
next
  case False
  have "locked (acquire_mutex c s) ow"
  proof (cases "lk_pc s c = At_cbnz_retry 0")
    case True
    then have "owns s c" by (simp add: owns_def)
    with True assms(1) show ?thesis by (auto simp: locked_def acquire_mutex_def)
  next
    case f: False
    show ?thesis
    proof (cases "lk_pc s c = Critical")
      case False
      with f have "\<not> owns s c" by (simp add: owns_def)
      with assms(1) f \<open>\<not> (lk_pc s c = At_stxr \<and> lk_monitor s c)\<close> show ?thesis
        by (auto simp: acquire_mutex_def intro!: locked_goto split: lock_pc.split)
    qed (use assms(1) in \<open>simp add: acquire_mutex_def\<close>)
  qed
  then show ?thesis by (auto simp: owner_step_def)
qed

lemma release_owner:
  assumes "locked s ow" and "lk_pc s c = Critical \<or> lk_pc s c = At_sev"
  shows "\<exists>ow'. locked (release_mutex c s) ow' \<and> owner_step c ow ow'"
proof (cases "lk_pc s c")
  case Critical
  then have "owns s c" by (simp add: owns_def)
  then have "ow = Some c" using assms by (simp add: locked_def)
  then have "locked (release_mutex c s) None" using assms Critical by (auto simp: locked_def release_mutex_def)
  with \<open>ow = Some c\<close> show ?thesis by (auto simp: owner_step_def)
next
  case At_sev
  then have "\<not> owns s c" by (simp add: owns_def)
  then have "locked (release_mutex c s) ow" using assms At_sev by (auto simp: release_mutex_def intro: locked_goto)
  then show ?thesis by (auto simp: owner_step_def)
qed (use assms(2) in auto)

lemma lock_act_owner:
  assumes "locked s ow" and "monitors_ok s"
  shows "\<exists>ow'. locked (lock_act a s) ow' \<and> owner_step (act_core a) ow ow'"
proof (cases a)
  case (Call c)
  have "\<not> owns s c" if "lk_pc s c = Outside" using that by (simp add: owns_def)
  then have "locked (lock_act a s) ow" using assms(1) Call by (auto simp: lock_act_def intro!: locked_goto)
  then show ?thesis by (auto simp: owner_step_def)
next
  case (Lose c)
  then have "locked (lock_act a s) ow" using assms(1) by (simp add: lock_act_def)
  then show ?thesis by (auto simp: owner_step_def)
next
  case (Release c)
  then show ?thesis
    using release_owner [OF assms(1), of c] assms(1)
    by (cases "lk_pc s c = Critical \<or> lk_pc s c = At_sev") (auto simp: lock_act_def owner_step_def)
qed (use acquire_owner [OF assms] in \<open>auto simp: lock_act_def\<close>)

lemma lock_act_monitors:
  assumes "locked s ow" and "monitors_ok s"
  shows "monitors_ok (lock_act a s)"
proof (cases a)
  case (Acquire c)
  then show ?thesis using assms
    by (cases "lk_pc s c") (auto simp: lock_act_def acquire_mutex_def monitors_ok_def)
next
  case (Release c)
  then show ?thesis using assms
    by (cases "lk_pc s c") (auto simp: lock_act_def release_mutex_def monitors_ok_def)
qed (use assms in \<open>auto simp: lock_act_def monitors_ok_def\<close>)

lemma lock_act_waiters:
  assumes "waiters_ok s" and "monitors_ok s" and "act_core a < NR_CORES"
  shows "waiters_ok (lock_act a s)"
proof (cases a)
  case (Acquire c)
  then show ?thesis using assms
    by (cases "lk_pc s c") (auto simp: lock_act_def acquire_mutex_def waiters_ok_def waits_def [of s c])
next
  case (Release c)
  then show ?thesis using assms
    by (cases "lk_pc s c") (auto simp: lock_act_def release_mutex_def waiters_ok_def)
qed (use assms in \<open>auto simp: lock_act_def waiters_ok_def\<close>)

lemma lock_act_outside:
  "act_core a < NR_CORES \<Longrightarrow> \<not> d < NR_CORES \<Longrightarrow> lk_pc (lock_act a s) d = lk_pc s d"
  by (cases a) (auto simp: lock_act_def acquire_mutex_def release_mutex_def split: lock_pc.splits)

lemma lock_inv_act: "lock_inv s \<Longrightarrow> act_core a < NR_CORES \<Longrightarrow> lock_inv (lock_act a s)"
proof -
  assume i: "lock_inv s" and a: "act_core a < NR_CORES"
  then obtain ow where ow: "locked s ow" and m: "monitors_ok s" and w: "waiters_ok s"
    and out: "\<And>c. \<not> c < NR_CORES \<Longrightarrow> lk_pc s c = Outside" by (auto simp: lock_inv_def)
  show ?thesis unfolding lock_inv_def
    using lock_act_owner [OF ow m, of a] lock_act_monitors [OF ow m, of a] lock_act_waiters [OF w m a]
      lock_act_outside [OF a] out by simp blast
qed

interpretation spin_lock: invariant_system "\<lambda>s. s = lock_free" lock_step lock_inv
  by unfold_locales (auto simp: lock_inv_free elim!: lock_step.cases intro: lock_inv_act)

section \<open>What the lock promises\<close>

definition lock_reach :: "lock_state \<Rightarrow> bool" where
  "lock_reach s \<longleftrightarrow> reach (\<lambda>s. s = lock_free) lock_step s"

definition lock_owner :: "lock_state \<Rightarrow> nat option" where
  "lock_owner s = List.find (owns s) [0..<NR_CORES]"

lemma lock_owner_locked:
  assumes "lock_inv s"
  shows "locked s (lock_owner s)"
proof -
  obtain ow where ow: "locked s ow" using assms by (auto simp: lock_inv_def)
  have "lock_owner s = ow"
  proof (cases ow)
    case None
    then have "owns s = (\<lambda>_. False)" using ow by (auto simp: locked_def)
    then show ?thesis unfolding None lock_owner_def by (simp only: find_None_iff) simp
  next
    case (Some c)
    have o: "owns s c" "\<And>d. owns s d \<Longrightarrow> d = c" using ow Some by (auto simp: locked_def)
    have "lk_pc s c \<noteq> Outside" using o(1) by (auto simp: owns_def)
    then have "c < NR_CORES" using assms by (auto simp: lock_inv_def)
    then have "c \<in> set [0..<NR_CORES]" by simp
    then show ?thesis unfolding lock_owner_def Some using o by (rule find_unique)
  qed
  with ow show ?thesis by simp
qed

lemma locked_unique: "locked s ow \<Longrightarrow> locked s ow' \<Longrightarrow> ow = ow'"
  by (cases ow; cases ow') (auto simp: locked_def)

text \<open>
  C12. The lock is a lock: in every state that four cores can reach by any interleaving of
  the instructions of acquire_mutex and release_mutex, with any spurious loss of exclusive
  monitors, at most one core is between acquire and release, and every step changes the
  owner like the abstract lock does: not at all, or it is taken when it was free, or its
  owner gives it up.
\<close>

theorem mutex_refines_lock:
  assumes "lock_reach s" and "act_core a < NR_CORES"
  shows "(lk_pc s c = Critical \<longrightarrow> lk_pc s d = Critical \<longrightarrow> c = d) \<and>
    (lk_pc s c = Critical \<longrightarrow> lock_owner s = Some c) \<and>
    (let ow = lock_owner s; ow' = lock_owner (lock_act a s) in
     ow' = ow \<or> ow = None \<and> ow' = Some (act_core a) \<or> ow = Some (act_core a) \<and> ow' = None)"
proof -
  have i: "lock_inv s" using assms(1) spin_lock.reach_inv by (simp add: lock_reach_def)
  have l: "locked s (lock_owner s)" by (rule lock_owner_locked [OF i])
  have "locked (lock_act a s) (lock_owner (lock_act a s))"
    by (rule lock_owner_locked [OF lock_inv_act [OF i assms(2)]])
  then have "owner_step (act_core a) (lock_owner s) (lock_owner (lock_act a s))"
    using lock_act_owner [OF l, of a] i locked_unique by (auto simp: lock_inv_def)
  moreover have "lock_owner s = Some c" if "lk_pc s c = Critical" for c
  proof -
    from that have "owns s c" by (simp add: owns_def)
    with l show ?thesis by (simp add: locked_def)
  qed
  moreover from this have "lk_pc s c = Critical \<longrightarrow> lk_pc s d = Critical \<longrightarrow> c = d" by (metis option.inject)
  ultimately show ?thesis by (simp add: owner_step_def)
qed

theorem mutex_refines_lock_witness:
  "lk_pc (run_lock [Call 0, Acquire 0, Acquire 0, Acquire 0, Acquire 0] lock_free) 0 = Critical \<and>
   lock_owner (lock_act (Release 0) (run_lock [Call 0, Acquire 0, Acquire 0, Acquire 0, Acquire 0] lock_free)) = None"
proof -
  let ?s = "run_lock [Call 0, Acquire 0, Acquire 0, Acquire 0, Acquire 0] lock_free"
  have r: "lock_reach (run_lock as s)" if "lock_reach s" "\<forall>a\<in>set as. act_core a < NR_CORES" for as s
    using that by (induction as arbitrary: s) (auto simp: lock_reach_def intro: reach_step lock_step.intros)
  have "lock_reach lock_free" by (auto simp: lock_reach_def intro: reach_init)
  then have "lock_reach ?s" by (rule r) simp
  from mutex_refines_lock [OF this, of "Release 0" 0 0]
  have "lk_pc ?s 0 = Critical \<longrightarrow> lock_owner ?s = Some 0" by simp
  moreover have "lk_pc ?s 0 = Critical" by code_simp
  moreover have "lock_owner (lock_act (Release 0) ?s) = None" by code_simp
  ultimately show ?thesis by blast
qed

lemma run_lock_append: "run_lock (as @ bs) s = run_lock bs (run_lock as s)"
  by (induction as arbitrary: s) auto

lemma acquire_from_ldaxr:
  "lk_pc s c = At_ldaxr \<Longrightarrow> lk_word s = 0 \<Longrightarrow> lk_pc (run_lock (replicate 4 (Acquire c)) s) c = Critical"
  by (simp add: eval_nat_numeral lock_act_def acquire_mutex_def)

definition can_acquire :: "nat \<Rightarrow> lock_state \<Rightarrow> bool" where
  "can_acquire c s \<longleftrightarrow> (\<exists>as. set as \<subseteq> {Call c, Acquire c} \<union> {Release d | d. lk_pc s d = At_sev} \<and> length as \<le> 7 \<and>
     lk_pc (run_lock as s) c = Critical)"

lemma can_acquire_now:
  "set as \<subseteq> {Call c, Acquire c} \<Longrightarrow> length as \<le> 7 \<Longrightarrow> lk_pc (run_lock as s) c = Critical \<Longrightarrow> can_acquire c s"
  unfolding can_acquire_def by (rule exI [of _ as]) auto

lemma can_acquire_via_ldaxr:
  assumes "lk_pc (run_lock as s) c = At_ldaxr" and "lk_word (run_lock as s) = 0" and "length as \<le> 3"
    and "set as \<subseteq> {Call c, Acquire c} \<union> {Release d | d. lk_pc s d = At_sev}"
  shows "can_acquire c s"
  unfolding can_acquire_def using acquire_from_ldaxr [OF assms(1,2)] assms(3,4)
  by (intro exI [of _ "as @ replicate 4 (Acquire c)"]) (auto simp: run_lock_append)

lemmas lock_instr = lock_act_def acquire_mutex_def release_mutex_def eval_nat_numeral

lemma can_acquire_stxr:
  assumes "lk_word s = 0" and "lk_pc s c = At_stxr \<or> lk_pc s c = At_cbnz_held 0"
  shows "can_acquire c s"
proof (cases "lk_monitor s c")
  case True
  with assms show ?thesis
    by (auto intro: can_acquire_now [of "replicate 2 (Acquire c)"] can_acquire_now [of "replicate 3 (Acquire c)"]
        simp: lock_instr)
next
  case False
  with assms show ?thesis
    by (auto intro: can_acquire_via_ldaxr [of "replicate 2 (Acquire c)"] can_acquire_via_ldaxr [of "replicate 3 (Acquire c)"]
        simp: lock_instr)
qed

lemma can_acquire_waiting:
  assumes "lk_word s = 0" and "waits s c" and "lk_event s c \<or> (\<exists>d. d \<noteq> c \<and> lk_pc s d = At_sev)"
  shows "can_acquire c s"
proof (cases "lk_event s c")
  case True
  with assms(1,2) show ?thesis
    by (auto intro: can_acquire_via_ldaxr [of "[Acquire c]"] can_acquire_via_ldaxr [of "replicate 2 (Acquire c)"]
        simp: lock_instr waits_def)
next
  case False
  with assms(3) obtain d where "d \<noteq> c" "lk_pc s d = At_sev" by auto
  with assms(1,2) show ?thesis
    by (auto intro: can_acquire_via_ldaxr [of "[Release d, Acquire c]"]
        can_acquire_via_ldaxr [of "[Acquire c, Release d, Acquire c]"] simp: lock_instr waits_def)
qed

text \<open>
  C13. Waiting cores do not miss the release: whenever the lock is free in a reachable
  state, each core can get it within seven steps of its own, counting the wake up
  signal that a releasing core is about to send.
\<close>

theorem mutex_no_lost_wakeup:
  assumes "lock_reach s" and "lock_owner s = None" and "c < NR_CORES"
  shows "\<exists>as. set as \<subseteq> {Call c, Acquire c} \<union> {Release d | d. lk_pc s d = At_sev} \<and> length as \<le> 7 \<and>
    lk_pc (run_lock as s) c = Critical"
proof -
  have i: "lock_inv s" using assms(1) spin_lock.reach_inv by (simp add: lock_reach_def)
  have l: "locked s None" using lock_owner_locked [OF i] assms(2) by simp
  then have z: "lk_word s = 0" and o: "\<not> owns s c" by (auto simp: locked_def)
  have wait: "can_acquire c s" if "waits s c"
  proof -
    have "lk_event s c \<or> wake_up s" using i that z by (auto simp: lock_inv_def waiters_ok_def)
    moreover have "lk_pc s c \<noteq> At_sev" using that by (auto simp: waits_def)
    ultimately show ?thesis using z that by (intro can_acquire_waiting) (auto simp: wake_up_def)
  qed
  have "can_acquire c s"
  proof (cases "lk_pc s c")
    case Outside
    then show ?thesis using z by (intro can_acquire_via_ldaxr [of "[Call c]"]) (auto simp: lock_instr)
  next
    case At_ldaxr
    then show ?thesis using z by (intro can_acquire_via_ldaxr [of "[]"]) auto
  next
    case (At_cbnz_held v)
    then show ?thesis using z wait can_acquire_stxr by (cases "v = 0") (auto simp: waits_def)
  next
    case (At_cbnz_retry r)
    then have "r \<noteq> 0" using o by (auto simp: owns_def)
    with At_cbnz_retry z show ?thesis by (intro can_acquire_via_ldaxr [of "[Acquire c]"]) (auto simp: lock_instr)
  next
    case Critical
    then show ?thesis using o by (simp add: owns_def)
  next
    case At_sev
    then show ?thesis using z by (intro can_acquire_via_ldaxr [of "[Release c, Call c]"]) (auto simp: lock_instr)
  qed (use z wait can_acquire_stxr in \<open>auto simp: waits_def\<close>)
  then show ?thesis by (simp add: can_acquire_def)
qed

theorem mutex_no_lost_wakeup_witness:
  "\<exists>as. length as \<le> 7 \<and> lk_pc (run_lock as lock_free) 2 = Critical"
proof -
  have "lock_reach lock_free" by (auto simp: lock_reach_def intro: reach_init)
  moreover have "lock_owner lock_free = None" by code_simp
  ultimately show ?thesis using mutex_no_lost_wakeup [of lock_free 2] by auto
qed

end
