(* ===== verification/Smp.thy ===== *)
theory Smp
  imports Mutex
begin

text \<open>
  The remote cores: smp.c. First the job queue of a worker, then the hand over of a
  function from the first core to a remote core through the spin table and the two locks
  of the worker. Results of kmalloc are arguments, 0 for a failed allocation.
\<close>

section \<open>Data\<close>

abbreviation JOBS_HEAD :: u8 where "JOBS_HEAD \<equiv> 0xFA"
abbreviation JOBS_TAIL :: u8 where "JOBS_TAIL \<equiv> 0xAF"
abbreviation SMP_SPINTABLE_BASE :: u64 where "SMP_SPINTABLE_BASE \<equiv> 0xD8"
abbreviation MAX_REMOTE_CORE_ID :: nat where "MAX_REMOTE_CORE_ID \<equiv> 3"

record jobs_meta =
  jm_head :: "u64 option"
  jm_tail :: "u64 option"

record worker_job =
  jb_fn :: u64
  jb_next :: "u64 option"
  jb_meta :: "u64 option"
  jb_pos :: u8

record worker =
  wk_core_id :: u8
  wk_mutex0 :: u32
  wk_mutex1 :: u32
  wk_exec_addr :: u64
  wk_jobs :: "u64 option"

record smp =
  sm_job :: "u64 \<Rightarrow> worker_job"
  sm_meta :: "u64 \<Rightarrow> jobs_meta"
  sm_worker :: "nat \<Rightarrow> worker"

definition set_job :: "u64 \<Rightarrow> worker_job \<Rightarrow> smp \<Rightarrow> smp" where
  "set_job j b s = s\<lparr>sm_job := (sm_job s)(j := b)\<rparr>"

definition set_meta :: "u64 \<Rightarrow> jobs_meta \<Rightarrow> smp \<Rightarrow> smp" where
  "set_meta m b s = s\<lparr>sm_meta := (sm_meta s)(m := b)\<rparr>"

definition set_worker :: "nat \<Rightarrow> worker \<Rightarrow> smp \<Rightarrow> smp" where
  "set_worker c w s = s\<lparr>sm_worker := (sm_worker s)(c := w)\<rparr>"

definition zero_job :: worker_job where
  "zero_job = \<lparr>jb_fn = 0, jb_next = None, jb_meta = None, jb_pos = 0\<rparr>"

lemma smp_set_simps [simp]:
  "sm_job (set_job j b s) = (sm_job s)(j := b)" "sm_job (set_meta m d s) = sm_job s"
  "sm_job (set_worker c w s) = sm_job s" "sm_meta (set_job j b s) = sm_meta s"
  "sm_meta (set_meta m d s) = (sm_meta s)(m := d)" "sm_meta (set_worker c w s) = sm_meta s"
  "sm_worker (set_job j b s) = sm_worker s" "sm_worker (set_meta m d s) = sm_worker s"
  "sm_worker (set_worker c w s) = (sm_worker s)(c := w)"
  by (simp_all add: set_job_def set_meta_def set_worker_def)

section \<open>The job queue\<close>

text \<open>pop\_worker\_job, with the job that it gives to kfree.\<close>

definition pop_worker_job :: "nat \<Rightarrow> smp \<Rightarrow> (u64 \<times> smp) result" where
  "pop_worker_job w s =
     bindR (derefR (wk_jobs (sm_worker s w))) (\<lambda>head.
     let next_job = jb_next (sm_job s head); meta = jb_meta (sm_job s head) in
     bindR (derefR next_job) (\<lambda>n.
     let s = set_job n (sm_job s n\<lparr>jb_meta := meta\<rparr>) s in
     bindR (derefR meta) (\<lambda>m.
     let s = set_meta m (sm_meta s m\<lparr>jm_head := Some n\<rparr>) s;
         s = set_job n (sm_job s n\<lparr>jb_pos := JOBS_HEAD\<rparr>) s;
         s = set_worker w (sm_worker s w\<lparr>wk_jobs := Some n\<rparr>) s
     in Inr (head, s))))"

definition create_job :: "u64 \<Rightarrow> u64 \<Rightarrow> smp \<Rightarrow> u64 option \<times> smp" where
  "create_job fn p s =
     (if p = 0 then (None, s) else (Some p, set_job p (zero_job\<lparr>jb_fn := fn\<rparr>) s))"

definition push_worker_job :: "u64 \<Rightarrow> u64 \<Rightarrow> u64 \<Rightarrow> smp \<Rightarrow> smp result" where
  "push_worker_job head fn p s =
     (case jb_meta (sm_job s head) of
        None \<Rightarrow> Inr s
      | Some m \<Rightarrow>
          let (n, s) = create_job fn p s; tail = jm_tail (sm_meta s m) in
          bindR (derefR tail) (\<lambda>t.
          let s = set_job t (sm_job s t\<lparr>jb_next := n\<rparr>) s;
              s = (if jb_pos (sm_job s t) \<noteq> JOBS_HEAD then set_job t (sm_job s t\<lparr>jb_pos := 0\<rparr>) s else s)
          in bindR (derefR n) (\<lambda>n.
             let s = set_job n (sm_job s n\<lparr>jb_pos := JOBS_TAIL\<rparr>) s
             in Inr (set_meta m (sm_meta s m\<lparr>jm_tail := Some n\<rparr>) s))))"

text \<open>
  The loop of worker\_process, up to \_\_park\_and\_wait, with the list of the functions that
  it has called. The functions are taken not to touch the queue.
\<close>

partial_function (option) worker_process ::
  "nat \<Rightarrow> u64 list \<Rightarrow> smp \<Rightarrow> (u64 list \<times> smp) result option" where
  "worker_process core done s =
     (case wk_jobs (sm_worker s core) of
        None \<Rightarrow> Some (Inl NullDeref)
      | Some j \<Rightarrow>
          let done = done @ [jb_fn (sm_job s j)] in
          if jb_next (sm_job s j) = None then Some (Inr (done, s))
          else (case pop_worker_job core s of
                  Inl e \<Rightarrow> Some (Inl e)
                | Inr (_, s) \<Rightarrow> worker_process core done s))"

declare worker_process.simps [code]

definition set_job_queue_head :: "u64 \<Rightarrow> u64 \<Rightarrow> u64 \<Rightarrow> smp \<Rightarrow> (u64 \<times> smp) result" where
  "set_job_queue_head fn p q s =
     (let (job, s) = create_job fn p s in
      bindR (derefR job) (\<lambda>j.
      if q = 0 then Inr (j, set_job j (sm_job s j\<lparr>jb_meta := None\<rparr>) s)
      else
        let s = set_job j (sm_job s j\<lparr>jb_meta := Some q\<rparr>) s;
            s = set_job j (sm_job s j\<lparr>jb_pos := JOBS_HEAD\<rparr>) s;
            s = set_meta q \<lparr>jm_head = Some j, jm_tail = Some j\<rparr> s
        in Inr (j, s)))"

definition init_worker :: "nat \<Rightarrow> u64 option \<Rightarrow> smp \<Rightarrow> smp" where
  "init_worker core jobs s =
     set_worker core \<lparr>wk_core_id = word_of_nat core, wk_mutex0 = 0, wk_mutex1 = 0,
       wk_exec_addr = SMP_SPINTABLE_BASE + 8 * word_of_nat core, wk_jobs = jobs\<rparr> s"

text \<open>The first loop of init\_smp, without the calls of \_\_setup\_core, which are in Kernel\_Main.\<close>

definition init_smp_workers :: "smp \<Rightarrow> smp" where
  "init_smp_workers s = fold (\<lambda>core. init_worker core None) [1..<MAX_REMOTE_CORE_ID + 1] s"

section \<open>The hand over to a remote core\<close>

text \<open>
  The master runs \_\_run\_core or \_\_setup\_core: take the first lock, store the address in
  the spin table, take the second lock, send an event. The remote core first
  waits in the firmware, which is not code of the kernel: for which contents of its entry
  in the spin table it starts the core is the argument \<open>fw\<close>. Later it waits in the
  loop of \_\_park\_and\_wait until the second lock is taken. Each time it calls the address
  that it reads. A called function ends in \_\_park\_and\_wait, which releases the second lock and
  then the first. An access to a lock is one step, by the refinement of the locks. The
  lists record the addresses that were stored and the ones that were called.
\<close>

datatype master_pc = M_idle | M_acquire0 u64 | M_store u64 | M_acquire1 | M_sev

datatype remote_pc = R_firmware | R_running | R_release1 | R_release0 | R_poll | R_load

record handover =
  ho_m0 :: bool
  ho_m1 :: bool
  ho_slot :: u64
  ho_master :: master_pc
  ho_remote :: remote_pc
  ho_issued :: "u64 list"
  ho_started :: "u64 list"

definition run_core :: "handover \<Rightarrow> handover" where
  "run_core h =
     (case ho_master h of
        M_idle \<Rightarrow> h
      | M_acquire0 a \<Rightarrow> if ho_m0 h then h else h\<lparr>ho_m0 := True, ho_master := M_store a\<rparr>
      | M_store a \<Rightarrow> h\<lparr>ho_slot := a, ho_issued := ho_issued h @ [a], ho_master := M_acquire1\<rparr>
      | M_acquire1 \<Rightarrow> if ho_m1 h then h else h\<lparr>ho_m1 := True, ho_master := M_sev\<rparr>
      | M_sev \<Rightarrow> h\<lparr>ho_master := M_idle\<rparr>)"

definition start_slot :: "handover \<Rightarrow> handover" where
  "start_slot h = h\<lparr>ho_remote := R_running, ho_started := ho_started h @ [ho_slot h]\<rparr>"

definition park_and_wait :: "(u64 \<Rightarrow> bool) \<Rightarrow> handover \<Rightarrow> handover" where
  "park_and_wait fw h =
     (case ho_remote h of
        R_firmware \<Rightarrow> if fw (ho_slot h) then start_slot h else h
      | R_running \<Rightarrow> h\<lparr>ho_remote := R_release1\<rparr>
      | R_release1 \<Rightarrow> h\<lparr>ho_m1 := False, ho_remote := R_release0\<rparr>
      | R_release0 \<Rightarrow> h\<lparr>ho_m0 := False, ho_remote := R_poll\<rparr>
      | R_poll \<Rightarrow> if ho_m1 h then h\<lparr>ho_remote := R_load\<rparr> else h
      | R_load \<Rightarrow> start_slot h)"

datatype handover_act = Request u64 | Master | Remote

definition handover_act :: "(u64 \<Rightarrow> bool) \<Rightarrow> handover_act \<Rightarrow> handover \<Rightarrow> handover" where
  "handover_act fw a h =
     (case a of
        Request f \<Rightarrow> if ho_master h = M_idle then h\<lparr>ho_master := M_acquire0 f\<rparr> else h
      | Master \<Rightarrow> run_core h
      | Remote \<Rightarrow> park_and_wait fw h)"

inductive handover_step :: "(u64 \<Rightarrow> bool) \<Rightarrow> handover \<Rightarrow> handover \<Rightarrow> bool" for fw :: "u64 \<Rightarrow> bool" where
  "handover_step fw h (handover_act fw a h)"

inductive_cases handover_stepE: "handover_step fw h h'"

definition parked :: handover where
  "parked = \<lparr>ho_m0 = False, ho_m1 = False, ho_slot = 0, ho_master = M_idle, ho_remote = R_poll,
     ho_issued = [], ho_started = []\<rparr>"

definition powered_on :: handover where
  "powered_on = parked\<lparr>ho_remote := R_firmware\<rparr>"

primrec run_handover :: "(u64 \<Rightarrow> bool) \<Rightarrow> handover_act list \<Rightarrow> handover \<Rightarrow> handover" where
  "run_handover fw [] h = h"
| "run_handover fw (a # as) h = run_handover fw as (handover_act fw a h)"

section \<open>The job queue is a first in, first out queue\<close>

definition job_nexts :: "smp \<Rightarrow> u64 \<Rightarrow> u64 option" where
  "job_nexts s j = jb_next (sm_job s j)"

definition jobs_hold :: "nat \<Rightarrow> smp \<Rightarrow> u64 list \<Rightarrow> bool" where
  "jobs_hold c s js \<longleftrightarrow> js \<noteq> [] \<and> chain (job_nexts s) (wk_jobs (sm_worker s c)) js \<and>
     jb_pos (sm_job s (hd js)) = JOBS_HEAD \<and>
     (\<exists>m. jb_meta (sm_job s (hd js)) = Some m \<and> jm_head (sm_meta s m) = Some (hd js) \<and> jm_tail (sm_meta s m) = Some (last js))"

lemma job_nexts_simps [simp]:
  "job_nexts (set_job j b s) = (job_nexts s)(j := jb_next b)" "job_nexts (set_meta m d s) = job_nexts s"
  "job_nexts (set_worker c w s) = job_nexts s"
  by (auto simp: job_nexts_def)

lemma pop_worker_job_cons:
  assumes "jobs_hold c s (j # k # js)"
  obtains s' where "pop_worker_job c s = Inr (j, s')" and "jobs_hold c s' (k # js)"
    and "\<And>x. jb_fn (sm_job s' x) = jb_fn (sm_job s x)"
proof -
  obtain m where m: "wk_jobs (sm_worker s c) = Some j" "jb_next (sm_job s j) = Some k" "jb_meta (sm_job s j) = Some m"
    "chain (job_nexts s) (Some k) (k # js)" "jm_tail (sm_meta s m) = Some (last (k # js))"
    using assms by (auto simp: jobs_hold_def job_nexts_def)
  obtain s' where p: "pop_worker_job c s = Inr (j, s')" and n: "job_nexts s' = job_nexts s"
    and w: "wk_jobs (sm_worker s' c) = Some k" and fn: "\<And>x. jb_fn (sm_job s' x) = jb_fn (sm_job s x)"
    and h: "jb_pos (sm_job s' k) = JOBS_HEAD" "jb_meta (sm_job s' k) = Some m" "jm_head (sm_meta s' m) = Some k"
      "jm_tail (sm_meta s' m) = Some (last (k # js))"
    using m(1-3,5) by (simp add: pop_worker_job_def Let_def job_nexts_def fun_eq_iff)
  from n m(4) w h have "jobs_hold c s' (k # js)" by (simp add: jobs_hold_def)
  with p show thesis using fn by (rule that)
qed

lemma push_worker_job_snoc:
  assumes "jobs_hold c s js" and "p \<noteq> 0" and "p \<notin> set js"
  obtains s' where "push_worker_job (hd js) fn p s = Inr s'" and "jobs_hold c s' (js @ [p])"
    and "jb_fn (sm_job s' p) = fn" and "\<And>x. x \<noteq> p \<Longrightarrow> jb_fn (sm_job s' x) = jb_fn (sm_job s x)"
proof -
  obtain m ks l where m: "js = ks @ [l]" "jb_meta (sm_job s (hd js)) = Some m" "jm_head (sm_meta s m) = Some (hd js)"
    "jm_tail (sm_meta s m) = Some l" "chain (job_nexts s) (wk_jobs (sm_worker s c)) (ks @ [l])"
    "jb_pos (sm_job s (hd js)) = JOBS_HEAD"
    using assms(1) by (cases js rule: rev_cases) (auto simp: jobs_hold_def)
  obtain s' where s': "push_worker_job (hd js) fn p s = Inr s'" and w: "sm_worker s' = sm_worker s"
    and n: "job_nexts s' = ((job_nexts s)(p := None))(l := Some p)"
    and mt: "sm_meta s' = (sm_meta s)(m := sm_meta s m\<lparr>jm_tail := Some p\<rparr>)"
    and fp: "jb_fn (sm_job s' p) = fn" and fx: "\<And>x. x \<noteq> p \<Longrightarrow> jb_fn (sm_job s' x) = jb_fn (sm_job s x)"
    and jm: "\<And>x. x \<noteq> p \<Longrightarrow> jb_meta (sm_job s' x) = jb_meta (sm_job s x)"
    and jp: "\<And>x. x \<noteq> p \<Longrightarrow> jb_pos (sm_job s x) = JOBS_HEAD \<Longrightarrow> jb_pos (sm_job s' x) = JOBS_HEAD"
  proof -
    have "l \<noteq> p" using m(1) assms(3) by auto
    with assms(2) m(2,4) show ?thesis
      by (intro that [of "case push_worker_job (hd js) fn p s of Inr s' \<Rightarrow> s'"])
        (auto simp: push_worker_job_def create_job_def Let_def job_nexts_def zero_job_def fun_eq_iff)
  qed
  have hd: "hd js \<noteq> p" "hd (js @ [p]) = hd js" using m(1) assms(3) by (auto simp: hd_append intro: hd_in_set)
  have "chain ((job_nexts s)(p := None)) (wk_jobs (sm_worker s c)) (ks @ [l])"
    using m(1,5) assms(3) by (simp add: chain_upd_other)
  then have "chain (job_nexts s') (wk_jobs (sm_worker s' c)) (js @ [p])"
    unfolding n w using chain_snoc [of "(job_nexts s)(p := None)" _ ks l p] m(1) assms(3) by simp
  then have "jobs_hold c s' (js @ [p])"
    unfolding jobs_hold_def hd(2) using jm [OF hd(1)] jp [OF hd(1)] m(2,3,6) by (simp add: mt)
  with s' show thesis using fp fx by (rule that)
qed

lemma worker_process_jobs:
  "jobs_hold c s js \<Longrightarrow> \<exists>s'. worker_process c done s = Some (Inr (done @ map (\<lambda>j. jb_fn (sm_job s j)) js, s')) \<and>
     jobs_hold c s' [last js] \<and> (\<forall>x. jb_fn (sm_job s' x) = jb_fn (sm_job s x))"
proof (induction js arbitrary: s "done")
  case Nil
  then show ?case by (simp add: jobs_hold_def)
next
  case (Cons j js)
  have j: "wk_jobs (sm_worker s c) = Some j" using Cons.prems by (simp add: jobs_hold_def)
  show ?case
  proof (cases js)
    case Nil
    then have "jb_next (sm_job s j) = None" using Cons.prems by (simp add: jobs_hold_def job_nexts_def)
    then show ?thesis using j Nil Cons.prems by (subst worker_process.simps) (simp add: Let_def)
  next
    case (Cons k ks)
    obtain s1 where s1: "pop_worker_job c s = Inr (j, s1)" "jobs_hold c s1 js"
      "\<And>x. jb_fn (sm_job s1 x) = jb_fn (sm_job s x)"
      using pop_worker_job_cons [of c s j k ks] Cons.prems Cons by blast
    have "jb_next (sm_job s j) \<noteq> None" using Cons.prems Cons by (simp add: jobs_hold_def job_nexts_def)
    then show ?thesis using j s1 Cons.IH [OF s1(2), of "done @ [jb_fn (sm_job s j)]"] Cons
      by (subst worker_process.simps) (auto simp: Let_def)
  qed
qed

text \<open>
  C14. The jobs of a worker are a queue: push_worker_job adds a job at the end, and
  worker_process returns after it has called all functions in the order in which they were
  queued. It leaves the last job in the queue, so that the next run calls it again.
\<close>

theorem worker_process_fifo:
  assumes "jobs_hold c s js" and "p \<noteq> 0" and "p \<notin> set js"
  shows "\<exists>s1 s2. push_worker_job (hd js) fn p s = Inr s1 \<and>
    worker_process c [] s1 = Some (Inr (map (\<lambda>j. jb_fn (sm_job s j)) js @ [fn], s2)) \<and>
    jobs_hold c s2 [p] \<and> worker_process c [] s2 = Some (Inr ([fn], s2))"
proof -
  obtain s1 where s1: "push_worker_job (hd js) fn p s = Inr s1" "jobs_hold c s1 (js @ [p])"
    "jb_fn (sm_job s1 p) = fn" "\<And>x. x \<noteq> p \<Longrightarrow> jb_fn (sm_job s1 x) = jb_fn (sm_job s x)"
    using push_worker_job_snoc [OF assms, of fn] by blast
  have "map (\<lambda>j. jb_fn (sm_job s1 j)) js = map (\<lambda>j. jb_fn (sm_job s j)) js"
    by (rule map_cong [OF refl], rule s1(4)) (use assms(3) in auto)
  then obtain s2 where s2: "worker_process c [] s1 = Some (Inr (map (\<lambda>j. jb_fn (sm_job s j)) js @ [fn], s2))"
    "jobs_hold c s2 [p]" "jb_fn (sm_job s2 p) = fn"
    using worker_process_jobs [OF s1(2), of "[]"] s1(3) by auto
  moreover have "worker_process c [] s2 = Some (Inr ([fn], s2))"
    using s2(2,3) by (subst worker_process.simps) (simp add: jobs_hold_def job_nexts_def)
  ultimately show ?thesis using s1(1) by blast
qed

definition demo_jobs :: smp where
  "demo_jobs = \<lparr>sm_job = (\<lambda>_. \<lparr>jb_fn = 0xF0, jb_next = None, jb_meta = Some 8, jb_pos = JOBS_HEAD\<rparr>),
     sm_meta = (\<lambda>_. \<lparr>jm_head = Some 1, jm_tail = Some 1\<rparr>),
     sm_worker = (\<lambda>_. \<lparr>wk_core_id = 1, wk_mutex0 = 0, wk_mutex1 = 0, wk_exec_addr = 0xE0, wk_jobs = Some 1\<rparr>)\<rparr>"

theorem worker_process_fifo_witness:
  "\<exists>s1 s2. push_worker_job 1 0xF1 2 demo_jobs = Inr s1 \<and> worker_process 1 [] s1 = Some (Inr ([0xF0, 0xF1], s2)) \<and>
     worker_process 1 [] s2 = Some (Inr ([0xF1], s2))"
proof -
  have "jobs_hold 1 demo_jobs [1]" by (simp add: jobs_hold_def demo_jobs_def job_nexts_def)
  from worker_process_fifo [OF this, of 2 "0xF1"] show ?thesis by (auto simp: demo_jobs_def)
qed

section \<open>The hand over\<close>

text \<open>What is known while no address is on its way, and while one is.\<close>

definition quiet :: "handover \<Rightarrow> bool" where
  "quiet h \<longleftrightarrow> ho_started h = ho_issued h"

definition pending :: "handover \<Rightarrow> bool" where
  "pending h \<longleftrightarrow> ho_issued h = ho_started h @ [ho_slot h]"

fun handover_inv' :: "master_pc \<Rightarrow> remote_pc \<Rightarrow> handover \<Rightarrow> bool" where
  "handover_inv' m R_firmware h \<longleftrightarrow> False"
| "handover_inv' (M_store a) r h \<longleftrightarrow> r = R_poll \<and> ho_m0 h \<and> \<not> ho_m1 h \<and> quiet h"
| "handover_inv' M_acquire1 r h \<longleftrightarrow> r = R_poll \<and> ho_m0 h \<and> \<not> ho_m1 h \<and> pending h"
| "handover_inv' m R_poll h \<longleftrightarrow> (if ho_m1 h then ho_m0 h \<and> pending h else \<not> ho_m0 h \<and> quiet h)"
| "handover_inv' m R_load h \<longleftrightarrow> ho_m0 h \<and> ho_m1 h \<and> pending h"
| "handover_inv' m R_release0 h \<longleftrightarrow> ho_m0 h \<and> \<not> ho_m1 h \<and> quiet h"
| "handover_inv' m r h \<longleftrightarrow> ho_m0 h \<and> ho_m1 h \<and> quiet h"

definition handover_inv :: "handover \<Rightarrow> bool" where
  "handover_inv h \<longleftrightarrow> handover_inv' (ho_master h) (ho_remote h) h"

lemma handover_inv_act: "handover_inv h \<Longrightarrow> handover_inv (handover_act fw a h)"
proof (cases a)
  case (Request f)
  then show "handover_inv h \<Longrightarrow> handover_inv (handover_act fw a h)"
    by (cases "ho_remote h") (auto simp: handover_inv_def handover_act_def quiet_def pending_def split: if_splits)
next
  case Master
  then show "handover_inv h \<Longrightarrow> handover_inv (handover_act fw a h)"
    by (cases "ho_master h"; cases "ho_remote h")
      (auto simp: handover_inv_def handover_act_def run_core_def quiet_def pending_def split: if_splits)
next
  case Remote
  then show "handover_inv h \<Longrightarrow> handover_inv (handover_act fw a h)"
    by (cases "ho_master h"; cases "ho_remote h")
      (auto simp: handover_inv_def handover_act_def park_and_wait_def start_slot_def quiet_def pending_def split: if_splits)
qed

interpretation hand_over: invariant_system "\<lambda>h. h = parked" "handover_step fw" handover_inv
  for fw :: "u64 \<Rightarrow> bool"
proof
  show "handover_inv h" if "h = parked" for h using that by (simp add: handover_inv_def parked_def quiet_def)
qed (auto elim!: handover_stepE intro: handover_inv_act)

text \<open>
  C15. Once a remote core has parked, functions are handed over reliably, whatever the
  firmware does: under every
  interleaving of \_\_run\_core and \_\_park\_and\_wait, the remote core has called exactly the
  addresses that were stored, once each and in their order, but for at most the last one;
  and an address is only overwritten when it has been called and the core waits again.
\<close>

theorem handover_once_in_order:
  assumes "reach (\<lambda>h. h = parked) (handover_step fw) h"
  shows "(ho_started h = ho_issued h \<or> ho_issued h = ho_started h @ [ho_slot h]) \<and>
    (\<forall>a. ho_master h = M_store a \<longrightarrow> ho_remote h = R_poll \<and> ho_started h = ho_issued h)"
proof -
  have i: "handover_inv h" using hand_over.reach_inv [OF assms] .
  show ?thesis
    by (cases "ho_master h"; cases "ho_remote h")
      (use i in \<open>auto simp: handover_inv_def quiet_def pending_def split: if_splits\<close>)
qed

theorem handover_once_in_order_witness:
  "let h = run_handover (\<lambda>_. True) [Request 7, Master, Master, Master, Remote, Remote] parked in
     ho_started h = [7] \<and> (ho_started h = ho_issued h \<or> ho_issued h = ho_started h @ [ho_slot h])"
proof -
  let ?as = "[Request 7, Master, Master, Master, Remote, Remote]"
  have r: "reach (\<lambda>h. h = parked) (handover_step (\<lambda>_. True)) (run_handover (\<lambda>_. True) as h)" if "reach (\<lambda>h. h = parked) (handover_step (\<lambda>_. True)) h" for as h
    using that by (induction as arbitrary: h) (auto intro: reach_step handover_step.intros)
  have "reach (\<lambda>h. h = parked) (handover_step (\<lambda>_. True)) (run_handover (\<lambda>_. True) ?as parked)" by (rule r) (simp add: reach_init)
  from handover_once_in_order [OF this] have "ho_started (run_handover (\<lambda>_. True) ?as parked) = ho_issued (run_handover (\<lambda>_. True) ?as parked) \<or>
    ho_issued (run_handover (\<lambda>_. True) ?as parked) = ho_started (run_handover (\<lambda>_. True) ?as parked) @ [ho_slot (run_handover (\<lambda>_. True) ?as parked)]" by blast
  moreover have "ho_started (run_handover (\<lambda>_. True) ?as parked) = [7]" by code_simp
  ultimately show ?thesis by (simp add: Let_def)
qed

text \<open>
  C35. The first hand over, \_\_setup\_core, is not reliable: a core that waits in a firmware
  which starts it for the stored address, as the spin table of the board does for every
  address but 0, starts on the store alone. When it parks before the master has taken the
  second lock, it finds this lock taken and calls the same address again.
\<close>

theorem setup_core_runs_twice:
  assumes "fw a"
  shows "\<exists>as. let h = run_handover fw as powered_on in ho_issued h = [a] \<and> ho_started h = [a, a]"
proof -
  let ?as = "[Request a, Master, Master, Remote, Remote, Remote, Remote, Master, Master, Remote, Remote]"
  have "ho_issued (run_handover fw ?as powered_on) = [a] \<and> ho_started (run_handover fw ?as powered_on) = [a, a]"
    using assms by (simp add: handover_act_def run_core_def park_and_wait_def start_slot_def powered_on_def parked_def)
  then show ?thesis by (intro exI [of _ ?as]) (simp add: Let_def)
qed

theorem setup_core_runs_twice_witness:
  "\<exists>as. let h = run_handover (\<lambda>slot. slot \<noteq> 0) as powered_on in ho_issued h = [0x80000] \<and> ho_started h = [0x80000, 0x80000]"
  using setup_core_runs_twice [of "\<lambda>slot. slot \<noteq> 0" "0x80000"] by simp

end
