(* ===== verification/Kernel_Main.thy ===== *)
theory Kernel_Main
  imports Reset_Boot Smp Kernel_Threads
begin

text \<open>
  main of kernel.c over the states of all components, from the pool of pages to the endless
  loop, and the start of the remote cores in it.
\<close>

section \<open>Start of the remote cores\<close>

text \<open>
  \_\_setup\_core and init\_smp of smp.c as the first core executes them, with the spin table
  in the memory \<open>slots\<close>; the steps of the remote cores are in the theory Smp. A lock that
  is taken is waited for. The address of jump\_to\_EL1 is an argument.
\<close>

definition setup_core :: "u64 \<Rightarrow> nat \<Rightarrow> smp \<times> (u64 \<Rightarrow> u64) \<Rightarrow> (int \<times> smp \<times> (u64 \<Rightarrow> u64)) result" where
  "setup_core jump core = (\<lambda>(s, slots).
     if MAX_REMOTE_CORE_ID < core then Inr (- 1, s, slots)
     else if wk_mutex0 (sm_worker s core) \<noteq> 0 then Inl Diverges
     else
       let s = set_worker core (sm_worker s core\<lparr>wk_mutex0 := 1\<rparr>) s;
           slots = slots(wk_exec_addr (sm_worker s core) := va_to_pa jump)
       in if wk_mutex1 (sm_worker s core) \<noteq> 0 then Inl Diverges
          else Inr (0, set_worker core (sm_worker s core\<lparr>wk_mutex1 := 1\<rparr>) s, slots))"

text \<open>The message for a core that fails cannot be reached, as the numbers are in range.\<close>

fun init_smp_loop :: "u64 \<Rightarrow> nat list \<Rightarrow> smp \<times> (u64 \<Rightarrow> u64) \<Rightarrow> (smp \<times> (u64 \<Rightarrow> u64)) result" where
  "init_smp_loop jump [] s = Inr s"
| "init_smp_loop jump (core # cores) (s, slots) =
     bindR (setup_core jump core (init_worker core None s, slots)) (\<lambda>(ret, s, slots). init_smp_loop jump cores (s, slots))"

definition init_smp :: "u64 \<Rightarrow> smp \<times> (u64 \<Rightarrow> u64) \<Rightarrow> (smp \<times> (u64 \<Rightarrow> u64)) result" where
  "init_smp jump = init_smp_loop jump [1..<MAX_REMOTE_CORE_ID + 1]"

lemma init_smp_run:
  "\<exists>s' slots'. init_smp jump (s, slots) = Inr (s', slots') \<and>
    (\<forall>c\<in>{1, 2, 3}. slots' (SMP_SPINTABLE_BASE + 8 * word_of_nat c) = va_to_pa jump \<and>
      sm_worker s' c = \<lparr>wk_core_id = word_of_nat c, wk_mutex0 = 1, wk_mutex1 = 1,
        wk_exec_addr = SMP_SPINTABLE_BASE + 8 * word_of_nat c, wk_jobs = None\<rparr>)"
proof -
  have "[1..<MAX_REMOTE_CORE_ID + 1] = [1, 2, 3]" by (simp add: upt_rec)
  then have "init_smp jump (s, slots) = init_smp_loop jump [1, 2, 3] (s, slots)" by (simp only: init_smp_def)
  then show ?thesis by (simp add: setup_core_def init_worker_def)
qed

section \<open>main\<close>

record machine =
  mc_fl :: fl_meta
  mc_regs :: sys_regs
  mc_io :: "io kstdio"
  mc_smp :: smp
  mc_slots :: "u64 \<Rightarrow> u64"
  mc_kern :: kern

text \<open>What the linker and the calls of kmalloc give to main.\<close>

record main_env =
  me_phymem_end :: u64
  me_jump_to_EL1 :: u64
  me_start_userspace :: u64
  me_print_msg :: u64
  me_msg1 :: u64
  me_msg2 :: u64
  me_wqs :: "u64 list"
  me_mem1 :: "u64 \<times> u64"
  me_mem2 :: "u64 \<times> u64"
  me_mem3 :: "u64 \<times> u64"

text \<open>The result is the state in which the endless loop is reached.\<close>

definition main ::
  "main_env \<Rightarrow> bool \<Rightarrow> u32 \<Rightarrow> gpio_controller \<Rightarrow> machine \<Rightarrow> (io char_device option \<times> timer \<times> irq_controller \<times> machine) result" where
  "main e enable_test reg ctrl s =
     bindR (init_free_list (me_phymem_end e) (word_of_nat (PAGE_SIZE * 256)) (mc_fl s)) (\<lambda>fl.
     let s = s\<lparr>mc_fl := fl\<rparr>; k = mc_io s in
     bindR (init_mmu 0 (mc_regs s, io_pt (ks_dev k))) (\<lambda>(q, p).
     let s = s\<lparr>mc_regs := q\<rparr>; k = k\<lparr>ks_dev := ks_dev k\<lparr>io_pt := p\<rparr>\<rparr>;
         k = k\<lparr>ks_dev := mmio_init reg (ks_dev k)\<rparr>
     in if ps_global (io_pt (ks_dev k)) = None then bindR (kernel_panic None k) (\<lambda>_. Inl Diverges)
        else
          bindR (init_smp (me_jump_to_EL1 e) (mc_smp s, mc_slots s)) (\<lambda>(smp, slots).
          let s = s\<lparr>mc_smp := smp, mc_slots := slots\<rparr> in
          bindR (setup_console ctrl k) (\<lambda>(console, k).
          bindR (init_device_drivers console k) (\<lambda>(t, k).
          bindR (wq_init (me_wqs e) (mc_kern s)) (\<lambda>n.
          bindR (enable_interrupts console t k) (\<lambda>(irq, k).
          bindR (kernel_test enable_test 0 (me_print_msg e) (me_msg1 e) (me_msg2 e) (me_mem1 e) (me_mem2 e) n) (\<lambda>(ret, n).
          if ret \<noteq> 0 then bindR (kernel_panic console k) (\<lambda>_. Inl Diverges)
          else
            bindR (kthread_queue_userspace 0 (me_start_userspace e) (me_mem3 e) n) (\<lambda>n.
            Inr (console, t, irq, s\<lparr>mc_io := k, mc_kern := n\<rparr>))))))))))"

text \<open>The devices are set up as in \<open>main_devices\<close>; the other components do not take part.\<close>

lemma main_steps:
  assumes "init_free_list (me_phymem_end e) 0x100000 (mc_fl s) = Inr fl"
    and "init_mmu 0 (mc_regs s, io_pt (ks_dev (mc_io s))) = Inr (q, p)" and "ps_global p \<noteq> None"
    and "main_devices reg ctrl (mc_io s\<lparr>ks_dev := ks_dev (mc_io s)\<lparr>io_pt := p\<rparr>\<rparr>) = Inr (console, t, irq, k)"
    and "init_smp (me_jump_to_EL1 e) (mc_smp s, mc_slots s) = Inr (smp, slots)"
    and "wq_init (me_wqs e) (mc_kern s) = Inr n" and "kthread_queue_userspace 0 (me_start_userspace e) (me_mem3 e) n = Inr n'"
  shows "main e False reg ctrl s =
    Inr (console, t, irq, s\<lparr>mc_fl := fl, mc_regs := q, mc_smp := smp, mc_slots := slots, mc_io := k, mc_kern := n'\<rparr>)"
proof -
  have "io_pt (mmio_init reg d) = io_pt d" for d by (simp add: mmio_init_def get_rpi_version_def Let_def)
  then show ?thesis
    using assms by (auto simp: main_def main_devices_def Let_def bindR_Inr_iff kernel_test_def split: prod.splits)
qed

lemma wq_init_run:
  assumes "0 \<notin> {w0, w1, w2, w3}" and "distinct [w0, w1, w2, w3]"
  shows "\<exists>n. wq_init [w0, w1, w2, w3] s = Inr n \<and> kn_global_wqs n 0 = Some w0 \<and> wq_holds w0 n [] \<and> kn_pid_cntr n = kn_pid_cntr s \<and>
    kn_idle n = kn_idle s"
  using assms by (auto simp: wq_init_def wq_holds_def set_wq_def)

text \<open>
  C19. From the entry of the kernel through main to its endless loop, with the layout of
  linker.ld, where the pool of 1 MB begins at the tables of the boot code, in the second half
  of the second megabyte: on clean memory, a serial line that gets ready, and memory for the
  queues and the first thread, every call returns. At the end the pages that the pool handed
  out for tables were mapped when they were handed out, the first core translates the first
  497 pages and the four device pages to themselves, in both halves, and nothing else; the
  spin table sends the remote cores to jump_to_EL1, and the queue of the first core holds
  the thread that enters user mode.
\<close>

theorem main_boots:
  assumes "clean_layout t b m" and "cr_el r \<in> {1, 2, 3}"
    and "start sp t after (KERNEL_START + b) vt (r, m) = Inr (r', m')"
    and "init_free_list (KERNEL_START + t) 0x100000 fl_meta_zero = Inr fl" and "take_pages 9 fl = Inr (ps, fl')"
    and "io_pt (ks_dev (mc_io s)) = \<lparr>ps_mem = m', ps_desc = descs, ps_global = None, ps_ctr = 0, ps_heap = ps\<rparr>"
    and "mc_fl s = fl_meta_zero" and "mc_regs s = cr_sys r'" and "me_phymem_end e = KERNEL_START + t"
    and "drop_bit 4 reg AND 0xFFF = 0xD03" and "gets_ready (io_dev (ks_dev (mc_io s))) serial_status lsr_idle" and "ks_lock (mc_io s) = 0"
    and "me_wqs e = [w0, w1, w2, w3]" and "0 \<notin> {w0, w1, w2, w3}" and "distinct [w0, w1, w2, w3]"
    and "me_mem3 e = (n, c)" and "distinct [0, n, kn_idle (mc_kern s)]" and "c \<noteq> 0" and "kn_pid_cntr (mc_kern s) = 1"
  shows "(\<forall>p\<in>set ps. va_translate (cr_sys r') m' p = Some (va_to_pa p)) \<and>
    (\<exists>console tmr irq s'. main e False reg ctrl s = Inr (Some console, tmr, irq, s') \<and>
      (\<forall>a. va_translate (mc_regs s') (ps_mem (io_pt (ks_dev (mc_io s')))) a =
        (if drop_bit 39 a \<in> {0, 0x1FFFFFF} \<and>
            (unat (va_to_pa a) < 0x1F1000 \<or> (\<exists>d\<in>set device_pages. a AND VA_PAGE = d AND VA_PAGE))
         then Some (va_to_pa a) else None)) \<and>
      (\<forall>core\<in>{1, 2, 3}. mc_slots s' (SMP_SPINTABLE_BASE + 8 * word_of_nat core) = va_to_pa (me_jump_to_EL1 e)) \<and>
      wq_holds w0 (mc_kern s') [n])"
proof -
  obtain q p console tmr irq k where boot: "\<forall>p\<in>set ps. va_translate (cr_sys r') m' p = Some (va_to_pa p)"
    "init_mmu 0 (cr_sys r', io_pt (ks_dev (mc_io s))) = Inr (q, p)" "ps_global p = Some (hd ps)"
    "main_devices reg ctrl (mc_io s\<lparr>ks_dev := ks_dev (mc_io s)\<lparr>io_pt := p\<rparr>\<rparr>) = Inr (Some console, tmr, irq, k)"
    "\<forall>a. va_translate q (ps_mem (io_pt (ks_dev k))) a =
      (if drop_bit 39 a \<in> {0, 0x1FFFFFF} \<and>
          (unat (va_to_pa a) < 0x1F1000 \<or> (\<exists>d\<in>set device_pages. a AND VA_PAGE = d AND VA_PAGE))
       then Some (va_to_pa a) else None)"
    using reset_boot [OF assms(1-6,10-12), of ctrl] by (elim conjE exE) (rule that)
  obtain smp slots where smp: "init_smp (me_jump_to_EL1 e) (mc_smp s, mc_slots s) = Inr (smp, slots)"
    "\<forall>core\<in>{1, 2, 3}. slots (SMP_SPINTABLE_BASE + 8 * word_of_nat core) = va_to_pa (me_jump_to_EL1 e)"
    using init_smp_run [of "me_jump_to_EL1 e" "mc_smp s" "mc_slots s"] by blast
  obtain n1 where n1: "wq_init (me_wqs e) (mc_kern s) = Inr n1" "kn_global_wqs n1 0 = Some w0" "wq_holds w0 n1 []"
    "kn_pid_cntr n1 = 1" "kn_idle n1 = kn_idle (mc_kern s)"
    using wq_init_run [OF assms(14,15), of "mc_kern s"] assms(13,19) by auto
  have id: "n \<noteq> 0" "n \<noteq> kn_idle n1" using assms(17) n1(5) by auto
  have cpu: "(0 :: nat) < NR_CORES" by simp
  obtain n2 n3 where "kthread_create 0 (me_start_userspace e) 0 n c n1 = Inr (Some n, n2)" "kthread_queue 0 (Some n) n2 = Inr n3"
    "wq_holds w0 n3 [n]"
    by (rule kthread_queue_first [OF cpu n1(2,4,3) id(1) assms(18) id(2)])
  then have th: "kthread_queue_userspace 0 (me_start_userspace e) (me_mem3 e) n1 = Inr n3" "wq_holds w0 n3 [n]"
    by (simp_all add: kthread_queue_userspace_def assms(16))
  define s' where "s' = s\<lparr>mc_fl := fl, mc_regs := q, mc_smp := smp, mc_slots := slots, mc_io := k, mc_kern := n3\<rparr>"
  have "main e False reg ctrl s = Inr (Some console, tmr, irq, s')"
    unfolding s'_def by (rule main_steps [OF _ _ _ boot(4) smp(1) n1(1) th(1)]) (use assms(4,7-9) boot(2,3) in simp_all)
  moreover have "mc_regs s' = q" "mc_io s' = k" "mc_slots s' = slots" "mc_kern s' = n3" by (simp_all add: s'_def)
  ultimately show ?thesis using boot(1,5) smp(2) th(2)
    by (intro conjI exI [of _ console] exI [of _ tmr] exI [of _ irq] exI [of _ s']) (simp_all only: simp_thms)
qed

definition demo_env :: main_env where
  "demo_env = \<lparr>me_phymem_end = 0xFFFFFF80001A0000, me_jump_to_EL1 = 0xFFFFFF8000080400, me_start_userspace = 0xFFFFFF8000081000,
     me_print_msg = 0, me_msg1 = 0, me_msg2 = 0, me_wqs = [0x10, 0x20, 0x30, 0x40], me_mem1 = (0, 0), me_mem2 = (0, 0),
     me_mem3 = (0xFFFFFF8000150000, 0xFFFFFF8000151000)\<rparr>"

definition demo_machine :: "sys_regs \<Rightarrow> (u64 \<Rightarrow> u64) \<Rightarrow> machine" where
  "demo_machine q m = \<lparr>mc_fl = fl_meta_zero, mc_regs = q,
     mc_io = demo_kstdio (quiet_io\<lparr>io_pt := \<lparr>ps_mem = m, ps_desc = (\<lambda>_. zero_desc), ps_global = None, ps_ctr = 0,
       ps_heap = first_frames 0xFFFFFF80001A0000\<rparr>\<rparr>),
     mc_smp = demo_jobs, mc_slots = (\<lambda>_. 0), mc_kern = demo_kern (\<lambda>_. None) None 1\<rparr>"

theorem main_boots_witness:
  "\<exists>r' m' console tmr irq s'.
    start 0x9E000 0x1A0000 0x80100 0xFFFFFF8000090000 0xFFFFFF8000080800 (demo_core 2, \<lambda>_. 0) = Inr (r', m') \<and>
    va_translate (cr_sys r') m' 0xFFFFFF800015F000 = Some 0x15F000 \<and>
    main demo_env False 0x410FD034 \<lparr>gc_base = 0, gc_generic = False\<rparr> (demo_machine (cr_sys r') m') = Inr (Some console, tmr, irq, s') \<and>
    va_translate (mc_regs s') (ps_mem (io_pt (ks_dev (mc_io s')))) 0xFFFFFF803F215040 = Some 0x3F215040 \<and>
    mc_slots s' 0xF0 = 0x80400 \<and> wq_holds 0x10 (mc_kern s') [0xFFFFFF8000150000]"
proof -
  have k: "KERNEL_START + 0x1A0000 = 0xFFFFFF80001A0000" "KERNEL_START + 0x90000 = 0xFFFFFF8000090000" by simp_all
  let ?ps = "first_frames 0xFFFFFF80001A0000"
  have lay: "clean_layout 0x1A0000 0x90000 (\<lambda>_. 0)" by (simp add: clean_layout_def table_space_def page_addr_def)
  have el: "cr_el (demo_core 2) \<in> {1, 2, 3}" by (simp add: demo_core_def)
  obtain r' m' where st: "start 0x9E000 0x1A0000 0x80100 (KERNEL_START + 0x90000) 0xFFFFFF8000080800 (demo_core 2, \<lambda>_. 0) = Inr (r', m')"
    using start_eq [of "0x1A0000" "0x9E000" "0x80100" "0x90000"] by (auto simp: page_addr_def)
  obtain m1 where tp: "take_pages 9 (pool_state (KERNEL_START + 0x1A0000) 8) = Inr (?ps, m1)"
    using take_first_frames [of "KERNEL_START + 0x1A0000"] unfolding k by blast
  let ?s = "demo_machine (cr_sys r') m'"
  have io: "io_pt (ks_dev (mc_io ?s)) = \<lparr>ps_mem = m', ps_desc = (\<lambda>_. zero_desc), ps_global = None, ps_ctr = 0, ps_heap = ?ps\<rparr>"
    "mc_fl ?s = fl_meta_zero" "mc_regs ?s = cr_sys r'" "me_phymem_end demo_env = KERNEL_START + 0x1A0000"
    by (simp_all add: demo_machine_def demo_kstdio_def demo_env_def)
  have rd: "drop_bit 4 0x410FD034 AND 0xFFF = (0xD03 :: u32)" "gets_ready (io_dev (ks_dev (mc_io ?s))) serial_status lsr_idle"
    "ks_lock (mc_io ?s) = 0"
    using quiet_io_ready by (simp_all add: demo_machine_def demo_kstdio_def)
  have th: "me_wqs demo_env = [0x10, 0x20, 0x30, 0x40]" "0 \<notin> {0x10, 0x20, 0x30, 0x40 :: u64}" "distinct [0x10, 0x20, 0x30, 0x40 :: u64]"
    "me_mem3 demo_env = (0xFFFFFF8000150000, 0xFFFFFF8000151000)" "distinct [0, 0xFFFFFF8000150000, kn_idle (mc_kern ?s)]"
    "(0xFFFFFF8000151000 :: u64) \<noteq> 0" "kn_pid_cntr (mc_kern ?s) = 1"
    by (simp_all add: demo_env_def demo_machine_def demo_kern_def)
  have v: "va_to_pa 0xFFFFFF803F215040 = 0x3F215040" "va_to_pa 0xFFFFFF800015F000 = 0x15F000" "0xFFFFFF800015F000 \<in> set ?ps"
    "va_to_pa (me_jump_to_EL1 demo_env) = 0x80400" "\<exists>d\<in>set device_pages. 0xFFFFFF803F215040 AND VA_PAGE = d AND VA_PAGE"
    by (simp_all add: va_to_pa_def first_frames_def first_offsets_def device_pages_def demo_env_def)
  note boot = main_boots [OF lay el st main_pool tp io rd th, of "\<lparr>gc_base = 0, gc_generic = False\<rparr>"]
  obtain console tmr irq s' where run: "main demo_env False 0x410FD034 \<lparr>gc_base = 0, gc_generic = False\<rparr> ?s = Inr (Some console, tmr, irq, s')"
    "\<forall>a. va_translate (mc_regs s') (ps_mem (io_pt (ks_dev (mc_io s')))) a =
      (if drop_bit 39 a \<in> {0, 0x1FFFFFF} \<and>
          (unat (va_to_pa a) < 0x1F1000 \<or> (\<exists>d\<in>set device_pages. a AND VA_PAGE = d AND VA_PAGE))
       then Some (va_to_pa a) else None)"
    "\<forall>core\<in>{1, 2, 3}. mc_slots s' (SMP_SPINTABLE_BASE + 8 * word_of_nat core) = va_to_pa (me_jump_to_EL1 demo_env)"
    "wq_holds 0x10 (mc_kern s') [0xFFFFFF8000150000]"
    using conjunct2 [OF boot] by (elim conjE exE) (rule that)
  have "va_translate (mc_regs s') (ps_mem (io_pt (ks_dev (mc_io s')))) 0xFFFFFF803F215040 = Some 0x3F215040"
    using v(1,5) unfolding run(2) [rule_format] by simp
  moreover have "mc_slots s' 0xF0 = 0x80400" using run(3) v(4) by simp
  moreover have "va_translate (cr_sys r') m' 0xFFFFFF800015F000 = Some 0x15F000"
    using conjunct1 [OF boot] v(2,3) by simp
  ultimately show ?thesis using st run(1,4) unfolding k by blast
qed

end
