(* ===== verification/Barrier.thy ===== *)
theory Barrier
  imports Kernel_Prelude "HOL-Library.Multiset"
begin

text \<open>
  The accesses and barriers of asm/barrier.h, with the load of compiler.h. A macro is the
  list of instructions that it emits, with its effect on the memory of bytes. A value is
  the list of its bytes, so that the size of the type is the length of the list. The
  barriers for the compiler emit nothing. The orders in which another core can see the
  instructions of a core are the exchanges of neighbours that the architecture allows.
\<close>

section \<open>Instructions\<close>

datatype dmb_opt = Ish | Ishst | Ishld | Osh | Oshst | Oshld

datatype insn = Dmb dmb_opt | Isb | Ldr nat u64 | Ldar nat u64 | Str u64 "u8 list" | Stlr u64 "u8 list"

type_synonym bytes = "u64 \<Rightarrow> u8"

definition load :: "nat \<Rightarrow> u64 \<Rightarrow> bytes \<Rightarrow> u8 list" where
  "load n a m = map (\<lambda>i. m (a + word_of_nat i)) [0..<n]"


section \<open>Barriers\<close>

definition dmb :: "dmb_opt \<Rightarrow> insn list" where "dmb opt = [Dmb opt]"
definition wmb :: "insn list" where "wmb = dmb Ishst"
definition rmb :: "insn list" where "rmb = dmb Ishld"
definition dma_mb :: "insn list" where "dma_mb = dmb Osh"
definition dma_wmb :: "insn list" where "dma_wmb = dmb Oshst"
definition dma_rmb :: "insn list" where "dma_rmb = dmb Oshld"
definition isb :: "insn list" where "isb = [Isb]"

text \<open>A fence for signal handlers emits nothing, whatever its order.\<close>

datatype csan_order = Csan_mb | Csan_wmb | Csan_rmb | Csan_release


section \<open>Accesses\<close>

text \<open>
  The load of compiler.h is \<^verbatim>\<open>ldar\<close>, because LDPAR\_AVAILABLE is not defined. The casts
  of READ\_ONCE compile for scalar types only; the one of 16 bytes takes the default case.
\<close>

datatype scalar = C_char | C_short | C_int | C_long | C_int128

primrec sizeof :: "scalar \<Rightarrow> nat" where
  "sizeof C_char = 1" | "sizeof C_short = 2" | "sizeof C_int = 4" | "sizeof C_long = 8" | "sizeof C_int128 = 16"

definition READ_ONCE :: "scalar \<Rightarrow> u64 \<Rightarrow> bytes \<Rightarrow> insn list \<times> u8 list" where
  "READ_ONCE t x m =
     (let size_x = sizeof t;
          (code, u, atomic) =
        (if size_x = 1 then ([Ldar 1 x], load 1 x m, True)
         else if size_x = 2 then ([Ldar 2 x], load 2 x m, True)
         else if size_x = 4 then ([Ldar 4 x], load 4 x m, True)
         else if size_x = 8 then ([Ldar 8 x], load 8 x m, True)
         else ([], [], False))
      in if atomic then (code, u) else (code @ [Ldr size_x x], load size_x x m))"





section \<open>What other cores see\<close>
























end
