(* ===== verification/Spec2Isabelle.thy ===== *)
theory Spec2Isabelle
  imports Page_Alloc_Faults Slub_Props User_Mode Slub_Print Thread_Print Kernel_Main Barrier
begin

text \<open>
  HobOS, a kernel for the Raspberry Pi 3 (AArch64): a model of its C code and what holds of
  it. The kernel hands out pages with a buddy allocator and small objects with a slab
  allocator on top of it, keeps translation tables for itself, its devices and one user
  address space, runs kernel threads in a work queue per core that a timer interrupt
  rotates, wakes remote cores through a spin table, and prints over a serial line. User
  code enters through system calls.

  Parts, their theories and their sources. Each operation is a definition with the name of
  its C function; a loop of a function has the suffix \<open>_loop\<close> or a name of its own.

    \<^item> Kernel\_Prelude: machine words of types.h, results that can fault (a null pointer is
      dereferenced, an array is left, a loop never ends), linked lists in a store and the
      loops over them, the locale invariant\_system.
    \<^item> Page\_Alloc (page\_alloc.c): struct free\_list\_header is fl\_meta; its metadata area is
      a function from record numbers to page blocks. Page\_Blocks has the arithmetic of
      buddies, Page\_Alloc\_Inv and Page\_Alloc\_Steps the invariant and its preservation,
      Page\_Records the records that the operations use up, Page\_Alloc\_Fresh the way from one
      whole block down and back, Page\_Alloc\_Calls the step relation of calls and an
      interpretation of invariant\_system, Page\_Alloc\_Props the properties,
      Page\_Alloc\_Faults what goes wrong on whole classes of pools.
    \<^item> Slub (slub.c, kmalloc and kfree of mm.c): caches and objects are records at
      addresses; pages come from Page\_Alloc. Slub\_Inv has the invariant of one core,
      Slub\_Props the properties.
    \<^item> Workqueue (workqueue.c) with the locale round\_robin and its interpretation on
      wq\_pop and wq\_push; Tasks (task.c, sched.c, irq.c) with the registers that the
      inline assembly touches; Tasks\_Props the properties. Kernel\_Threads has the threads
      that main starts (kernel.c, test.c), the entry and exit of the timer interrupt
      (handle\_irq of proc.S) and the first function of a thread; Thread\_Print the end of a
      thread and the thread of the self-test with what they print.
    \<^item> Mutex (asm/mutex.h): the lock, instruction by instruction, for four cores; Smp
      (smp.c): the job queue of a worker and the hand over through the spin table. Both
      interpret invariant\_system.
    \<^item> Page\_Table (pt.c, ioremap of mm.c, id\_map\_to\_usr and usr\_init of usr\_entry.c),
      Page\_Table\_Tree the invariant of the tables and the walk of the hardware,
      Page\_Table\_Props what a mapping does to the walk, User\_Map the user address space.
    \<^item> Mmio (io.c, mmio.c, gpio.c), Uart (uart.c), Devices (timer.c, irq\_bcm.c,
      irq\_controller.c, the set-up functions of kernel.c), Mmu (mmu.c). Device accesses are
      a log; Uart\_Props states the interface of a serial line as the locale serial\_line,
      which both drivers implement. Devices\_Props and Mmu\_Props follow the boot of the
      first core from the tables of the assembly to the armed timer; Boot takes the memory
      of the tables from the pool of the page allocator.
    \<^item> Start\_Code (boot.S, proc.S, asm/assembler.h, asm/mmu.h, asm/pt.h): the start of the
      first core and of the remote cores in assembly, a function on registers and memory
      for each block of instructions; Start\_Props what the tables translate then, and where
      the stacks are. Pool\_Frames has the first pages of the pool that main makes, Reset\_Boot
      the way from the first instruction to the armed timer with the layout of linker.ld,
      Kernel\_Main main over the states of all components, with init\_smp.
    \<^item> Barrier (asm/barrier.h, compiler.h): the instructions that the macros for accesses and
      barriers emit, and the orders in which other cores can see them; mark\_completed of
      task.c in these instructions.
    \<^item> Printf (printf.c, kstdio.c) with Printf\_Props: kprintf is vprintf between the interrupt
      mask and the lock. Alloc\_Print and Slub\_Print are the functions that print the state
      of the allocators, with init\_free\_list and the smoke test as they print.
    \<^item> Syscall (syscall.c, syscall\_def.c, usr\_ops.c, strcpy, memcpy and memset of mm.c) with
      Syscall\_Props; User\_Start (jump\_to\_usr of entry.S, handle\_el0\_svc of boot.S, the user
      code of usr\_entry.c) and User\_Mode, which composes the boot with the jump and states
      what user mode can reach.

  How the parts meet. The slab allocator calls the page allocator; the functions of pt.c
  take the results of kmalloc as a list of pages in the state (empty, or with a 0 first,
  when kmalloc fails). The invariant of the tables that init\_mmu establishes is the one
  that ioremap and usr\_init need. The property main\_boots of Kernel\_Main runs the boot code,
  init\_free\_list, page\_alloc for the tables, init\_mmu, init\_smp, the set-up of the devices and
  the start of the first thread one after the other; kernel\_boot of Boot is the same middle
  part for any aligned pool. remote\_core\_joins takes a remote core from the address that
  init\_smp stores to the translation of the first core. From the tables of the boot code
  boot\_user\_stack\_unmapped goes on to the first instruction of user mode, and
  user\_message\_leaks\_stack follows the user program through its system call, vprintf and
  the driver to the bus. first\_thread\_starts leads from main over the timer interrupt to the
  first instruction of a thread.

  What the lemma groups show. Of the allocator: the blocks that callers hold are disjoint,
  aligned and in the pool under every sequence of calls, allocation and release on a whole
  pool are inverse, and calls return while the reserved area has room for their records. Of the slab allocator: what kmalloc returns is
  disjoint from all other objects, and kfree gives an object back to its cache. Of the
  scheduler: the queue is a round robin, completed tasks leave it, and the timer interrupt
  switches to the next task. Of the lock: mutual exclusion as a refinement of an abstract
  lock, and no lost wake-up. Of the tables: a mapping changes the walk of the hardware at
  exactly one page. Of the start: which addresses each core translates, that main gets to its
  loop with the layout of the linker script, and for which layouts it does not. Of the printer: it agrees with a reference printer, and so do the
  functions that print lists, caches and messages of threads. Of user mode: its addresses
  are translated to themselves, with the rights that the attributes give. A second group of
  properties states where the code does not do what it means to, with the inputs that show
  it.

  Conventions and bounds. Integers have their C width and wrap around; where C leaves an
  overflow of int undefined (int\_chars, the counter of create\_id\_mapping) the model wraps.
  The char of the ABI is unsigned. Reads through a null pointer, indices out of range and
  missing arguments of vprintf are faults. Loops are structural or have a measure; a loop
  that need not end is a partial function into an option type and its absence of a value
  is the fault Diverges, so that no fuel is needed. The invariants of lists bound the walks.
  The descriptors of translation tables are kept apart from the words of the tables; a
  kernel address and the physical address below it are the same memory. The records of the
  page allocator are kept apart from all other memory too, without an end; in the code they
  run over the ten pages reserved for them after META\_RECORDS records, as they are never used
  again. The properties that promise that calls of the allocator return have this bound as
  a hypothesis; those that start from the fresh pool of main with a fixed number of calls
  (the smoke test, the tables, the first caches) make fewer records than it. The write of
  init\_mmu through a null pointer goes to address 0, as the boot tables map it.

  What a C function leaves in registers that its caller has to save is an argument
  (handle\_irq); for which contents of the spin table the firmware starts a core is one, too
  (park\_and\_wait).

  Not modelled: the firmware; the effect of barriers on the order of accesses outside of
  Barrier, where locks and hand over are interleavings of their accesses; the invalidation
  of caches; the handlers of
  exceptions that stop or wait for ever; vmalloc and delay, which do nothing; delete\_block of
  page\_alloc.c, which is never called; the message of fail in sched.c; the fields of
  tcr\_el1 in mmu.h, which are not used; applications at USR\_INIT\_APP, which entry.h has in a
  comment. The memory that the boot code and the tables use is physical: a translation is
  stated by what the walk gives, not for every access of the model.
  The interrupt mask that kprintf saves and that of the scheduler are kept in two states;
  kprintf leaves the mask as it finds it. The messages of smp.c, of kthread\_start, of
  id\_map\_to\_usr for a page that cannot be mapped and the first of kthread\_test are left out,
  and so is the debug output. Memory that kmalloc returns to the functions of task.c, smp.c
  and pt.c is an argument, so that a release and a second use of the same memory across
  components are not covered.
\<close>

end
